(* ===== verification/Prelude.thy ===== *)
theory Prelude
  imports Main "HOL-Library.Word" "HOL-Library.Product_Lexorder" "HOL-Library.Monad_Syntax"
begin

unbundle bit_operations_syntax

text \<open>
  Shared vocabulary of the development: Rust's \<open>u128\<close> as a 128-bit word, \<open>i128\<close> as an
  integer kept inside its bounds by the operations that could leave them, the checked and
  saturating operations of the standard library on both, bit counts, and the facts about
  them the component theories share. A function that can panic returns an \<open>option\<close>, with
  \<open>None\<close> for the panic. Plain \<open>+\<close>, \<open>-\<close> and \<open>*\<close> on \<open>u128\<close> are the wrapping
  operations of the release profile.
\<close>

section \<open>Machine integers of the source\<close>

type_synonym u128 = "128 word"
type_synonym u64 = "64 word"
type_synonym u32 = "32 word"
type_synonym u8 = "8 word"

named_theorems word_red \<open>operations on words read as operations on integers\<close>

subsection \<open>Checked and saturating operations on unsigned words\<close>

definition checked_add :: "'a::len word \<Rightarrow> 'a word \<Rightarrow> 'a word option" where
  "checked_add a b = (if uint a + uint b < 2 ^ LENGTH('a) then Some (a + b) else None)"

definition checked_sub :: "'a::len word \<Rightarrow> 'a word \<Rightarrow> 'a word option" where
  "checked_sub a b = (if b \<le> a then Some (a - b) else None)"

definition checked_mul :: "'a::len word \<Rightarrow> 'a word \<Rightarrow> 'a word option" where
  "checked_mul a b = (if uint a * uint b < 2 ^ LENGTH('a) then Some (a * b) else None)"

definition saturating_add :: "'a::len word \<Rightarrow> 'a word \<Rightarrow> 'a word" where
  "saturating_add a b = (if uint a + uint b < 2 ^ LENGTH('a) then a + b else - 1)"

definition saturating_sub :: "'a::len word \<Rightarrow> 'a word \<Rightarrow> 'a word" where
  "saturating_sub a b = (if b \<le> a then a - b else 0)"

definition saturating_mul :: "'a::len word \<Rightarrow> 'a word \<Rightarrow> 'a word" where
  "saturating_mul a b = (if uint a * uint b < 2 ^ LENGTH('a) then a * b else - 1)"

subsection \<open>The signed 128-bit integer\<close>

definition i128_min :: int where "i128_min = - (2 ^ 127)"
definition i128_max :: int where "i128_max = 2 ^ 127 - 1"

definition in_i128 :: "int \<Rightarrow> bool" where
  "in_i128 z \<longleftrightarrow> i128_min \<le> z \<and> z \<le> i128_max"

text \<open>What \<open>checked_add\<close> and its kin give for an exact result, and what \<open>saturating_add\<close> does.\<close>

definition checked_i128 :: "int \<Rightarrow> int option" where
  "checked_i128 z = (if in_i128 z then Some z else None)"

definition sat_i128 :: "int \<Rightarrow> int" where
  "sat_i128 z = max i128_min (min i128_max z)"

text \<open>An exact result wrapped to the type, as \<open>wrapping_add\<close> and a cast between the two types do.\<close>

definition wrap_i128 :: "int \<Rightarrow> int" where
  "wrap_i128 z = sint (word_of_int z :: u128)"

subsection \<open>Bit counts\<close>

definition leading_zeros :: "'a::len word \<Rightarrow> nat" where
  "leading_zeros x = length (takeWhile (\<lambda>i. \<not> bit x i) (rev [0..<LENGTH('a)]))"

definition trailing_zeros :: "'a::len word \<Rightarrow> nat" where
  "trailing_zeros x = length (takeWhile (\<lambda>i. \<not> bit x i) [0..<LENGTH('a)])"

definition count_ones :: "'a::len word \<Rightarrow> nat" where
  "count_ones x = length (filter (bit x) [0..<LENGTH('a)])"

section \<open>Facts about words\<close>

lemma uint_take_bit [word_red]: "uint (take_bit n x :: 'a::len word) = take_bit n (uint x)"
  by (simp add: unsigned_take_bit_eq)

lemma uint_drop_bit [word_red]: "uint (drop_bit n x :: 'a::len word) = uint x div 2 ^ n"
proof -
  have "uint (drop_bit n x) = drop_bit n (uint x)"
    by (simp add: unsigned_drop_bit_eq bintr_uint)
  then show ?thesis by (simp only: drop_bit_eq_div)
qed

lemma uint_lt_size [simp]: "uint (x :: 'a::len word) < 2 ^ LENGTH('a)"
  by (rule uint_lt2p)

lemma word_le_uint: "(a :: 'a::len word) \<le> b \<longleftrightarrow> uint a \<le> uint b"
  by (simp add: word_le_def)

lemma word_less_uint: "(a :: 'a::len word) < b \<longleftrightarrow> uint a < uint b"
  by (simp add: word_less_def)

lemma uint_max: "uint (max a b :: 'a::len word) = max (uint a) (uint b)"
  by (simp add: max_def word_le_def)

lemma uint_min: "uint (min a b :: 'a::len word) = min (uint a) (uint b)"
  by (simp add: min_def word_le_def)

lemma uint_add_small:
  "uint (a :: 'a::len word) + uint b < 2 ^ LENGTH('a) \<Longrightarrow> uint (a + b) = uint a + uint b"
  by (simp add: uint_word_ariths)

lemma uint_sub_small: "(b :: 'a::len word) \<le> a \<Longrightarrow> uint (a - b) = uint a - uint b"
  by (simp add: uint_sub_lem word_le_def)

lemma uint_mult_small:
  "uint (a :: 'a::len word) * uint b < 2 ^ LENGTH('a) \<Longrightarrow> uint (a * b) = uint a * uint b"
  by (simp add: uint_word_ariths)

lemma checked_add_SomeD:
  "checked_add a b = Some c \<Longrightarrow> uint (c :: 'a::len word) = uint a + uint b"
  by (auto simp: checked_add_def uint_add_small split: if_splits)

lemma checked_sub_SomeD:
  "checked_sub a b = Some c \<Longrightarrow> b \<le> a \<and> uint (c :: 'a::len word) = uint a - uint b"
  by (auto simp: checked_sub_def uint_sub_small split: if_splits)

lemma checked_mul_SomeD:
  "checked_mul a b = Some c \<Longrightarrow> uint (c :: 'a::len word) = uint a * uint b"
  by (auto simp: checked_mul_def uint_mult_small split: if_splits)

lemma uint_minus_one: "uint (- 1 :: 'a::len word) = 2 ^ LENGTH('a) - 1"
  by (simp add: unsigned_minus_1_eq_mask mask_eq_exp_minus_1)

lemma uint_saturating_add:
  "uint (saturating_add a b :: 'a::len word) = min (2 ^ LENGTH('a) - 1) (uint a + uint b)"
  by (auto simp: saturating_add_def uint_add_small uint_minus_one)

lemma uint_saturating_sub:
  "uint (saturating_sub a b :: 'a::len word) = max 0 (uint a - uint b)"
  by (auto simp: saturating_sub_def uint_sub_small word_le_def)

lemma uint_saturating_mul:
  "uint (saturating_mul a b :: 'a::len word) = min (2 ^ LENGTH('a) - 1) (uint a * uint b)"
  by (auto simp: saturating_mul_def uint_mult_small uint_minus_one)

lemma xor_eq_0_iff_eq: "(a :: 'a::len word) XOR b = 0 \<longleftrightarrow> a = b"
  by (auto simp: bit_eq_iff bit_xor_iff)

section \<open>Facts about bit counts\<close>

lemma length_takeWhile_upt:
  assumes "length (takeWhile P [0..<n]) = k"
  shows "k \<le> n" and "i < k \<Longrightarrow> P i" and "k < n \<Longrightarrow> \<not> P k"
proof -
  have len: "length (takeWhile P [0..<n]) \<le> n"
    using length_takeWhile_le [of P "[0..<n]"] by simp
  with assms show "k \<le> n" by simp
  show "P i" if "i < k"
  proof -
    have "takeWhile P [0..<n] ! i = [0..<n] ! i"
      using that assms by (simp add: takeWhile_nth)
    moreover have "takeWhile P [0..<n] ! i \<in> set (takeWhile P [0..<n])"
      using that assms by (metis nth_mem)
    ultimately show ?thesis
      using that len assms by (auto dest: set_takeWhileD)
  qed
  show "\<not> P k" if "k < n"
    using nth_length_takeWhile [of P "[0..<n]"] that assms by simp
qed

lemma trailing_zeros_le: "trailing_zeros (x :: 'a::len word) \<le> LENGTH('a)"
  unfolding trailing_zeros_def by (rule length_takeWhile_upt(1) [OF refl])

lemma trailing_zeros_below: "n < trailing_zeros (x :: 'a::len word) \<Longrightarrow> \<not> bit x n"
  unfolding trailing_zeros_def
  using length_takeWhile_upt(2) [OF refl, of n "\<lambda>i. \<not> bit x i"] by blast

lemma trailing_zeros_at:
  "trailing_zeros (x :: 'a::len word) < LENGTH('a) \<Longrightarrow> bit x (trailing_zeros x)"
  unfolding trailing_zeros_def
  using length_takeWhile_upt(3) [OF refl, of "\<lambda>i. \<not> bit x i" "LENGTH('a)"] by blast

lemma rev_upt_map: "rev [0..<n] = map (\<lambda>i. n - Suc i) [0..<n]"
  by (rule nth_equalityI) (simp_all add: rev_nth)

lemma leading_zeros_alt:
  "leading_zeros (x :: 'a::len word)
     = length (takeWhile (\<lambda>i. \<not> bit x (LENGTH('a) - Suc i)) [0..<LENGTH('a)])"
  by (simp add: leading_zeros_def rev_upt_map takeWhile_map comp_def)

lemma leading_zeros_le: "leading_zeros (x :: 'a::len word) \<le> LENGTH('a)"
  unfolding leading_zeros_alt by (rule length_takeWhile_upt(1) [OF refl])

lemma leading_zeros_above:
  assumes "LENGTH('a) - leading_zeros (x :: 'a::len word) \<le> n"
  shows "\<not> bit x n"
proof (cases "n < LENGTH('a)")
  case True
  then have "LENGTH('a) - Suc n < leading_zeros x"
    using assms by linarith
  then have "\<not> bit x (LENGTH('a) - Suc (LENGTH('a) - Suc n))"
    unfolding leading_zeros_alt
    using length_takeWhile_upt(2) [OF refl, of _ "\<lambda>i. \<not> bit x (LENGTH('a) - Suc i)"] by blast
  with True show ?thesis by simp
qed (auto dest: bit_imp_le_length)

lemma leading_zeros_at:
  assumes "leading_zeros (x :: 'a::len word) < LENGTH('a)"
  shows "bit x (LENGTH('a) - Suc (leading_zeros x))"
  using assms unfolding leading_zeros_alt
  using length_takeWhile_upt(3) [OF refl, of "\<lambda>i. \<not> bit x (LENGTH('a) - Suc i)" "LENGTH('a)"]
  by blast

lemma uint_less_leading_zeros:
  "uint (x :: 'a::len word) < 2 ^ (LENGTH('a) - leading_zeros x)"
proof -
  have "take_bit (LENGTH('a) - leading_zeros x) x = x"
    by (rule bit_word_eqI) (metis bit_take_bit_iff leading_zeros_above not_le)
  then have "take_bit (LENGTH('a) - leading_zeros x) (uint x) = uint x"
    by (metis uint_take_bit)
  then show ?thesis by (simp add: take_bit_int_eq_self_iff)
qed

lemma uint_ge_leading_zeros:
  assumes "x \<noteq> (0 :: 'a::len word)"
  shows "leading_zeros x < LENGTH('a)" "2 ^ (LENGTH('a) - Suc (leading_zeros x)) \<le> uint x"
proof -
  show lz: "leading_zeros x < LENGTH('a)"
  proof (rule ccontr)
    assume "\<not> leading_zeros x < LENGTH('a)"
    then have "uint x < 1" using uint_less_leading_zeros [of x] by simp
    then have "uint x = 0" using uint_ge_0 [of x] by linarith
    with assms show False by (simp add: uint_0_iff)
  qed
  define k where "k = LENGTH('a) - Suc (leading_zeros x)"
  have "bit (uint x) k"
    using leading_zeros_at [OF lz] lz by (simp add: bit_uint_iff k_def)
  then have "\<not> uint x div 2 ^ k = 0" by (auto simp: bit_iff_odd)
  then show "2 ^ (LENGTH('a) - Suc (leading_zeros x)) \<le> uint x"
    by (metis div_pos_pos_trivial k_def not_le uint_ge_0)
qed

lemma trailing_zeros_dvd:
  "z \<le> trailing_zeros (x :: 'a::len word) \<Longrightarrow> 2 ^ z dvd uint x"
proof -
  assume "z \<le> trailing_zeros x"
  then have "take_bit z x = 0"
    by (intro bit_word_eqI) (metis bit_take_bit_iff bit_0_eq bot_apply bot_bool_def
        order_less_le_trans trailing_zeros_below)
  then have "take_bit z (uint x) = 0"
    by (metis uint_take_bit unsigned_0)
  then show ?thesis by (simp add: take_bit_eq_0_iff)
qed

section \<open>Lists\<close>

lemma in_map_filterI: "x \<in> set xs \<Longrightarrow> f x = Some y \<Longrightarrow> y \<in> set (List.map_filter f xs)"
  by (force simp: map_filter_def image_iff)

lemma in_map_filterE:
  assumes "y \<in> set (List.map_filter f xs)"
  obtains x where "x \<in> set xs" "f x = Some y"
  using assms by (auto simp: map_filter_def)

end
