(* ===== verification/KnownBits.thy ===== *)
theory KnownBits
  imports Prelude
begin

text \<open>
  The bits of a value that are known: \<open>Bits\<close> of \<open>crates/rucc-opt/src/range.rs\<close>, with
  the width helpers \<open>mask\<close>, \<open>sign_bit\<close>, \<open>signed\<close>, \<open>signed_limits\<close> and
  \<open>clamp\<close> of the same file. A set bit of \<open>kb_unknown\<close> may be either; a clear one is
  what \<open>kb_value\<close> has there. The invariant is that an unknown bit is zero in the value.
\<close>

section \<open>Widths\<close>

definition MAX_BITS :: nat where "MAX_BITS = 128"

definition maskw :: "nat \<Rightarrow> u128" where
  "maskw width = (if width \<ge> MAX_BITS then - 1 else push_bit width 1 - 1)"

definition sign_bit :: "nat \<Rightarrow> u128" where
  "sign_bit width = push_bit (width - 1) 1"

definition signed_at :: "u128 \<Rightarrow> nat \<Rightarrow> int" where
  "signed_at value width =
     (let shift = MAX_BITS - width in sint (signed_drop_bit shift (push_bit shift value)))"

definition signed_limits :: "nat \<Rightarrow> int \<times> int" where
  "signed_limits width =
     (if width \<ge> MAX_BITS then (i128_min, i128_max)
      else let high = 2 ^ (width - 1) - 1 in (NOT high, high))"

definition clampw :: "nat \<Rightarrow> nat" where
  "clampw width = (if width = 0 then 1 else if width > MAX_BITS then MAX_BITS else width)"

section \<open>Known bits\<close>

record known_bits =
  kb_value :: u128
  kb_unknown :: u128

definition bits_unknown :: "nat \<Rightarrow> known_bits" where
  "bits_unknown width = \<lparr>kb_value = 0, kb_unknown = maskw width\<rparr>"

definition bits_exactly :: "u128 \<Rightarrow> nat \<Rightarrow> known_bits" where
  "bits_exactly value width = \<lparr>kb_value = value AND maskw width, kb_unknown = 0\<rparr>"

definition known :: "known_bits \<Rightarrow> nat \<Rightarrow> u128" where
  "known b width = NOT (kb_unknown b) AND maskw width"

definition bits_min :: "known_bits \<Rightarrow> u128" where
  "bits_min b = kb_value b"

definition bits_max :: "known_bits \<Rightarrow> u128" where
  "bits_max b = kb_value b OR kb_unknown b"

definition allows :: "known_bits \<Rightarrow> u128 \<Rightarrow> bool" where
  "allows b value \<longleftrightarrow> value AND NOT (kb_unknown b) = kb_value b"

definition from_parts :: "u128 \<Rightarrow> u128 \<Rightarrow> nat \<Rightarrow> known_bits" where
  "from_parts value unknown width =
     (let unknown = unknown AND maskw width
      in \<lparr>kb_value = value AND maskw width AND NOT unknown, kb_unknown = unknown\<rparr>)"

definition low_zeros :: "known_bits \<Rightarrow> nat" where
  "low_zeros b = trailing_zeros (kb_value b OR kb_unknown b)"

definition meet :: "known_bits \<Rightarrow> known_bits \<Rightarrow> known_bits option" where
  "meet a b =
     (let both = known a MAX_BITS AND known b MAX_BITS
      in if kb_value a AND both \<noteq> kb_value b AND both then None
         else let unknown = kb_unknown a AND kb_unknown b
              in Some \<lparr>kb_value = (kb_value a OR kb_value b) AND NOT unknown,
                       kb_unknown = unknown\<rparr>)"

definition join :: "known_bits \<Rightarrow> known_bits \<Rightarrow> known_bits" where
  "join a b =
     (let differ = kb_value a XOR kb_value b;
          unknown = kb_unknown a OR kb_unknown b OR differ
      in \<lparr>kb_value = kb_value a AND NOT unknown, kb_unknown = unknown\<rparr>)"

definition of_interval :: "u128 \<Rightarrow> u128 \<Rightarrow> nat \<Rightarrow> known_bits" where
  "of_interval lo hi width =
     (let differ = lo XOR hi;
          below = (if differ = 0 then 0 else drop_bit (leading_zeros differ) (- 1));
          unknown = below AND maskw width
      in \<lparr>kb_value = lo AND NOT unknown, kb_unknown = unknown\<rparr>)"

section \<open>The width helpers\<close>

lemma maskw_mask: "maskw w = mask w"
proof (cases "w \<ge> 128")
  case True
  then have "mask w = (- 1 :: u128)"
    by (intro bit_word_eqI) (simp add: bit_mask_iff)
  with True show ?thesis by (simp add: maskw_def MAX_BITS_def)
next
  case False
  then show ?thesis
    by (simp add: maskw_def MAX_BITS_def mask_eq_exp_minus_1 push_bit_eq_mult)
qed

lemma bit_maskw [simp]: "bit (maskw w) n \<longleftrightarrow> n < 128 \<and> n < w"
  by (auto simp: maskw_mask bit_mask_iff)

lemma and_maskw: "x AND maskw w = take_bit w x"
  by (simp add: maskw_mask take_bit_eq_mask)

lemma uint_maskw: "w \<le> 128 \<Longrightarrow> uint (maskw w) = 2 ^ w - 1"
proof -
  assume "w \<le> 128"
  then have "uint (maskw w) = mask w" by (simp add: maskw_mask uint_mask_eq min_def)
  then show ?thesis by (simp only: mask_eq_exp_minus_1)
qed

lemma uint_and_maskw [word_red]: "uint (x AND maskw w) = uint x mod 2 ^ w"
  by (simp only: and_maskw uint_take_bit) (simp only: take_bit_eq_mod)

lemma le_maskw_iff: "w \<le> 128 \<Longrightarrow> x \<le> maskw w \<longleftrightarrow> uint x < 2 ^ w"
  by (auto simp: word_le_def uint_maskw)

lemma le_maskw_mask_iff: "w \<le> 128 \<Longrightarrow> x \<le> maskw w \<longleftrightarrow> x AND maskw w = x"
  by (subst le_maskw_iff) (auto simp: maskw_mask mask_eq_iff)

lemma and_maskw_le [simp]: "w \<le> 128 \<Longrightarrow> x AND maskw w \<le> maskw w"
  by (simp add: le_maskw_iff word_red)

lemma le_maskw_bitD: "x \<le> maskw w \<Longrightarrow> w \<le> 128 \<Longrightarrow> bit x n \<Longrightarrow> n < w"
  by (metis bit_and_iff bit_maskw le_maskw_mask_iff)

lemma le_maskwI: "w \<le> 128 \<Longrightarrow> (\<And>n. bit x n \<Longrightarrow> n < w) \<Longrightarrow> x \<le> maskw w"
  by (auto simp: le_maskw_mask_iff bit_simps intro!: bit_word_eqI dest: bit_imp_le_length)

lemma uint_2p_128: "k < 128 \<Longrightarrow> uint (2 ^ k :: u128) = 2 ^ k"
  by (rule uint_2p) (simp add: word_neq_0_conv [symmetric])

lemma uint_sign_bit: "0 < w \<Longrightarrow> w \<le> 128 \<Longrightarrow> uint (sign_bit w) = 2 ^ (w - 1)"
  by (simp add: sign_bit_def push_bit_of_1 unsigned_push_bit_eq uint_2p_128)

lemma clampw_bounds [simp]: "0 < clampw w" "clampw w \<le> 128"
  by (simp_all add: clampw_def MAX_BITS_def)

lemma clampw_id [simp]: "0 < w \<Longrightarrow> w \<le> 128 \<Longrightarrow> clampw w = w"
  by (simp add: clampw_def MAX_BITS_def)

section \<open>The invariant and what a value satisfies\<close>

definition bits_ok :: "nat \<Rightarrow> known_bits \<Rightarrow> bool" where
  "bits_ok w b \<longleftrightarrow> kb_value b AND kb_unknown b = 0 \<and> kb_value b OR kb_unknown b \<le> maskw w"

lemma bits_ok_iff:
  "w \<le> 128 \<Longrightarrow> bits_ok w b \<longleftrightarrow>
     (\<forall>n<128. (bit (kb_value b) n \<longrightarrow> \<not> bit (kb_unknown b) n) \<and>
          (bit (kb_value b) n \<or> bit (kb_unknown b) n \<longrightarrow> n < w))"
  by (auto simp: bits_ok_def le_maskw_mask_iff bit_eq_iff bit_simps)

lemmas bits_okD = bits_ok_iff [THEN iffD1, rule_format]

lemma allows_iff:
  "allows b v \<longleftrightarrow> (\<forall>n<128. (bit v n \<and> \<not> bit (kb_unknown b) n) = bit (kb_value b) n)"
  by (auto simp: allows_def bit_eq_iff bit_simps)

lemma meet_eq:
  "meet a b =
     (if \<forall>n<128. \<not> bit (kb_unknown a) n \<and> \<not> bit (kb_unknown b) n \<longrightarrow>
          bit (kb_value a) n = bit (kb_value b) n
      then Some \<lparr>kb_value = (kb_value a OR kb_value b) AND NOT (kb_unknown a AND kb_unknown b),
                 kb_unknown = kb_unknown a AND kb_unknown b\<rparr>
      else None)"
  by (auto simp: meet_def Let_def known_def MAX_BITS_def bit_eq_iff bit_simps)

lemma meet_sound:
  assumes "bits_ok w a" "bits_ok w b" "allows a v" "allows b v" "w \<le> 128"
  shows "\<exists>c. meet a b = Some c \<and> allows c v"
proof -
  have a: "(bit v n \<and> \<not> bit (kb_unknown a) n) = bit (kb_value a) n" if "n < 128" for n
    using assms(3) that by (simp add: allows_iff)
  have b: "(bit v n \<and> \<not> bit (kb_unknown b) n) = bit (kb_value b) n" if "n < 128" for n
    using assms(4) that by (simp add: allows_iff)
  have "\<forall>n<128. \<not> bit (kb_unknown a) n \<and> \<not> bit (kb_unknown b) n \<longrightarrow>
      bit (kb_value a) n = bit (kb_value b) n"
    using a b by blast
  moreover have "(bit v n \<and> (\<not> bit (kb_unknown a) n \<or> \<not> bit (kb_unknown b) n))
      = ((bit (kb_value a) n \<or> bit (kb_value b) n) \<and>
          (\<not> bit (kb_unknown a) n \<or> \<not> bit (kb_unknown b) n))"
    if "n < 128" for n
    using a [OF that] b [OF that] by blast
  ultimately show ?thesis by (simp add: meet_eq allows_iff bit_simps)
qed

lemma meet_SomeD:
  "meet a b = Some c \<Longrightarrow>
   c = \<lparr>kb_value = (kb_value a OR kb_value b) AND NOT (kb_unknown a AND kb_unknown b),
        kb_unknown = kb_unknown a AND kb_unknown b\<rparr>"
  unfolding meet_eq by (cases c) (simp split: if_splits)

lemma meet_ok:
  assumes "bits_ok w a" "bits_ok w b" "meet a b = Some c" "w \<le> 128"
  shows "bits_ok w c"
  using assms(1,2) unfolding bits_ok_iff [OF assms(4)] meet_SomeD [OF assms(3)]
  by (simp add: bit_simps) blast

lemma join_sound:
  assumes "bits_ok w a" "bits_ok w b" "w \<le> 128" "allows a v \<or> allows b v"
  shows "allows (join a b) v"
  using assms by (auto simp: allows_iff join_def Let_def bits_ok_iff bit_simps)

lemma join_ok: "bits_ok w a \<Longrightarrow> bits_ok w b \<Longrightarrow> w \<le> 128 \<Longrightarrow> bits_ok w (join a b)"
  by (auto simp: join_def Let_def bits_ok_iff bit_simps)

lemma bits_unknown_ok [simp]: "w \<le> 128 \<Longrightarrow> bits_ok w (bits_unknown w)"
  by (auto simp: bits_ok_iff bits_unknown_def bit_simps)

lemma bits_exactly_ok [simp]: "w \<le> 128 \<Longrightarrow> bits_ok w (bits_exactly v w)"
  by (auto simp: bits_ok_iff bits_exactly_def bit_simps)

lemma from_parts_ok [simp]: "w \<le> 128 \<Longrightarrow> bits_ok w (from_parts v u w)"
  by (auto simp: bits_ok_iff from_parts_def Let_def bit_simps)

lemma allows_unknown: "w \<le> 128 \<Longrightarrow> v \<le> maskw w \<Longrightarrow> allows (bits_unknown w) v"
  by (auto simp: allows_iff bits_unknown_def bit_simps dest: le_maskw_bitD)

lemma allows_exactly: "allows (bits_exactly v w) (v AND maskw w)"
  by (auto simp: allows_iff bits_exactly_def bit_simps)

lemma allows_from_parts:
  assumes "w \<le> 128" "v \<le> maskw w"
    and "\<And>n. n < w \<Longrightarrow> \<not> bit u n \<Longrightarrow> bit v n = bit k n"
  shows "allows (from_parts k u w) v"
  using assms by (auto simp: allows_iff from_parts_def Let_def bit_simps dest: le_maskw_bitD)

lemma bits_bounds:
  assumes "allows b v" "bits_ok w b" "w \<le> 128" "v \<le> maskw w"
  shows "bits_min b \<le> v" and "v \<le> bits_max b"
proof -
  show "bits_min b \<le> v"
    using assms(1) unfolding allows_def bits_min_def
    by (metis word_and_le2)
  have "v = v AND bits_max b"
    using assms(1) by (intro bit_word_eqI) (auto simp: bits_max_def allows_iff bit_simps)
  then show "v \<le> bits_max b"
    by (metis word_and_le1)
qed

section \<open>Intervals and alignment\<close>

lemma between_high_bits:
  assumes le: "lo \<le> v" "v \<le> (hi :: u128)"
    and eq: "\<And>n. k \<le> n \<Longrightarrow> bit lo n = bit hi n" and n: "k \<le> n"
  shows "bit v n = bit lo n"
proof -
  have "drop_bit k lo = drop_bit k hi"
    by (rule bit_word_eqI) (simp add: bit_drop_bit_eq eq)
  moreover have "uint (drop_bit k lo) \<le> uint (drop_bit k v)"
      "uint (drop_bit k v) \<le> uint (drop_bit k hi)"
    using le by (simp_all add: word_red word_le_def zdiv_mono1)
  ultimately have "drop_bit k v = drop_bit k lo"
    by (metis order_antisym unsigned_word_eqI)
  then have "bit (drop_bit k v) (n - k) = bit (drop_bit k lo) (n - k)" by simp
  with n show ?thesis by (simp add: bit_drop_bit_eq)
qed

lemma bit_of_interval_unknown:
  assumes "w \<le> 128"
  shows "bit (kb_unknown (of_interval lo hi w)) n
     \<longleftrightarrow> lo \<noteq> hi \<and> n < w \<and> n < 128 - leading_zeros (lo XOR hi)"
  using assms leading_zeros_le [of "lo XOR hi"]
  by (auto simp: of_interval_def Let_def bit_simps xor_eq_0_iff_eq)

lemma of_interval_sound:
  assumes "w \<le> 128" "lo \<le> v" "v \<le> hi" "hi \<le> maskw w"
  shows "allows (of_interval lo hi w) v"
proof -
  let ?u = "kb_unknown (of_interval lo hi w)"
  have val: "kb_value (of_interval lo hi w) = lo AND NOT ?u"
    by (simp add: of_interval_def Let_def)
  have "bit v n = bit lo n" if out: "\<not> bit ?u n" "n < 128" for n
  proof (cases "n < w")
    case False
    then show ?thesis
      using assms by (meson le_maskw_bitD order_trans)
  next
    case True
    then consider "lo = hi" | "128 - leading_zeros (lo XOR hi) \<le> n"
      using out by (fastforce simp: bit_of_interval_unknown [OF assms(1)])
    then show ?thesis
    proof cases
      case 1
      with assms(2,3) show ?thesis by (metis order_antisym)
    next
      case 2
      show ?thesis
      proof (rule between_high_bits [OF assms(2,3) _ 2])
        fix m assume "128 - leading_zeros (lo XOR hi) \<le> m"
        then have "\<not> bit (lo XOR hi) m"
          using leading_zeros_above [of "lo XOR hi" m] by simp
        then show "bit lo m = bit hi m" by (simp add: bit_xor_iff)
      qed
    qed
  qed
  then show ?thesis
    unfolding allows_def val by (intro bit_word_eqI) (auto simp: bit_simps)
qed

lemma of_interval_ok:
  assumes "w \<le> 128" "lo \<le> maskw w"
  shows "bits_ok w (of_interval lo hi w)"
proof -
  have "kb_value (of_interval lo hi w) = lo AND NOT (kb_unknown (of_interval lo hi w))"
    by (simp add: of_interval_def Let_def)
  then show ?thesis
    using le_maskw_bitD [OF assms(2,1)]
    by (simp add: bits_ok_iff assms(1) bit_simps bit_of_interval_unknown)
qed

lemma low_zeros_dvd:
  assumes "allows b v" "z \<le> low_zeros b"
  shows "2 ^ z dvd uint v"
proof (rule trailing_zeros_dvd)
  have "v AND (kb_value b OR kb_unknown b) = v"
    using assms(1) by (intro bit_word_eqI) (auto simp: allows_iff bit_simps)
  moreover have "low_zeros b \<le> trailing_zeros (v AND (kb_value b OR kb_unknown b))"
  proof (rule ccontr)
    let ?x = "v AND (kb_value b OR kb_unknown b)"
    assume "\<not> low_zeros b \<le> trailing_zeros ?x"
    then have lt: "trailing_zeros ?x < low_zeros b" by simp
    then have "trailing_zeros ?x < LENGTH(128)"
      using trailing_zeros_le [of "kb_value b OR kb_unknown b"] by (simp add: low_zeros_def)
    then have "bit ?x (trailing_zeros ?x)" by (rule trailing_zeros_at)
    moreover have "\<not> bit (kb_value b OR kb_unknown b) (trailing_zeros ?x)"
      using lt by (intro trailing_zeros_below) (simp add: low_zeros_def)
    ultimately show False by (simp add: bit_and_iff)
  qed
  ultimately show "z \<le> trailing_zeros v" using assms(2) by simp
qed

section \<open>The signed reading\<close>

lemma signed_at_eq:
  assumes "0 < w" "w \<le> 128"
  shows "signed_at v w = signed_take_bit (w - 1) (uint v)"
proof -
  have "bit (signed_at v w) n = bit (signed_take_bit (w - 1) (uint v)) n" for n
  proof -
    consider "n < w - 1" | "n = w - 1" | "w \<le> n" by linarith
    then show ?thesis
      using assms
    by cases (auto simp: signed_at_def Let_def MAX_BITS_def sint_signed_drop_bit_eq bit_drop_bit_eq
        bit_sint_iff bit_push_bit_iff bit_signed_take_bit_iff bit_uint_iff min_def)
  qed
  then show ?thesis by (rule bit_eqI)
qed

lemma signed_at_value:
  assumes "0 < w" "w \<le> 128" "v \<le> maskw w"
  shows "signed_at v w = (if uint v < 2 ^ (w - 1) then uint v else uint v - 2 ^ w)"
proof -
  have lt: "uint v < 2 ^ w" using assms by (simp add: le_maskw_iff)
  have w: "(2::int) ^ w = 2 * 2 ^ (w - 1)"
    using assms(1) by (simp add: power_eq_if)
  show ?thesis
  proof (cases "uint v < 2 ^ (w - 1)")
    case True
    moreover have "- (2 ^ (w - 1)) \<le> uint v"
      using uint_ge_0 [of v] by (rule order_trans [rotated]) simp
    ultimately show ?thesis
      using assms by (simp add: signed_at_eq signed_take_bit_int_eq_self_iff)
  next
    case False
    have "signed_take_bit (w - 1) (uint v) = (uint v + 2 ^ (w - 1)) mod 2 ^ w - 2 ^ (w - 1)"
      using assms(1) by (simp add: signed_take_bit_eq_take_bit_shift take_bit_eq_mod)
    also have "(uint v + 2 ^ (w - 1)) mod 2 ^ w = uint v + 2 ^ (w - 1) - 2 ^ w"
    proof -
      have "(uint v + 2 ^ (w - 1)) mod 2 ^ w = (uint v + 2 ^ (w - 1) - 2 ^ w) mod 2 ^ w"
        by simp
      also have "\<dots> = uint v + 2 ^ (w - 1) - 2 ^ w"
        using False lt w by (intro mod_pos_pos_trivial) linarith+
      finally show ?thesis .
    qed
    finally show ?thesis using False assms by (simp add: signed_at_eq)
  qed
qed

lemma signed_limits_eq:
  "0 < w \<Longrightarrow> w \<le> 128 \<Longrightarrow> signed_limits w = (- (2 ^ (w - 1)), 2 ^ (w - 1) - 1)"
  by (auto simp: signed_limits_def MAX_BITS_def i128_min_def i128_max_def not_int_def Let_def)

lemma signed_at_limits:
  assumes "0 < w" "w \<le> 128" "v \<le> maskw w"
  shows "- (2 ^ (w - 1)) \<le> signed_at v w" and "signed_at v w < 2 ^ (w - 1)"
proof -
  have lt: "uint v < 2 ^ w" using assms by (simp add: le_maskw_iff)
  have w: "(2::int) ^ w = 2 * 2 ^ (w - 1)"
    using assms(1) by (simp add: power_eq_if)
  moreover have "- (2 ^ (w - 1)) \<le> uint v"
    using uint_ge_0 [of v] by (rule order_trans [rotated]) simp
  ultimately show "- (2 ^ (w - 1)) \<le> signed_at v w" "signed_at v w < 2 ^ (w - 1)"
    using lt by (simp_all add: signed_at_value [OF assms])
qed

end
