(* ===== verification/RangeCore.thy ===== *)
theory RangeCore
  imports KnownBits
begin

text \<open>
  Value ranges: \<open>Range\<close> of \<open>crates/rucc-opt/src/range.rs\<close>. The fixed array of intervals
  and its count are a list of at most \<open>PAIRS\<close> intervals; the unused cells of the array are
  not observable. \<open>Gathered\<close>, the stack buffer intervals pass through on the way in, is a
  list. The assertions that two ranges have one width are the \<open>None\<close> of an \<open>option\<close>.

  The invariant \<open>range_ok\<close> is what every constructor promises: intervals ascending,
  disjoint and not touching, in bounds, at most \<open>PAIRS\<close> of them, and canonical bits. The
  meaning of a range is \<open>gamma\<close>, the values of its width it contains.
\<close>

section \<open>Representation\<close>

definition PAIRS :: nat where "PAIRS = 3"

type_synonym interval = "u128 \<times> u128"

record range =
  rpairs :: "interval list"
  rwidth :: nat
  rbits :: known_bits

definition range_empty :: "nat \<Rightarrow> range" where
  "range_empty width =
     \<lparr>rpairs = [], rwidth = clampw width, rbits = \<lparr>kb_value = 0, kb_unknown = 0\<rparr>\<rparr>"

definition range_full :: "nat \<Rightarrow> range" where
  "range_full width =
     (let width = clampw width
      in \<lparr>rpairs = [(0, maskw width)], rwidth = width, rbits = bits_unknown width\<rparr>)"

definition range_exactly :: "u128 \<Rightarrow> nat \<Rightarrow> range" where
  "range_exactly value width =
     (let width = clampw width; value = value AND maskw width
      in \<lparr>rpairs = [(value, value)], rwidth = width, rbits = bits_exactly value width\<rparr>)"

definition is_empty :: "range \<Rightarrow> bool" where
  "is_empty r \<longleftrightarrow> rpairs r = []"

definition is_full :: "range \<Rightarrow> bool" where
  "is_full r = (case rpairs r of [(lo, hi)] \<Rightarrow> lo = 0 \<and> hi = maskw (rwidth r) | _ \<Rightarrow> False)"

definition singleton :: "range \<Rightarrow> u128 option" where
  "singleton r =
     (case rpairs r of [(lo, hi)] \<Rightarrow> if lo = hi then Some lo else None | _ \<Rightarrow> None)"

definition in_pair :: "u128 \<Rightarrow> interval \<Rightarrow> bool" where
  "in_pair value p \<longleftrightarrow> fst p \<le> value \<and> value \<le> snd p"

definition contains :: "range \<Rightarrow> u128 \<Rightarrow> bool" where
  "contains r value =
     (let value = value AND maskw (rwidth r)
      in allows (rbits r) value \<and> (\<exists>p \<in> set (rpairs r). in_pair value p))"

definition bits_of_pairs :: "interval list \<Rightarrow> nat \<Rightarrow> known_bits" where
  "bits_of_pairs pairs width =
     (case foldl (\<lambda>bits (lo, hi).
               let one = of_interval lo hi width
               in Some (case bits of None \<Rightarrow> one | Some had \<Rightarrow> join had one))
             None pairs
      of None \<Rightarrow> \<lparr>kb_value = 0, kb_unknown = 0\<rparr> | Some bits \<Rightarrow> bits)"

section \<open>Building a range from intervals\<close>

definition merge_pair :: "interval list \<Rightarrow> interval \<Rightarrow> interval list" where
  "merge_pair pairs p =
     (case p of (lo, hi) \<Rightarrow>
       if pairs \<noteq> [] \<and> (lo \<le> saturating_add (snd (last pairs)) 1 \<or> length pairs = PAIRS)
       then butlast pairs @ [(fst (last pairs), max (snd (last pairs)) hi)]
       else pairs @ [(lo, hi)])"

definition merged :: "interval list \<Rightarrow> nat \<Rightarrow> range" where
  "merged sorted_pairs width =
     (let r = range_empty width;
          pairs = foldl merge_pair [] sorted_pairs
      in r\<lparr>rpairs := pairs, rbits := bits_of_pairs pairs (rwidth r)\<rparr>)"

definition from_pairs :: "interval list \<Rightarrow> nat \<Rightarrow> range" where
  "from_pairs pairs width =
     (let width = clampw width;
          masked = filter (\<lambda>(lo, hi). lo \<le> hi)
                     (map (\<lambda>(lo, hi). (lo AND maskw width, hi AND maskw width)) pairs)
      in if sorted masked then merged masked width else merged (sort masked) width)"

definition between :: "u128 \<Rightarrow> u128 \<Rightarrow> nat \<Rightarrow> range" where
  "between lo hi width =
     (let width = clampw width; lo = lo AND maskw width; hi = hi AND maskw width
      in if lo \<le> hi then from_pairs [(lo, hi)] width
         else from_pairs [(0, hi), (lo, maskw width)] width)"

definition signed_between :: "int \<Rightarrow> int \<Rightarrow> nat \<Rightarrow> range" where
  "signed_between lo hi width =
     (let width = clampw width; (low, high) = signed_limits width
      in if lo > hi \<or> lo > high \<or> hi < low then range_empty width
         else let lo = max lo low; hi = min hi high
              in between (word_of_int lo) (word_of_int hi) width)"

definition other_than :: "u128 \<Rightarrow> nat \<Rightarrow> range" where
  "other_than value width =
     (let width = clampw width; value = value AND maskw width
      in from_pairs
           ((if value > 0 then [(0, value - 1)] else [])
            @ (if value < maskw width then [(value + 1, maskw width)] else [])) width)"

definition narrow :: "range \<Rightarrow> known_bits \<Rightarrow> range" where
  "narrow r b =
     (case meet (rbits r) b of None \<Rightarrow> range_empty (rwidth r)
      | Some bits \<Rightarrow>
        if is_empty r then r
        else if kb_unknown bits = 0 then
          (let value = kb_value bits
           in if \<exists>p \<in> set (rpairs r). in_pair value p then range_exactly value (rwidth r)
              else range_empty (rwidth r))
        else if bits = rbits r \<and> is_full r then r
        else
          (let low = bits_min bits; high = bits_max bits;
               zeros = low_zeros bits;
               step = (if zeros = 0 \<or> zeros \<ge> rwidth r then 1 else push_bit zeros 1);
               cut = filter (\<lambda>(lo, hi). lo \<le> hi)
                       (map (\<lambda>(lo, hi). (max lo low, min hi high)) (rpairs r));
               kept = filter (\<lambda>(lo, hi). lo \<le> hi)
                        (List.map_filter (\<lambda>(lo, hi).
                           map_option (\<lambda>up. (up AND NOT (step - 1), hi AND NOT (step - 1)))
                             (checked_add lo (step - 1))) cut);
               range = from_pairs kept (rwidth r)
           in case meet (rbits range) bits of
                Some bits \<Rightarrow> range\<lparr>rbits := bits\<rparr>
              | None \<Rightarrow> range_empty (rwidth r)))"

section \<open>Questions about a range\<close>

text \<open>Every value of the intervals, or \<open>None\<close> past the limit; the inner loop is the values of one.\<close>

fun list_values :: "interval list \<Rightarrow> nat \<Rightarrow> u128 list \<Rightarrow> u128 list option" where
  "list_values [] limit values = Some values"
| "list_values ((lo, hi) # rest) limit values =
     (if int limit \<le> uint (hi - lo) then None
      else let new = map (\<lambda>i. lo + word_of_nat i) [0..<nat (uint (hi - lo)) + 1]
           in if length values + length new > limit then None
              else list_values rest limit (values @ new))"

definition list_range :: "range \<Rightarrow> nat \<Rightarrow> u128 list option" where
  "list_range r limit = list_values (rpairs r) limit []"

definition unsigned_bounds :: "range \<Rightarrow> (u128 \<times> u128) option" where
  "unsigned_bounds r =
     (if rpairs r = [] then None else Some (fst (hd (rpairs r)), snd (last (rpairs r))))"

definition signed_bounds :: "range \<Rightarrow> (int \<times> int) option" where
  "signed_bounds r =
     (if rpairs r = [] then None
      else let first = fst (hd (rpairs r)); last_hi = snd (last (rpairs r));
               boundary = sign_bit (rwidth r);
               negative = find (\<lambda>p. snd p \<ge> boundary) (rpairs r);
               positive = find (\<lambda>p. fst p < boundary) (rev (rpairs r));
               mn = (case negative of
                       Some (lo, _) \<Rightarrow> signed_at (max lo boundary) (rwidth r)
                     | None \<Rightarrow> signed_at first (rwidth r));
               mx = (case positive of
                       Some (_, hi) \<Rightarrow> signed_at (min hi (boundary - 1)) (rwidth r)
                     | None \<Rightarrow> signed_at last_hi (rwidth r))
           in Some (mn, mx))"

definition nonzero :: "range \<Rightarrow> bool" where
  "nonzero r \<longleftrightarrow> \<not> is_empty r \<and> \<not> contains r 0"

definition fits_unsigned :: "range \<Rightarrow> nat \<Rightarrow> bool" where
  "fits_unsigned r bits =
     (case unsigned_bounds r of None \<Rightarrow> True
      | Some (_, high) \<Rightarrow> bits \<ge> rwidth r \<or> high \<le> maskw bits)"

text \<open>A width of zero bits makes the shift amount underflow, which is the panic.\<close>

definition fits_signed :: "range \<Rightarrow> nat \<Rightarrow> bool option" where
  "fits_signed r bits =
     (case signed_bounds r of None \<Rightarrow> Some True
      | Some (low, high) \<Rightarrow>
        if bits \<ge> rwidth r then Some True
        else if bits = 0 then None
        else let limit = 2 ^ (bits - 1) in Some (- limit \<le> low \<and> high < limit))"

section \<open>Combining ranges\<close>

definition union :: "range \<Rightarrow> range \<Rightarrow> range option" where
  "union a b =
     (if rwidth a \<noteq> rwidth b then None
      else if is_empty a then Some b
      else if is_empty b then Some a
      else let pairs = rpairs a @ rpairs b
           in Some (narrow (from_pairs pairs (rwidth a)) (join (rbits a) (rbits b))))"

definition intersect :: "range \<Rightarrow> range \<Rightarrow> range option" where
  "intersect a b =
     (if rwidth a \<noteq> rwidth b then None
      else let pairs = filter (\<lambda>(lo, hi). lo \<le> hi)
                 (concat (map (\<lambda>(lo, hi).
                    map (\<lambda>(start, end). (max lo start, min hi end)) (rpairs b)) (rpairs a)))
           in Some (narrow (narrow (from_pairs pairs (rwidth a)) (rbits a)) (rbits b)))"

fun invert_pairs :: "interval list \<Rightarrow> u128 \<Rightarrow> nat \<Rightarrow> interval list" where
  "invert_pairs [] next width = (if next \<le> maskw width then [(next, maskw width)] else [])"
| "invert_pairs ((lo, hi) # rest) next width =
     (if lo > next then [(next, lo - 1)] else [])
     @ (case checked_add hi 1 of None \<Rightarrow> [] | Some after \<Rightarrow> invert_pairs rest after width)"

definition invert :: "range \<Rightarrow> range" where
  "invert r = from_pairs (invert_pairs (rpairs r) 0 (rwidth r)) (rwidth r)"

section \<open>Meaning and invariant\<close>

definition pairs_ok :: "nat \<Rightarrow> interval list \<Rightarrow> bool" where
  "pairs_ok w ps \<longleftrightarrow>
     (\<forall>p \<in> set ps. fst p \<le> snd p \<and> snd p \<le> maskw w) \<and>
     sorted_wrt (\<lambda>p q. uint (snd p) + 1 < uint (fst q)) ps"

definition range_ok :: "range \<Rightarrow> bool" where
  "range_ok r \<longleftrightarrow>
     0 < rwidth r \<and> rwidth r \<le> 128 \<and> length (rpairs r) \<le> PAIRS \<and>
     pairs_ok (rwidth r) (rpairs r) \<and> bits_ok (rwidth r) (rbits r)"

definition gamma :: "range \<Rightarrow> u128 set" where
  "gamma r = {v. v \<le> maskw (rwidth r) \<and> contains r v}"

subsection \<open>Merging keeps the intervals apart and loses none\<close>

definition pair_in :: "nat \<Rightarrow> interval \<Rightarrow> bool" where
  "pair_in w p \<longleftrightarrow> fst p \<le> snd p \<and> snd p \<le> maskw w"

definition covers :: "interval list \<Rightarrow> interval \<Rightarrow> bool" where
  "covers ps p \<longleftrightarrow> (\<exists>q \<in> set ps. fst q \<le> fst p \<and> snd p \<le> snd q)"

lemma pairs_ok_snoc:
  "pairs_ok w (ps @ [p]) \<longleftrightarrow>
     pairs_ok w ps \<and> pair_in w p \<and> (\<forall>q \<in> set ps. uint (snd q) + 1 < uint (fst p))"
  by (auto simp: pairs_ok_def pair_in_def sorted_wrt_append)

lemma pairs_ok_Nil [simp]: "pairs_ok w []"
  by (simp add: pairs_ok_def)

lemma pairs_okD: "pairs_ok w ps \<Longrightarrow> p \<in> set ps \<Longrightarrow> pair_in w p"
  by (simp add: pairs_ok_def pair_in_def)

lemma merge_pair_step:
  assumes ok: "pairs_ok w ps" "length ps \<le> PAIRS" "pair_in w p"
    and le: "ps \<noteq> [] \<Longrightarrow> fst (last ps) \<le> fst p"
  defines "r \<equiv> merge_pair ps p"
  shows "pairs_ok w r" and "length r \<le> PAIRS" and "r \<noteq> []"
    and "fst (last r) \<le> fst p" and "covers r p"
    and "covers ps q \<Longrightarrow> covers r q"
proof -
  obtain lo hi where p: "p = (lo, hi)" by (cases p)
  have "pairs_ok w r \<and> length r \<le> PAIRS \<and> r \<noteq> [] \<and> fst (last r) \<le> fst p \<and> covers r p
      \<and> (covers ps q \<longrightarrow> covers r q)"
  proof (cases ps rule: rev_cases)
    case Nil
    with ok show ?thesis
      by (simp add: r_def p merge_pair_def pairs_ok_snoc [of _ "[]", simplified] PAIRS_def covers_def)
  next
    case (snoc qs l)
    obtain a b where l: "l = (a, b)" by (cases l)
    have al: "a \<le> lo" using le snoc l p by simp
    have qs: "pairs_ok w qs" "pair_in w (a, b)" "\<forall>q \<in> set qs. uint (snd q) + 1 < uint a"
      using ok(1) by (simp_all add: snoc l pairs_ok_snoc)
    show ?thesis
    proof (cases "lo \<le> saturating_add b 1 \<or> length ps = PAIRS")
      case True
      then have r: "r = qs @ [(a, max b hi)]"
        by (auto simp: r_def p merge_pair_def snoc l)
      have "pair_in w (a, max b hi)"
        using qs(2) ok(3) by (auto simp: pair_in_def p max_def)
      with qs r ok(2) al show ?thesis
        by (auto simp: pairs_ok_snoc snoc l p covers_def max_def)
    next
      case False
      then have r: "r = ps @ [(lo, hi)]"
        by (auto simp: r_def p merge_pair_def snoc l)
      have lt: "uint b + 1 < uint lo"
        using False uint_lt_size [of lo]
        by (auto simp: word_le_def uint_saturating_add min_def not_le split: if_splits)
      have "uint (snd q) + 1 < uint lo" if "q \<in> set ps" for q
        using that lt qs(3) al by (fastforce simp: snoc l word_le_def)
      then show ?thesis
        using ok False by (auto simp: r pairs_ok_snoc p covers_def)
    qed
  qed
  then show "pairs_ok w r" "length r \<le> PAIRS" "r \<noteq> []" "fst (last r) \<le> fst p" "covers r p"
    "covers ps q \<Longrightarrow> covers r q"
    by simp_all
qed

lemma merge_fold:
  assumes "sorted xs" "\<forall>p \<in> set xs. pair_in w p"
    and "pairs_ok w ps" "length ps \<le> PAIRS"
    and "ps \<noteq> [] \<Longrightarrow> \<forall>p \<in> set xs. fst (last ps) \<le> fst p"
  shows "pairs_ok w (foldl merge_pair ps xs) \<and> length (foldl merge_pair ps xs) \<le> PAIRS \<and>
    (\<forall>q. covers ps q \<or> q \<in> set xs \<longrightarrow> covers (foldl merge_pair ps xs) q)"
  using assms
proof (induction xs arbitrary: ps)
  case Nil
  then show ?case by simp
next
  case (Cons x xs)
  let ?ps = "merge_pair ps x"
  have x: "pair_in w x" and le: "ps \<noteq> [] \<Longrightarrow> fst (last ps) \<le> fst x"
    using Cons.prems by simp_all
  note step = merge_pair_step [OF Cons.prems(3,4) x le]
  have "\<forall>p \<in> set xs. fst (last ?ps) \<le> fst p"
    using Cons.prems(1) step(4) by (fastforce simp: less_eq_prod_def)
  then have "pairs_ok w (foldl merge_pair ?ps xs) \<and> length (foldl merge_pair ?ps xs) \<le> PAIRS \<and>
      (\<forall>q. covers ?ps q \<or> q \<in> set xs \<longrightarrow> covers (foldl merge_pair ?ps xs) q)"
    using Cons.prems step by (intro Cons.IH) auto
  then show ?case using step(5) step(6) by auto
qed

subsection \<open>The bits of a list of intervals\<close>

definition bits_step :: "nat \<Rightarrow> known_bits option \<Rightarrow> interval \<Rightarrow> known_bits option" where
  "bits_step w bits p =
     (case p of (lo, hi) \<Rightarrow>
       let one = of_interval lo hi w
       in Some (case bits of None \<Rightarrow> one | Some had \<Rightarrow> join had one))"

lemma bits_of_pairs_alt:
  "bits_of_pairs ps w =
     (case foldl (bits_step w) None ps of
        None \<Rightarrow> \<lparr>kb_value = 0, kb_unknown = 0\<rparr> | Some bits \<Rightarrow> bits)"
  by (simp add: bits_of_pairs_def bits_step_def [abs_def])

lemma bits_step_ok:
  assumes "w \<le> 128" "pair_in w p" "\<And>b. acc = Some b \<Longrightarrow> bits_ok w b"
  shows "\<exists>b. bits_step w acc p = Some b \<and> bits_ok w b \<and>
    (\<forall>v. in_pair v p \<or> (\<exists>c. acc = Some c \<and> allows c v) \<longrightarrow> allows b v)"
proof -
  obtain lo hi where p: "p = (lo, hi)" by (cases p)
  define one where "one = of_interval lo hi w"
  have in_w: "lo \<le> hi" "hi \<le> maskw w" using assms(2) by (auto simp: p pair_in_def)
  have one: "bits_ok w one" "in_pair v p \<Longrightarrow> allows one v" for v
    using in_w assms(1)
    by (auto simp: one_def p in_pair_def intro!: of_interval_ok of_interval_sound elim: order_trans)
  show ?thesis
    using one assms(3) join_ok [OF _ one(1) assms(1)] join_sound [OF _ one(1) assms(1)]
    by (cases acc) (auto simp: bits_step_def p Let_def simp flip: one_def)
qed

lemma bits_fold:
  assumes "w \<le> 128" "\<forall>p \<in> set ps. pair_in w p" "\<And>b. acc = Some b \<Longrightarrow> bits_ok w b"
    and "ps \<noteq> [] \<or> acc \<noteq> None"
  shows "\<exists>b. foldl (bits_step w) acc ps = Some b \<and> bits_ok w b \<and>
    (\<forall>v. (\<exists>c. acc = Some c \<and> allows c v) \<or> (\<exists>p \<in> set ps. in_pair v p) \<longrightarrow> allows b v)"
  using assms(2-)
proof (induction ps arbitrary: acc)
  case Nil
  then show ?case by auto
next
  case (Cons p ps)
  obtain b where b: "bits_step w acc p = Some b" "bits_ok w b"
      "\<forall>v. in_pair v p \<or> (\<exists>c. acc = Some c \<and> allows c v) \<longrightarrow> allows b v"
    using bits_step_ok [OF assms(1), of p acc] Cons.prems by auto
  have "\<exists>d. foldl (bits_step w) (Some b) ps = Some d \<and> bits_ok w d \<and>
      (\<forall>v. (\<exists>c. Some b = Some c \<and> allows c v) \<or> (\<exists>p \<in> set ps. in_pair v p) \<longrightarrow> allows d v)"
    using Cons.prems b by (intro Cons.IH) auto
  with b show ?case by auto
qed

lemma bits_of_pairs_sound:
  assumes "w \<le> 128" "pairs_ok w ps" "p \<in> set ps" "in_pair v p"
  shows "allows (bits_of_pairs ps w) v"
  using bits_fold [of w ps None] assms
  by (fastforce simp: bits_of_pairs_alt pairs_ok_def pair_in_def)

lemma bits_ok_zero [simp]: "w \<le> 128 \<Longrightarrow> bits_ok w \<lparr>kb_value = 0, kb_unknown = 0\<rparr>"
  by (simp add: bits_ok_iff)

lemma bits_of_pairs_ok:
  assumes "w \<le> 128" "pairs_ok w ps"
  shows "bits_ok w (bits_of_pairs ps w)"
  using bits_fold [of w ps None] assms
  by (cases "ps = []") (auto simp: bits_of_pairs_alt pairs_ok_def pair_in_def)

subsection \<open>Constructors\<close>

lemma range_width [simp]:
  "rwidth (range_empty w) = clampw w" "rwidth (range_full w) = clampw w"
  "rwidth (range_exactly v w) = clampw w" "rwidth (merged ps w) = clampw w"
  "rwidth (from_pairs ps w) = clampw w" "rwidth (between lo hi w) = clampw w"
  by (simp_all add: range_empty_def range_full_def range_exactly_def merged_def from_pairs_def
      between_def Let_def)

lemma clampw_clampw [simp]: "clampw (clampw w) = clampw w"
  by (simp add: clampw_def MAX_BITS_def)

lemma range_empty_ok [simp]: "range_ok (range_empty w)"
  by (simp add: range_ok_def range_empty_def)

lemma gamma_empty [simp]: "gamma (range_empty w) = {}"
  by (simp add: gamma_def contains_def range_empty_def Let_def)

lemma is_empty_range_empty [simp]: "is_empty (range_empty w)"
  by (simp add: is_empty_def range_empty_def)

lemma range_full_ok [simp]: "range_ok (range_full w)"
  by (simp add: range_ok_def range_full_def Let_def PAIRS_def pairs_ok_def)

lemma gamma_full [simp]: "gamma (range_full w) = {v. v \<le> maskw (clampw w)}"
  by (auto simp: gamma_def contains_def range_full_def Let_def in_pair_def allows_unknown)

lemma range_exactly_ok [simp]: "range_ok (range_exactly v w)"
  by (simp add: range_ok_def range_exactly_def Let_def PAIRS_def pairs_ok_def)

lemma gamma_exactly: "gamma (range_exactly v w) = {v AND maskw (clampw w)}"
proof -
  have "x AND maskw (clampw w) = x" if "x \<le> maskw (clampw w)" for x
    using that by (simp add: le_maskw_mask_iff)
  then show ?thesis
    by (auto simp: gamma_def contains_def range_exactly_def Let_def in_pair_def
        bits_exactly_def allows_def intro: order_antisym)
qed

lemma merged_ok:
  assumes "sorted ps" "\<forall>p \<in> set ps. pair_in (clampw w) p"
  shows "range_ok (merged ps w)"
  using merge_fold [OF assms, of "[]"]
  by (simp add: range_ok_def merged_def Let_def range_empty_def bits_of_pairs_ok PAIRS_def)

lemma merged_sound:
  assumes "sorted ps" "\<forall>p \<in> set ps. pair_in (clampw w) p" "p \<in> set ps" "in_pair v p"
  shows "v \<in> gamma (merged ps w)"
proof -
  let ?m = "foldl merge_pair [] ps"
  have m: "pairs_ok (clampw w) ?m" "covers ?m p"
    using merge_fold [OF assms(1,2), of "[]"] assms(3) by (simp_all del: split_paired_All)
  then obtain q where q: "q \<in> set ?m" "in_pair v q"
    using assms(4) by (auto simp: covers_def in_pair_def intro: order_trans)
  have "v \<le> maskw (clampw w)"
    using assms(2-4) by (auto simp: pair_in_def in_pair_def intro: order_trans)
  moreover from this have "v AND maskw (clampw w) = v" by (simp add: le_maskw_mask_iff)
  ultimately show ?thesis
    using q bits_of_pairs_sound [OF _ m(1) q]
    by (auto simp: gamma_def contains_def merged_def Let_def range_empty_def)
qed

definition masked_pairs :: "nat \<Rightarrow> interval list \<Rightarrow> interval list" where
  "masked_pairs w ps = filter (\<lambda>(lo, hi). lo \<le> hi)
     (map (\<lambda>(lo, hi). (lo AND maskw w, hi AND maskw w)) ps)"

lemma from_pairs_eq: "from_pairs ps w = merged (sort (masked_pairs (clampw w) ps)) (clampw w)"
  by (simp add: from_pairs_def masked_pairs_def Let_def sorted_sort_id)

lemma masked_pairs_in: "w \<le> 128 \<Longrightarrow> p \<in> set (masked_pairs w ps) \<Longrightarrow> pair_in w p"
  by (auto simp: masked_pairs_def pair_in_def)

lemma masked_pairs_id: "w \<le> 128 \<Longrightarrow> \<forall>p \<in> set ps. pair_in w p \<Longrightarrow> masked_pairs w ps = ps"
proof (induction ps)
  case (Cons p ps)
  then have "fst p \<le> snd p" "snd p \<le> maskw w" "fst p \<le> maskw w"
    by (auto simp: pair_in_def intro: order_trans)
  with Cons show ?case
    by (cases p) (simp add: masked_pairs_def le_maskw_mask_iff)
qed (simp add: masked_pairs_def)

lemma from_pairs_ok [simp]: "range_ok (from_pairs ps w)"
  unfolding from_pairs_eq by (rule merged_ok) (auto intro: masked_pairs_in)

lemma from_pairs_sound_masked:
  "p \<in> set (masked_pairs (clampw w) ps) \<Longrightarrow> in_pair v p \<Longrightarrow> v \<in> gamma (from_pairs ps w)"
  unfolding from_pairs_eq by (rule merged_sound) (auto intro: masked_pairs_in)

lemma from_pairs_sound:
  assumes "p \<in> set ps" "in_pair v p" "snd p \<le> maskw (clampw w)"
  shows "v \<in> gamma (from_pairs ps w)"
proof (rule from_pairs_sound_masked)
  let ?m = "maskw (clampw w)"
  have le: "fst p \<le> snd p" using assms(2) by (auto simp: in_pair_def)
  then have "fst p \<le> ?m" using assms(3) by (rule order_trans)
  with assms(3) have eq: "(\<lambda>(lo, hi). (lo AND ?m, hi AND ?m)) p = p"
    by (cases p) (simp add: le_maskw_mask_iff)
  have in_map: "p \<in> set (map (\<lambda>(lo, hi). (lo AND ?m, hi AND ?m)) ps)"
    using imageI [OF assms(1), of "\<lambda>(lo, hi). (lo AND ?m, hi AND ?m)"]
    unfolding eq set_map .
  have "case p of (lo, hi) \<Rightarrow> lo \<le> hi" using le by (cases p) simp
  with in_map show "p \<in> set (masked_pairs (clampw w) ps)"
    unfolding masked_pairs_def set_filter by blast
qed (fact assms(2))

subsection \<open>Narrowing\<close>

lemma gamma_le: "v \<in> gamma r \<Longrightarrow> v \<le> maskw (rwidth r)"
  by (simp add: gamma_def)

lemma gamma_iff:
  assumes "range_ok r"
  shows "v \<in> gamma r \<longleftrightarrow>
    v \<le> maskw (rwidth r) \<and> allows (rbits r) v \<and> (\<exists>p \<in> set (rpairs r). in_pair v p)"
  using assms by (auto simp: gamma_def contains_def Let_def range_ok_def le_maskw_mask_iff)

lemma range_okD:
  assumes "range_ok r"
  shows "0 < rwidth r" "rwidth r \<le> 128" "clampw (rwidth r) = rwidth r"
    "pairs_ok (rwidth r) (rpairs r)" "bits_ok (rwidth r) (rbits r)" "length (rpairs r) \<le> PAIRS"
  using assms by (simp_all add: range_ok_def)

lemma range_empty_width [simp]: "range_ok r \<Longrightarrow> rwidth (range_empty (rwidth r)) = rwidth r"
  by (simp add: range_okD)

lemma push_bit_mask_not:
  "z < 128 \<Longrightarrow> uint (x AND NOT (push_bit z 1 - 1) :: u128) = uint x div 2 ^ z * 2 ^ z"
proof -
  assume z: "z < 128"
  have "push_bit z 1 - 1 = (mask z :: u128)"
    by (simp add: mask_eq_exp_minus_1 push_bit_of_1)
  then have "x AND NOT (push_bit z 1 - 1) = push_bit z (drop_bit z x)"
    by (intro bit_word_eqI) (auto simp: bit_simps)
  then have "uint (x AND NOT (push_bit z 1 - 1)) = take_bit 128 (uint x div 2 ^ z * 2 ^ z)"
    by (simp only: unsigned_push_bit_eq uint_drop_bit) (simp add: push_bit_eq_mult)
  moreover have "uint x div 2 ^ z * 2 ^ z \<le> uint x"
    by (simp add: minus_mod_eq_div_mult [symmetric])
  then have "uint x div 2 ^ z * 2 ^ z < 2 ^ 128"
    using uint_lt_size [of x] by simp
  ultimately show ?thesis
    by (simp add: take_bit_int_eq_self pos_imp_zdiv_nonneg_iff)
qed

text \<open>Rounding the ends of an interval to multiples keeps every multiple in it.\<close>

lemma align_interval:
  assumes z: "z < 128" and dvd: "2 ^ z dvd uint v" and lo: "lo \<le> v" and hi: "v \<le> (hi :: u128)"
  defines "m \<equiv> push_bit z 1 - 1 :: u128"
  shows "\<exists>up. checked_add lo m = Some up \<and> up AND NOT m \<le> v \<and> v \<le> hi AND NOT m"
proof -
  obtain q where q: "uint v = 2 ^ z * q" using dvd by (auto simp: dvd_def)
  have um: "uint m = 2 ^ z - 1"
  proof -
    have "m = maskw z" using z by (simp add: m_def maskw_def MAX_BITS_def)
    with z show ?thesis by (simp add: uint_maskw)
  qed
  have "(2::int) ^ 128 = 2 ^ z * 2 ^ (128 - z)" using z by (simp flip: power_add)
  then have "2 ^ z * q < 2 ^ z * 2 ^ (128 - z)"
    using q uint_lt_size [of v] by simp
  then have "q + 1 \<le> 2 ^ (128 - z)" by simp
  then have "2 ^ z * (q + 1) \<le> 2 ^ z * 2 ^ (128 - z)" by simp
  then have vm: "uint v + (2 ^ z - 1) < 2 ^ 128"
    using q z by (simp add: distrib_left flip: power_add)
  have lo': "uint lo \<le> uint v" and hi': "uint v \<le> uint hi"
    using lo hi by (simp_all add: word_le_def)
  then have small: "uint lo + uint m < 2 ^ LENGTH(128)" using vm um by simp
  have "(uint lo + (2 ^ z - 1)) div 2 ^ z \<le> (uint v + (2 ^ z - 1)) div 2 ^ z"
    using lo' by (intro zdiv_mono1) simp_all
  also have "\<dots> = q"
    by (simp add: q add.commute div_mult_self4)
  finally have "(uint lo + (2 ^ z - 1)) div 2 ^ z * 2 ^ z \<le> uint v"
    by (simp add: q mult.commute)
  moreover have "uint v \<le> uint hi div 2 ^ z * 2 ^ z"
  proof -
    have "q = uint v div 2 ^ z" by (simp add: q)
    also have "\<dots> \<le> uint hi div 2 ^ z" using hi' by (intro zdiv_mono1) simp_all
    finally show ?thesis by (simp add: q mult.commute)
  qed
  moreover have "uint (x AND NOT m) = uint x div 2 ^ z * 2 ^ z" for x
    unfolding m_def by (rule push_bit_mask_not [OF z])
  ultimately show ?thesis
    using small by (simp add: checked_add_def word_le_def uint_add_small um)
qed

text \<open>The general case of \<open>narrow\<close>, the intervals cut to the bits and rounded to multiples.\<close>

definition align_pairs :: "nat \<Rightarrow> interval list \<Rightarrow> interval list" where
  "align_pairs z ps = filter (\<lambda>(lo, hi). lo \<le> hi)
     (List.map_filter (\<lambda>(lo, hi).
        map_option (\<lambda>up. (up AND NOT (push_bit z 1 - 1), hi AND NOT (push_bit z 1 - 1)))
          (checked_add lo (push_bit z 1 - 1))) ps)"

definition cut_pairs :: "known_bits \<Rightarrow> interval list \<Rightarrow> interval list" where
  "cut_pairs b ps = filter (\<lambda>(lo, hi). lo \<le> hi)
     (map (\<lambda>(lo, hi). (max lo (bits_min b), min hi (bits_max b))) ps)"

definition align_zeros :: "known_bits \<Rightarrow> nat \<Rightarrow> nat" where
  "align_zeros b w = (if low_zeros b = 0 \<or> low_zeros b \<ge> w then 0 else low_zeros b)"

lemma narrow_alt:
  "narrow r b =
     (case meet (rbits r) b of None \<Rightarrow> range_empty (rwidth r)
      | Some bits \<Rightarrow>
        if is_empty r then r
        else if kb_unknown bits = 0 then
          (if \<exists>p \<in> set (rpairs r). in_pair (kb_value bits) p
           then range_exactly (kb_value bits) (rwidth r) else range_empty (rwidth r))
        else if bits = rbits r \<and> is_full r then r
        else
          (let range = from_pairs (align_pairs (align_zeros bits (rwidth r))
                         (cut_pairs bits (rpairs r))) (rwidth r)
           in case meet (rbits range) bits of
                Some bits \<Rightarrow> range\<lparr>rbits := bits\<rparr> | None \<Rightarrow> range_empty (rwidth r)))"
proof -
  have step: "(if low_zeros c = 0 \<or> w \<le> low_zeros c then 1 else push_bit (low_zeros c) 1)
      = push_bit (align_zeros c w) (1 :: u128)" for c w
    by (simp add: align_zeros_def)
  show ?thesis
    by (simp only: narrow_def Let_def step align_pairs_def cut_pairs_def)
qed

lemma cut_pairs_sound:
  assumes "p \<in> set ps" "in_pair v p" "bits_min b \<le> v" "v \<le> bits_max b"
  shows "\<exists>q \<in> set (cut_pairs b ps). in_pair v q \<and> snd q \<le> snd p"
proof -
  obtain lo hi where p: "p = (lo, hi)" by (cases p)
  let ?q = "(max lo (bits_min b), min hi (bits_max b))"
  have "in_pair v ?q" using assms by (simp add: in_pair_def p)
  moreover from this have "fst ?q \<le> snd ?q"
    unfolding in_pair_def by (blast intro: order_trans)
  then have "?q \<in> set (cut_pairs b ps)"
    using imageI [OF assms(1), of "\<lambda>(lo, hi). (max lo (bits_min b), min hi (bits_max b))"]
    by (simp add: cut_pairs_def p)
  ultimately show ?thesis by (intro bexI [of _ ?q]) (simp_all add: p)
qed

lemma align_pairs_sound:
  assumes "p \<in> set ps" "in_pair v p" "z < 128" "2 ^ z dvd uint v"
  shows "\<exists>q \<in> set (align_pairs z ps). in_pair v q \<and> snd q \<le> snd p"
proof -
  obtain lo hi where p: "p = (lo, hi)" by (cases p)
  let ?m = "push_bit z 1 - 1 :: u128"
  obtain up where up: "checked_add lo ?m = Some up" "up AND NOT ?m \<le> v" "v \<le> hi AND NOT ?m"
    using align_interval [OF assms(3,4), of lo hi] assms(2) by (auto simp: in_pair_def p)
  let ?q = "(up AND NOT ?m, hi AND NOT ?m)"
  have "?q \<in> set (List.map_filter (\<lambda>(lo, hi). map_option
      (\<lambda>up. (up AND NOT ?m, hi AND NOT ?m)) (checked_add lo ?m)) ps)"
    using assms(1) by (rule in_map_filterI) (simp only: p case_prod_conv up(1) option.map)
  moreover have "up AND NOT ?m \<le> hi AND NOT ?m" using up(2,3) by (rule order_trans)
  ultimately have "?q \<in> set (align_pairs z ps)"
    unfolding align_pairs_def set_filter by blast
  moreover have "in_pair v ?q" using up by (simp add: in_pair_def)
  moreover have "snd ?q \<le> snd p" by (simp add: p word_and_le2)
  ultimately show ?thesis by blast
qed

lemma narrow_ok_width:
  assumes r: "range_ok r" and b: "bits_ok (rwidth r) b"
  shows "range_ok (narrow r b) \<and> rwidth (narrow r b) = rwidth r"
proof -
  note w = range_okD [OF r]
  have "range_ok (x\<lparr>rbits := c\<rparr>)" if "range_ok x" "meet (rbits x) d = Some c" "bits_ok (rwidth x) d" for x c d
    using that meet_ok [of "rwidth x" "rbits x" d c] by (simp add: range_ok_def)
  moreover have "bits_ok (rwidth r) c" if "meet (rbits r) b = Some c" for c
    using meet_ok [OF w(5) b that w(2)] .
  ultimately show ?thesis
    using w r by (auto simp: narrow_alt Let_def split: option.splits)
qed

lemmas narrow_ok = narrow_ok_width [THEN conjunct1]
lemmas narrow_width = narrow_ok_width [THEN conjunct2]

lemma narrow_sound:
  assumes r: "range_ok r" and b: "bits_ok (rwidth r) b" and v: "v \<in> gamma r" "allows b v"
  shows "v \<in> gamma (narrow r b)"
proof -
  note w = range_okD [OF r]
  obtain p where p: "p \<in> set (rpairs r)" "in_pair v p" and av: "allows (rbits r) v"
    and vw: "v \<le> maskw (rwidth r)"
    using v(1) gamma_iff [OF r] by auto
  obtain c where c: "meet (rbits r) b = Some c" "allows c v"
    using meet_sound [OF w(5) b av v(2) w(2)] by auto
  have cok: "bits_ok (rwidth r) c" using meet_ok [OF w(5) b c(1) w(2)] .
  have ne: "\<not> is_empty r" using p by (auto simp: is_empty_def)
  show ?thesis
  proof (cases "kb_unknown c = 0")
    case True
    with c(2) have "kb_value c = v" by (simp add: allows_def)
    with True c(1) ne p vw show ?thesis
      using w(2) by (auto simp: narrow_alt gamma_exactly w(3) le_maskw_mask_iff)
  next
    case False
    let ?z = "align_zeros c (rwidth r)"
    let ?ps = "align_pairs ?z (cut_pairs c (rpairs r))"
    let ?r = "from_pairs ?ps (rwidth r)"
    obtain q where q: "q \<in> set (cut_pairs c (rpairs r))" "in_pair v q" "snd q \<le> snd p"
      using cut_pairs_sound [OF p, of c] bits_bounds [OF c(2) cok w(2) vw] by blast
    have z: "?z < 128" "2 ^ ?z dvd uint v"
      using w(2) low_zeros_dvd [OF c(2), of ?z] by (auto simp: align_zeros_def)
    obtain q' where q': "q' \<in> set ?ps" "in_pair v q'" "snd q' \<le> snd q"
      using align_pairs_sound [OF q(1,2) z] by blast
    have "snd p \<le> maskw (rwidth r)" using pairs_okD [OF w(4) p(1)] by (simp add: pair_in_def)
    with q'(3) q(3) have "snd q' \<le> maskw (rwidth r)" by (blast intro: order_trans)
    then have vr: "v \<in> gamma ?r"
      using from_pairs_sound [OF q'(1,2), of "rwidth r"] by (simp add: w(3))
    then have "allows (rbits ?r) v" by (simp add: gamma_iff)
    moreover have "bits_ok (rwidth r) (rbits ?r)"
      using range_okD(5) [OF from_pairs_ok [of ?ps "rwidth r"]] by (simp add: w(3))
    ultimately obtain d where d: "meet (rbits ?r) c = Some d" "allows d v"
      using meet_sound [of "rwidth r" "rbits ?r" c v] cok c(2) w(2) by blast
    obtain p' where "p' \<in> set (rpairs ?r)" "in_pair v p'"
      using vr gamma_iff [OF from_pairs_ok] by auto
    moreover have "v AND maskw (rwidth r) = v" using vw w(2) by (simp add: le_maskw_mask_iff)
    ultimately have "v \<in> gamma (?r\<lparr>rbits := d\<rparr>)"
      using d(2) vw by (auto simp: gamma_def contains_def w(3))
    with False c(1) d ne v(1) show ?thesis by (simp add: narrow_alt Let_def)
  qed
qed

subsection \<open>At most three intervals are kept exactly\<close>

lemma merge_pair_exact:
  assumes "length ps < PAIRS" "ps \<noteq> [] \<Longrightarrow> fst (last ps) \<le> fst p"
    and "q \<in> set (merge_pair ps p)" "in_pair v q"
  shows "in_pair v p \<or> (\<exists>r \<in> set ps. in_pair v r)"
proof (cases ps rule: rev_cases)
  case Nil
  with assms(3,4) show ?thesis by (auto simp: merge_pair_def split: prod.splits)
next
  case (snoc qs l)
  obtain a b where l: "l = (a, b)" by (cases l)
  obtain lo hi where p: "p = (lo, hi)" by (cases p)
  show ?thesis
  proof (cases "lo \<le> saturating_add b 1")
    case False
    with assms show ?thesis by (auto simp: merge_pair_def snoc l p)
  next
    case True
    then have m: "merge_pair ps p = qs @ [(a, max b hi)]"
      by (simp add: merge_pair_def snoc l p)
    show ?thesis
    proof (cases "q = (a, max b hi)")
      case False
      with assms(3,4) m show ?thesis by (auto simp: snoc)
    next
      case q: True
      have "uint lo \<le> uint b + 1" using True by (auto simp: word_le_def uint_saturating_add)
      then have "in_pair v (a, b) \<or> in_pair v (lo, hi)"
        using assms(4) by (auto simp: q in_pair_def word_le_def uint_max)
      then show ?thesis by (auto simp: snoc l p)
    qed
  qed
qed

lemma length_merge_pair: "length (merge_pair ps p) \<le> Suc (length ps)"
  by (auto simp: merge_pair_def split: prod.splits)

lemma last_merge_pair:
  "(ps \<noteq> [] \<Longrightarrow> fst (last ps) \<le> fst p) \<Longrightarrow> fst (last (merge_pair ps p)) \<le> fst p"
  by (auto simp: merge_pair_def split: prod.splits)

lemma merge_fold_exact:
  assumes "sorted xs" "length ps + length xs \<le> PAIRS"
    and "ps \<noteq> [] \<Longrightarrow> \<forall>p \<in> set xs. fst (last ps) \<le> fst p"
    and "q \<in> set (foldl merge_pair ps xs)" "in_pair v q"
  shows "\<exists>r \<in> set ps \<union> set xs. in_pair v r"
  using assms
proof (induction xs arbitrary: ps)
  case Nil
  then show ?case by auto
next
  case (Cons x xs)
  let ?ps = "merge_pair ps x"
  have le: "ps \<noteq> [] \<Longrightarrow> fst (last ps) \<le> fst x" using Cons.prems(3) by simp
  have "\<forall>p \<in> set xs. fst x \<le> fst p"
    using Cons.prems(1) by (auto simp: less_eq_prod_def)
  then have "\<forall>p \<in> set xs. fst (last ?ps) \<le> fst p"
    using last_merge_pair [of ps x] le by (blast intro: order_trans)
  moreover have "length ?ps + length xs \<le> PAIRS"
    using Cons.prems(2) length_merge_pair [of ps x] by simp
  ultimately have "\<exists>r \<in> set ?ps \<union> set xs. in_pair v r"
    using Cons.prems by (intro Cons.IH) auto
  moreover have "in_pair v x \<or> (\<exists>r \<in> set ps. in_pair v r)" if "r \<in> set ?ps" "in_pair v r" for r
    using merge_pair_exact [OF _ le that] Cons.prems(2) by simp
  ultimately show ?case by auto
qed

lemma gamma_from_pairs_exact:
  assumes "length ps \<le> PAIRS"
  shows "gamma (from_pairs ps w) =
    {v. \<exists>p \<in> set (masked_pairs (clampw w) ps). in_pair v p}"
proof -
  let ?m = "masked_pairs (clampw w) ps"
  have len: "length ?m \<le> PAIRS"
    unfolding masked_pairs_def
    by (rule order_trans [OF length_filter_le]) (simp add: assms)
  have "\<exists>p \<in> set ?m. in_pair v p" if v: "v \<in> gamma (from_pairs ps w)" for v
  proof -
    obtain q where "q \<in> set (rpairs (from_pairs ps w))" "in_pair v q"
      using v gamma_iff [OF from_pairs_ok] by blast
    then have "q \<in> set (foldl merge_pair [] (sort ?m))" "in_pair v q"
      by (simp_all add: from_pairs_eq merged_def Let_def)
    then show ?thesis
      using merge_fold_exact [of "sort ?m" "[]"] len by auto
  qed
  then show ?thesis
    using from_pairs_sound_masked [of _ w ps] by blast
qed

lemma pair_in_mask:
  assumes "w \<le> 128" shows "v \<le> maskw w \<Longrightarrow> v AND maskw w = v"
  using assms by (simp add: le_maskw_mask_iff)

lemma between_ok [simp]: "range_ok (between lo hi w)"
  by (simp add: between_def Let_def)

lemma gamma_between:
  assumes "0 < w" "w \<le> 128" "lo \<le> maskw w" "hi \<le> maskw w"
  shows "gamma (between lo hi w) =
    {v. v \<le> maskw w \<and> (if lo \<le> hi then lo \<le> v \<and> v \<le> hi else v \<le> hi \<or> lo \<le> v)}"
  using assms order_trans [OF _ assms(4)]
  by (auto simp: between_def Let_def pair_in_mask gamma_from_pairs_exact PAIRS_def
      masked_pairs_def in_pair_def)

lemma gamma_other_than:
  assumes "0 < w" "w \<le> 128"
  shows "gamma (other_than x w) = {v. v \<le> maskw w \<and> v \<noteq> x AND maskw w}"
proof -
  let ?x = "x AND maskw w"
  have xw: "?x \<le> maskw w" using assms by simp
  let ?ps = "(if ?x > 0 then [(0, ?x - 1)] else []) @
    (if ?x < maskw w then [(?x + 1, maskw w)] else [])"
  have down: "uint (?x - 1) = uint ?x - 1" if "?x > 0"
    using that by (intro uint_sub_small [THEN trans]) (auto simp: word_le_def word_less_def)
  have up: "uint (?x + 1) = uint ?x + 1" if "?x < maskw w"
    using that uint_lt_size [of "maskw w"]
    by (intro uint_add_small [THEN trans]) (auto simp: word_less_def)
  have "\<forall>p \<in> set ?ps. pair_in w p"
    using down up xw by (auto simp: pair_in_def word_le_def word_less_def)
  then have m: "masked_pairs w ?ps = ?ps" by (rule masked_pairs_id [OF assms(2)])
  have "in_pair v (0, ?x - 1) \<longleftrightarrow> v < ?x" if "?x > 0" for v
    using that down by (auto simp: in_pair_def word_le_def word_less_def)
  moreover have "in_pair v (?x + 1, maskw w) \<longleftrightarrow> ?x < v \<and> v \<le> maskw w" if "?x < maskw w" for v
    using that up by (auto simp: in_pair_def word_le_def word_less_def)
  moreover have "?x > 0" if "v < ?x" for v
    using that by (metis word_gt_0 word_not_simps(1))
  moreover have "v \<le> maskw w" if "v < ?x" for v
    using that xw by (rule less_imp_le [THEN order_trans])
  moreover have "?x < maskw w" if "?x < v" "v \<le> maskw w" for v
    using that by (rule less_le_trans)
  ultimately have "(\<exists>p \<in> set ?ps. in_pair v p) \<longleftrightarrow> v \<le> maskw w \<and> v \<noteq> ?x" for v
    by (cases v ?x rule: linorder_cases) (auto simp: not_less_iff_gr_or_eq)
  then show ?thesis
    using gamma_from_pairs_exact [of ?ps w] assms
    by (simp add: other_than_def Let_def m PAIRS_def)
qed

subsection \<open>Combining\<close>

lemma union_spec:
  assumes a: "range_ok a" and b: "range_ok b" and eq: "rwidth a = rwidth b"
  shows "\<exists>r. union a b = Some r \<and> range_ok r \<and> rwidth r = rwidth a \<and> gamma a \<union> gamma b \<subseteq> gamma r"
proof -
  note wa = range_okD [OF a] and wb = range_okD [OF b, folded eq]
  have none: "gamma r = {}" if "is_empty r" for r
    using that by (simp add: gamma_def contains_def is_empty_def)
  let ?f = "from_pairs (rpairs a @ rpairs b) (rwidth a)" and ?j = "join (rbits a) (rbits b)"
  have j: "bits_ok (rwidth ?f) ?j" using wa wb by (simp add: join_ok)
  have "v \<in> gamma (narrow ?f ?j)" if v: "v \<in> gamma a \<union> gamma b" for v
  proof (rule narrow_sound [OF from_pairs_ok j])
    obtain p where p: "p \<in> set (rpairs a @ rpairs b)" "in_pair v p"
      using v gamma_iff [OF a] gamma_iff [OF b] by auto
    then have "pair_in (rwidth a) p"
      using pairs_okD [OF wa(4), of p] pairs_okD [OF wb(4), of p] by auto
    with p show "v \<in> gamma ?f"
      by (intro from_pairs_sound [of p]) (simp_all add: pair_in_def wa)
    show "allows ?j v"
      using v gamma_iff [OF a] gamma_iff [OF b] wa wb by (auto intro!: join_sound)
  qed
  then show ?thesis
    using a b eq none narrow_ok_width [OF from_pairs_ok j] wa(3) by (auto simp: union_def Let_def)
qed

definition meets :: "interval list \<Rightarrow> interval list \<Rightarrow> interval list" where
  "meets ps qs = filter (\<lambda>(lo, hi). lo \<le> hi)
     (concat (map (\<lambda>(lo, hi). map (\<lambda>(start, end). (max lo start, min hi end)) qs) ps))"

lemma in_meets:
  assumes "p \<in> set ps" "q \<in> set qs" "in_pair v p" "in_pair v q"
  shows "(max (fst p) (fst q), min (snd p) (snd q)) \<in> set (meets ps qs)"
proof -
  have "max (fst p) (fst q) \<le> v" "v \<le> min (snd p) (snd q)"
    using assms(3,4) by (simp_all add: in_pair_def)
  then have "max (fst p) (fst q) \<le> min (snd p) (snd q)" by (rule order_trans)
  moreover have "(max (fst p) (fst q), min (snd p) (snd q)) \<in>
      set (concat (map (\<lambda>(lo, hi). map (\<lambda>(start, end). (max lo start, min hi end)) qs) ps))"
  proof -
    obtain a b c d where pq: "p = (a, b)" "q = (c, d)" by (cases p; cases q) blast
    have "(max a c, min b d) \<in> set (map (\<lambda>(start, end). (max a start, min b end)) qs)"
      using imageI [OF assms(2), of "\<lambda>(start, end). (max a start, min b end)"] by (simp add: pq)
    then have "\<exists>zs \<in> (\<lambda>(lo, hi). map (\<lambda>(start, end). (max lo start, min hi end)) qs) ` set ps.
        (max a c, min b d) \<in> set zs"
      using assms(1) by (intro bexI [OF _ image_eqI [OF _ assms(1)]]) (simp_all add: pq)
    then show ?thesis by (simp add: pq)
  qed
  ultimately show ?thesis by (simp add: meets_def)
qed

lemma intersect_spec:
  assumes a: "range_ok a" and b: "range_ok b" and eq: "rwidth a = rwidth b"
  shows "\<exists>r. intersect a b = Some r \<and> range_ok r \<and> rwidth r = rwidth a \<and> gamma a \<inter> gamma b \<subseteq> gamma r"
proof -
  note wa = range_okD [OF a] and wb = range_okD [OF b, folded eq]
  let ?f = "from_pairs (meets (rpairs a) (rpairs b)) (rwidth a)"
  have n1: "range_ok (narrow ?f (rbits a))" "rwidth (narrow ?f (rbits a)) = rwidth a"
    using narrow_ok_width [OF from_pairs_ok, of "meets (rpairs a) (rpairs b)" "rwidth a" "rbits a"] wa
    by simp_all
  have n2: "range_ok (narrow (narrow ?f (rbits a)) (rbits b))"
    "rwidth (narrow (narrow ?f (rbits a)) (rbits b)) = rwidth a"
    using narrow_ok_width [OF n1(1), of "rbits b"] n1(2) wb by simp_all
  have "v \<in> gamma (narrow (narrow ?f (rbits a)) (rbits b))" if v: "v \<in> gamma a" "v \<in> gamma b" for v
  proof -
    obtain p q where p: "p \<in> set (rpairs a)" "in_pair v p" and q: "q \<in> set (rpairs b)" "in_pair v q"
      using v gamma_iff [OF a] gamma_iff [OF b] by auto
    let ?i = "(max (fst p) (fst q), min (snd p) (snd q))"
    have "?i \<in> set (meets (rpairs a) (rpairs b))" using in_meets p q by blast
    moreover have "in_pair v ?i" using p q by (simp add: in_pair_def)
    moreover have "snd ?i \<le> maskw (clampw (rwidth a))"
      using pairs_okD [OF wa(4) p(1)] wa(3) by (auto simp: pair_in_def min_def)
    ultimately have "v \<in> gamma ?f" by (rule from_pairs_sound)
    then have "v \<in> gamma (narrow ?f (rbits a))"
      using narrow_sound [OF from_pairs_ok] v(1) gamma_iff [OF a] wa by simp
    then show ?thesis
      using narrow_sound [OF n1(1), of "rbits b"] v(2) gamma_iff [OF b] wb n1(2) by simp
  qed
  then show ?thesis
    using eq n2 by (auto simp: intersect_def Let_def meets_def)
qed

end
