(* ===== verification/RangeQuery.thy ===== *)
theory RangeQuery
  imports RangeCore
begin

text \<open>
  What the questions asked of a range (\<open>Range::unsigned\<close>, \<open>signed\<close>, \<open>values\<close>,
  \<open>singleton\<close>, \<open>fits_unsigned\<close>, \<open>fits_signed\<close>, \<open>invert\<close> of
  \<open>crates/rucc-opt/src/range.rs\<close>, defined in RangeCore) answer about every value the
  range can hold.
\<close>

section \<open>First and last intervals\<close>

lemma pairs_ok_order:
  assumes "pairs_ok w ps" "i < j" "j < length ps"
  shows "uint (snd (ps ! i)) + 1 < uint (fst (ps ! j))"
  using assms sorted_wrt_nth_less [of "\<lambda>p q. uint (snd p) + 1 < uint (fst q)" ps i j]
  by (simp add: pairs_ok_def)

lemma pairs_ok_mono:
  assumes "pairs_ok w ps" "i \<le> j" "j < length ps"
  shows "fst (ps ! i) \<le> fst (ps ! j)" "snd (ps ! i) \<le> snd (ps ! j)"
proof -
  have "fst (ps ! i) \<le> fst (ps ! j) \<and> snd (ps ! i) \<le> snd (ps ! j)"
  proof (cases "i = j")
    case False
    then have lt: "uint (snd (ps ! i)) + 1 < uint (fst (ps ! j))"
      using pairs_ok_order assms by simp
    have "pair_in w (ps ! i)" "pair_in w (ps ! j)"
      using assms by (auto intro!: pairs_okD [OF assms(1)] nth_mem)
    with lt show ?thesis by (simp add: pair_in_def word_le_def)
  qed simp
  then show "fst (ps ! i) \<le> fst (ps ! j)" "snd (ps ! i) \<le> snd (ps ! j)" by simp_all
qed

lemma find_lowest:
  assumes "pairs_ok w ps" "find P ps = Some p" "q \<in> set ps" "P q"
  shows "fst p \<le> fst q"
proof -
  obtain i where i: "i < length ps" "p = ps ! i" "\<forall>j<i. \<not> P (ps ! j)"
    using assms(2) by (auto simp: find_Some_iff)
  obtain k where k: "k < length ps" "q = ps ! k" using assms(3) by (auto simp: in_set_conv_nth)
  have "i \<le> k" using i k assms(4) by (meson not_le)
  then show ?thesis using pairs_ok_mono [OF assms(1), of i k] i k by simp
qed

lemma find_highest:
  assumes "pairs_ok w ps" "find P (rev ps) = Some p" "q \<in> set ps" "P q"
  shows "snd q \<le> snd p"
proof -
  obtain i where i: "i < length ps" "p = rev ps ! i" "\<forall>j<i. \<not> P (rev ps ! j)"
    using assms(2) by (auto simp: find_Some_iff)
  obtain k where k: "k < length (rev ps)" "q = rev ps ! k"
    using assms(3) by (metis in_set_conv_nth set_rev)
  have ik: "i \<le> k" using i k assms(4) by (meson not_le)
  have "q = ps ! (length ps - Suc k)" "p = ps ! (length ps - Suc i)"
    using i k by (simp_all add: rev_nth)
  then show ?thesis
    using pairs_ok_mono [OF assms(1), of "length ps - Suc k" "length ps - Suc i"] ik i by simp
qed

lemma hd_lowest: "pairs_ok w ps \<Longrightarrow> q \<in> set ps \<Longrightarrow> fst (hd ps) \<le> fst q"
  by (cases ps) (auto intro: find_lowest [of w ps "\<lambda>_. True"])

lemma last_highest: "pairs_ok w ps \<Longrightarrow> q \<in> set ps \<Longrightarrow> snd q \<le> snd (last ps)"
  by (cases ps rule: rev_cases) (auto intro: find_highest [of w ps "\<lambda>_. True"])

section \<open>Bounds\<close>

lemma gammaE:
  assumes "range_ok r" "v \<in> gamma r"
  obtains q where "q \<in> set (rpairs r)" "fst q \<le> v" "v \<le> snd q" "rpairs r \<noteq> []"
    "v \<le> maskw (rwidth r)"
proof -
  obtain q where "q \<in> set (rpairs r)" "fst q \<le> v" "v \<le> snd q" "v \<le> maskw (rwidth r)"
    using assms(2) unfolding gamma_iff [OF assms(1)] in_pair_def by blast
  then show thesis by (auto intro: that)
qed

lemma unsigned_bounds_sound:
  assumes "range_ok r" "v \<in> gamma r"
  shows "\<exists>lo hi. unsigned_bounds r = Some (lo, hi) \<and> lo \<le> v \<and> v \<le> hi \<and> hi \<le> maskw (rwidth r)"
proof -
  note ps = range_okD(4) [OF assms(1)]
  obtain q where q: "q \<in> set (rpairs r)" "fst q \<le> v" "v \<le> snd q" "rpairs r \<noteq> []"
    using gammaE [OF assms] by blast
  have "pair_in (rwidth r) (last (rpairs r))" using pairs_okD [OF ps last_in_set [OF q(4)]] .
  then show ?thesis
    using hd_lowest [OF ps q(1)] last_highest [OF ps q(1)] q
    by (auto simp: unsigned_bounds_def pair_in_def)
qed

lemma unsigned_bounds_None: "unsigned_bounds r = None \<longleftrightarrow> is_empty r"
  by (simp add: unsigned_bounds_def is_empty_def)

lemma signed_at_mono:
  assumes "0 < w" "w \<le> 128" "v \<le> maskw w" "u \<le> v" "v < sign_bit w \<or> sign_bit w \<le> u"
  shows "signed_at u w \<le> signed_at v w"
proof -
  have u: "u \<le> maskw w" using assms(3,4) by simp
  note v = signed_at_value [OF assms(1-3)] signed_at_value [OF assms(1,2) u]
  have "uint v < 2 ^ w" using assms by (simp add: le_maskw_iff)
  then show ?thesis
    using assms(4,5) by (auto simp: v word_le_def word_less_def uint_sign_bit [OF assms(1,2)])
qed

lemma signed_at_cross:
  assumes "0 < w" "w \<le> 128" "v \<le> maskw w" "u \<le> maskw w" "v < sign_bit w" "sign_bit w \<le> u"
  shows "signed_at u w \<le> signed_at v w"
proof -
  note v = signed_at_value [OF assms(1-3)] signed_at_value [OF assms(1,2,4)]
  have "uint u < 2 ^ w" using assms by (simp add: le_maskw_iff)
  moreover have "uint v < 2 ^ (w - 1)" "2 ^ (w - 1) \<le> uint u"
    using assms(5,6) by (simp_all add: word_le_def word_less_def uint_sign_bit [OF assms(1,2)])
  moreover have "uint u - 2 ^ w \<le> uint v"
    using \<open>uint u < 2 ^ w\<close> uint_ge_0 [of v] by linarith
  ultimately show ?thesis by (simp add: v)
qed

lemma signed_lower:
  assumes "range_ok r" "v \<in> gamma r" "signed_bounds r = Some (mn, mx)"
  shows "mn \<le> signed_at v (rwidth r)"
proof -
  let ?w = "rwidth r" and ?b = "sign_bit (rwidth r)"
  let ?f = "find (\<lambda>p. snd p \<ge> ?b) (rpairs r)"
  note w = range_okD(1,2) [OF assms(1)] and ps = range_okD(4) [OF assms(1)]
  obtain q where q: "q \<in> set (rpairs r)" "fst q \<le> v" "v \<le> snd q" "rpairs r \<noteq> []" "v \<le> maskw ?w"
    using gammaE [OF assms(1,2)] by blast
  show ?thesis
  proof (cases ?f)
    case None
    then have "snd q < ?b" using q(1) by (cases q) (auto simp: find_None_iff not_le)
    then have "v < ?b" using q(3) by (rule le_less_trans [rotated])
    moreover have "mn = signed_at (fst (hd (rpairs r))) ?w"
      using assms(3) None q(4) by (simp add: signed_bounds_def Let_def)
    ultimately show ?thesis
      using signed_at_mono [OF w q(5)] order_trans [OF hd_lowest [OF ps q(1)] q(2)] by simp
  next
    case (Some p)
    obtain lo hi where p: "p = (lo, hi)" by (cases p)
    have "p \<in> set (rpairs r)" "snd p \<ge> ?b" using Some by (auto simp: find_Some_iff)
    then have m: "max lo ?b \<le> maskw ?w"
      using pairs_okD [OF ps] by (fastforce simp: p pair_in_def max_def intro: order_trans)
    have mn: "mn = signed_at (max lo ?b) ?w"
      using assms(3) Some q(4) by (simp add: signed_bounds_def Let_def p)
    show ?thesis
    proof (cases "v < ?b")
      case True
      then show ?thesis using signed_at_cross [OF w q(5) m True] mn by simp
    next
      case False
      then have "?b \<le> snd q" using q(3) by simp
      then have "lo \<le> v" using find_lowest [OF ps Some q(1)] q(2) by (simp add: p)
      then show ?thesis using signed_at_mono [OF w q(5), of "max lo ?b"] False mn by simp
    qed
  qed
qed

lemma signed_upper:
  assumes "range_ok r" "v \<in> gamma r" "signed_bounds r = Some (mn, mx)"
  shows "signed_at v (rwidth r) \<le> mx"
proof -
  let ?w = "rwidth r" and ?b = "sign_bit (rwidth r)"
  let ?f = "find (\<lambda>p. fst p < ?b) (rev (rpairs r))"
  note w = range_okD(1,2) [OF assms(1)] and ps = range_okD(4) [OF assms(1)]
  obtain q where q: "q \<in> set (rpairs r)" "fst q \<le> v" "v \<le> snd q" "rpairs r \<noteq> []" "v \<le> maskw ?w"
    using gammaE [OF assms(1,2)] by blast
  have b: "0 < uint ?b" using uint_sign_bit [OF w] by simp
  have below: "uint (?b - 1) = uint ?b - 1"
    using b by (intro uint_sub_small [THEN trans]) (auto simp: word_le_def)
  show ?thesis
  proof (cases ?f)
    case None
    then have "?b \<le> fst q" using q(1) by (cases q) (auto simp: find_None_iff not_less)
    then have bv: "?b \<le> v" using q(2) by (rule order_trans)
    have "mx = signed_at (snd (last (rpairs r))) ?w"
      using assms(3) None q(4) by (simp add: signed_bounds_def Let_def)
    moreover have "snd (last (rpairs r)) \<le> maskw ?w"
      using pairs_okD [OF ps last_in_set [OF q(4)]] by (simp add: pair_in_def)
    moreover have "v \<le> snd (last (rpairs r))"
      using q(3) last_highest [OF ps q(1)] by (rule order_trans)
    ultimately show ?thesis using signed_at_mono [OF w _ _ disjI2 [OF bv]] by simp
  next
    case (Some p)
    obtain lo hi where p: "p = (lo, hi)" by (cases p)
    have m: "min hi (?b - 1) < ?b"
      using below by (auto simp: word_less_def uint_min)
    then have mw: "min hi (?b - 1) \<le> maskw ?w"
      using w by (simp add: le_maskw_iff word_less_def uint_sign_bit)
        (auto intro: less_le_trans power_increasing)
    have mx: "mx = signed_at (min hi (?b - 1)) ?w"
      using assms(3) Some q(4) by (simp add: signed_bounds_def Let_def p)
    show ?thesis
    proof (cases "v < ?b")
      case True
      then have "fst q < ?b" using q(2) by simp
      then have "v \<le> hi" using find_highest [OF ps Some q(1)] q(3) by (simp add: p)
      moreover have "v \<le> ?b - 1" using True below by (simp add: word_le_def word_less_def)
      ultimately show ?thesis using signed_at_mono [OF w mw, of v] m mx by simp
    next
      case False
      then show ?thesis using signed_at_cross [OF w mw q(5) m] mx by simp
    qed
  qed
qed

lemma signed_bounds_sound:
  assumes "range_ok r" "v \<in> gamma r"
  shows "\<exists>mn mx. signed_bounds r = Some (mn, mx) \<and> mn \<le> signed_at v (rwidth r)
    \<and> signed_at v (rwidth r) \<le> mx"
proof -
  have "rpairs r \<noteq> []" using gammaE [OF assms] by blast
  then obtain mn mx where "signed_bounds r = Some (mn, mx)"
    by (auto simp: signed_bounds_def Let_def)
  with signed_lower [OF assms] signed_upper [OF assms] show ?thesis by blast
qed

section \<open>Facts asked for by the passes\<close>

lemma len128: "LENGTH(128) = 128"
  by simp

lemma singleton_sound:
  assumes "range_ok r" "singleton r = Some c"
  shows "gamma r \<subseteq> {c}"
proof -
  have "rpairs r = [(c, c)]"
    using assms(2) by (auto simp: singleton_def split: list.splits prod.splits if_splits)
  then show ?thesis using gamma_iff [OF assms(1)] by (auto simp: in_pair_def)
qed

lemma nonzero_sound: "range_ok r \<Longrightarrow> nonzero r \<Longrightarrow> v \<in> gamma r \<Longrightarrow> v \<noteq> 0"
  by (auto simp: nonzero_def gamma_def contains_def Let_def)

lemma le_maskw_mono:
  assumes "w \<le> 128" "w \<le> u" shows "maskw w \<le> maskw u"
proof (cases "u \<le> 128")
  case True
  have "(2::int) ^ w \<le> 2 ^ u" using assms(2) by (intro power_increasing) simp_all
  then have "(2::int) ^ w - 1 < 2 ^ u" by linarith
  with True assms show ?thesis by (simp add: le_maskw_iff uint_maskw)
next
  case False
  then show ?thesis by (simp add: maskw_def MAX_BITS_def)
qed

lemma fits_unsigned_sound:
  assumes "range_ok r" "fits_unsigned r bits" "v \<in> gamma r"
  shows "v \<le> maskw bits"
proof -
  obtain lo hi where b: "unsigned_bounds r = Some (lo, hi)" "v \<le> hi" "v \<le> maskw (rwidth r)"
    using unsigned_bounds_sound [OF assms(1,3)] order_trans by blast
  show ?thesis
  proof (cases "rwidth r \<le> bits")
    case True
    then have "maskw (rwidth r) \<le> maskw bits"
      using range_okD(2) [OF assms(1)] by (intro le_maskw_mono)
    then show ?thesis using b(3) by simp
  next
    case False
    then show ?thesis using assms(2) b by (auto simp: fits_unsigned_def)
  qed
qed

lemma fits_signed_sound:
  assumes "range_ok r" "fits_signed r bits = Some True" "v \<in> gamma r"
  shows "- (2 ^ (bits - 1)) \<le> signed_at v (rwidth r) \<and> signed_at v (rwidth r) < 2 ^ (bits - 1)"
proof -
  let ?s = "signed_at v (rwidth r)"
  note w = range_okD(1,2) [OF assms(1)]
  obtain mn mx where b: "signed_bounds r = Some (mn, mx)" "mn \<le> ?s" "?s \<le> mx"
    using signed_bounds_sound [OF assms(1,3)] by blast
  have v: "v \<le> maskw (rwidth r)" using gammaE [OF assms(1,3)] .
  show ?thesis
  proof (cases "rwidth r \<le> bits")
    case True
    then have "(2::int) ^ (rwidth r - 1) \<le> 2 ^ (bits - 1)" by (intro power_increasing) auto
    then show ?thesis using signed_at_limits [OF w v] by linarith
  next
    case False
    then show ?thesis using assms(2) b by (auto simp: fits_signed_def Let_def split: if_splits)
  qed
qed

text \<open>The values listed are those of the intervals, each once, and no more than the limit.\<close>

definition pair_values :: "interval list \<Rightarrow> u128 set" where
  "pair_values ps = {v. \<exists>p \<in> set ps. in_pair v p}"

lemma interval_values:
  fixes lo hi :: u128
  assumes "lo \<le> hi"
  shows "set (map (\<lambda>i. lo + word_of_nat i) [0..<nat (uint (hi - lo)) + 1]) = {v. lo \<le> v \<and> v \<le> hi}"
    (is "?L = ?R") and "distinct (map (\<lambda>i. lo + word_of_nat i) [0..<nat (uint (hi - lo)) + 1])"
proof -
  have d: "uint (hi - lo) = uint hi - uint lo" using assms by (rule uint_sub_small)
  have at: "uint (lo + word_of_nat i) = uint lo + int i" if "i < nat (uint (hi - lo)) + 1" for i
  proof -
    have "int i \<le> uint hi - uint lo"
      using that uint_ge_0 [of "hi - lo"] unfolding d by linarith
    then have i: "uint lo + int i < 2 ^ 128" "int i < 2 ^ 128"
      using uint_lt_size [of hi] uint_ge_0 [of lo] unfolding len128 by linarith+
    have "uint (word_of_nat i :: u128) = int i"
      using i by (simp add: unsigned_of_nat take_bit_nat_eq_self)
    then show ?thesis using i by (simp add: uint_add_small)
  qed
  show "?L = ?R"
  proof (intro equalityI subsetI)
    fix v assume "v \<in> ?L"
    then obtain i where "i < nat (uint (hi - lo)) + 1" "v = lo + word_of_nat i"
      by (auto simp only: set_map set_upt image_iff atLeastLessThan_iff)
    then show "v \<in> ?R" using at [of i] d assms by (simp add: word_le_def)
  next
    fix v assume v: "v \<in> ?R"
    let ?i = "nat (uint v - uint lo)"
    have i: "?i < nat (uint (hi - lo)) + 1" using v d by (simp add: word_le_def less_Suc_eq_le nat_mono)
    then have "uint (lo + word_of_nat ?i) = uint v" using at [of ?i] v by (simp add: word_le_def)
    then have "v = lo + word_of_nat ?i" by (intro word_uint_eqI) (rule sym)
    with i show "v \<in> ?L" by (metis (no_types, lifting) atLeastLessThan_iff imageI le0 set_map set_upt)
  qed
  show "distinct (map (\<lambda>i. lo + word_of_nat i) [0..<nat (uint (hi - lo)) + 1])"
    unfolding distinct_map
  proof (intro conjI inj_onI)
    fix i j
    assume "i \<in> set [0..<nat (uint (hi - lo)) + 1]" "j \<in> set [0..<nat (uint (hi - lo)) + 1]"
      and eq: "lo + word_of_nat i = lo + (word_of_nat j :: u128)"
    then have "i < nat (uint (hi - lo)) + 1" "j < nat (uint (hi - lo)) + 1"
      by (simp_all only: set_upt atLeastLessThan_iff)
    from at [OF this(1)] at [OF this(2)] show "i = j" unfolding eq by linarith
  qed simp
qed

lemma list_values_exact:
  assumes "pairs_ok w ps" "list_values ps limit vs = Some out" "length vs \<le> limit"
  shows "set out = set vs \<union> pair_values ps \<and> length out \<le> limit"
  using assms
proof (induction ps arbitrary: vs)
  case Nil
  then show ?case by (simp add: pair_values_def)
next
  case (Cons p ps)
  obtain lo hi where p: "p = (lo, hi)" by (cases p)
  have ok: "lo \<le> hi" "pairs_ok w ps" using Cons.prems(1) by (simp_all add: p pairs_ok_def)
  let ?new = "map (\<lambda>i. lo + word_of_nat i) [0..<nat (uint (hi - lo)) + 1]"
  have "list_values ps limit (vs @ ?new) = Some out" "length (vs @ ?new) \<le> limit"
    using Cons.prems(2) unfolding p list_values.simps Let_def length_append
    by (metis not_le option.distinct(1))+
  from Cons.IH [OF ok(2) this] show ?case
    unfolding set_append interval_values(1) [OF ok(1)] by (auto simp: pair_values_def in_pair_def p)
qed

lemma list_range_sound:
  assumes "range_ok r" "list_range r limit = Some out"
  shows "gamma r \<subseteq> set out \<and> length out \<le> limit"
  using list_values_exact [OF range_okD(4) [OF assms(1)], of limit "[]" out] assms
    gamma_iff [OF assms(1)] by (auto simp: list_range_def pair_values_def)

section \<open>Inversion\<close>

lemma invert_pairs_covers:
  assumes "w \<le> 128" "pairs_ok w ps" "\<forall>p \<in> set ps. next \<le> fst p" "next \<le> v" "v \<le> maskw w"
    "v \<notin> pair_values ps"
  shows "\<exists>p \<in> set (invert_pairs ps next w). in_pair v p \<and> snd p \<le> maskw w"
  using assms
proof (induction ps "next" w rule: invert_pairs.induct)
  case (1 "next" w)
  then show ?case by (auto simp: in_pair_def intro: order_trans)
next
  case (2 lo hi rest "next" w)
  have ok: "lo \<le> hi" "hi \<le> maskw w" "pairs_ok w rest" "\<forall>p \<in> set rest. uint hi + 1 < uint (fst p)"
    using 2(3) by (simp_all add: pairs_ok_def)
  have out: "v < lo \<or> hi < v" "v \<notin> pair_values rest"
    using 2(7) by (auto simp: pair_values_def in_pair_def not_le)
  show ?case
  proof (cases "v < lo")
    case True
    then have "0 < uint lo" using uint_ge_0 [of v] unfolding word_less_uint by linarith
    then have "uint (lo - 1) = uint lo - 1"
      by (intro uint_sub_small [THEN trans]) (simp_all add: word_le_def)
    then have "in_pair v (next, lo - 1)" "lo - 1 \<le> maskw w" "next < lo"
      using True 2(5) ok by (auto simp: in_pair_def word_le_def word_less_def)
    then show ?thesis by auto
  next
    case False
    with out have v: "hi < v" by simp
    then have small: "uint hi + 1 < 2 ^ 128" using uint_lt_size [of v] by (simp add: word_less_def)
    then have c: "checked_add hi 1 = Some (hi + 1)" by (simp add: checked_add_def)
    have u: "uint (hi + 1) = uint hi + 1" using checked_add_SomeD [OF c] by simp
    have "\<forall>p \<in> set rest. hi + 1 \<le> fst p" using ok(4) u by (auto simp: word_le_def)
    moreover have "hi + 1 \<le> v" using v u by (simp add: word_le_def word_less_def)
    ultimately show ?thesis
      using 2(1) [OF c 2(2) ok(3) _ _ 2(6) out(2)] by (auto simp: c)
  qed
qed

lemma invert_sound:
  assumes "range_ok r" "v \<le> maskw (rwidth r)" "v \<notin> pair_values (rpairs r)"
  shows "v \<in> gamma (invert r)"
proof -
  note w = range_okD [OF assms(1)]
  obtain p where "p \<in> set (invert_pairs (rpairs r) 0 (rwidth r))" "in_pair v p" "snd p \<le> maskw (rwidth r)"
    using invert_pairs_covers [OF w(2,4) _ _ assms(2,3), of 0] by auto
  then show ?thesis unfolding invert_def using w(3) by (intro from_pairs_sound) auto
qed

section \<open>Properties\<close>

text \<open>
  C12: narrowing by known bits loses nothing. For a well-formed range and canonical bits of its
  width \<open>Range::narrow\<close> answers a well-formed range of the same width that holds every value of
  the range the bits allow, whatever it cut from the intervals.
\<close>

theorem range_narrow_sound:
  assumes "range_ok r" "bits_ok (rwidth r) b"
  shows "range_ok (narrow r b) \<and> rwidth (narrow r b) = rwidth r \<and>
    {v \<in> gamma r. allows b v} \<subseteq> gamma (narrow r b)"
  using narrow_ok_width [OF assms] narrow_sound [OF assms] by blast

theorem range_narrow_sound_witness:
  "64 \<in> gamma (narrow (range_full 8) (from_parts 0 240 8))"
proof -
  have "allows (from_parts 0 240 8) 64"
    by (simp add: allows_def from_parts_def maskw_def MAX_BITS_def Let_def)
  then show ?thesis
    using range_narrow_sound [of "range_full 8" "from_parts 0 240 8"]
    by (auto simp: gamma_full maskw_def MAX_BITS_def)
qed

text \<open>
  C13: union and intersection are sound. Two well-formed ranges of one width never reach the
  assertion; the union holds every value of either, the intersection every value of both, and
  both are well-formed: ascending, apart, and no more than three intervals.
\<close>

theorem range_lattice_sound:
  assumes "range_ok a" "range_ok b" "rwidth a = rwidth b"
  shows "\<exists>u i. union a b = Some u \<and> intersect a b = Some i \<and>
    range_ok u \<and> rwidth u = rwidth a \<and> range_ok i \<and> rwidth i = rwidth a \<and>
    gamma a \<union> gamma b \<subseteq> gamma u \<and> gamma a \<inter> gamma b \<subseteq> gamma i"
  using union_spec [OF assms] intersect_spec [OF assms] by blast

theorem range_lattice_sound_witness:
  "\<exists>u. union (range_exactly 3 8) (range_exactly 9 8) = Some u \<and> range_ok u \<and> 3 \<in> gamma u \<and> 9 \<in> gamma u"
  using range_lattice_sound [of "range_exactly 3 8" "range_exactly 9 8"]
  by (auto simp: gamma_exactly maskw_def MAX_BITS_def)

text \<open>
  C14: the bounds of a range are bounds. Every value of a well-formed range lies between its
  unsigned bounds, and its signed reading between its signed bounds, also when the intervals
  straddle the sign boundary.
\<close>

theorem range_bounds_sound:
  assumes "range_ok r" "v \<in> gamma r"
  shows "(\<exists>lo hi. unsigned_bounds r = Some (lo, hi) \<and> lo \<le> v \<and> v \<le> hi) \<and>
    (\<exists>mn mx. signed_bounds r = Some (mn, mx) \<and> mn \<le> signed_at v (rwidth r) \<and> signed_at v (rwidth r) \<le> mx)"
  using unsigned_bounds_sound [OF assms] signed_bounds_sound [OF assms] by blast

theorem range_bounds_sound_witness:
  "\<exists>mn mx. signed_bounds (range_full 8) = Some (mn, mx) \<and> mn \<le> - 56"
proof -
  have "signed_at 200 8 = - 56" by (simp add: signed_at_value le_maskw_iff)
  then show ?thesis
    using range_bounds_sound [of "range_full 8" 200] by (auto simp: maskw_def MAX_BITS_def)
qed

text \<open>
  the values listed are all of them. When \<open>Range::list\<close> answers a list it has at most the
  limit's length and every value of the range is in it.
\<close>

theorem range_list_complete:
  assumes "range_ok r" "list_range r limit = Some out"
  shows "gamma r \<subseteq> set out \<and> length out \<le> limit"
  by (rule list_range_sound [OF assms])

theorem range_list_complete_witness: "\<exists>out. list_range (range_exactly 7 8) 4 = Some out \<and> 7 \<in> set out"
proof -
  have l: "list_range (range_exactly 7 8) 4 = Some [7]"
    by (simp add: list_range_def range_exactly_def Let_def maskw_def MAX_BITS_def)
  then show ?thesis
    using range_list_complete [OF range_exactly_ok l] by (simp add: gamma_exactly maskw_def MAX_BITS_def)
qed

definition evens :: range where
  "evens = \<lparr>rpairs = [(0, 255)], rwidth = 8, rbits = \<lparr>kb_value = 0, kb_unknown = 254\<rparr>\<rparr>"

text \<open>
  \<open>Range::invert\<close> looks at the intervals and not at the known bits. Every value outside the
  intervals is in the inversion, but the even values of eight bits, one interval with the low
  bit known clear, invert to the empty range: the odd ones are in neither.
\<close>

theorem invert_forgets_bits:
  "range_ok evens \<and> 1 \<le> maskw (rwidth evens) \<and> 1 \<notin> gamma evens \<and> 1 \<notin> gamma (invert evens)"
proof (intro conjI)
  have m: "maskw 8 = 255" by (simp add: maskw_def MAX_BITS_def)
  show ok: "range_ok evens"
    by (simp add: range_ok_def evens_def PAIRS_def pairs_ok_def bits_ok_def m)
  show "1 \<le> maskw (rwidth evens)" by (simp add: evens_def m)
  show "1 \<notin> gamma evens" by (simp add: gamma_def contains_def Let_def allows_def evens_def m)
  have "rpairs (invert evens) = []"
    by (simp add: invert_def evens_def checked_add_def m from_pairs_def merged_def range_empty_def Let_def)
  then show "1 \<notin> gamma (invert evens)" by (simp add: gamma_def contains_def Let_def)
qed

end
