(* ===== verification/IrCore.thy ===== *)
theory IrCore
  imports KnownBits
begin

text \<open>
  The vocabulary of the intermediate representation the passes share: the integer predicates
  of \<open>crates/rucc-ir/src/opcode.rs\<close>, the instruction flags of \<open>flags.rs\<close>, and the
  constants of \<open>inst.rs\<close>. A predicate's meaning at a width is \<open>pred_holds\<close>, over the
  two readings of a bit pattern; \<open>inverse\<close> and \<open>swapped\<close> are proved against it.
\<close>

section \<open>Integer predicates\<close>

datatype int_pred = Eq | Ne | Slt | Sle | Sgt | Sge | Ult | Ule | Ugt | Uge

definition all_preds :: "int_pred list" where
  "all_preds = [Eq, Ne, Slt, Sle, Sgt, Sge, Ult, Ule, Ugt, Uge]"

primrec pred_name :: "int_pred \<Rightarrow> string" where
  "pred_name Eq = ''eq''"
| "pred_name Ne = ''ne''"
| "pred_name Slt = ''slt''"
| "pred_name Sle = ''sle''"
| "pred_name Sgt = ''sgt''"
| "pred_name Sge = ''sge''"
| "pred_name Ult = ''ult''"
| "pred_name Ule = ''ule''"
| "pred_name Ugt = ''ugt''"
| "pred_name Uge = ''uge''"

definition pred_from_name :: "string \<Rightarrow> int_pred option" where
  "pred_from_name name = find (\<lambda>pred. pred_name pred = name) all_preds"

primrec inverse_pred :: "int_pred \<Rightarrow> int_pred" where
  "inverse_pred Eq = Ne"
| "inverse_pred Ne = Eq"
| "inverse_pred Slt = Sge"
| "inverse_pred Sge = Slt"
| "inverse_pred Sle = Sgt"
| "inverse_pred Sgt = Sle"
| "inverse_pred Ult = Uge"
| "inverse_pred Uge = Ult"
| "inverse_pred Ule = Ugt"
| "inverse_pred Ugt = Ule"

primrec swapped :: "int_pred \<Rightarrow> int_pred" where
  "swapped Eq = Eq"
| "swapped Ne = Ne"
| "swapped Slt = Sgt"
| "swapped Sgt = Slt"
| "swapped Sle = Sge"
| "swapped Sge = Sle"
| "swapped Ult = Ugt"
| "swapped Ugt = Ult"
| "swapped Ule = Uge"
| "swapped Uge = Ule"

definition pred_is_signed :: "int_pred \<Rightarrow> bool" where
  "pred_is_signed pred \<longleftrightarrow> pred \<in> {Slt, Sle, Sgt, Sge}"

definition pred_unsigned :: "int_pred \<Rightarrow> int_pred" where
  "pred_unsigned pred =
     (case pred of Slt \<Rightarrow> Ult | Sle \<Rightarrow> Ule | Sgt \<Rightarrow> Ugt | Sge \<Rightarrow> Uge | other \<Rightarrow> other)"

text \<open>The derived order is the order of declaration.\<close>

primrec pred_index :: "int_pred \<Rightarrow> nat" where
  "pred_index Eq = 0"
| "pred_index Ne = 1"
| "pred_index Slt = 2"
| "pred_index Sle = 3"
| "pred_index Sgt = 4"
| "pred_index Sge = 5"
| "pred_index Ult = 6"
| "pred_index Ule = 7"
| "pred_index Ugt = 8"
| "pred_index Uge = 9"

instantiation int_pred :: linorder
begin
definition less_eq_int_pred :: "int_pred \<Rightarrow> int_pred \<Rightarrow> bool" where
  "less_eq_int_pred p q \<longleftrightarrow> pred_index p \<le> pred_index q"
definition less_int_pred :: "int_pred \<Rightarrow> int_pred \<Rightarrow> bool" where
  "less_int_pred p q \<longleftrightarrow> pred_index p < pred_index q"
instance
proof
  fix p q :: int_pred
  show "p \<le> q \<Longrightarrow> q \<le> p \<Longrightarrow> p = q"
    by (cases p; cases q; simp add: less_eq_int_pred_def)
qed (auto simp: less_eq_int_pred_def less_int_pred_def)
end

subsection \<open>What a predicate means\<close>

primrec pred_holds :: "int_pred \<Rightarrow> nat \<Rightarrow> u128 \<Rightarrow> u128 \<Rightarrow> bool" where
  "pred_holds Eq w x y \<longleftrightarrow> x = y"
| "pred_holds Ne w x y \<longleftrightarrow> x \<noteq> y"
| "pred_holds Slt w x y \<longleftrightarrow> signed_at x w < signed_at y w"
| "pred_holds Sle w x y \<longleftrightarrow> signed_at x w \<le> signed_at y w"
| "pred_holds Sgt w x y \<longleftrightarrow> signed_at x w > signed_at y w"
| "pred_holds Sge w x y \<longleftrightarrow> signed_at x w \<ge> signed_at y w"
| "pred_holds Ult w x y \<longleftrightarrow> x < y"
| "pred_holds Ule w x y \<longleftrightarrow> x \<le> y"
| "pred_holds Ugt w x y \<longleftrightarrow> x > y"
| "pred_holds Uge w x y \<longleftrightarrow> x \<ge> y"

lemma pred_from_name_name: "pred_from_name (pred_name p) = Some p"
  by (cases p) (simp_all add: pred_from_name_def all_preds_def)

lemma pred_name_from_name: "pred_from_name s = Some p \<Longrightarrow> pred_name p = s"
  by (auto simp: pred_from_name_def find_Some_iff)

lemma inverse_pred_holds: "pred_holds (inverse_pred p) w x y \<longleftrightarrow> \<not> pred_holds p w x y"
  by (cases p) auto

lemma swapped_holds: "pred_holds (swapped p) w y x \<longleftrightarrow> pred_holds p w x y"
  by (cases p) auto

lemma signed_at_nonneg_iff:
  assumes "0 < w" "w \<le> 128" "v \<le> maskw w"
  shows "0 \<le> signed_at v w \<longleftrightarrow> uint v < 2 ^ (w - 1)"
  using assms by (auto simp: signed_at_value le_maskw_iff)

text \<open>Two values not negative compare the same under either reading.\<close>

lemma pred_unsigned_holds:
  assumes "0 < w" "w \<le> 128" "x \<le> maskw w" "y \<le> maskw w"
    "0 \<le> signed_at x w" "0 \<le> signed_at y w"
  shows "pred_holds (pred_unsigned p) w x y \<longleftrightarrow> pred_holds p w x y"
proof -
  have s: "signed_at x w = uint x" "signed_at y w = uint y"
    using assms signed_at_nonneg_iff [OF assms(1,2)] by (simp_all add: signed_at_value)
  show ?thesis
    by (cases p) (simp_all add: pred_unsigned_def s word_le_def word_less_def)
qed

section \<open>Instruction flags\<close>

type_synonym flags = u32

definition NONE :: flags where "NONE = 0"
definition NSW :: flags where "NSW = push_bit 0 1"
definition NUW :: flags where "NUW = push_bit 1 1"
definition EXACT :: flags where "EXACT = push_bit 2 1"
definition EARLY_THEN :: flags where "EARLY_THEN = push_bit 28 1"
definition EARLY_ELSE :: flags where "EARLY_ELSE = push_bit 29 1"

definition flags_empty :: "flags \<Rightarrow> bool" where "flags_empty f \<longleftrightarrow> f = 0"

definition flags_contains :: "flags \<Rightarrow> flags \<Rightarrow> bool" where
  "flags_contains f other \<longleftrightarrow> f AND other = other"

definition flags_intersects :: "flags \<Rightarrow> flags \<Rightarrow> bool" where
  "flags_intersects f other \<longleftrightarrow> f AND other \<noteq> 0"

definition flags_union :: "flags \<Rightarrow> flags \<Rightarrow> flags" where
  "flags_union f other = f OR other"

definition flags_intersection :: "flags \<Rightarrow> flags \<Rightarrow> flags" where
  "flags_intersection f other = f AND other"

definition flags_without :: "flags \<Rightarrow> flags \<Rightarrow> flags" where
  "flags_without f other = f AND NOT other"

definition turned :: "flags \<Rightarrow> flags" where
  "turned f =
     (let arms = flags_union EARLY_THEN EARLY_ELSE;
          out = flags_without f arms;
          out = (if flags_contains f EARLY_THEN then flags_union out EARLY_ELSE else out)
      in if flags_contains f EARLY_ELSE then flags_union out EARLY_THEN else out)"

lemma contains_bit: "n < 32 \<Longrightarrow> flags_contains f (push_bit n 1) \<longleftrightarrow> bit f n"
proof
  assume n: "n < 32" and "flags_contains f (push_bit n 1)"
  then have "bit (f AND push_bit n 1) n = bit (push_bit n 1 :: u32) n"
    by (simp add: flags_contains_def)
  then show "bit f n" using n by (simp add: bit_simps)
next
  assume "n < 32" "bit f n"
  then show "flags_contains f (push_bit n 1)"
    unfolding flags_contains_def by (intro bit_word_eqI) (auto simp: bit_simps)
qed

lemma flag_bits:
  "flags_contains f NSW \<longleftrightarrow> bit f 0" "flags_contains f NUW \<longleftrightarrow> bit f 1"
  "flags_contains f EARLY_THEN \<longleftrightarrow> bit f 28" "flags_contains f EARLY_ELSE \<longleftrightarrow> bit f 29"
  unfolding NSW_def NUW_def EARLY_THEN_def EARLY_ELSE_def by (rule contains_bit, simp)+

lemma bit_arms: "bit EARLY_THEN n \<longleftrightarrow> n = 28" "bit EARLY_ELSE n \<longleftrightarrow> n = 29"
  unfolding EARLY_THEN_def EARLY_ELSE_def by (auto simp only: bit_push_bit_iff bit_1_iff) simp_all

lemma contains_NONE [simp]: "\<not> flags_contains NONE NSW" "\<not> flags_contains NONE NUW"
  by (simp_all add: flag_bits NONE_def)

lemma contains_intersection:
  "flags_contains (flags_intersection f g) h \<longleftrightarrow> flags_contains f h \<and> flags_contains g h"
  by (auto simp: flags_contains_def flags_intersection_def bit_eq_iff bit_simps)

lemma turned_bit:
  "bit (turned f) n \<longleftrightarrow> (if n = 28 then bit f 29 else if n = 29 then bit f 28 else bit f n)"
  by (auto simp: turned_def Let_def flag_bits flags_union_def flags_without_def bit_simps bit_arms
      dest: bit_imp_le_length)

lemma turned_involution: "turned (turned f) = f"
  by (rule bit_word_eqI) (simp add: turned_bit)

end
