(* ===== verification/RangeOps.thy ===== *)
theory RangeOps
  imports RangeQuery IrCore
begin

text \<open>
  What an operation does to a range, forwards and backwards:
  \<open>crates/rucc-opt/src/range/ops.rs\<close>. Every function that unions or intersects can reach the
  assertion that the widths agree, so it returns an \<open>option\<close>; the soundness theorems show that
  on well-formed ranges of one width the assertion is never reached. The closures a Rust
  function passes to \<open>per_pair\<close> and \<open>clamped\<close> are the \<open>_pair\<close> and \<open>_window\<close> definitions.
\<close>

section \<open>Definitions\<close>

definition COUNTS :: nat where "COUNTS = 16"

datatype truth = Always | Never | Either

datatype checked = CheckAdd | CheckSub | CheckMul

datatype shift_kind = Left | Logical | Arithmetic

datatype undo = AddLeft | SubRight | SubLeft | UndoNeg | UndoNot | UndoXor
  | UndoZext nat | UndoSext nat | UDiv u128

subsection \<open>Helpers\<close>

definition ones :: "range \<Rightarrow> u128" where
  "ones a = kb_value (rbits a)"

definition zeros :: "range \<Rightarrow> nat \<Rightarrow> u128" where
  "zeros a width = NOT (kb_value (rbits a)) AND NOT (kb_unknown (rbits a)) AND maskw width"

definition span :: "u128 \<Rightarrow> u128 \<Rightarrow> nat \<Rightarrow> u128 option" where
  "span a b width =
     (case checked_add a b of Some span \<Rightarrow> if span < maskw width then Some span else None
      | None \<Rightarrow> None)"

definition per_pair :: "range \<Rightarrow> range \<Rightarrow> (interval \<Rightarrow> interval \<Rightarrow> range option) \<Rightarrow> range option" where
  "per_pair a b each =
     (let width = rwidth a
      in if is_empty a \<or> is_empty b then Some (range_empty width)
         else foldl (\<lambda>out (left, right).
                do { out \<leftarrow> out; one \<leftarrow> each left right; union out one })
              (Some (range_empty width)) (List.product (rpairs a) (rpairs b)))"

definition wrapping :: "u128 \<Rightarrow> u128 option \<Rightarrow> nat \<Rightarrow> range" where
  "wrapping lo far width =
     (case far of None \<Rightarrow> range_full width
      | Some far \<Rightarrow> let lo = lo AND maskw width
                    in between lo ((lo + far) AND maskw width) width)"

definition as_signed :: "interval \<Rightarrow> nat \<Rightarrow> (int \<times> int) option" where
  "as_signed interval width = signed_bounds (between (fst interval) (snd interval) width)"

definition clamped ::
  "range \<Rightarrow> interval \<Rightarrow> interval \<Rightarrow> flags \<Rightarrow> nat
     \<Rightarrow> (int \<times> int \<Rightarrow> int \<times> int \<Rightarrow> int \<times> int)
     \<Rightarrow> (interval \<Rightarrow> interval \<Rightarrow> interval option) \<Rightarrow> range option" where
  "clamped wrapped a b flags width signed_window unsigned_window =
     do {
       range \<leftarrow> (if flags_contains flags NSW then
                   do {
                     sa \<leftarrow> as_signed a width;
                     sb \<leftarrow> as_signed b width;
                     let (lo, hi) = signed_window sa sb;
                     intersect wrapped (signed_between lo hi width)
                   }
                 else Some wrapped);
       if flags_contains flags NUW then
         (case unsigned_window a b of
            Some (lo, hi) \<Rightarrow>
              if lo \<le> maskw width then intersect range (between lo (min hi (maskw width)) width)
              else Some (range_empty width)
          | None \<Rightarrow> Some (range_empty width))
       else Some range
     }"

subsection \<open>Arithmetic\<close>

definition add_signed_window :: "int \<times> int \<Rightarrow> int \<times> int \<Rightarrow> int \<times> int" where
  "add_signed_window a b = (sat_i128 (fst a + fst b), sat_i128 (snd a + snd b))"

definition add_unsigned_window :: "nat \<Rightarrow> interval \<Rightarrow> interval \<Rightarrow> interval option" where
  "add_unsigned_window width a b =
     do {
       lo \<leftarrow> checked_add (fst a) (fst b);
       if lo \<le> maskw width then Some (lo, saturating_add (snd a) (snd b)) else None
     }"

definition add_pair :: "nat \<Rightarrow> flags \<Rightarrow> interval \<Rightarrow> interval \<Rightarrow> range option" where
  "add_pair width flags a b =
     clamped (wrapping (fst a + fst b) (span (snd a - fst a) (snd b - fst b) width) width)
       a b flags width add_signed_window (add_unsigned_window width)"

definition ops_add :: "range \<Rightarrow> range \<Rightarrow> flags \<Rightarrow> range option" where
  "ops_add a b flags =
     (if rwidth a \<noteq> rwidth b then None else per_pair a b (add_pair (rwidth a) flags))"

definition sub_signed_window :: "int \<times> int \<Rightarrow> int \<times> int \<Rightarrow> int \<times> int" where
  "sub_signed_window a b = (sat_i128 (fst a - snd b), sat_i128 (snd a - fst b))"

definition sub_unsigned_window :: "interval \<Rightarrow> interval \<Rightarrow> interval option" where
  "sub_unsigned_window a b =
     do { hi \<leftarrow> checked_sub (snd a) (fst b); Some (saturating_sub (fst a) (snd b), hi) }"

definition sub_pair :: "nat \<Rightarrow> flags \<Rightarrow> interval \<Rightarrow> interval \<Rightarrow> range option" where
  "sub_pair width flags a b =
     clamped (wrapping (fst a - snd b) (span (snd a - fst a) (snd b - fst b) width) width)
       a b flags width sub_signed_window sub_unsigned_window"

definition ops_sub :: "range \<Rightarrow> range \<Rightarrow> flags \<Rightarrow> range option" where
  "ops_sub a b flags =
     (if rwidth a \<noteq> rwidth b then None else per_pair a b (sub_pair (rwidth a) flags))"

definition ops_neg :: "range \<Rightarrow> flags \<Rightarrow> range option" where
  "ops_neg a flags = ops_sub (range_exactly 0 (rwidth a)) a flags"

definition mul_signed_window :: "int \<times> int \<Rightarrow> int \<times> int \<Rightarrow> int \<times> int" where
  "mul_signed_window a b =
     (let corners = [sat_i128 (fst a * fst b), sat_i128 (fst a * snd b),
                     sat_i128 (snd a * fst b), sat_i128 (snd a * snd b)]
      in (Min (set corners), Max (set corners)))"

definition mul_unsigned_window :: "nat \<Rightarrow> interval \<Rightarrow> interval \<Rightarrow> interval option" where
  "mul_unsigned_window width a b =
     do {
       lo \<leftarrow> checked_mul (fst a) (fst b);
       if lo \<le> maskw width then Some (lo, saturating_mul (snd a) (snd b)) else None
     }"

definition mul_pair :: "nat \<Rightarrow> flags \<Rightarrow> interval \<Rightarrow> interval \<Rightarrow> range option" where
  "mul_pair width flags a b =
     (let wrapped =
        (if fst a = snd a \<and> fst b = snd b then range_exactly (fst a * fst b) width
         else case (checked_mul (fst a) (fst b), checked_mul (snd a) (snd b)) of
                (Some low, Some high) \<Rightarrow>
                  if high \<le> maskw width then between low high width else range_full width
              | _ \<Rightarrow> range_full width)
      in clamped wrapped a b flags width mul_signed_window (mul_unsigned_window width))"

definition ops_mul :: "range \<Rightarrow> range \<Rightarrow> flags \<Rightarrow> range option" where
  "ops_mul a b flags =
     (if rwidth a \<noteq> rwidth b then None
      else let width = rwidth a
           in if is_empty a \<or> is_empty b then Some (range_empty width)
              else let zeros = min (low_zeros (rbits a) + low_zeros (rbits b)) width;
                       low = (if zeros \<ge> width then bits_exactly 0 width
                              else from_parts 0 (push_bit zeros (maskw width)) width)
                   in do { r \<leftarrow> per_pair a b (mul_pair width flags); Some (narrow r low) })"

subsection \<open>Bitwise\<close>

definition ops_and :: "range \<Rightarrow> range \<Rightarrow> range option" where
  "ops_and a b =
     (if rwidth a \<noteq> rwidth b then None
      else let width = rwidth a
           in case (unsigned_bounds a, unsigned_bounds b) of
                (Some (_, ah), Some (_, bh)) \<Rightarrow>
                  (let one = ones a AND ones b;
                       zero = zeros a width OR zeros b width;
                       bits = from_parts one (maskw width AND NOT one AND NOT zero) width
                   in Some (narrow (between 0 (min ah bh) width) bits))
              | _ \<Rightarrow> Some (range_empty width))"

definition ops_or :: "range \<Rightarrow> range \<Rightarrow> range option" where
  "ops_or a b =
     (if rwidth a \<noteq> rwidth b then None
      else let width = rwidth a
           in case (unsigned_bounds a, unsigned_bounds b) of
                (Some (al, _), Some (bl, _)) \<Rightarrow>
                  (let one = ones a OR ones b;
                       zero = zeros a width AND zeros b width;
                       bits = from_parts one (maskw width AND NOT one AND NOT zero) width
                   in Some (narrow (between (max al bl) (maskw width) width) bits))
              | _ \<Rightarrow> Some (range_empty width))"

definition ops_xor :: "range \<Rightarrow> range \<Rightarrow> range option" where
  "ops_xor a b =
     (if rwidth a \<noteq> rwidth b then None
      else let width = rwidth a
           in if is_empty a \<or> is_empty b then Some (range_empty width)
              else let known = NOT (kb_unknown (rbits a)) AND NOT (kb_unknown (rbits b));
                       value = (kb_value (rbits a) XOR kb_value (rbits b)) AND known
                   in Some (narrow (range_full width)
                        (from_parts value (maskw width AND NOT known) width)))"

definition ops_not :: "range \<Rightarrow> range" where
  "ops_not a =
     (let width = rwidth a
      in from_pairs (map (\<lambda>(lo, hi). (maskw width - hi, maskw width - lo)) (rpairs a)) width)"

subsection \<open>Conversions\<close>

definition ops_trunc :: "range \<Rightarrow> nat \<Rightarrow> range" where
  "ops_trunc a to =
     (let to = clampw to
      in if \<exists>(lo, hi) \<in> set (rpairs a). hi - lo \<ge> maskw to then range_full to
         else from_pairs (concat (map (\<lambda>(lo, hi).
                let lo = lo AND maskw to; hi = hi AND maskw to
                in if lo \<le> hi then [(lo, hi)] else [(0, hi), (lo, maskw to)]) (rpairs a))) to)"

definition ops_zext :: "range \<Rightarrow> nat \<Rightarrow> range" where
  "ops_zext a to =
     (let to = clampw to
      in if to \<le> rwidth a then ops_trunc a to
         else narrow (from_pairs (rpairs a) to) (from_parts 0 (maskw (rwidth a)) to))"

definition ops_sext :: "range \<Rightarrow> nat \<Rightarrow> range" where
  "ops_sext a to =
     (let to = clampw to; from = rwidth a
      in if to \<le> from then ops_trunc a to
         else let boundary = sign_bit from; lift = maskw to - maskw from
              in from_pairs (concat (map (\<lambda>(lo, hi).
                   (if lo < boundary then [(lo, min hi (boundary - 1))] else [])
                   @ (if hi \<ge> boundary then [(max lo boundary + lift, hi + lift)] else []))
                   (rpairs a))) to)"

subsection \<open>Shifts\<close>

definition one_shift :: "range \<Rightarrow> nat \<Rightarrow> flags \<Rightarrow> shift_kind \<Rightarrow> nat \<Rightarrow> range option" where
  "one_shift a at flags kind width =
     (case kind of
        Left \<Rightarrow> ops_mul a (range_exactly (push_bit at 1) width) flags
      | Logical \<Rightarrow>
          Some (from_pairs (map (\<lambda>(lo, hi). (drop_bit at lo, drop_bit at hi)) (rpairs a)) width)
      | Arithmetic \<Rightarrow>
          (case signed_bounds a of None \<Rightarrow> Some (range_empty width)
           | Some (lo, hi) \<Rightarrow> Some (signed_between (lo div 2 ^ at) (hi div 2 ^ at) width)))"

definition coarse :: "range \<Rightarrow> nat \<Rightarrow> nat \<Rightarrow> shift_kind \<Rightarrow> range" where
  "coarse a low width kind =
     (case kind of
        Left \<Rightarrow> narrow (range_full width) (from_parts 0 (push_bit low (maskw width)) width)
      | Logical \<Rightarrow> between 0 (drop_bit low (maskw width)) width
      | Arithmetic \<Rightarrow>
          (case signed_bounds a of None \<Rightarrow> range_empty width
           | Some (lo, hi) \<Rightarrow> signed_between (min lo 0) (max hi (- 1)) width))"

text \<open>The walk over the counts listed, with the early return for a count at or past the width.\<close>

fun shift_counts ::
  "range \<Rightarrow> u128 list \<Rightarrow> flags \<Rightarrow> shift_kind \<Rightarrow> nat \<Rightarrow> range \<Rightarrow> range option" where
  "shift_counts a [] flags kind width out = Some out"
| "shift_counts a (at # counts) flags kind width out =
     (if uint at \<ge> int width then Some (range_full width)
      else do {
        one \<leftarrow> one_shift a (unat at) flags kind width;
        out \<leftarrow> union out one;
        shift_counts a counts flags kind width out
      })"

definition shift :: "range \<Rightarrow> range \<Rightarrow> flags \<Rightarrow> shift_kind \<Rightarrow> range option" where
  "shift a count flags kind =
     (let width = rwidth a
      in if is_empty a \<or> is_empty count then Some (range_empty width)
         else case unsigned_bounds count of None \<Rightarrow> Some (range_empty width)
         | Some (low, most) \<Rightarrow>
           if uint low \<ge> int width then Some (range_full width)
           else case list_range count COUNTS of
             Some counts \<Rightarrow> shift_counts a counts flags kind width (range_empty width)
           | None \<Rightarrow>
             (let range = coarse a (unat low) width kind
              in case unsigned_bounds a of None \<Rightarrow> Some range
              | Some (lo, hi) \<Rightarrow>
                if uint most < int width then
                  (let low = unat low; most = unat most
                   in case kind of
                        Left \<Rightarrow>
                          if most = 0 \<or> drop_bit (width - most) hi = 0
                          then intersect range (between (push_bit low lo) (push_bit most hi) width)
                          else Some range
                      | Logical \<Rightarrow>
                          intersect range (between (drop_bit most lo) (drop_bit low hi) width)
                      | Arithmetic \<Rightarrow> Some range)
                else Some range))"

definition ops_shl :: "range \<Rightarrow> range \<Rightarrow> flags \<Rightarrow> range option" where
  "ops_shl a count flags = shift a count flags Left"

definition ops_lshr :: "range \<Rightarrow> range \<Rightarrow> flags \<Rightarrow> range option" where
  "ops_lshr a count flags = shift a count flags Logical"

definition ops_ashr :: "range \<Rightarrow> range \<Rightarrow> flags \<Rightarrow> range option" where
  "ops_ashr a count flags = shift a count flags Arithmetic"

subsection \<open>Comparisons\<close>

definition possible :: "int_pred \<Rightarrow> range \<Rightarrow> range \<Rightarrow> bool option" where
  "possible pred a b =
     (case (unsigned_bounds a, unsigned_bounds b, signed_bounds a, signed_bounds b) of
        (Some (ul, uh), Some (vl, vh), Some (sl, sh), Some (wl, wh)) \<Rightarrow>
          (case pred of
             Eq \<Rightarrow> do { r \<leftarrow> intersect a b; Some (\<not> is_empty r) }
           | Ne \<Rightarrow> Some (\<not> (case (singleton a, singleton b) of
                              (Some x, Some y) \<Rightarrow> x = y | _ \<Rightarrow> False))
           | Ult \<Rightarrow> Some (ul < vh)
           | Ule \<Rightarrow> Some (ul \<le> vh)
           | Ugt \<Rightarrow> Some (uh > vl)
           | Uge \<Rightarrow> Some (uh \<ge> vl)
           | Slt \<Rightarrow> Some (sl < wh)
           | Sle \<Rightarrow> Some (sl \<le> wh)
           | Sgt \<Rightarrow> Some (sh > wl)
           | Sge \<Rightarrow> Some (sh \<ge> wl))
      | _ \<Rightarrow> Some False)"

definition ops_compare :: "int_pred \<Rightarrow> range \<Rightarrow> range \<Rightarrow> truth option" where
  "ops_compare pred a b =
     (if is_empty a \<or> is_empty b then Some Either
      else do {
        yes \<leftarrow> possible pred a b;
        no \<leftarrow> possible (inverse_pred pred) a b;
        Some (if yes \<and> \<not> no then Always else if \<not> yes \<and> no then Never else Either)
      })"

definition narrow_for :: "int_pred \<Rightarrow> range \<Rightarrow> range \<Rightarrow> range option" where
  "narrow_for pred a b =
     (if rwidth a \<noteq> rwidth b then None
      else let width = rwidth a
           in if is_empty a \<or> is_empty b then Some (range_empty width)
              else do {
                (ul, uh) \<leftarrow> unsigned_bounds b;
                (sl, sh) \<leftarrow> signed_bounds b;
                let (low, high) = signed_limits width;
                case pred of
                  Eq \<Rightarrow> intersect a b
                | Ne \<Rightarrow> (case singleton b of Some value \<Rightarrow> intersect a (other_than value width)
                         | None \<Rightarrow> Some a)
                | Ult \<Rightarrow> intersect a (if uh = 0 then range_empty width
                                       else between 0 (uh - 1) width)
                | Ule \<Rightarrow> intersect a (between 0 uh width)
                | Ugt \<Rightarrow> intersect a (if ul = maskw width then range_empty width
                                       else between (ul + 1) (maskw width) width)
                | Uge \<Rightarrow> intersect a (between ul (maskw width) width)
                | Slt \<Rightarrow> intersect a (signed_between low (sat_i128 (sh - 1)) width)
                | Sle \<Rightarrow> intersect a (signed_between low sh width)
                | Sgt \<Rightarrow> intersect a (signed_between (sat_i128 (sl + 1)) high width)
                | Sge \<Rightarrow> intersect a (signed_between sl high width)
              })"

subsection \<open>Backwards, and the overflow builtins\<close>

definition backward :: "undo \<Rightarrow> range \<Rightarrow> range \<Rightarrow> range option" where
  "backward undo result other =
     (let width = rwidth result
      in case undo of
           AddLeft \<Rightarrow> ops_sub result other NONE
         | SubRight \<Rightarrow> ops_sub other result NONE
         | SubLeft \<Rightarrow> ops_add result other NONE
         | UndoNeg \<Rightarrow> ops_neg result NONE
         | UndoNot \<Rightarrow> Some (ops_not result)
         | UndoXor \<Rightarrow> ops_xor result other
         | UndoZext from \<Rightarrow>
             do { r \<leftarrow> intersect result (ops_zext (range_full from) width); Some (ops_trunc r from) }
         | UndoSext from \<Rightarrow>
             do { r \<leftarrow> intersect result (ops_sext (range_full from) width); Some (ops_trunc r from) }
         | UDiv by \<Rightarrow>
             if by = 0 then Some (range_full width)
             else do {
               fits \<leftarrow> intersect result (between 0 (maskw width div by) width);
               Some (from_pairs (map (\<lambda>(lo, hi).
                  (lo * by, min (saturating_add (hi * by) (by - 1)) (maskw width)))
                  (rpairs fits)) width)
             })"

definition signed_corners :: "int \<times> int \<Rightarrow> int \<times> int \<Rightarrow> (int \<times> int) option" where
  "signed_corners a b =
     do {
       c1 \<leftarrow> checked_i128 (fst a * fst b);
       c2 \<leftarrow> checked_i128 (fst a * snd b);
       c3 \<leftarrow> checked_i128 (snd a * fst b);
       c4 \<leftarrow> checked_i128 (snd a * snd b);
       Some (min (min (min (min i128_max c1) c2) c3) c4,
             max (max (max (max i128_min c1) c2) c3) c4)
     }"

definition both :: "'a option \<Rightarrow> 'b option \<Rightarrow> ('a \<times> 'b) option" where
  "both x y = do { x \<leftarrow> x; y \<leftarrow> y; Some (x, y) }"

definition settled :: "bool \<Rightarrow> bool \<Rightarrow> truth" where
  "settled never always = (if never then Never else if always then Always else Either)"

definition overflows :: "checked \<Rightarrow> bool \<Rightarrow> range \<Rightarrow> range \<Rightarrow> truth option" where
  "overflows opr is_signed a b =
     (if rwidth a \<noteq> rwidth b then None
      else let width = rwidth a
           in if is_signed then
                (case (signed_bounds a, signed_bounds b) of
                   (Some (al, ah), Some (bl, bh)) \<Rightarrow>
                     (let (mn, mx) = signed_limits width;
                          window =
                            (case opr of
                               CheckAdd \<Rightarrow> both (checked_i128 (al + bl)) (checked_i128 (ah + bh))
                             | CheckSub \<Rightarrow> both (checked_i128 (al - bh)) (checked_i128 (ah - bl))
                             | CheckMul \<Rightarrow> signed_corners (al, ah) (bl, bh))
                      in case window of None \<Rightarrow> Some Either
                         | Some (lo, hi) \<Rightarrow>
                             Some (settled (lo \<ge> mn \<and> hi \<le> mx) (hi < mn \<or> lo > mx)))
                 | _ \<Rightarrow> Some Either)
              else
                (case (unsigned_bounds a, unsigned_bounds b) of
                   (Some (al, ah), Some (bl, bh)) \<Rightarrow>
                     (let top = maskw width;
                          below = (\<lambda>x. case x of None \<Rightarrow> False | Some hi \<Rightarrow> hi \<le> top);
                          past = (\<lambda>x. case x of None \<Rightarrow> True | Some lo \<Rightarrow> lo > top)
                      in Some (case opr of
                           CheckAdd \<Rightarrow> settled (below (checked_add ah bh)) (past (checked_add al bl))
                         | CheckSub \<Rightarrow> settled (al \<ge> bh) (ah < bl)
                         | CheckMul \<Rightarrow> settled (below (checked_mul ah bh)) (past (checked_mul al bl))))
                 | _ \<Rightarrow> Some Either))"

end
