(* ===== verification/RangeArith.thy ===== *)
theory RangeArith
  imports RangeOps
begin

text \<open>
  Soundness of the arithmetic transfer functions of \<open>range/ops.rs\<close>: every value addition,
  subtraction, multiplication or negation can produce, under the overflow promises of the
  flags, is in the range the function answers, and no function reaches an assertion. The
  contract is the locale \<open>binary_transfer\<close>; \<open>pair_transfer\<close> is the contract of one pairing,
  from which \<open>per_pair\<close> makes a transfer function.
\<close>

section \<open>The contracts\<close>

text \<open>
  A concrete operation at a width answers \<open>None\<close> where the flags promise the pairing does not
  happen.
\<close>

type_synonym concrete = "nat \<Rightarrow> u128 \<Rightarrow> u128 \<Rightarrow> u128 option"

locale binary_transfer =
  fixes F :: "range \<Rightarrow> range \<Rightarrow> range option" and conc :: concrete
  assumes transfer: "\<lbrakk>range_ok a; range_ok b; rwidth a = rwidth b\<rbrakk> \<Longrightarrow>
    \<exists>r. F a b = Some r \<and> range_ok r \<and> rwidth r = rwidth a \<and>
      (\<forall>x \<in> gamma a. \<forall>y \<in> gamma b. \<forall>v. conc (rwidth a) x y = Some v \<longrightarrow> v \<in> gamma r)"
begin

lemma total: "range_ok a \<Longrightarrow> range_ok b \<Longrightarrow> rwidth a = rwidth b \<Longrightarrow>
    \<exists>r. F a b = Some r \<and> range_ok r \<and> rwidth r = rwidth a"
  using transfer by blast

lemma sound:
  assumes "range_ok a" "range_ok b" "rwidth a = rwidth b" "F a b = Some r"
    "x \<in> gamma a" "y \<in> gamma b" "conc (rwidth a) x y = Some v"
  shows "v \<in> gamma r"
  using transfer [OF assms(1-3)] assms(4-7) by auto

text \<open>An empty answer means the operation is on a path that is never taken.\<close>

lemma dead:
  assumes "range_ok a" "range_ok b" "rwidth a = rwidth b" "F a b = Some r" "is_empty r"
    "x \<in> gamma a" "y \<in> gamma b"
  shows "conc (rwidth a) x y = None"
proof (rule ccontr)
  assume "conc (rwidth a) x y \<noteq> None"
  then obtain v where "v \<in> gamma r" using sound [OF assms(1-4,6,7)] by blast
  moreover have "range_ok r" using total [OF assms(1-3)] assms(4) by simp
  ultimately show False using assms(5) gamma_iff [of r v] by (simp add: is_empty_def)
qed

text \<open>An answer of one value may replace the operation.\<close>

lemma folds:
  assumes "range_ok a" "range_ok b" "rwidth a = rwidth b" "F a b = Some r" "singleton r = Some c"
    "x \<in> gamma a" "y \<in> gamma b" "conc (rwidth a) x y = Some v"
  shows "v = c"
proof -
  have "range_ok r" using total [OF assms(1-3)] assms(4) by simp
  then show ?thesis using sound [OF assms(1-4,6-8)] singleton_sound [OF _ assms(5)] by blast
qed

end

locale pair_transfer =
  fixes each :: "nat \<Rightarrow> interval \<Rightarrow> interval \<Rightarrow> range option" and conc :: concrete
  assumes each: "\<lbrakk>0 < w; w \<le> 128; pair_in w p; pair_in w q\<rbrakk> \<Longrightarrow>
    \<exists>r. each w p q = Some r \<and> range_ok r \<and> rwidth r = w \<and>
      (\<forall>x y v. in_pair x p \<longrightarrow> in_pair y q \<longrightarrow> conc w x y = Some v \<longrightarrow> v \<in> gamma r)"
begin

lemma fold_pairs:
  assumes "range_ok out" "rwidth out = w" "\<forall>(p, q) \<in> set pqs. pair_in w p \<and> pair_in w q"
  shows "\<exists>r. foldl (\<lambda>out (left, right). do { out \<leftarrow> out; one \<leftarrow> each w left right; union out one })
      (Some out) pqs = Some r \<and> range_ok r \<and> rwidth r = w \<and> gamma out \<subseteq> gamma r \<and>
    (\<forall>(p, q) \<in> set pqs. \<forall>x y v. in_pair x p \<longrightarrow> in_pair y q \<longrightarrow> conc w x y = Some v \<longrightarrow> v \<in> gamma r)"
  using assms
proof (induction pqs arbitrary: out)
  case Nil
  then show ?case by simp
next
  case (Cons pq pqs)
  obtain p q where pq: "pq = (p, q)" by (cases pq)
  have width: "0 < w" "w \<le> 128" using range_okD(1,2) [OF Cons.prems(1)] Cons.prems(2) by simp_all
  obtain one where one: "each w p q = Some one" "range_ok one" "rwidth one = w"
    "\<And>x y v. in_pair x p \<Longrightarrow> in_pair y q \<Longrightarrow> conc w x y = Some v \<Longrightarrow> v \<in> gamma one"
    using each [OF width, of p q] Cons.prems(3) by (auto simp: pq)
  obtain u where u: "union out one = Some u" "range_ok u" "rwidth u = w"
    "gamma out \<union> gamma one \<subseteq> gamma u"
    using union_spec [OF Cons.prems(1) one(2)] Cons.prems(2) one(3) by auto
  have "\<exists>r. foldl (\<lambda>out (left, right). do { out \<leftarrow> out; one \<leftarrow> each w left right; union out one })
      (Some u) pqs = Some r \<and> range_ok r \<and> rwidth r = w \<and> gamma u \<subseteq> gamma r \<and>
    (\<forall>(p, q) \<in> set pqs. \<forall>x y v. in_pair x p \<longrightarrow> in_pair y q \<longrightarrow> conc w x y = Some v \<longrightarrow> v \<in> gamma r)"
    using Cons.prems(3) by (intro Cons.IH u) simp
  then obtain r where r: "foldl (\<lambda>out (left, right). do { out \<leftarrow> out; one \<leftarrow> each w left right; union out one })
      (Some u) pqs = Some r" "range_ok r" "rwidth r = w" "gamma u \<subseteq> gamma r"
    "\<forall>(p, q) \<in> set pqs. \<forall>x y v. in_pair x p \<longrightarrow> in_pair y q \<longrightarrow> conc w x y = Some v \<longrightarrow> v \<in> gamma r"
    by blast
  have head: "v \<in> gamma r" if "in_pair x p" "in_pair y q" "conc w x y = Some v" for x y v
    using one(4) [OF that] u(4) r(4) by blast
  have "gamma out \<subseteq> gamma r" using u(4) r(4) by blast
  then show ?case using r head by (simp add: pq one(1) u(1))
qed

lemma per_pair_transfer:
  assumes "range_ok a" "range_ok b" "rwidth a = w" "rwidth b = w"
  shows "\<exists>r. per_pair a b (each w) = Some r \<and> range_ok r \<and> rwidth r = w \<and>
    (\<forall>x \<in> gamma a. \<forall>y \<in> gamma b. \<forall>v. conc w x y = Some v \<longrightarrow> v \<in> gamma r)"
proof (cases "is_empty a \<or> is_empty b")
  case True
  have width: "0 < w" "w \<le> 128" using range_okD(1,2) [OF assms(1)] assms(3) by simp_all
  from True have "gamma a = {} \<or> gamma b = {}"
    using gamma_iff [OF assms(1)] gamma_iff [OF assms(2)] by (auto simp: is_empty_def)
  then show ?thesis using True assms width by (auto simp: per_pair_def Let_def)
next
  case False
  have ok: "range_ok (range_empty w)" "rwidth (range_empty w) = w"
    using range_empty_width [OF assms(1)] assms(3) by simp_all
  have "\<forall>(p, q) \<in> set (List.product (rpairs a) (rpairs b)). pair_in w p \<and> pair_in w q"
    using pairs_okD [OF range_okD(4) [OF assms(1)]] pairs_okD [OF range_okD(4) [OF assms(2)]]
      assms(3,4) by auto
  from fold_pairs [OF ok this] obtain r where r: "per_pair a b (each w) = Some r" "range_ok r"
    "rwidth r = w"
    "\<forall>(p, q) \<in> set (List.product (rpairs a) (rpairs b)). \<forall>x y v.
       in_pair x p \<longrightarrow> in_pair y q \<longrightarrow> conc w x y = Some v \<longrightarrow> v \<in> gamma r"
    using False assms(3) by (auto simp: per_pair_def Let_def)
  have "v \<in> gamma r" if x: "x \<in> gamma a" and y: "y \<in> gamma b" and v: "conc w x y = Some v" for x y v
  proof -
    obtain p q where "p \<in> set (rpairs a)" "q \<in> set (rpairs b)" "in_pair x p" "in_pair y q"
      using x y gamma_iff [OF assms(1)] gamma_iff [OF assms(2)] by blast
    then show ?thesis using r(4) v by fastforce
  qed
  then show ?thesis using r by blast
qed

end

sublocale pair_transfer \<subseteq>
  binary_transfer "\<lambda>a b. if rwidth a \<noteq> rwidth b then None else per_pair a b (each (rwidth a))" conc
proof
  fix a b assume ok: "range_ok a" "range_ok b" "rwidth a = rwidth b"
  have eq: "(if rwidth a \<noteq> rwidth b then None else per_pair a b (each (rwidth a))) =
      per_pair a b (each (rwidth a))"
    by (simp only: ok(3) simp_thms if_False)
  show "\<exists>r. (if rwidth a \<noteq> rwidth b then None else per_pair a b (each (rwidth a))) = Some r \<and>
      range_ok r \<and> rwidth r = rwidth a \<and>
      (\<forall>x \<in> gamma a. \<forall>y \<in> gamma b. \<forall>v. conc (rwidth a) x y = Some v \<longrightarrow> v \<in> gamma r)"
    unfolding eq by (rule per_pair_transfer [OF ok(1,2) refl ok(3) [symmetric]])
qed

section \<open>Arithmetic at a width\<close>

lemma mod_2_128:
  assumes "w \<le> 128"
  shows "(z :: int) mod 340282366920938463463374607431768211456 mod 2 ^ w = z mod 2 ^ w"
proof -
  have "(2::int) ^ w dvd 2 ^ 128" using assms by (rule le_imp_power_dvd)
  then show ?thesis using mod_mod_cancel [of "2 ^ w" "2 ^ 128" z] by simp
qed

lemma uint_add_maskw: "w \<le> 128 \<Longrightarrow> uint ((a + b) AND maskw w) = (uint a + uint b) mod 2 ^ w"
  by (simp add: word_red uint_word_ariths mod_2_128)

lemma uint_sub_maskw: "w \<le> 128 \<Longrightarrow> uint ((a - b) AND maskw w) = (uint a - uint b) mod 2 ^ w"
  by (simp add: word_red uint_word_ariths mod_2_128)

lemma uint_mul_maskw: "w \<le> 128 \<Longrightarrow> uint ((a * b) AND maskw w) = (uint a * uint b) mod 2 ^ w"
  by (simp add: word_red uint_word_ariths mod_2_128)

lemma signed_at_mod:
  assumes "0 < w" "w \<le> 128"
  shows "signed_at v w mod 2 ^ w = uint v mod 2 ^ w"
proof -
  obtain k where k: "w = Suc k" using assms(1) by (cases w) auto
  have "take_bit (Suc k) (signed_take_bit k (uint v)) = take_bit (Suc k) (uint v)"
    by (simp add: take_bit_signed_take_bit)
  then show ?thesis using signed_at_eq [OF assms, of v] by (simp add: k take_bit_eq_mod)
qed

lemma signed_at_unique:
  assumes "0 < w" "w \<le> 128" "uint v mod 2 ^ w = s mod 2 ^ w" "- (2 ^ (w - 1)) \<le> s" "s < 2 ^ (w - 1)"
  shows "signed_at v w = s"
proof -
  obtain k where k: "w = Suc k" using assms(1) by (cases w) auto
  have "take_bit (Suc k) (uint v) = take_bit (Suc k) s"
    using assms(3) by (simp add: take_bit_eq_mod k)
  then have "signed_take_bit k (uint v) = signed_take_bit k s"
    by (simp add: signed_take_bit_eq_iff_take_bit_eq)
  also have "\<dots> = s" using assms(4,5) by (simp add: signed_take_bit_int_eq_self_iff k)
  finally show ?thesis using signed_at_eq [OF assms(1,2), of v] by (simp add: k)
qed

lemma between_masked: "between (lo AND maskw (clampw w)) (hi AND maskw (clampw w)) w = between lo hi w"
  by (simp add: between_def Let_def and.assoc)

lemma gamma_betweenI:
  "0 < w \<Longrightarrow> w \<le> 128 \<Longrightarrow> lo \<le> v \<Longrightarrow> v \<le> hi \<Longrightarrow> hi \<le> maskw w \<Longrightarrow> v \<in> gamma (between lo hi w)"
  by (simp add: gamma_between)

lemma signed_between_ok [simp]: "range_ok (signed_between lo hi w)"
  by (simp add: signed_between_def Let_def split: prod.split)

lemma signed_between_width [simp]: "rwidth (signed_between lo hi w) = clampw w"
  by (simp add: signed_between_def Let_def range_empty_def split: prod.split)


lemma wrapping_ok [simp]: "range_ok (wrapping lo far w)"
  by (simp add: wrapping_def Let_def split: option.split)

lemma wrapping_width [simp]: "rwidth (wrapping lo far w) = clampw w"
  by (simp add: wrapping_def Let_def range_full_def split: option.split)

lemma gamma_full_in: "0 < w \<Longrightarrow> w \<le> 128 \<Longrightarrow> v \<le> maskw w \<Longrightarrow> v \<in> gamma (range_full w)"
  by (simp add: gamma_full)

lemma wrap_add:
  fixes L e M :: int
  assumes "0 \<le> L" "L < M" "0 \<le> e" "e < M"
  shows "(L + e) mod M = (if L + e < M then L + e else L + e - M)"
proof (cases "L + e < M")
  case True
  then show ?thesis using assms by simp
next
  case False
  then have "(L + e - M) mod M = L + e - M" using assms by (intro mod_pos_pos_trivial) linarith+
  then show ?thesis using False by simp
qed

lemma wrap_between:
  fixes L d f M :: int
  assumes "0 \<le> L" "L < M" "0 \<le> d" "d \<le> f" "f < M"
  shows "if L \<le> (L + f) mod M then L \<le> (L + d) mod M \<and> (L + d) mod M \<le> (L + f) mod M
    else (L + d) mod M \<le> (L + f) mod M \<or> L \<le> (L + d) mod M"
proof -
  have "(L + f) mod M = (if L + f < M then L + f else L + f - M)"
    "(L + d) mod M = (if L + d < M then L + d else L + d - M)"
    using assms by (intro wrap_add; linarith)+
  then show ?thesis using assms by (cases "L + f < M"; cases "L + d < M"; simp)
qed

text \<open>A value reached from the start by two steps, each within its part of the span.\<close>

lemma wrapping_sound:
  assumes w: "0 < w" "w \<le> 128" and d: "dx \<le> A" "dy \<le> B"
    and v: "uint v = (uint lo + uint dx + uint dy) mod 2 ^ w"
  shows "v \<in> gamma (wrapping lo (span A B w) w)"
proof -
  have vm: "v \<le> maskw w" using w(2) by (simp add: le_maskw_iff v)
  show ?thesis
  proof (cases "span A B w")
    case None
    then show ?thesis using vm w by (simp add: wrapping_def gamma_full_in)
  next
    case (Some far)
    have far: "uint far = uint A + uint B" "uint far < 2 ^ w - 1"
      using Some w(2) by (auto simp: span_def word_less_def uint_maskw dest: checked_add_SomeD
          split: option.splits if_splits)
    let ?L = "uint lo mod 2 ^ w" and ?d = "uint dx + uint dy"
    let ?lo = "lo AND maskw w" and ?hi = "((lo AND maskw w) + far) AND maskw w"
    have d': "0 \<le> ?d" "?d \<le> uint far"
      using d uint_ge_0 [of dx] uint_ge_0 [of dy] far(1) by (simp_all add: word_le_def)
    have L: "0 \<le> ?L" "?L < 2 ^ w" by simp_all
    have lo: "uint ?lo = ?L" by (simp add: word_red)
    have hi: "uint ?hi = (?L + uint far) mod 2 ^ w" using w(2) by (simp add: uint_add_maskw lo)
    have v': "uint v = (?L + ?d) mod 2 ^ w" by (simp add: v add.assoc mod_add_left_eq)
    have "if ?lo \<le> ?hi then ?lo \<le> v \<and> v \<le> ?hi else v \<le> ?hi \<or> ?lo \<le> v"
      unfolding word_le_def lo hi v' using L d' far(2) by (intro wrap_between) linarith+
    then show ?thesis
      using vm w by (simp add: wrapping_def Some Let_def gamma_between)
  qed
qed

lemma signed_wrap_between:
  fixes lo hi s h :: int
  assumes "- h \<le> lo" "lo \<le> s" "s \<le> hi" "hi < h"
  defines "u \<equiv> \<lambda>z. if 0 \<le> z then z else z + 2 * h"
  shows "if u lo \<le> u hi then u lo \<le> u s \<and> u s \<le> u hi else u s \<le> u hi \<or> u lo \<le> u s"
proof (cases "0 \<le> lo \<or> hi < 0")
  case True
  then have "u lo \<le> u s \<and> u s \<le> u hi" using assms by (auto simp: u_def)
  then show ?thesis by auto
next
  case False
  then show ?thesis using assms by (auto simp: u_def)
qed

text \<open>A value whose signed reading is inside the bounds is in the range they make.\<close>

lemma signed_between_sound:
  assumes w: "0 < w" "w \<le> 128" and v: "v \<le> maskw w" "lo \<le> signed_at v w" "signed_at v w \<le> hi"
  shows "v \<in> gamma (signed_between lo hi w)"
proof -
  let ?s = "signed_at v w" and ?M = "(2::int) ^ w" and ?h = "(2::int) ^ (w - 1)"
  let ?lo = "max lo (- ?h)" and ?hi = "min hi (?h - 1)"
  have M: "?M = 2 * ?h" using w(1) by (simp add: power_eq_if)
  have s: "- ?h \<le> ?s" "?s < ?h" using signed_at_limits [OF w v(1)] by simp_all
  have b: "- ?h \<le> ?lo" "?lo \<le> ?s" "?s \<le> ?hi" "?hi < ?h" using v s by simp_all
  have vs: "uint v = (if 0 \<le> ?s then ?s else ?s + ?M)"
    using signed_at_value [OF w v(1)] signed_at_nonneg_iff [OF w v(1)] v(1) w(2)
    by (auto simp: le_maskw_iff)
  have at: "uint (word_of_int z AND maskw w) = (if 0 \<le> z then z else z + ?M)"
    if "- ?h \<le> z" "z < ?h" for z
  proof -
    have "uint (word_of_int z AND maskw w) = z mod ?M"
      using w(2) by (simp add: word_red uint_word_of_int mod_2_128)
    also have "\<dots> = (if 0 \<le> z then z else z + ?M)"
    proof (cases "0 \<le> z")
      case True
      then show ?thesis using that M by simp
    next
      case False
      have "z mod ?M = (z + ?M) mod ?M" by simp
      also have "\<dots> = z + ?M" using that False M by (intro mod_pos_pos_trivial) linarith+
      finally show ?thesis using False by simp
    qed
    finally show ?thesis .
  qed
  have range: "signed_between lo hi w =
      between (word_of_int ?lo AND maskw w) (word_of_int ?hi AND maskw w) w"
    using v s w between_masked [of _ w]
    by (simp add: signed_between_def signed_limits_eq Let_def)
  let ?L = "word_of_int ?lo AND maskw w" and ?H = "word_of_int ?hi AND maskw w"
  have L: "uint ?L = (if 0 \<le> ?lo then ?lo else ?lo + ?M)"
    by (rule at) (use b in linarith)+
  have H: "uint ?H = (if 0 \<le> ?hi then ?hi else ?hi + ?M)"
    by (rule at) (use b in linarith)+
  have "if ?L \<le> ?H then ?L \<le> v \<and> v \<le> ?H else v \<le> ?H \<or> ?L \<le> v"
    unfolding word_le_def L H vs M by (rule signed_wrap_between [OF b])
  then show ?thesis
    unfolding range gamma_between [OF w and_maskw_le [OF w(2)] and_maskw_le [OF w(2)]]
    using v(1) by blast
qed

section \<open>The clamp\<close>

text \<open>What the flags promise of an exact result: read signed it is \<open>s\<close>, unsigned \<open>u\<close>.\<close>

definition promised :: "flags \<Rightarrow> nat \<Rightarrow> int \<Rightarrow> int \<Rightarrow> bool" where
  "promised f w s u \<longleftrightarrow>
     (flags_contains f NSW \<longrightarrow> - (2 ^ (w - 1)) \<le> s \<and> s < 2 ^ (w - 1)) \<and>
     (flags_contains f NUW \<longrightarrow> 0 \<le> u \<and> u < 2 ^ w)"

lemma promised_NONE [simp]: "promised NONE w s u"
  by (simp add: promised_def)

lemma as_signed_sound:
  assumes w: "0 < w" "w \<le> 128" and p: "pair_in w p"
  shows "\<exists>lo hi. as_signed p w = Some (lo, hi) \<and>
    (\<forall>x. in_pair x p \<longrightarrow> lo \<le> signed_at x w \<and> signed_at x w \<le> hi)"
proof -
  have in_: "x \<in> gamma (between (fst p) (snd p) w)" if "in_pair x p" for x
    using that p w by (intro gamma_betweenI) (auto simp: in_pair_def pair_in_def)
  have "in_pair (fst p) p" using p by (simp add: pair_in_def in_pair_def)
  then obtain lo hi where b: "signed_bounds (between (fst p) (snd p) w) = Some (lo, hi)"
    using signed_bounds_sound [OF between_ok in_] by blast
  have "lo \<le> signed_at x w \<and> signed_at x w \<le> hi" if "in_pair x p" for x
    using signed_bounds_sound [OF between_ok in_ [OF that]] b w by simp
  then show ?thesis using b by (simp add: as_signed_def)
qed

text \<open>
  The window functions are sound when the exact result of any two values of the pairing that
  keeps the promise is in the window.
\<close>

definition signed_window_ok ::
  "(int \<Rightarrow> int \<Rightarrow> int) \<Rightarrow> (int \<times> int \<Rightarrow> int \<times> int \<Rightarrow> int \<times> int) \<Rightarrow> bool" where
  "signed_window_ok opr win \<longleftrightarrow>
     (\<forall>a b c d x y lo hi. a \<le> x \<longrightarrow> x \<le> b \<longrightarrow> c \<le> y \<longrightarrow> y \<le> d \<longrightarrow> win (a, b) (c, d) = (lo, hi) \<longrightarrow>
        in_i128 (opr x y) \<longrightarrow> lo \<le> opr x y \<and> opr x y \<le> hi)"

definition unsigned_window_ok ::
  "nat \<Rightarrow> (int \<Rightarrow> int \<Rightarrow> int) \<Rightarrow> (interval \<Rightarrow> interval \<Rightarrow> interval option) \<Rightarrow> bool" where
  "unsigned_window_ok w opr win \<longleftrightarrow>
     (\<forall>p q x y. in_pair x p \<longrightarrow> in_pair y q \<longrightarrow> 0 \<le> opr (uint x) (uint y) \<longrightarrow>
        opr (uint x) (uint y) < 2 ^ w \<longrightarrow>
        (\<exists>lo hi. win p q = Some (lo, hi) \<and> uint lo \<le> opr (uint x) (uint y) \<and>
           opr (uint x) (uint y) \<le> uint hi))"

lemma limits_in_i128:
  assumes "w \<le> 128" "- (2 ^ (w - 1)) \<le> s" "s < 2 ^ (w - 1)"
  shows "in_i128 s"
proof -
  have "(2::int) ^ (w - 1) \<le> 2 ^ 127" using assms(1) by (intro power_increasing) simp_all
  then show ?thesis using assms by (simp add: in_i128_def i128_min_def i128_max_def)
qed

lemma clamped_sound:
  assumes w: "0 < w" "w \<le> 128" and p: "pair_in w p" "pair_in w q"
    and wr: "range_ok wr" "rwidth wr = w" and win: "signed_window_ok opr sw" "unsigned_window_ok w opr uw"
    and cong: "\<And>a b c d. a mod 2 ^ w = c mod 2 ^ w \<Longrightarrow> b mod 2 ^ w = d mod 2 ^ w \<Longrightarrow>
      opr a b mod 2 ^ w = opr c d mod 2 ^ w"
    and v: "\<And>x y v. in_pair x p \<Longrightarrow> in_pair y q \<Longrightarrow> v \<le> maskw w \<Longrightarrow>
      uint v = opr (uint x) (uint y) mod 2 ^ w \<Longrightarrow> v \<in> gamma wr"
  shows "\<exists>r. clamped wr p q f w sw uw = Some r \<and> range_ok r \<and> rwidth r = w \<and>
    (\<forall>x y v. in_pair x p \<longrightarrow> in_pair y q \<longrightarrow> v \<le> maskw w \<longrightarrow>
      uint v = opr (uint x) (uint y) mod 2 ^ w \<longrightarrow>
      promised f w (opr (signed_at x w) (signed_at y w)) (opr (uint x) (uint y)) \<longrightarrow> v \<in> gamma r)"
proof -
  obtain al ah where a: "as_signed p w = Some (al, ah)"
    "\<And>x. in_pair x p \<Longrightarrow> al \<le> signed_at x w \<and> signed_at x w \<le> ah"
    using as_signed_sound [OF w p(1)] by blast
  obtain bl bh where b: "as_signed q w = Some (bl, bh)"
    "\<And>y. in_pair y q \<Longrightarrow> bl \<le> signed_at y w \<and> signed_at y w \<le> bh"
    using as_signed_sound [OF w p(2)] by blast
  obtain sl sh where sw: "sw (al, ah) (bl, bh) = (sl, sh)" by fastforce
  obtain s where s: "intersect wr (signed_between sl sh w) = Some s" "range_ok s" "rwidth s = w"
    "gamma wr \<inter> gamma (signed_between sl sh w) \<subseteq> gamma s"
    using intersect_spec [OF wr(1) signed_between_ok, of sl sh w] wr(2) w by auto
  define n where "n = (if flags_contains f NSW then s else wr)"
  have n: "range_ok n" "rwidth n = w" using s wr by (simp_all add: n_def)
  have vn: "v \<in> gamma n" if x: "in_pair x p" "in_pair y q" "v \<le> maskw w"
      "uint v = opr (uint x) (uint y) mod 2 ^ w"
      "promised f w (opr (signed_at x w) (signed_at y w)) (opr (uint x) (uint y))" for x y v
  proof (cases "flags_contains f NSW")
    case True
    let ?e = "opr (signed_at x w) (signed_at y w)"
    have e: "- (2 ^ (w - 1)) \<le> ?e" "?e < 2 ^ (w - 1)" using x(5) True by (simp_all add: promised_def)
    have "uint v mod 2 ^ w = ?e mod 2 ^ w"
      using x(4) cong [OF signed_at_mod [OF w, of x] signed_at_mod [OF w, of y]] by simp
    then have "signed_at v w = ?e" by (rule signed_at_unique [OF w _ e])
    moreover have "sl \<le> ?e \<and> ?e \<le> sh"
      using win(1) a(2) [OF x(1)] b(2) [OF x(2)] sw limits_in_i128 [OF w(2) e]
      unfolding signed_window_ok_def by blast
    ultimately have "v \<in> gamma (signed_between sl sh w)"
      using x(3) by (intro signed_between_sound [OF w]) simp_all
    then show ?thesis using s(4) v [OF x(1-4)] True by (auto simp: n_def)
  qed (use v [OF x(1-4)] in \<open>simp add: n_def\<close>)
  have first: "clamped wr p q f w sw uw =
    (if flags_contains f NUW then
       (case uw p q of Some (lo, hi) \<Rightarrow>
          if lo \<le> maskw w then intersect n (between lo (min hi (maskw w)) w) else Some (range_empty w)
        | None \<Rightarrow> Some (range_empty w))
     else Some n)"
  proof -
    have "(if flags_contains f NSW then
        do { sa \<leftarrow> as_signed p w; sb \<leftarrow> as_signed q w;
             let (lo, hi) = sw sa sb; intersect wr (signed_between lo hi w) }
        else Some wr) = Some n"
      using a(1) b(1) s(1) sw by (simp add: n_def)
    then show ?thesis unfolding clamped_def by (simp only: bind.bind_lunit)
  qed
  show ?thesis
  proof (cases "flags_contains f NUW")
    case False
    then show ?thesis using first n vn by simp
  next
    case True
    have both: "\<exists>r. intersect n (between lo hi w) = Some r \<and> range_ok r \<and> rwidth r = w \<and>
        gamma n \<inter> gamma (between lo hi w) \<subseteq> gamma r" for lo hi
      using intersect_spec [OF n(1) between_ok, of lo hi w] n(2) w by simp
    have "\<exists>r. clamped wr p q f w sw uw = Some r \<and> range_ok r \<and> rwidth r = w \<and>
      (\<forall>lo hi. uw p q = Some (lo, hi) \<longrightarrow> lo \<le> maskw w \<longrightarrow>
        gamma n \<inter> gamma (between lo (min hi (maskw w)) w) \<subseteq> gamma r)"
      using first True both range_empty_width [OF n(1)] n(2)
      by (auto split: option.splits prod.splits)
    then obtain r where r: "clamped wr p q f w sw uw = Some r" "range_ok r" "rwidth r = w"
      "\<And>lo hi. uw p q = Some (lo, hi) \<Longrightarrow> lo \<le> maskw w \<Longrightarrow>
        gamma n \<inter> gamma (between lo (min hi (maskw w)) w) \<subseteq> gamma r"
      by blast
    have "v \<in> gamma r" if x: "in_pair x p" "in_pair y q" "v \<le> maskw w"
      "uint v = opr (uint x) (uint y) mod 2 ^ w"
      "promised f w (opr (signed_at x w) (signed_at y w)) (opr (uint x) (uint y))" for x y v
    proof -
      have u: "0 \<le> opr (uint x) (uint y)" "opr (uint x) (uint y) < 2 ^ w"
        using x(5) True by (simp_all add: promised_def)
      then have vu: "uint v = opr (uint x) (uint y)" using x(4) by simp
      obtain lo hi where h: "uw p q = Some (lo, hi)" "lo \<le> v" "v \<le> hi"
        using win(2) x(1,2) u unfolding unsigned_window_ok_def word_le_def vu by blast
      have "v \<in> gamma (between lo (min hi (maskw w)) w)"
        using h x(3) w by (intro gamma_betweenI) simp_all
      moreover have "lo \<le> maskw w" using h(2) x(3) by simp
      ultimately show ?thesis using r(4) [OF h(1)] vn [OF x] by blast
    qed
    then show ?thesis using r by blast
  qed
qed

lemma clamped_transfer:
  assumes w: "0 < w" "w \<le> 128" and p: "pair_in w p" "pair_in w q"
    and wr: "range_ok wr" "rwidth wr = w" and win: "signed_window_ok opr sw" "unsigned_window_ok w opr uw"
    and cong: "\<And>a b c d. a mod 2 ^ w = c mod 2 ^ w \<Longrightarrow> b mod 2 ^ w = d mod 2 ^ w \<Longrightarrow>
      opr a b mod 2 ^ w = opr c d mod 2 ^ w"
    and v: "\<And>x y v. in_pair x p \<Longrightarrow> in_pair y q \<Longrightarrow> v \<le> maskw w \<Longrightarrow>
      uint v = opr (uint x) (uint y) mod 2 ^ w \<Longrightarrow> v \<in> gamma wr"
    and conc: "\<And>x y v. conc w x y = Some v \<Longrightarrow> v \<le> maskw w \<and> uint v = opr (uint x) (uint y) mod 2 ^ w \<and>
      promised f w (opr (signed_at x w) (signed_at y w)) (opr (uint x) (uint y))"
  shows "\<exists>r. clamped wr p q f w sw uw = Some r \<and> range_ok r \<and> rwidth r = w \<and>
    (\<forall>x y v. in_pair x p \<longrightarrow> in_pair y q \<longrightarrow> conc w x y = Some v \<longrightarrow> v \<in> gamma r)"
proof -
  have "\<exists>r. clamped wr p q f w sw uw = Some r \<and> range_ok r \<and> rwidth r = w \<and>
    (\<forall>x y v. in_pair x p \<longrightarrow> in_pair y q \<longrightarrow> v \<le> maskw w \<longrightarrow>
      uint v = opr (uint x) (uint y) mod 2 ^ w \<longrightarrow>
      promised f w (opr (signed_at x w) (signed_at y w)) (opr (uint x) (uint y)) \<longrightarrow> v \<in> gamma r)"
    by (rule clamped_sound [OF w p wr win]) (erule (1) cong, erule (3) v)
  with conc show ?thesis by blast
qed

section \<open>Addition and subtraction\<close>

lemma if_SomeD: "(if P then Some a else None) = Some v \<Longrightarrow> P \<and> v = a"
  by (simp split: if_splits)

definition add_conc :: "flags \<Rightarrow> concrete" where
  "add_conc f w x y =
     (if promised f w (signed_at x w + signed_at y w) (uint x + uint y)
      then Some ((x + y) AND maskw w) else None)"

definition sub_conc :: "flags \<Rightarrow> concrete" where
  "sub_conc f w x y =
     (if promised f w (signed_at x w - signed_at y w) (uint x - uint y)
      then Some ((x - y) AND maskw w) else None)"

definition mul_conc :: "flags \<Rightarrow> concrete" where
  "mul_conc f w x y =
     (if promised f w (signed_at x w * signed_at y w) (uint x * uint y)
      then Some ((x * y) AND maskw w) else None)"

lemma sat_i128_le: "in_i128 s \<Longrightarrow> z \<le> s \<Longrightarrow> sat_i128 z \<le> s"
  by (auto simp: sat_i128_def in_i128_def)

lemma sat_i128_ge: "in_i128 s \<Longrightarrow> s \<le> z \<Longrightarrow> s \<le> sat_i128 z"
  by (auto simp: sat_i128_def in_i128_def)

lemma add_signed_window_ok: "signed_window_ok (+) add_signed_window"
  by (auto simp: signed_window_ok_def add_signed_window_def intro!: sat_i128_le sat_i128_ge)

lemma sub_signed_window_ok: "signed_window_ok (-) sub_signed_window"
  by (auto simp: signed_window_ok_def sub_signed_window_def intro!: sat_i128_le sat_i128_ge)

lemma pow_128: "w \<le> 128 \<Longrightarrow> (2::int) ^ w \<le> 2 ^ LENGTH(128)"
  by (intro power_increasing) simp_all

lemma add_unsigned_window_ok:
  assumes w: "w \<le> 128" shows "unsigned_window_ok w (+) (add_unsigned_window w)"
  unfolding unsigned_window_ok_def
proof (intro allI impI)
  fix p q x y
  assume x: "in_pair x p" "in_pair y q" "uint x + uint y < 2 ^ w"
  have le: "uint (fst p) + uint (fst q) \<le> uint x + uint y" "uint x + uint y \<le> uint (snd p) + uint (snd q)"
    using x(1,2) by (simp_all add: in_pair_def word_le_def)
  have lt: "uint (fst p) + uint (fst q) < 2 ^ w" using le x(3) by linarith
  then have c: "checked_add (fst p) (fst q) = Some (fst p + fst q)"
    using pow_128 [OF w] by (simp add: checked_add_def)
  have u: "uint (fst p + fst q) = uint (fst p) + uint (fst q)" using checked_add_SomeD [OF c] .
  have "fst p + fst q \<le> maskw w" using lt u w by (simp add: le_maskw_iff)
  moreover have "uint x + uint y \<le> uint (saturating_add (snd p) (snd q))"
    using le x(3) pow_128 [OF w] unfolding uint_saturating_add by linarith
  ultimately show "\<exists>lo hi. add_unsigned_window w p q = Some (lo, hi) \<and> uint lo \<le> uint x + uint y \<and>
      uint x + uint y \<le> uint hi"
    using le(1) u by (simp add: add_unsigned_window_def c)
qed

lemma sub_unsigned_window_ok: "unsigned_window_ok w (-) sub_unsigned_window"
  unfolding unsigned_window_ok_def
proof (intro allI impI)
  fix p q x y
  assume x: "in_pair x p" "in_pair y q" "0 \<le> uint x - uint y"
  have le: "uint (fst p) - uint (snd q) \<le> uint x - uint y" "uint x - uint y \<le> uint (snd p) - uint (fst q)"
    using x(1,2) by (simp_all add: in_pair_def word_le_def diff_mono)
  have "fst q \<le> snd p" using le x(3) by (simp add: word_le_def)
  then have c: "checked_sub (snd p) (fst q) = Some (snd p - fst q)" by (simp add: checked_sub_def)
  have u: "uint (snd p - fst q) = uint (snd p) - uint (fst q)" using checked_sub_SomeD [OF c] by simp
  have "uint (saturating_sub (fst p) (snd q)) \<le> uint x - uint y"
    using le x(3) unfolding uint_saturating_sub by linarith
  then show "\<exists>lo hi. sub_unsigned_window p q = Some (lo, hi) \<and> uint lo \<le> uint x - uint y \<and>
      uint x - uint y \<le> uint hi"
    using le(2) u by (simp add: sub_unsigned_window_def c)
qed

interpretation add_pairs: pair_transfer "\<lambda>w. add_pair w f" "add_conc f" for f
proof
  fix w p q assume w: "0 < w" "w \<le> 128" and pq: "pair_in w p" "pair_in w q"
  let ?wr = "wrapping (fst p + fst q) (span (snd p - fst p) (snd q - fst q) w) w"
  have wr: "range_ok ?wr" "rwidth ?wr = w" using w by simp_all
  have in_wr: "v \<in> gamma ?wr"
    if x: "in_pair x p" "in_pair y q" "v \<le> maskw w" and v: "uint v = (uint x + uint y) mod 2 ^ w" for x y v
  proof (rule wrapping_sound [OF w, of "x - fst p" _ "y - fst q"])
    have le: "fst p \<le> x" "x \<le> snd p" "fst q \<le> y" "y \<le> snd q"
      using x by (simp_all add: in_pair_def)
    show "x - fst p \<le> snd p - fst p" "y - fst q \<le> snd q - fst q"
      using le order_trans [OF le(1,2)] order_trans [OF le(3,4)]
      by (simp_all add: word_le_def uint_sub_small)
    have "uint (fst p + fst q) mod 2 ^ w = (uint (fst p) + uint (fst q)) mod 2 ^ w"
      using w(2) by (simp add: uint_word_ariths mod_2_128)
    then have "(uint (fst p + fst q) + uint (x - fst p) + uint (y - fst q)) mod 2 ^ w =
        (uint (fst p) + uint (fst q) + uint (x - fst p) + uint (y - fst q)) mod 2 ^ w"
      by (intro mod_add_cong refl)
    also have "\<dots> = (uint x + uint y) mod 2 ^ w" using le by (simp add: uint_sub_small)
    finally show "uint v = (uint (fst p + fst q) + uint (x - fst p) + uint (y - fst q)) mod 2 ^ w"
      using v by simp
  qed
  have conc: "v \<le> maskw w \<and> uint v = (uint x + uint y) mod 2 ^ w \<and>
      promised f w (signed_at x w + signed_at y w) (uint x + uint y)"
    if "add_conc f w x y = Some v" for x y v
    using if_SomeD [OF that [unfolded add_conc_def]] w(2) uint_add_maskw [OF w(2), of x y] by simp
  show "\<exists>r. add_pair w f p q = Some r \<and> range_ok r \<and> rwidth r = w \<and>
      (\<forall>x y v. in_pair x p \<longrightarrow> in_pair y q \<longrightarrow> add_conc f w x y = Some v \<longrightarrow> v \<in> gamma r)"
    unfolding add_pair_def
    by (rule clamped_transfer [OF w pq wr add_signed_window_ok add_unsigned_window_ok [OF w(2)]
          mod_add_cong in_wr conc])
qed

interpretation sub_pairs: pair_transfer "\<lambda>w. sub_pair w f" "sub_conc f" for f
proof
  fix w p q assume w: "0 < w" "w \<le> 128" and pq: "pair_in w p" "pair_in w q"
  let ?wr = "wrapping (fst p - snd q) (span (snd p - fst p) (snd q - fst q) w) w"
  have wr: "range_ok ?wr" "rwidth ?wr = w" using w by simp_all
  have in_wr: "v \<in> gamma ?wr"
    if x: "in_pair x p" "in_pair y q" "v \<le> maskw w" and v: "uint v = (uint x - uint y) mod 2 ^ w" for x y v
  proof (rule wrapping_sound [OF w, of "x - fst p" _ "snd q - y"])
    have le: "fst p \<le> x" "x \<le> snd p" "fst q \<le> y" "y \<le> snd q"
      using x by (simp_all add: in_pair_def)
    show "x - fst p \<le> snd p - fst p" "snd q - y \<le> snd q - fst q"
      using le order_trans [OF le(1,2)] order_trans [OF le(3,4)]
      by (simp_all add: word_le_def uint_sub_small)
    have "uint (fst p - snd q) mod 2 ^ w = (uint (fst p) - uint (snd q)) mod 2 ^ w"
      using w(2) by (simp add: uint_word_ariths mod_2_128)
    then have "(uint (fst p - snd q) + uint (x - fst p) + uint (snd q - y)) mod 2 ^ w =
        (uint (fst p) - uint (snd q) + uint (x - fst p) + uint (snd q - y)) mod 2 ^ w"
      by (intro mod_add_cong refl)
    also have "\<dots> = (uint x - uint y) mod 2 ^ w" using le by (simp add: uint_sub_small)
    finally show "uint v = (uint (fst p - snd q) + uint (x - fst p) + uint (snd q - y)) mod 2 ^ w"
      using v by simp
  qed
  have conc: "v \<le> maskw w \<and> uint v = (uint x - uint y) mod 2 ^ w \<and>
      promised f w (signed_at x w - signed_at y w) (uint x - uint y)"
    if "sub_conc f w x y = Some v" for x y v
    using if_SomeD [OF that [unfolded sub_conc_def]] w(2) uint_sub_maskw [OF w(2), of x y] by simp
  show "\<exists>r. sub_pair w f p q = Some r \<and> range_ok r \<and> rwidth r = w \<and>
      (\<forall>x y v. in_pair x p \<longrightarrow> in_pair y q \<longrightarrow> sub_conc f w x y = Some v \<longrightarrow> v \<in> gamma r)"
    unfolding sub_pair_def
    by (rule clamped_transfer [OF w pq wr sub_signed_window_ok sub_unsigned_window_ok
          mod_diff_cong in_wr conc])
qed

section \<open>Multiplication\<close>

lemma mult_between:
  fixes a b x y :: int
  assumes "a \<le> x" "x \<le> b"
  shows "min (a * y) (b * y) \<le> x * y" "x * y \<le> max (a * y) (b * y)"
proof -
  have "a * y \<le> x * y \<and> x * y \<le> b * y \<or> b * y \<le> x * y \<and> x * y \<le> a * y"
    using assms by (cases "0 \<le> y") (auto intro: mult_right_mono mult_right_mono_neg)
  then show "min (a * y) (b * y) \<le> x * y" "x * y \<le> max (a * y) (b * y)" by linarith+
qed

text \<open>A product over two intervals lies between two of the four products of their ends.\<close>

lemma corners:
  fixes a b c d x y :: int
  assumes "a \<le> x" "x \<le> b" "c \<le> y" "y \<le> d"
  shows "\<exists>k \<in> {a * c, a * d, b * c, b * d}. k \<le> x * y" "\<exists>k \<in> {a * c, a * d, b * c, b * d}. x * y \<le> k"
proof -
  note m = mult_between [OF assms(1,2), of y] mult_between [OF assms(3,4), of a]
    mult_between [OF assms(3,4), of b]
  have "min (a * y) (b * y) \<in> {a * y, b * y}" "max (a * y) (b * y) \<in> {a * y, b * y}"
    by (auto simp: min_def max_def)
  moreover have "min (c * a) (d * a) \<in> {a * c, a * d}" "min (c * b) (d * b) \<in> {b * c, b * d}"
    "max (c * a) (d * a) \<in> {a * c, a * d}" "max (c * b) (d * b) \<in> {b * c, b * d}"
    by (auto simp: min_def max_def mult.commute)
  moreover have "min (c * a) (d * a) \<le> a * y" "a * y \<le> max (c * a) (d * a)"
    "min (c * b) (d * b) \<le> b * y" "b * y \<le> max (c * b) (d * b)"
    using m(3-6) by (simp_all add: mult.commute)
  ultimately show "\<exists>k \<in> {a * c, a * d, b * c, b * d}. k \<le> x * y"
    "\<exists>k \<in> {a * c, a * d, b * c, b * d}. x * y \<le> k"
    using m(1,2) by (smt (verit) insert_iff empty_iff)+
qed

lemma mul_signed_window_ok: "signed_window_ok (*) mul_signed_window"
  unfolding signed_window_ok_def
proof (intro allI impI)
  fix a b c d x y lo hi :: int
  assume le: "a \<le> x" "x \<le> b" "c \<le> y" "y \<le> d"
    and win: "mul_signed_window (a, b) (c, d) = (lo, hi)" and s: "in_i128 (x * y)"
  let ?C = "{a * c, a * d, b * c, b * d}"
  have lohi: "lo = Min (sat_i128 ` ?C)" "hi = Max (sat_i128 ` ?C)"
    using win unfolding mul_signed_window_def Let_def fst_conv snd_conv prod.inject
    by (simp_all only: list.set image_insert image_empty)
  obtain k where "k \<in> ?C" "k \<le> x * y" using corners(1) [OF le] by blast
  then have "lo \<le> x * y"
    unfolding lohi by (intro order_trans [OF Min_le sat_i128_le [OF s]]) auto
  moreover obtain m where "m \<in> ?C" "x * y \<le> m" using corners(2) [OF le] by blast
  then have "x * y \<le> hi"
    unfolding lohi by (intro order_trans [OF sat_i128_ge [OF s] Max_ge]) auto
  ultimately show "lo \<le> x * y \<and> x * y \<le> hi" ..
qed

lemma mul_unsigned_window_ok:
  assumes w: "w \<le> 128" shows "unsigned_window_ok w (*) (mul_unsigned_window w)"
  unfolding unsigned_window_ok_def
proof (intro allI impI)
  fix p q x y
  assume x: "in_pair x p" "in_pair y q" "uint x * uint y < 2 ^ w"
  have le: "uint (fst p) * uint (fst q) \<le> uint x * uint y" "uint x * uint y \<le> uint (snd p) * uint (snd q)"
    using x(1,2) by (simp_all add: in_pair_def word_le_def mult_mono)
  have lt: "uint (fst p) * uint (fst q) < 2 ^ w" using le x(3) by linarith
  then have c: "checked_mul (fst p) (fst q) = Some (fst p * fst q)"
    using pow_128 [OF w] by (simp add: checked_mul_def)
  have u: "uint (fst p * fst q) = uint (fst p) * uint (fst q)" using checked_mul_SomeD [OF c] .
  have "fst p * fst q \<le> maskw w" using lt u w by (simp add: le_maskw_iff)
  moreover have "uint x * uint y \<le> uint (saturating_mul (snd p) (snd q))"
    using le x(3) pow_128 [OF w] unfolding uint_saturating_mul by linarith
  ultimately show "\<exists>lo hi. mul_unsigned_window w p q = Some (lo, hi) \<and> uint lo \<le> uint x * uint y \<and>
      uint x * uint y \<le> uint hi"
    using le(1) u by (simp add: mul_unsigned_window_def c)
qed

lemma mul_wrapped_sound:
  assumes w: "0 < w" "w \<le> 128"
    and x: "in_pair x p" "in_pair y q" "v \<le> maskw w" and v: "uint v = (uint x * uint y) mod 2 ^ w"
  shows "v \<in> gamma (if fst p = snd p \<and> fst q = snd q then range_exactly (fst p * fst q) w
         else case (checked_mul (fst p) (fst q), checked_mul (snd p) (snd q)) of
                (Some low, Some high) \<Rightarrow>
                  if high \<le> maskw w then between low high w else range_full w
              | _ \<Rightarrow> range_full w)" (is "v \<in> gamma ?wr")
proof (cases "fst p = snd p \<and> fst q = snd q")
  case True
  then have "x = fst p" "y = fst q" using x(1,2) by (auto simp: in_pair_def)
  then have "v = (fst p * fst q) AND maskw w"
    using v w(2) by (intro word_uint_eqI) (simp add: uint_mul_maskw)
  then show ?thesis using True w by (simp add: gamma_exactly)
next
  case False
  have full: "v \<in> gamma (range_full w)" using w x(3) by (simp add: gamma_full)
  show ?thesis
  proof (cases "\<exists>low high. checked_mul (fst p) (fst q) = Some low \<and>
      checked_mul (snd p) (snd q) = Some high \<and> high \<le> maskw w")
    case True
    then obtain low high where c: "checked_mul (fst p) (fst q) = Some low"
      "checked_mul (snd p) (snd q) = Some high" "high \<le> maskw w" by blast
    have le: "uint low \<le> uint x * uint y" "uint x * uint y \<le> uint high"
      using x(1,2) checked_mul_SomeD [OF c(1)] checked_mul_SomeD [OF c(2)]
      by (simp_all add: in_pair_def word_le_def mult_mono)
    moreover have "uint high < 2 ^ w" using c(3) w(2) by (simp add: le_maskw_iff)
    ultimately have "uint v = uint x * uint y"
      unfolding v using uint_ge_0 [of low] by (intro mod_pos_pos_trivial) linarith+
    then have "v \<in> gamma (between low high w)"
      using le c(3) w by (intro gamma_betweenI) (simp_all add: word_le_def)
    then show ?thesis using False c by auto
  next
    case none: False
    then have "?wr = range_full w" using False by (auto split: option.splits)
    then show ?thesis using full by simp
  qed
qed

interpretation mul_pairs: pair_transfer "\<lambda>w. mul_pair w f" "mul_conc f" for f
proof
  fix w p q assume w: "0 < w" "w \<le> 128" and pq: "pair_in w p" "pair_in w q"
  let ?wr = "if fst p = snd p \<and> fst q = snd q then range_exactly (fst p * fst q) w
         else case (checked_mul (fst p) (fst q), checked_mul (snd p) (snd q)) of
                (Some low, Some high) \<Rightarrow>
                  if high \<le> maskw w then between low high w else range_full w
              | _ \<Rightarrow> range_full w"
  have wr: "range_ok ?wr" "rwidth ?wr = w"
    using w by (simp_all split: option.split)
  have conc: "v \<le> maskw w \<and> uint v = (uint x * uint y) mod 2 ^ w \<and>
      promised f w (signed_at x w * signed_at y w) (uint x * uint y)"
    if "mul_conc f w x y = Some v" for x y v
    using if_SomeD [OF that [unfolded mul_conc_def]] w(2) uint_mul_maskw [OF w(2), of x y] by simp
  show "\<exists>r. mul_pair w f p q = Some r \<and> range_ok r \<and> rwidth r = w \<and>
      (\<forall>x y v. in_pair x p \<longrightarrow> in_pair y q \<longrightarrow> mul_conc f w x y = Some v \<longrightarrow> v \<in> gamma r)"
    unfolding mul_pair_def Let_def
    by (rule clamped_transfer [OF w pq wr mul_signed_window_ok mul_unsigned_window_ok [OF w(2)]
          mod_mult_cong mul_wrapped_sound [OF w] conc])
qed

section \<open>The transfer functions meet the contract\<close>

lemma dvd_low_bits:
  assumes "2 ^ z dvd uint (v :: u128)" "n < z" shows "\<not> bit v n"
proof -
  have "take_bit z (uint v) = 0" using assms(1) by (simp add: take_bit_eq_0_iff)
  then have "\<not> bit (take_bit z (uint v)) n" by simp
  then show ?thesis using assms(2)
    by (auto simp: bit_take_bit_iff bit_uint_iff dest: bit_imp_le_length)
qed

text \<open>The low zero bits of a product are at least those of the two operands together.\<close>

lemma mul_low_bits:
  assumes w: "0 < w" "w \<le> 128" and a: "allows (rbits a) x" and b: "allows (rbits b) y"
    and v: "uint v = (uint x * uint y) mod 2 ^ w"
  defines "z \<equiv> min (low_zeros (rbits a) + low_zeros (rbits b)) w"
  shows "allows (if z \<ge> w then bits_exactly 0 w else from_parts 0 (push_bit z (maskw w)) w) v"
proof -
  have "2 ^ (low_zeros (rbits a) + low_zeros (rbits b)) dvd uint x * uint y"
    unfolding power_add using low_zeros_dvd [OF a order_refl] low_zeros_dvd [OF b order_refl]
    by (rule mult_dvd_mono)
  moreover have "(2::int) ^ z dvd 2 ^ (low_zeros (rbits a) + low_zeros (rbits b))"
    unfolding z_def by (rule le_imp_power_dvd) simp
  ultimately have "2 ^ z dvd uint x * uint y" by (metis dvd_trans)
  moreover have "(2::int) ^ z dvd 2 ^ w" unfolding z_def by (rule le_imp_power_dvd) simp
  ultimately have dvd: "2 ^ z dvd uint v" unfolding v by (simp add: dvd_mod)
  have vm: "v \<le> maskw w" using w(2) by (simp add: le_maskw_iff v)
  show ?thesis
  proof (cases "z \<ge> w")
    case True
    then have "\<not> bit v n" if "n < w" for n using dvd_low_bits [OF dvd] that by simp
    then have "v = 0" using le_maskw_bitD [OF vm w(2)] by (intro bit_word_eqI) auto
    then show ?thesis using True by (simp add: allows_def bits_exactly_def)
  next
    case False
    have "allows (from_parts 0 (push_bit z (maskw w)) w) v"
    proof (rule allows_from_parts [OF w(2) vm])
      fix n assume n: "n < w" "\<not> bit (push_bit z (maskw w)) n"
      then have "n < z" using w(2) by (auto simp: bit_push_bit_iff)
      then show "bit v n = bit (0 :: u128) n" using dvd_low_bits [OF dvd] by simp
    qed
    then show ?thesis using False by simp
  qed
qed

interpretation radd: binary_transfer "\<lambda>a b. ops_add a b f" "add_conc f" for f
  unfolding ops_add_def by (rule add_pairs.binary_transfer_axioms)

interpretation rsub: binary_transfer "\<lambda>a b. ops_sub a b f" "sub_conc f" for f
  unfolding ops_sub_def by (rule sub_pairs.binary_transfer_axioms)

interpretation rmul: binary_transfer "\<lambda>a b. ops_mul a b f" "mul_conc f" for f
proof
  fix a b assume ok: "range_ok a" "range_ok b" "rwidth a = rwidth b"
  let ?w = "rwidth a" and ?z = "min (low_zeros (rbits a) + low_zeros (rbits b)) (rwidth a)"
  let ?low = "if ?z \<ge> ?w then bits_exactly 0 ?w else from_parts 0 (push_bit ?z (maskw ?w)) ?w"
  note w = range_okD(1,2) [OF ok(1)]
  show "\<exists>r. ops_mul a b f = Some r \<and> range_ok r \<and> rwidth r = ?w \<and>
      (\<forall>x \<in> gamma a. \<forall>y \<in> gamma b. \<forall>v. mul_conc f ?w x y = Some v \<longrightarrow> v \<in> gamma r)"
  proof (cases "is_empty a \<or> is_empty b")
    case True
    then have "gamma a = {} \<or> gamma b = {}"
      using gamma_iff [OF ok(1)] gamma_iff [OF ok(2)] by (auto simp: is_empty_def)
    then show ?thesis using True ok range_empty_width [OF ok(1)] by (auto simp: ops_mul_def Let_def)
  next
    case False
    obtain r where r: "per_pair a b (mul_pair ?w f) = Some r" "range_ok r" "rwidth r = ?w"
      "\<forall>x \<in> gamma a. \<forall>y \<in> gamma b. \<forall>v. mul_conc f ?w x y = Some v \<longrightarrow> v \<in> gamma r"
      using mul_pairs.per_pair_transfer [OF ok(1,2) refl ok(3) [symmetric]] by blast
    have low: "bits_ok (rwidth r) ?low" using w(2) r(3) by simp
    have op: "ops_mul a b f = Some (narrow r ?low)"
      using False by (simp add: ops_mul_def Let_def ok(3) [symmetric] r(1))
    have "v \<in> gamma (narrow r ?low)"
      if x: "x \<in> gamma a" and y: "y \<in> gamma b" and v: "mul_conc f ?w x y = Some v" for x y v
    proof (rule narrow_sound [OF r(2) low])
      show "v \<in> gamma r" using r(4) x y v by blast
      have "uint v = (uint x * uint y) mod 2 ^ ?w"
        using if_SomeD [OF v [unfolded mul_conc_def]] uint_mul_maskw [OF w(2), of x y] by simp
      then show "allows ?low v"
        using x y gamma_iff [OF ok(1)] gamma_iff [OF ok(2)] by (intro mul_low_bits [OF w]) simp_all
    qed
    then show ?thesis using op narrow_ok_width [OF r(2) low] r(3) by simp
  qed
qed

section \<open>Negation\<close>

lemma ops_neg_sound:
  assumes ok: "range_ok a"
  shows "\<exists>r. ops_neg a f = Some r \<and> range_ok r \<and> rwidth r = rwidth a \<and>
    (\<forall>x \<in> gamma a. promised f (rwidth a) (- signed_at x (rwidth a)) (- uint x) \<longrightarrow>
      (- x) AND maskw (rwidth a) \<in> gamma r)"
proof -
  let ?z = "range_exactly 0 (rwidth a)"
  have z: "range_ok ?z" "rwidth ?z = rwidth a" "0 \<in> gamma ?z"
    using range_okD(3) [OF ok] by (simp_all add: gamma_exactly)
  have s: "signed_at 0 w = 0" for w by (simp add: signed_at_def)
  obtain r where "ops_sub ?z a f = Some r" "range_ok r" "rwidth r = rwidth a"
    "\<forall>x \<in> gamma ?z. \<forall>y \<in> gamma a. \<forall>v. sub_conc f (rwidth a) x y = Some v \<longrightarrow> v \<in> gamma r"
    using rsub.transfer [OF z(1) ok z(2), of f] z(2) by auto
  then show ?thesis using z(3) by (auto simp: ops_neg_def sub_conc_def s)
qed

section \<open>Properties\<close>

text \<open>
  C4: \<open>ops::add\<close> is sound. On two well-formed ranges of one width it never reaches an
  assertion, its answer is well-formed and of that width, and it holds the sum modulo the
  width of any two values of the operands, leaving out at most the pairs whose sum breaks a
  promise of the flags.
\<close>

theorem range_add_sound:
  assumes "range_ok a" "range_ok b" "rwidth a = rwidth b"
  shows "\<exists>r. ops_add a b f = Some r \<and> range_ok r \<and> rwidth r = rwidth a \<and>
    (\<forall>x \<in> gamma a. \<forall>y \<in> gamma b.
      promised f (rwidth a) (signed_at x (rwidth a) + signed_at y (rwidth a)) (uint x + uint y) \<longrightarrow>
      (x + y) AND maskw (rwidth a) \<in> gamma r)"
proof -
  obtain r where r: "ops_add a b f = Some r" "range_ok r" "rwidth r = rwidth a"
    using radd.total [OF assms, of f] by blast
  show ?thesis
    using r radd.sound [OF assms r(1)] by (intro exI [of _ r]) (simp add: add_conc_def)
qed

theorem range_add_sound_witness:
  "\<exists>r. ops_add (range_exactly 200 8) (range_full 8) NSW = Some r \<and> range_ok r \<and> rwidth r = 8 \<and> 210 \<in> gamma r"
proof -
  have "signed_at 200 8 = - 56" "signed_at 10 8 = 10"
    by (simp_all add: signed_at_value le_maskw_iff)
  then have p: "promised NSW 8 (signed_at 200 8 + signed_at 10 8) (uint (200 :: u128) + uint (10 :: u128))"
    by (simp add: promised_def NSW_def NUW_def flags_contains_def)
  have m: "200 \<in> gamma (range_exactly 200 8)" "10 \<in> gamma (range_full 8)"
    by (simp_all add: gamma_exactly maskw_def MAX_BITS_def)
  obtain r where r: "ops_add (range_exactly 200 8) (range_full 8) NSW = Some r" "range_ok r" "rwidth r = 8"
    "\<forall>x \<in> gamma (range_exactly 200 8). \<forall>y \<in> gamma (range_full 8).
      promised NSW 8 (signed_at x 8 + signed_at y 8) (uint x + uint y) \<longrightarrow> (x + y) AND maskw 8 \<in> gamma r"
    using range_add_sound [of "range_exactly 200 8" "range_full 8" NSW] by (auto simp del: gamma_full)
  have "(200 + 10) AND maskw 8 \<in> gamma r" using r(4) m p by blast
  then show ?thesis using r by (simp add: maskw_def MAX_BITS_def)
qed

text \<open>
  \<open>ops::sub\<close> is sound, in the same sense as addition: no assertion, a well-formed
  answer, and every difference modulo the width that keeps the promises of the flags.
\<close>

theorem range_sub_sound:
  assumes "range_ok a" "range_ok b" "rwidth a = rwidth b"
  shows "\<exists>r. ops_sub a b f = Some r \<and> range_ok r \<and> rwidth r = rwidth a \<and>
    (\<forall>x \<in> gamma a. \<forall>y \<in> gamma b.
      promised f (rwidth a) (signed_at x (rwidth a) - signed_at y (rwidth a)) (uint x - uint y) \<longrightarrow>
      (x - y) AND maskw (rwidth a) \<in> gamma r)"
proof -
  obtain r where r: "ops_sub a b f = Some r" "range_ok r" "rwidth r = rwidth a"
    using rsub.total [OF assms, of f] by blast
  show ?thesis
    using r rsub.sound [OF assms r(1)] by (intro exI [of _ r]) (simp add: sub_conc_def)
qed

theorem range_sub_sound_witness:
  "\<exists>r. ops_sub (range_exactly 3 8) (range_exactly 5 8) NONE = Some r \<and> range_ok r \<and> 254 \<in> gamma r"
  using range_sub_sound [of "range_exactly 3 8" "range_exactly 5 8" NONE]
  by (auto simp: gamma_exactly maskw_def MAX_BITS_def)

text \<open>
  C5: \<open>ops::mul\<close> is sound: no assertion, a well-formed answer, and every product modulo the
  width that keeps the promises of the flags, also after the answer is narrowed to the
  multiples of the operands' known powers of two.
\<close>

theorem range_mul_sound:
  assumes "range_ok a" "range_ok b" "rwidth a = rwidth b"
  shows "\<exists>r. ops_mul a b f = Some r \<and> range_ok r \<and> rwidth r = rwidth a \<and>
    (\<forall>x \<in> gamma a. \<forall>y \<in> gamma b.
      promised f (rwidth a) (signed_at x (rwidth a) * signed_at y (rwidth a)) (uint x * uint y) \<longrightarrow>
      (x * y) AND maskw (rwidth a) \<in> gamma r)"
proof -
  obtain r where r: "ops_mul a b f = Some r" "range_ok r" "rwidth r = rwidth a"
    using rmul.total [OF assms, of f] by blast
  show ?thesis
    using r rmul.sound [OF assms r(1)] by (intro exI [of _ r]) (simp add: mul_conc_def)
qed

theorem range_mul_sound_witness:
  "\<exists>r. ops_mul (range_exactly 100 8) (range_exactly 5 8) NONE = Some r \<and> range_ok r \<and> 244 \<in> gamma r"
  using range_mul_sound [of "range_exactly 100 8" "range_exactly 5 8" NONE]
  by (auto simp: gamma_exactly maskw_def MAX_BITS_def)

end
