(* ===== verification/RangeBitwise.thy ===== *)
theory RangeBitwise
  imports RangeArith
begin

text \<open>
  Soundness of the bitwise operations and of the conversions between widths of
  \<open>range/ops.rs\<close>. The bitwise ones meet the contract \<open>binary_transfer\<close>; the complement and
  the conversions meet \<open>unary_transfer\<close>, the same contract for one operand and an answer at a
  width of its own.
\<close>

section \<open>And, or, exclusive or\<close>

definition and_conc :: concrete where "and_conc w x y = Some (x AND y)"
definition or_conc :: concrete where "or_conc w x y = Some (x OR y)"
definition xor_conc :: concrete where "xor_conc w x y = Some (x XOR y)"

lemma gamma_allows: "range_ok a \<Longrightarrow> x \<in> gamma a \<Longrightarrow> allows (rbits a) x"
  by (simp add: gamma_iff)

lemma gamma_le_width: "range_ok a \<Longrightarrow> x \<in> gamma a \<Longrightarrow> x \<le> maskw (rwidth a)"
  by (simp add: gamma_iff)

lemma gamma_not_empty: "range_ok a \<Longrightarrow> x \<in> gamma a \<Longrightarrow> \<not> is_empty a"
  by (auto simp: gamma_iff is_empty_def)

lemma allowsD:
  "allows b v \<Longrightarrow> n < 128 \<Longrightarrow> (bit v n \<and> \<not> bit (kb_unknown b) n) = bit (kb_value b) n"
  by (simp add: allows_iff)

lemma ones_zeros:
  assumes "allows (rbits a) x" "n < w" "w \<le> 128"
  shows "bit (ones a) n \<Longrightarrow> bit x n" "bit (zeros a w) n \<Longrightarrow> \<not> bit x n"
  using allowsD [OF assms(1) less_le_trans [OF assms(2,3)]]
  by (auto simp: ones_def zeros_def bit_simps)

lemma le_maskw_bits:
  assumes "w \<le> 128" "x \<le> maskw w" "y \<le> maskw w"
  shows "x AND y \<le> maskw w" "x OR y \<le> maskw w" "x XOR y \<le> maskw w"
  using assms le_maskw_bitD [OF assms(2,1)] le_maskw_bitD [OF assms(3,1)]
  by (auto intro!: le_maskwI simp: bit_simps)

text \<open>The answer of a bitwise operation: an interval the result is in, narrowed by known bits.\<close>

lemma narrowed_between:
  assumes w: "0 < w" "w \<le> 128" and v: "lo \<le> v" "v \<le> hi" "hi \<le> maskw w"
    and bits: "\<And>n. n < w \<Longrightarrow> bit one n \<Longrightarrow> bit v n" "\<And>n. n < w \<Longrightarrow> bit zero n \<Longrightarrow> \<not> bit v n"
  shows "v \<in> gamma (narrow (between lo hi w) (from_parts one (maskw w AND NOT one AND NOT zero) w))"
proof (rule narrow_sound)
  show "v \<in> gamma (between lo hi w)" by (rule gamma_betweenI [OF w v])
  have "v \<le> maskw w" using v by simp
  then show "allows (from_parts one (maskw w AND NOT one AND NOT zero) w) v"
    using w bits by (intro allows_from_parts) (auto simp: bit_simps)
qed (use w in simp_all)

lemma narrow_ok' [simp]:
  "range_ok r \<Longrightarrow> bits_ok (rwidth r) b \<Longrightarrow> range_ok (narrow r b)"
  "range_ok r \<Longrightarrow> bits_ok (rwidth r) b \<Longrightarrow> rwidth (narrow r b) = rwidth r"
  using narrow_ok_width by blast+

lemma bounds_cases:
  assumes "range_ok a"
  obtains "unsigned_bounds a = None" "gamma a = {}"
  | lo hi where "unsigned_bounds a = Some (lo, hi)" "hi \<le> maskw (rwidth a)"
      "\<And>x. x \<in> gamma a \<Longrightarrow> lo \<le> x \<and> x \<le> hi"
proof (cases "unsigned_bounds a")
  case None
  then have "gamma a = {}" using unsigned_bounds_sound [OF assms] by fastforce
  with None that(1) show thesis by blast
next
  case (Some p)
  obtain lo hi where p: "p = (lo, hi)" by (cases p)
  have "rpairs a \<noteq> []" "hi = snd (last (rpairs a))"
    using Some by (auto simp: p unsigned_bounds_def split: if_splits)
  then have "hi \<le> maskw (rwidth a)"
    using pairs_okD [OF range_okD(4) [OF assms] last_in_set] by (simp add: pair_in_def)
  moreover have "\<And>x. x \<in> gamma a \<Longrightarrow> lo \<le> x \<and> x \<le> hi"
    using unsigned_bounds_sound [OF assms] Some p by fastforce
  ultimately show thesis using that(2) Some p by blast
qed

interpretation rand: binary_transfer ops_and and_conc
proof
  fix a b assume ok: "range_ok a" "range_ok b" "rwidth a = rwidth b"
  note w = range_okD(1,2) [OF ok(1)] and e = range_empty_width [OF ok(1)]
  show "\<exists>r. ops_and a b = Some r \<and> range_ok r \<and> rwidth r = rwidth a \<and>
      (\<forall>x \<in> gamma a. \<forall>y \<in> gamma b. \<forall>v. and_conc (rwidth a) x y = Some v \<longrightarrow> v \<in> gamma r)"
  proof (cases rule: bounds_cases [OF ok(1)])
    case 1
    then show ?thesis using ok e by (simp add: ops_and_def Let_def)
  next
    case A: (2 al ah)
    show ?thesis
    proof (cases rule: bounds_cases [OF ok(2)])
      case 1
      then show ?thesis using ok e by (simp add: ops_and_def Let_def split: option.split prod.split)
    next
      case B: (2 bl bh)
      let ?one = "ones a AND ones b" and ?zero = "zeros a (rwidth a) OR zeros b (rwidth a)"
      let ?r = "narrow (between 0 (min ah bh) (rwidth a))
        (from_parts ?one (maskw (rwidth a) AND NOT ?one AND NOT ?zero) (rwidth a))"
      have "x AND y \<in> gamma ?r" if x: "x \<in> gamma a" and y: "y \<in> gamma b" for x y
      proof (rule narrowed_between [OF w])
        show "x AND y \<le> min ah bh"
          using A(3) [OF x] B(3) [OF y] word_and_le1 [of x y] word_and_le2 [of x y]
          by (auto intro: order_trans)
        show "min ah bh \<le> maskw (rwidth a)" using A(2) by (simp add: min.coboundedI1)
      qed (use ones_zeros [OF gamma_allows [OF ok(1) x] _ w(2)]
          ones_zeros [OF gamma_allows [OF ok(2) y] _ w(2)] in \<open>auto simp: bit_simps\<close>)
      moreover have "ops_and a b = Some ?r"
        by (simp add: ops_and_def Let_def A(1) B(1) ok(3) [symmetric])
      ultimately show ?thesis using w by (simp add: and_conc_def)
    qed
  qed
qed

interpretation ror: binary_transfer ops_or or_conc
proof
  fix a b assume ok: "range_ok a" "range_ok b" "rwidth a = rwidth b"
  note w = range_okD(1,2) [OF ok(1)] and e = range_empty_width [OF ok(1)]
  show "\<exists>r. ops_or a b = Some r \<and> range_ok r \<and> rwidth r = rwidth a \<and>
      (\<forall>x \<in> gamma a. \<forall>y \<in> gamma b. \<forall>v. or_conc (rwidth a) x y = Some v \<longrightarrow> v \<in> gamma r)"
  proof (cases rule: bounds_cases [OF ok(1)])
    case 1
    then show ?thesis using ok e by (simp add: ops_or_def Let_def)
  next
    case A: (2 al ah)
    show ?thesis
    proof (cases rule: bounds_cases [OF ok(2)])
      case 1
      then show ?thesis using ok e by (simp add: ops_or_def Let_def split: option.split prod.split)
    next
      case B: (2 bl bh)
      let ?one = "ones a OR ones b" and ?zero = "zeros a (rwidth a) AND zeros b (rwidth a)"
      let ?r = "narrow (between (max al bl) (maskw (rwidth a)) (rwidth a))
        (from_parts ?one (maskw (rwidth a) AND NOT ?one AND NOT ?zero) (rwidth a))"
      have "x OR y \<in> gamma ?r" if x: "x \<in> gamma a" and y: "y \<in> gamma b" for x y
      proof (rule narrowed_between [OF w])
        show "max al bl \<le> x OR y"
          using A(3) [OF x] B(3) [OF y] le_word_or1 [of y x] le_word_or2 [of x y]
          by (auto intro: order_trans)
        show "x OR y \<le> maskw (rwidth a)"
          using le_maskw_bits(2) [OF w(2) gamma_le_width [OF ok(1) x]] gamma_le_width [OF ok(2) y] ok(3) by simp
      qed (use ones_zeros [OF gamma_allows [OF ok(1) x] _ w(2)]
          ones_zeros [OF gamma_allows [OF ok(2) y] _ w(2)] in \<open>auto simp: bit_simps\<close>)
      moreover have "ops_or a b = Some ?r"
        by (simp add: ops_or_def Let_def A(1) B(1) ok(3) [symmetric])
      ultimately show ?thesis using w by (simp add: or_conc_def)
    qed
  qed
qed

interpretation rxor: binary_transfer ops_xor xor_conc
proof
  fix a b assume ok: "range_ok a" "range_ok b" "rwidth a = rwidth b"
  let ?w = "rwidth a"
  note w = range_okD(1,2) [OF ok(1)] and e = range_empty_width [OF ok(1)]
  show "\<exists>r. ops_xor a b = Some r \<and> range_ok r \<and> rwidth r = rwidth a \<and>
      (\<forall>x \<in> gamma a. \<forall>y \<in> gamma b. \<forall>v. xor_conc (rwidth a) x y = Some v \<longrightarrow> v \<in> gamma r)"
  proof (cases "is_empty a \<or> is_empty b")
    case True
    then have "gamma a = {} \<or> gamma b = {}" using gamma_not_empty ok by blast
    then show ?thesis using True ok e by (auto simp: ops_xor_def Let_def)
  next
    case False
    let ?known = "NOT (kb_unknown (rbits a)) AND NOT (kb_unknown (rbits b))"
    let ?bits = "from_parts ((kb_value (rbits a) XOR kb_value (rbits b)) AND ?known)
      (maskw ?w AND NOT ?known) ?w"
    let ?r = "narrow (range_full ?w) ?bits"
    have "x XOR y \<in> gamma ?r" if x: "x \<in> gamma a" and y: "y \<in> gamma b" for x y
    proof (rule narrow_sound)
      have le: "x XOR y \<le> maskw ?w"
        using le_maskw_bits(3) [OF w(2) gamma_le_width [OF ok(1) x]] gamma_le_width [OF ok(2) y] ok(3) by simp
      then show "x XOR y \<in> gamma (range_full ?w)" using w by simp
      show "allows ?bits (x XOR y)"
      proof (rule allows_from_parts [OF w(2) le])
        fix n assume n: "n < ?w" "\<not> bit (maskw ?w AND NOT ?known) n"
        then have "n < 128" using w(2) by simp
        then show "bit (x XOR y) n = bit ((kb_value (rbits a) XOR kb_value (rbits b)) AND ?known) n"
          using n allowsD [OF gamma_allows [OF ok(1) x]] allowsD [OF gamma_allows [OF ok(2) y]]
          by (auto simp: bit_simps)
      qed
    qed (use w in simp_all)
    moreover have "ops_xor a b = Some ?r"
      using False by (simp add: ops_xor_def Let_def ok(3) [symmetric])
    ultimately show ?thesis using w by (simp add: xor_conc_def)
  qed
qed

section \<open>Complement and conversions\<close>

locale unary_transfer =
  fixes F :: "range \<Rightarrow> nat \<Rightarrow> range" and out :: "nat \<Rightarrow> nat \<Rightarrow> nat"
    and conc :: "nat \<Rightarrow> nat \<Rightarrow> u128 \<Rightarrow> u128"
  assumes transfer: "range_ok a \<Longrightarrow> range_ok (F a to) \<and> rwidth (F a to) = out (rwidth a) to \<and>
      (\<forall>x \<in> gamma a. conc (rwidth a) to x \<in> gamma (F a to))"
begin

lemma ok: "range_ok a \<Longrightarrow> range_ok (F a to)"
  using transfer by blast

lemma sound: "range_ok a \<Longrightarrow> x \<in> gamma a \<Longrightarrow> conc (rwidth a) to x \<in> gamma (F a to)"
  using transfer by blast

lemma image: "range_ok a \<Longrightarrow> conc (rwidth a) to ` gamma a \<subseteq> gamma (F a to)"
  using transfer by blast

end

lemma minus_one_less_uint [simp]: "- 1 < uint x"
  by (rule less_le_trans [OF _ uint_ge_0]) simp

lemma gamma_pair:
  assumes "range_ok a" "x \<in> gamma a"
  obtains lo hi where "(lo, hi) \<in> set (rpairs a)" "lo \<le> x" "x \<le> hi" "hi \<le> maskw (rwidth a)"
proof -
  obtain p where p: "p \<in> set (rpairs a)" "in_pair x p" using assms gamma_iff by blast
  have "pair_in (rwidth a) p" using pairs_okD [OF range_okD(4) [OF assms(1)] p(1)] .
  then show thesis using that [of "fst p" "snd p"] p by (simp add: in_pair_def pair_in_def)
qed

definition not_conc :: "nat \<Rightarrow> nat \<Rightarrow> u128 \<Rightarrow> u128" where
  "not_conc w to x = NOT x AND maskw w"

definition trunc_conc :: "nat \<Rightarrow> nat \<Rightarrow> u128 \<Rightarrow> u128" where
  "trunc_conc w to x = x AND maskw (clampw to)"

definition sext_conc :: "nat \<Rightarrow> nat \<Rightarrow> u128 \<Rightarrow> u128" where
  "sext_conc w to x = word_of_int (signed_at x w) AND maskw (clampw to)"

lemma uint_not_maskw:
  assumes "w \<le> 128" "x \<le> maskw w"
  shows "NOT x AND maskw w = maskw w - x" "uint (maskw w - x) = 2 ^ w - 1 - uint x"
proof -
  show u: "uint (maskw w - x) = 2 ^ w - 1 - uint x"
    using assms by (simp add: uint_sub_small uint_maskw)
  have "uint (NOT x AND maskw w) = (- uint x - 1) mod 2 ^ w"
    using assms(1) by (simp add: word_red not_eq_complement uint_word_ariths mod_simps mod_2_128)
  also have "\<dots> = (2 ^ w - 1 - uint x) mod 2 ^ w"
    by (metis (no_types, lifting) add.commute diff_add_eq mod_add_self1 uminus_add_conv_diff diff_diff_eq)
  also have "\<dots> = 2 ^ w - 1 - uint x"
    using assms by (intro mod_pos_pos_trivial) (simp_all add: le_maskw_iff)
  finally show "NOT x AND maskw w = maskw w - x" by (intro word_uint_eqI) (simp add: u)
qed

interpretation rnot: unary_transfer "\<lambda>a to. ops_not a" "\<lambda>w to. w" not_conc
proof
  fix a to assume ok: "range_ok a"
  note w = range_okD(1,2,3) [OF ok]
  have "NOT x AND maskw (rwidth a) \<in> gamma (ops_not a)" if x: "x \<in> gamma a" for x
  proof -
    obtain lo hi where p: "(lo, hi) \<in> set (rpairs a)" "lo \<le> x" "x \<le> hi" "hi \<le> maskw (rwidth a)"
      using gamma_pair [OF ok x] .
    note le = order_trans [OF p(3,4)] order_trans [OF order_trans [OF p(2,3)] p(4)]
    have "maskw (rwidth a) - x \<in> gamma (ops_not a)"
      unfolding ops_not_def Let_def
    proof (rule from_pairs_sound)
      show "(maskw (rwidth a) - hi, maskw (rwidth a) - lo) \<in>
          set (map (\<lambda>(lo, hi). (maskw (rwidth a) - hi, maskw (rwidth a) - lo)) (rpairs a))"
        using p(1) by force
    qed (use p le w in \<open>simp_all add: in_pair_def word_le_def uint_not_maskw(2) uint_maskw\<close>)
    then show ?thesis using uint_not_maskw(1) [OF w(2) le(1)] by simp
  qed
  then show "range_ok (ops_not a) \<and> rwidth (ops_not a) = rwidth a \<and>
      (\<forall>x \<in> gamma a. not_conc (rwidth a) to x \<in> gamma (ops_not a))"
    using w(3) by (simp add: not_conc_def ops_not_def Let_def)
qed

interpretation rtrunc: unary_transfer ops_trunc "\<lambda>w to. clampw to" trunc_conc
proof
  fix a to assume ok: "range_ok a"
  let ?to = "clampw to" and ?M = "(2::int) ^ clampw to"
  note w = range_okD(1,2,3) [OF ok]
  define cut where "cut = (\<lambda>(lo, hi). let lo = lo AND maskw ?to; hi = hi AND maskw ?to
      in if lo \<le> hi then [(lo, hi)] else [(0, hi), (lo, maskw ?to)])"
  have "x AND maskw ?to \<in> gamma (ops_trunc a to)" if x: "x \<in> gamma a" for x
  proof (cases "\<exists>(lo, hi) \<in> set (rpairs a). hi - lo \<ge> maskw ?to")
    case True
    then show ?thesis by (simp add: ops_trunc_def Let_def)
  next
    case False
    then have op: "ops_trunc a to = from_pairs (concat (map cut (rpairs a))) ?to"
      unfolding ops_trunc_def Let_def cut_def by (simp only: if_False)
    obtain lo hi where p: "(lo, hi) \<in> set (rpairs a)" "lo \<le> x" "x \<le> hi" using gamma_pair [OF ok x] .
    have "hi - lo < maskw ?to" using False p(1) by force
    then have f: "uint hi - uint lo < ?M"
      using p by (simp add: word_less_def uint_sub_small uint_maskw)
    let ?L = "uint lo mod ?M"
    have m: "uint (y AND maskw ?to) = (?L + (uint y - uint lo)) mod ?M" for y
      by (simp add: word_red mod_add_left_eq)
    have lo: "uint (lo AND maskw ?to) = ?L" by (simp add: word_red)
    have "if ?L \<le> (?L + (uint hi - uint lo)) mod ?M
      then ?L \<le> (?L + (uint x - uint lo)) mod ?M \<and>
        (?L + (uint x - uint lo)) mod ?M \<le> (?L + (uint hi - uint lo)) mod ?M
      else (?L + (uint x - uint lo)) mod ?M \<le> (?L + (uint hi - uint lo)) mod ?M \<or>
        ?L \<le> (?L + (uint x - uint lo)) mod ?M"
      using p f by (intro wrap_between) (simp_all add: word_le_def)
    then have "if lo AND maskw ?to \<le> hi AND maskw ?to
      then lo AND maskw ?to \<le> x AND maskw ?to \<and> x AND maskw ?to \<le> hi AND maskw ?to
      else x AND maskw ?to \<le> hi AND maskw ?to \<or> lo AND maskw ?to \<le> x AND maskw ?to"
      unfolding word_le_def lo m [of x] m [of hi] .
    then have "\<exists>q \<in> set (cut (lo, hi)). in_pair (x AND maskw ?to) q \<and> snd q \<le> maskw ?to"
      by (auto simp: cut_def Let_def in_pair_def split: if_splits)
    then obtain q where "q \<in> set (concat (map cut (rpairs a)))" "in_pair (x AND maskw ?to) q"
      "snd q \<le> maskw ?to"
      using p(1) by auto
    then show ?thesis unfolding op by (intro from_pairs_sound) simp_all
  qed
  then show "range_ok (ops_trunc a to) \<and> rwidth (ops_trunc a to) = ?to \<and>
      (\<forall>x \<in> gamma a. trunc_conc (rwidth a) to x \<in> gamma (ops_trunc a to))"
    by (simp add: trunc_conc_def ops_trunc_def Let_def)
qed

lemma le_clamped: "w < clampw to \<Longrightarrow> x \<le> maskw w \<Longrightarrow> x \<le> maskw (clampw to)"
  using le_maskw_mono [of w "clampw to"] clampw_bounds(2) [of to] by (meson less_imp_le less_le_trans order_trans)

interpretation rzext: unary_transfer ops_zext "\<lambda>w to. clampw to" trunc_conc
proof
  fix a to assume ok: "range_ok a"
  let ?to = "clampw to"
  show "range_ok (ops_zext a to) \<and> rwidth (ops_zext a to) = ?to \<and>
      (\<forall>x \<in> gamma a. trunc_conc (rwidth a) to x \<in> gamma (ops_zext a to))"
  proof (cases "?to \<le> rwidth a")
    case True
    have t: "range_ok (ops_trunc a ?to)" "rwidth (ops_trunc a ?to) = clampw ?to"
      "\<forall>x \<in> gamma a. trunc_conc (rwidth a) ?to x \<in> gamma (ops_trunc a ?to)"
      using rtrunc.transfer [OF ok, of ?to] by blast+
    have eq: "ops_zext a to = ops_trunc a ?to" using True by (simp add: ops_zext_def Let_def)
    show ?thesis unfolding eq using t by (simp add: trunc_conc_def)
  next
    case False
    let ?f = "from_pairs (rpairs a) ?to" and ?b = "from_parts 0 (maskw (rwidth a)) ?to"
    have eq: "ops_zext a to = narrow ?f ?b" using False by (simp add: ops_zext_def Let_def)
    have "x AND maskw ?to \<in> gamma (narrow ?f ?b)" if x: "x \<in> gamma a" for x
    proof -
      obtain lo hi where p: "(lo, hi) \<in> set (rpairs a)" "lo \<le> x" "x \<le> hi" "hi \<le> maskw (rwidth a)"
        using gamma_pair [OF ok x] .
      have lt: "rwidth a < ?to" using False by simp
      have xa: "x \<le> maskw (rwidth a)" using p(3,4) by (rule order_trans)
      have xt: "x \<le> maskw ?to" "hi \<le> maskw ?to" using le_clamped [OF lt] xa p(4) by blast+
      have "x \<in> gamma (narrow ?f ?b)"
      proof (rule narrow_sound)
        show "x \<in> gamma ?f"
          using p xt by (intro from_pairs_sound [of "(lo, hi)"]) (simp_all add: in_pair_def)
        show "allows ?b x"
          using le_maskw_bitD [OF xa range_okD(2) [OF ok]] range_okD(2) [OF ok]
          by (intro allows_from_parts xt) (auto dest: bit_imp_le_length)
      qed simp_all
      then show ?thesis using xt(1) le_maskw_mask_iff [of ?to x] by simp
    qed
    then show ?thesis unfolding eq by (simp add: trunc_conc_def)
  qed
qed

lemma sext_conc_trunc:
  assumes "0 < w" "w \<le> 128" "clampw to \<le> w"
  shows "sext_conc w to x = x AND maskw (clampw to)"
proof (intro word_uint_eqI)
  have "(2::int) ^ clampw to dvd 2 ^ w" using assms(3) by (rule le_imp_power_dvd)
  then have "signed_at x w mod 2 ^ clampw to = uint x mod 2 ^ clampw to"
    using signed_at_mod [OF assms(1,2), of x] by (metis mod_mod_cancel)
  then show "uint (sext_conc w to x) = uint (x AND maskw (clampw to))"
    by (simp add: sext_conc_def word_red uint_word_of_int mod_2_128)
qed

lemma uint_lift:
  assumes "w < to" "to \<le> 128"
  shows "uint (maskw to - maskw w) = 2 ^ to - 2 ^ w"
proof -
  have "maskw w \<le> maskw to" using assms by (intro le_maskw_mono) simp_all
  then show ?thesis using assms by (simp add: uint_sub_small uint_maskw)
qed

text \<open>Sign extension moves the values at and above the boundary to the top of the wider type.\<close>

lemma uint_sext_conc:
  assumes w: "0 < w" "w < clampw to" and x: "x \<le> maskw w"
  shows "uint (sext_conc w to x) =
    (if x < sign_bit w then uint x else uint x + (2 ^ clampw to - 2 ^ w))"
proof -
  let ?to = "clampw to"
  have w': "w \<le> 128" using w(2) clampw_bounds(2) [of to] by linarith
  have lt: "uint x < 2 ^ w" using x w' by (simp add: le_maskw_iff)
  have pw: "(2::int) ^ w \<le> 2 ^ ?to" using w(2) by (intro power_increasing) simp_all
  have u: "uint (sext_conc w to x) = signed_at x w mod 2 ^ ?to"
    by (simp add: sext_conc_def word_red uint_word_of_int mod_2_128)
  show ?thesis
  proof (cases "uint x < 2 ^ (w - 1)")
    case True
    have "uint x mod 2 ^ ?to = uint x" by (rule mod_pos_pos_trivial [OF uint_ge_0 less_le_trans [OF lt pw]])
    then show ?thesis
      using True unfolding u signed_at_value [OF w(1) w' x] word_less_def uint_sign_bit [OF w(1) w']
      by simp
  next
    case False
    have "(uint x - 2 ^ w) mod 2 ^ ?to = (uint x - 2 ^ w + 2 ^ ?to) mod 2 ^ ?to" by simp
    also have "\<dots> = uint x - 2 ^ w + 2 ^ ?to"
      using lt pw uint_ge_0 [of x] by (intro mod_pos_pos_trivial) linarith+
    finally show ?thesis
      using False unfolding u signed_at_value [OF w(1) w' x] word_less_def uint_sign_bit [OF w(1) w']
      by simp
  qed
qed

interpretation rsext: unary_transfer ops_sext "\<lambda>w to. clampw to" sext_conc
proof
  fix a to assume ok: "range_ok a"
  let ?to = "clampw to" and ?w = "rwidth a"
  note w = range_okD(1,2) [OF ok]
  show "range_ok (ops_sext a to) \<and> rwidth (ops_sext a to) = ?to \<and>
      (\<forall>x \<in> gamma a. sext_conc ?w to x \<in> gamma (ops_sext a to))"
  proof (cases "?to \<le> ?w")
    case True
    have t: "range_ok (ops_trunc a ?to)" "rwidth (ops_trunc a ?to) = clampw ?to"
      "\<forall>x \<in> gamma a. trunc_conc ?w ?to x \<in> gamma (ops_trunc a ?to)"
      using rtrunc.transfer [OF ok, of ?to] by blast+
    have eq: "ops_sext a to = ops_trunc a ?to" using True by (simp add: ops_sext_def Let_def)
    show ?thesis unfolding eq using t by (simp add: trunc_conc_def sext_conc_trunc [OF w True])
  next
    case False
    then have lt: "?w < ?to" by simp
    let ?B = "sign_bit ?w" and ?lift = "maskw ?to - maskw ?w"
    define cut where "cut = (\<lambda>(lo, hi). (if lo < ?B then [(lo, min hi (?B - 1))] else [])
      @ (if hi \<ge> ?B then [(max lo ?B + ?lift, hi + ?lift)] else []))"
    have eq: "ops_sext a to = from_pairs (concat (map cut (rpairs a))) ?to"
      using False by (simp add: ops_sext_def Let_def cut_def)
    have lift: "uint ?lift = 2 ^ ?to - 2 ^ ?w" by (rule uint_lift [OF lt]) simp
    have to: "(2::int) ^ ?to \<le> 2 ^ LENGTH(128)" by (rule pow_128) simp
    have up: "uint (y + ?lift) = uint y + (2 ^ ?to - 2 ^ ?w)" if "y \<le> maskw ?w" for y
    proof -
      have "uint y < 2 ^ ?w" using that w(2) by (simp add: le_maskw_iff)
      then have "uint y + uint ?lift < 2 ^ LENGTH(128)" using to unfolding lift by linarith
      then show ?thesis unfolding lift [symmetric] by (rule uint_add_small)
    qed
    have B: "uint ?B = 2 ^ (?w - 1)" by (rule uint_sign_bit [OF w])
    have Bw: "?B \<le> maskw ?w" using w B by (simp add: le_maskw_iff power_strict_increasing)
    have B1: "uint (?B - 1) = uint ?B - 1"
      by (intro uint_sub_small [THEN trans]) (simp_all add: word_le_def B)
    have "sext_conc ?w to x \<in> gamma (ops_sext a to)" if x: "x \<in> gamma a" for x
    proof -
      obtain lo hi where p: "(lo, hi) \<in> set (rpairs a)" "lo \<le> x" "x \<le> hi" "hi \<le> maskw ?w"
        using gamma_pair [OF ok x] .
      have xw: "x \<le> maskw ?w" using p(3,4) by (rule order_trans)
      note v = uint_sext_conc [OF w(1) lt xw]
      have "\<exists>q \<in> set (cut (lo, hi)). in_pair (sext_conc ?w to x) q \<and> snd q \<le> maskw ?to"
      proof (cases "x < ?B")
        case True
        then have "sext_conc ?w to x = x" using v by (intro word_uint_eqI) simp
        moreover have "x \<le> ?B - 1" using True B1 by (simp add: word_le_def word_less_def)
        moreover have "lo < ?B" using p(2) True by (rule le_less_trans)
        moreover have "hi \<le> maskw ?to" using le_clamped [OF lt p(4)] .
        ultimately show ?thesis using p by (simp add: cut_def in_pair_def min.coboundedI1)
      next
        case False
        then have hiB: "?B \<le> hi" using p(3) by simp
        have v': "uint (sext_conc ?w to x) = uint x + (2 ^ ?to - 2 ^ ?w)" using v False by simp
        have m: "max lo ?B \<le> maskw ?w"
          using p(2) xw Bw by (auto simp: max_def intro: order_trans)
        have "uint hi < 2 ^ ?w" using p(4) w(2) by (simp add: le_maskw_iff)
        then have "hi + ?lift \<le> maskw ?to" using up [OF p(4)] by (simp add: le_maskw_iff)
        moreover have "max lo ?B + ?lift \<le> sext_conc ?w to x"
          unfolding word_le_def v' up [OF m] using p(2) False by (simp add: word_le_def uint_max not_less)
        moreover have "sext_conc ?w to x \<le> hi + ?lift"
          unfolding word_le_def v' up [OF p(4)] using p(3) by (simp add: word_le_def)
        ultimately show ?thesis using hiB by (auto simp: cut_def in_pair_def)
      qed
      then obtain q where "q \<in> set (concat (map cut (rpairs a)))" "in_pair (sext_conc ?w to x) q"
        "snd q \<le> maskw ?to"
        using p(1) by auto
      then show ?thesis unfolding eq by (intro from_pairs_sound) simp_all
    qed
    then show ?thesis by (simp add: eq)
  qed
qed

section \<open>Properties\<close>

text \<open>
  C6: the bitwise operations are sound. On well-formed ranges of one width \<open>ops::and\<close>,
  \<open>ops::or\<close> and \<open>ops::xor\<close> reach no assertion and answer well-formed ranges of that width
  that hold the operation on any two values of the operands.
\<close>

theorem range_bitwise_sound:
  assumes "range_ok a" "range_ok b" "rwidth a = rwidth b"
  shows "\<exists>c d e. ops_and a b = Some c \<and> ops_or a b = Some d \<and> ops_xor a b = Some e \<and>
    (\<forall>r \<in> {c, d, e}. range_ok r \<and> rwidth r = rwidth a) \<and>
    (\<forall>x \<in> gamma a. \<forall>y \<in> gamma b. x AND y \<in> gamma c \<and> x OR y \<in> gamma d \<and> x XOR y \<in> gamma e)"
proof -
  obtain c d e where r: "ops_and a b = Some c" "ops_or a b = Some d" "ops_xor a b = Some e"
    "\<forall>r \<in> {c, d, e}. range_ok r \<and> rwidth r = rwidth a"
    using rand.total [OF assms] ror.total [OF assms] rxor.total [OF assms] by blast
  show ?thesis
    using r rand.sound [OF assms r(1)] ror.sound [OF assms r(2)] rxor.sound [OF assms r(3)]
    by (simp add: and_conc_def or_conc_def xor_conc_def)
qed

theorem range_bitwise_sound_witness:
  "\<exists>c. ops_and (range_exactly 12 8) (range_exactly 10 8) = Some c \<and> range_ok c \<and> 8 \<in> gamma c"
  using range_bitwise_sound [of "range_exactly 12 8" "range_exactly 10 8"]
  by (auto simp: gamma_exactly maskw_def MAX_BITS_def)

text \<open>
  The complement and the width conversions are sound. For a well-formed range
  \<open>ops::not\<close>, \<open>ops::trunc\<close>, \<open>ops::zext\<close> and \<open>ops::sext\<close> answer well-formed ranges that hold the
  complement of any value, its low bits, and its zero and sign extensions to the new width;
  an extension to a width no wider is the truncation.
\<close>

theorem range_convert_sound:
  assumes "range_ok a"
  shows "(\<forall>r \<in> {ops_not a, ops_trunc a to, ops_zext a to, ops_sext a to}. range_ok r) \<and>
    (\<forall>x \<in> gamma a. NOT x AND maskw (rwidth a) \<in> gamma (ops_not a) \<and>
      x AND maskw (clampw to) \<in> gamma (ops_trunc a to) \<and>
      x AND maskw (clampw to) \<in> gamma (ops_zext a to) \<and>
      word_of_int (signed_at x (rwidth a)) AND maskw (clampw to) \<in> gamma (ops_sext a to))"
  using rnot.ok [OF assms] rtrunc.ok [OF assms] rzext.ok [OF assms] rsext.ok [OF assms]
    rnot.sound [OF assms] rtrunc.sound [OF assms, where to = to] rzext.sound [OF assms, where to = to]
    rsext.sound [OF assms, where to = to]
  by (simp add: not_conc_def trunc_conc_def sext_conc_def)

end
