(* ===== verification/RangeShift.thy ===== *)
theory RangeShift
  imports RangeBitwise
begin

text \<open>
  Soundness of the shifts of \<open>range/ops.rs\<close>. A count at or past the width has no defined
  answer, so the statement is about the counts below it. A left shift is the multiplication by
  a power of two, and its flags promise what that multiplication's would.
\<close>

section \<open>Shifting one value\<close>

definition shift_conc :: "shift_kind \<Rightarrow> flags \<Rightarrow> nat \<Rightarrow> u128 \<Rightarrow> nat \<Rightarrow> u128 option" where
  "shift_conc kind f w x k =
     (case kind of
        Left \<Rightarrow> mul_conc f w x (push_bit k 1)
      | Logical \<Rightarrow> Some (drop_bit k x)
      | Arithmetic \<Rightarrow> Some (word_of_int (signed_at x w div 2 ^ k) AND maskw w))"

lemma unat_below: "uint (k :: u128) < int w \<Longrightarrow> unat k < w"
  by (metis of_nat_less_iff uint_nat)

lemma uint_push_bit:
  assumes "uint (x :: u128) * 2 ^ k < 2 ^ 128" shows "uint (push_bit k x) = uint x * 2 ^ k"
proof -
  have "uint (push_bit k x) = take_bit 128 (push_bit k (uint x))"
    by (simp add: unsigned_push_bit_eq)
  then show ?thesis using assms by (simp add: take_bit_int_eq_self_iff push_bit_eq_mult del: take_bit_push_bit)
qed

lemma uint_push_bit_1: "k < 128 \<Longrightarrow> uint (push_bit k (1 :: u128)) = 2 ^ k"
  by (simp add: push_bit_of_1 uint_2p_128)

lemma shift_count_in:
  assumes "0 < w" "w \<le> 128" "k < w"
  shows "push_bit k 1 \<in> gamma (range_exactly (push_bit k 1) w)"
proof -
  have "push_bit k 1 \<le> maskw w"
    using assms by (simp add: le_maskw_iff push_bit_of_1 uint_2p_128)
  then show ?thesis using assms by (simp add: gamma_exactly le_maskw_mask_iff)
qed

lemma div_bounds:
  fixes s :: int
  shows "min s 0 \<le> s div 2 ^ k" "s div 2 ^ k \<le> max s (- 1)"
proof -
  have "min s 0 \<le> s div 2 ^ k \<and> s div 2 ^ k \<le> max s (- 1)"
  proof (cases "0 \<le> s")
    case True
    then have "0 \<le> s div 2 ^ k" "s div 2 ^ k \<le> s"
      using zdiv_mono2 [of s 1 "2 ^ k"] by (simp_all add: pos_imp_zdiv_nonneg_iff)
    then show ?thesis using True by simp
  next
    case False
    then have "s div 2 ^ k < 0" by (simp add: pos_imp_zdiv_neg_iff)
    moreover have "s \<le> s div 2 ^ k"
    proof -
      have "s * 2 ^ k \<le> s * 1" using False by (intro mult_left_mono_neg) simp_all
      then have "s * 2 ^ k div 2 ^ k \<le> s div 2 ^ k" by (intro zdiv_mono1) simp_all
      then show ?thesis by simp
    qed
    ultimately show ?thesis using False by simp
  qed
  then show "min s 0 \<le> s div 2 ^ k" "s div 2 ^ k \<le> max s (- 1)" by simp_all
qed

lemma signed_at_div:
  assumes w: "0 < w" "w \<le> 128" and x: "x \<le> maskw w"
  shows "signed_at (word_of_int (signed_at x w div 2 ^ k) AND maskw w) w = signed_at x w div 2 ^ k"
proof (rule signed_at_unique [OF w])
  have "- (2 ^ (w - 1)) \<le> signed_at x w" "signed_at x w < 2 ^ (w - 1)"
    using signed_at_limits [OF w x] .
  moreover have "(0::int) < 2 ^ (w - 1)" by simp
  ultimately show "- (2 ^ (w - 1)) \<le> signed_at x w div 2 ^ k" "signed_at x w div 2 ^ k < 2 ^ (w - 1)"
    using div_bounds [of "signed_at x w" k] by linarith+
  show "uint (word_of_int (signed_at x w div 2 ^ k) AND maskw w) mod 2 ^ w =
      signed_at x w div 2 ^ k mod 2 ^ w"
    using w(2) by (simp add: word_red uint_word_of_int mod_2_128)
qed

lemma drop_bit_le: "a \<le> b \<Longrightarrow> drop_bit k a \<le> drop_bit k (b :: u128)"
  by (simp add: word_le_def uint_drop_bit zdiv_mono1)

lemma drop_bit_anti: "j \<le> k \<Longrightarrow> drop_bit k a \<le> drop_bit j (a :: u128)"
proof -
  assume "j \<le> k"
  then have "(2::int) ^ j \<le> 2 ^ k" by (intro power_increasing) simp_all
  then show ?thesis by (simp add: word_le_def uint_drop_bit zdiv_mono2)
qed

lemma drop_bit_le_maskw: "w \<le> 128 \<Longrightarrow> x \<le> maskw w \<Longrightarrow> drop_bit k x \<le> maskw w"
  using order_trans [OF drop_bit_anti [of 0 k x, simplified], of "maskw w"] by simp

lemma one_shift_sound:
  assumes ok: "range_ok a" and k: "k < rwidth a"
  shows "\<exists>r. one_shift a k f kind (rwidth a) = Some r \<and> range_ok r \<and> rwidth r = rwidth a \<and>
    (\<forall>x \<in> gamma a. \<forall>v. shift_conc kind f (rwidth a) x k = Some v \<longrightarrow> v \<in> gamma r)"
proof (cases kind)
  case Left
  let ?c = "range_exactly (push_bit k 1) (rwidth a)"
  note w = range_okD(1,2,3) [OF ok]
  have c: "range_ok ?c" "rwidth a = rwidth ?c" using w by simp_all
  obtain r where r: "ops_mul a ?c f = Some r" "range_ok r" "rwidth r = rwidth a"
    using rmul.total [OF ok c, of f] by blast
  have "v \<in> gamma r" if "x \<in> gamma a" "mul_conc f (rwidth a) x (push_bit k 1) = Some v" for x v
    by (rule rmul.sound [OF ok c r(1) that(1) shift_count_in [OF w(1,2) k] that(2)])
  then show ?thesis using r unfolding Left one_shift_def shift_conc_def shift_kind.case by blast
next
  case Logical
  have "drop_bit k x \<in> gamma (from_pairs (map (\<lambda>(lo, hi). (drop_bit k lo, drop_bit k hi)) (rpairs a)) (rwidth a))"
    if x: "x \<in> gamma a" for x
  proof -
    obtain lo hi where p: "(lo, hi) \<in> set (rpairs a)" "lo \<le> x" "x \<le> hi" "hi \<le> maskw (rwidth a)"
      using gamma_pair [OF ok x] .
    show ?thesis
    proof (rule from_pairs_sound)
      show "(drop_bit k lo, drop_bit k hi) \<in> set (map (\<lambda>(lo, hi). (drop_bit k lo, drop_bit k hi)) (rpairs a))"
        using p(1) by force
    qed (use p range_okD(2,3) [OF ok] drop_bit_le_maskw in \<open>simp_all add: in_pair_def drop_bit_le\<close>)
  qed
  then show ?thesis using range_okD(3) [OF ok] by (simp add: Logical one_shift_def shift_conc_def)
next
  case Arithmetic
  note w = range_okD(1,2,3) [OF ok]
  show ?thesis
  proof (cases "signed_bounds a")
    case None
    then have "gamma a = {}" using signed_bounds_sound [OF ok] by fastforce
    then show ?thesis using None range_empty_width [OF ok] by (simp add: Arithmetic one_shift_def)
  next
    case (Some p)
    obtain lo hi where p: "p = (lo, hi)" by (cases p)
    have "word_of_int (signed_at x (rwidth a) div 2 ^ k) AND maskw (rwidth a) \<in>
        gamma (signed_between (lo div 2 ^ k) (hi div 2 ^ k) (rwidth a))" if x: "x \<in> gamma a" for x
    proof (rule signed_between_sound [OF w(1,2)])
      have "lo \<le> signed_at x (rwidth a)" "signed_at x (rwidth a) \<le> hi"
        using signed_bounds_sound [OF ok x] Some p by simp_all
      then show "lo div 2 ^ k \<le> signed_at (word_of_int (signed_at x (rwidth a) div 2 ^ k) AND maskw (rwidth a)) (rwidth a)"
        "signed_at (word_of_int (signed_at x (rwidth a) div 2 ^ k) AND maskw (rwidth a)) (rwidth a) \<le> hi div 2 ^ k"
        by (simp_all add: signed_at_div [OF w(1,2) gamma_le_width [OF ok x]] zdiv_mono1)
    qed (use w in simp)
    then show ?thesis using w(3) by (simp add: Arithmetic one_shift_def shift_conc_def Some p)
  qed
qed

section \<open>The walk over the counts\<close>

lemma shift_conc_le:
  assumes "w \<le> 128" "x \<le> maskw w" "shift_conc kind f w x k = Some v"
  shows "v \<le> maskw w"
  using assms drop_bit_le_maskw [OF assms(1,2)]
  by (cases kind) (auto simp: shift_conc_def mul_conc_def split: if_splits)

lemma shift_counts_sound:
  assumes ok: "range_ok a" and out: "range_ok out" "rwidth out = rwidth a"
  shows "\<exists>r. shift_counts a counts f kind (rwidth a) out = Some r \<and> range_ok r \<and> rwidth r = rwidth a \<and>
    gamma out \<subseteq> gamma r \<and>
    (\<forall>at \<in> set counts. \<forall>x \<in> gamma a. \<forall>v. shift_conc kind f (rwidth a) x (unat at) = Some v \<longrightarrow>
      uint at < int (rwidth a) \<longrightarrow> v \<in> gamma r)"
  using out
proof (induction counts arbitrary: out)
  case Nil
  then show ?case by simp
next
  case (Cons at counts)
  note w = range_okD(1,2,3) [OF ok]
  show ?case
  proof (cases "uint at \<ge> int (rwidth a)")
    case True
    have "gamma out \<subseteq> gamma (range_full (rwidth a))"
      using gamma_le_width [OF Cons.prems(1)] Cons.prems(2) w by auto
    moreover have "v \<in> gamma (range_full (rwidth a))"
      if "x \<in> gamma a" "shift_conc kind f (rwidth a) x k = Some v" for x v k
      using shift_conc_le [OF w(2) gamma_le_width [OF ok that(1)] that(2)] w by simp
    ultimately show ?thesis using True w(3) by simp
  next
    case False
    have k: "unat at < rwidth a" using False by (intro unat_below) simp
    obtain one where one: "one_shift a (unat at) f kind (rwidth a) = Some one" "range_ok one"
      "rwidth one = rwidth a"
      "\<And>x v. x \<in> gamma a \<Longrightarrow> shift_conc kind f (rwidth a) x (unat at) = Some v \<Longrightarrow> v \<in> gamma one"
      using one_shift_sound [OF ok k, of f kind] by blast
    obtain u where u: "union out one = Some u" "range_ok u" "rwidth u = rwidth a"
      "gamma out \<union> gamma one \<subseteq> gamma u"
      using union_spec [OF Cons.prems(1) one(2)] Cons.prems(2) one(3) by auto
    obtain r where r: "shift_counts a counts f kind (rwidth a) u = Some r" "range_ok r"
      "rwidth r = rwidth a" "gamma u \<subseteq> gamma r"
      "\<forall>at \<in> set counts. \<forall>x \<in> gamma a. \<forall>v. shift_conc kind f (rwidth a) x (unat at) = Some v \<longrightarrow>
        uint at < int (rwidth a) \<longrightarrow> v \<in> gamma r"
      using Cons.IH [OF u(2,3)] by blast
    have "shift_counts a (at # counts) f kind (rwidth a) out = Some r"
      using False by (simp add: one(1) u(1) r(1))
    moreover have "v \<in> gamma r" if "x \<in> gamma a" "shift_conc kind f (rwidth a) x (unat at) = Some v" for x v
      using one(4) [OF that] u(4) r(4) by blast
    ultimately show ?thesis using r u(4) by auto
  qed
qed

section \<open>The answer for too many counts\<close>

lemma coarse_sound:
  assumes ok: "range_ok a" and x: "x \<in> gamma a" and k: "low \<le> k" "k < rwidth a"
    and v: "shift_conc kind f (rwidth a) x k = Some v"
  shows "v \<in> gamma (coarse a low (rwidth a) kind)"
proof -
  let ?w = "rwidth a"
  note w = range_okD(1,2,3) [OF ok]
  have vw: "v \<le> maskw ?w" by (rule shift_conc_le [OF w(2) gamma_le_width [OF ok x] v])
  show ?thesis
  proof (cases kind)
    case Left
    have bits: "\<not> bit v n" if "n < k" for n
    proof -
      have "v = push_bit k x AND maskw ?w"
        using v unfolding Left shift_conc_def shift_kind.case mul_conc_def push_bit_eq_mult
        by (auto simp: mult.commute split: if_splits)
      then show ?thesis using that by (simp add: bit_simps)
    qed
    have "v \<in> gamma (narrow (range_full ?w) (from_parts 0 (push_bit low (maskw ?w)) ?w))"
    proof (rule narrow_sound)
      show "v \<in> gamma (range_full ?w)" using vw w by simp
      show "allows (from_parts 0 (push_bit low (maskw ?w)) ?w) v"
      proof (rule allows_from_parts [OF w(2) vw])
        fix n assume "n < ?w" "\<not> bit (push_bit low (maskw ?w)) n"
        then have "n < low" using w(2) by (auto simp: bit_push_bit_iff)
        then show "bit v n = bit (0 :: u128) n" using bits k(1) by simp
      qed
    qed (use w in simp_all)
    then show ?thesis by (simp add: Left coarse_def)
  next
    case Logical
    have "v \<le> drop_bit low (maskw ?w)"
      using v order_trans [OF drop_bit_le [OF gamma_le_width [OF ok x]] drop_bit_anti [OF k(1)]]
      by (simp add: Logical shift_conc_def)
    moreover have "drop_bit low (maskw ?w) \<le> maskw ?w" by (rule drop_bit_le_maskw [OF w(2)]) simp
    ultimately have "v \<in> gamma (between 0 (drop_bit low (maskw ?w)) ?w)"
      by (intro gamma_betweenI w) simp_all
    then show ?thesis by (simp add: Logical coarse_def)
  next
    case Arithmetic
    obtain lo hi where b: "signed_bounds a = Some (lo, hi)" "lo \<le> signed_at x ?w" "signed_at x ?w \<le> hi"
      using signed_bounds_sound [OF ok x] by blast
    have "v = word_of_int (signed_at x ?w div 2 ^ k) AND maskw ?w"
      using v by (simp add: Arithmetic shift_conc_def)
    then have s: "signed_at v ?w = signed_at x ?w div 2 ^ k"
      using signed_at_div [OF w(1,2) gamma_le_width [OF ok x]] by simp
    have "v \<in> gamma (signed_between (min lo 0) (max hi (- 1)) ?w)"
      using div_bounds [of "signed_at x ?w" k] b(2,3)
      by (intro signed_between_sound [OF w(1,2) vw]) (simp_all add: s)
    then show ?thesis by (simp add: Arithmetic coarse_def b(1))
  qed
qed

text \<open>The ends of a left shift that cannot push a bit off the top.\<close>

lemma left_ends:
  assumes w: "w \<le> 128" and x: "lo \<le> x" "x \<le> hi" "hi \<le> maskw w"
    and k: "low \<le> k" "k \<le> most" "most < w" and fit: "most = 0 \<or> drop_bit (w - most) hi = 0"
  shows "push_bit low lo \<le> push_bit k x AND maskw w" "push_bit k x AND maskw w \<le> push_bit most hi"
    "push_bit most hi \<le> maskw w"
proof -
  have hi: "uint hi * 2 ^ most < 2 ^ w"
  proof (cases "most = 0")
    case True
    then show ?thesis using x(3) w by (simp add: le_maskw_iff)
  next
    case False
    then have "drop_bit (w - most) hi = 0" using fit by simp
    then have "uint hi div 2 ^ (w - most) = 0" by (metis uint_drop_bit unsigned_0)
    then have "\<not> 2 ^ (w - most) \<le> uint hi"
      using zdiv_mono1 [of "2 ^ (w - most)" "uint hi" "2 ^ (w - most)"] by auto
    then have "uint hi * 2 ^ most < 2 ^ (w - most) * 2 ^ most" by simp
    also have "(2::int) ^ (w - most) * 2 ^ most = 2 ^ w" using k(3) by (simp flip: power_add)
    finally show ?thesis .
  qed
  have p: "(2::int) ^ low \<le> 2 ^ k" "(2::int) ^ k \<le> 2 ^ most" using k by (auto intro: power_increasing)
  have le: "uint lo * 2 ^ low \<le> uint x * 2 ^ k" "uint x * 2 ^ k \<le> uint hi * 2 ^ most"
    using x(1,2) p by (auto intro!: mult_mono simp: word_le_def)
  have "(2::int) ^ w \<le> 2 ^ 128" using w by (intro power_increasing) simp_all
  then have small: "uint lo * 2 ^ low < 2 ^ 128" "uint x * 2 ^ k < 2 ^ 128" "uint hi * 2 ^ most < 2 ^ 128"
    using le hi by linarith+
  note u = uint_push_bit [OF small(1)] uint_push_bit [OF small(2)] uint_push_bit [OF small(3)]
  have "push_bit k x \<le> maskw w" using le hi w by (simp add: le_maskw_iff u)
  then have "push_bit k x AND maskw w = push_bit k x" using w by (simp add: le_maskw_mask_iff)
  then show "push_bit low lo \<le> push_bit k x AND maskw w" "push_bit k x AND maskw w \<le> push_bit most hi"
    using le by (simp_all add: word_le_def u)
  show "push_bit most hi \<le> maskw w" using hi w by (simp add: le_maskw_iff u)
qed

section \<open>The shift\<close>

lemma shift_sound:
  assumes ok: "range_ok a" "range_ok count"
  shows "\<exists>r. shift a count f kind = Some r \<and> range_ok r \<and> rwidth r = rwidth a \<and>
    (\<forall>x \<in> gamma a. \<forall>k \<in> gamma count. \<forall>v. uint k < int (rwidth a) \<longrightarrow>
      shift_conc kind f (rwidth a) x (unat k) = Some v \<longrightarrow> v \<in> gamma r)"
proof -
  let ?w = "rwidth a"
  note w = range_okD(1,2,3) [OF ok(1)] and e = range_empty_width [OF ok(1)]
  show ?thesis
  proof (cases "is_empty a \<or> is_empty count")
    case True
    then have "gamma a = {} \<or> gamma count = {}" using gamma_not_empty ok by blast
    then show ?thesis using True e by (auto simp: shift_def Let_def)
  next
    case ne: False
    then obtain low most where c: "unsigned_bounds count = Some (low, most)"
      using unsigned_bounds_None by (cases "unsigned_bounds count") auto
    have kc: "low \<le> k \<and> k \<le> most" if "k \<in> gamma count" for k
      using unsigned_bounds_sound [OF ok(2) that] c by auto
    obtain lo hi where b: "unsigned_bounds a = Some (lo, hi)"
      using ne unsigned_bounds_None by (cases "unsigned_bounds a") auto
    have xb: "lo \<le> x \<and> x \<le> hi \<and> hi \<le> maskw ?w" if "x \<in> gamma a" for x
      using unsigned_bounds_sound [OF ok(1) that] b by auto
    show ?thesis
    proof (cases "uint low \<ge> int ?w")
      case True
      have "\<not> uint k < int ?w" if "k \<in> gamma count" for k
        using kc [OF that] True by (simp add: word_le_def)
      then show ?thesis using True ne c w by (auto simp: shift_def Let_def)
    next
      case lw: False
      show ?thesis
      proof (cases "list_range count COUNTS")
        case (Some counts)
        have "gamma count \<subseteq> set counts" using list_range_sound [OF ok(2) Some] by simp
        moreover have "shift a count f kind = shift_counts a counts f kind ?w (range_empty ?w)"
          using ne c lw Some by (simp add: shift_def Let_def)
        moreover have "range_ok (range_empty ?w)" by simp
        ultimately show ?thesis
          using shift_counts_sound [OF ok(1) _ e, of counts f kind] by fastforce
      next
        case None
        let ?co = "coarse a (unat low) ?w kind"
        have co: "range_ok ?co" "rwidth ?co = ?w"
          using w by (auto simp: coarse_def split: shift_kind.split option.split prod.split)
        have nat: "unat low \<le> unat k" "unat k < ?w" "unat k \<le> unat most"
          if "k \<in> gamma count" "uint k < int ?w" for k
          using kc [OF that(1)] unat_below [OF that(2)] by (simp_all add: word_le_nat_alt)
        have vco: "v \<in> gamma ?co" if "x \<in> gamma a" "k \<in> gamma count" "uint k < int ?w"
          "shift_conc kind f ?w x (unat k) = Some v" for x k v
          by (rule coarse_sound [OF ok(1) that(1) nat(1,2) [OF that(2,3)] that(4)])
        have S: "shift a count f kind =
          (if uint most < int ?w then
             (case kind of
                Left \<Rightarrow> if unat most = 0 \<or> drop_bit (?w - unat most) hi = 0
                        then intersect ?co (between (push_bit (unat low) lo) (push_bit (unat most) hi) ?w)
                        else Some ?co
              | Logical \<Rightarrow> intersect ?co (between (drop_bit (unat most) lo) (drop_bit (unat low) hi) ?w)
              | Arithmetic \<Rightarrow> Some ?co)
           else Some ?co)"
          using ne c lw None b by (simp add: shift_def Let_def)
        have meet: "\<exists>r. intersect ?co (between l h ?w) = Some r \<and> range_ok r \<and> rwidth r = ?w \<and>
          (\<forall>v. v \<in> gamma ?co \<longrightarrow> l \<le> v \<longrightarrow> v \<le> h \<longrightarrow> h \<le> maskw ?w \<longrightarrow> v \<in> gamma r)" for l h
          using intersect_spec [OF co(1) between_ok, of l h ?w] co(2) w gamma_betweenI [OF w(1,2)]
          by (simp add: subset_iff) blast
        show ?thesis
        proof (cases "uint most < int ?w")
          case False
          then show ?thesis using S co vco by auto
        next
          case mw: True
          have mw': "unat most < ?w" using mw by (rule unat_below)
          show ?thesis
          proof (cases kind)
            case Left
            show ?thesis
            proof (cases "unat most = 0 \<or> drop_bit (?w - unat most) hi = 0")
              case False
              then show ?thesis using S mw co vco by (auto simp: Left)
            next
              case fit: True
              obtain r where r: "intersect ?co (between (push_bit (unat low) lo) (push_bit (unat most) hi) ?w) = Some r"
                "range_ok r" "rwidth r = ?w"
                "\<forall>v. v \<in> gamma ?co \<longrightarrow> push_bit (unat low) lo \<le> v \<longrightarrow> v \<le> push_bit (unat most) hi \<longrightarrow>
                  push_bit (unat most) hi \<le> maskw ?w \<longrightarrow> v \<in> gamma r"
                using meet by blast
              have "v \<in> gamma r" if x: "x \<in> gamma a" "k \<in> gamma count" "uint k < int ?w"
                "shift_conc kind f ?w x (unat k) = Some v" for x k v
              proof -
                have v: "v = push_bit (unat k) x AND maskw ?w"
                  using x(4) unfolding Left shift_conc_def shift_kind.case mul_conc_def push_bit_eq_mult
                  by (auto simp: mult.commute split: if_splits)
                show ?thesis
                  using r(4) vco [OF x] xb [OF x(1)] nat [OF x(2,3)] fit mw' w(2) unfolding v
                  by (blast intro: left_ends)
              qed
              then show ?thesis using S mw fit r(1-3) by (auto simp: Left)
            qed
          next
            case Logical
            obtain r where r: "intersect ?co (between (drop_bit (unat most) lo) (drop_bit (unat low) hi) ?w) = Some r"
              "range_ok r" "rwidth r = ?w"
              "\<forall>v. v \<in> gamma ?co \<longrightarrow> drop_bit (unat most) lo \<le> v \<longrightarrow> v \<le> drop_bit (unat low) hi \<longrightarrow>
                drop_bit (unat low) hi \<le> maskw ?w \<longrightarrow> v \<in> gamma r"
              using meet by blast
            have "v \<in> gamma r" if x: "x \<in> gamma a" "k \<in> gamma count" "uint k < int ?w"
              "shift_conc kind f ?w x (unat k) = Some v" for x k v
            proof -
              have v: "v = drop_bit (unat k) x" using x(4) by (simp add: Logical shift_conc_def)
              have "drop_bit (unat most) lo \<le> v" "v \<le> drop_bit (unat low) hi"
                using xb [OF x(1)] nat [OF x(2,3)] unfolding v
                by (blast intro: order_trans drop_bit_le drop_bit_anti)+
              moreover have "drop_bit (unat low) hi \<le> maskw ?w"
                using xb [OF x(1)] w(2) by (simp add: drop_bit_le_maskw)
              ultimately show ?thesis using r(4) vco [OF x] by blast
            qed
            then show ?thesis using S mw r(1-3) by (auto simp: Logical)
          next
            case Arithmetic
            then show ?thesis using S mw co vco by auto
          qed
        qed
      qed
    qed
  qed
qed

section \<open>Properties\<close>



end
