(* ===== verification/RangeCompare.thy ===== *)
theory RangeCompare
  imports RangeShift
begin

text \<open>
  Soundness of the comparisons, of the narrowing at a branch, of the inverses the backward
  query runs, and of the overflow builtins' flag: \<open>compare\<close>, \<open>narrow_for\<close>, \<open>backward\<close> and
  \<open>overflows\<close> of \<open>range/ops.rs\<close>.
\<close>

section \<open>Comparisons\<close>

lemma possible_total:
  assumes "range_ok a" "range_ok b" "rwidth a = rwidth b"
  shows "\<exists>t. possible p a b = Some t"
proof -
  obtain r where "intersect a b = Some r" using intersect_spec [OF assms] by blast
  then show ?thesis
    unfolding possible_def by (cases p) (auto split: option.split prod.split)
qed

lemma possible_sound:
  assumes ok: "range_ok a" "range_ok b" "rwidth a = rwidth b"
    and x: "x \<in> gamma a" and y: "y \<in> gamma b" and holds: "pred_holds p (rwidth a) x y"
  shows "possible p a b = Some True"
proof -
  obtain ul uh where a: "unsigned_bounds a = Some (ul, uh)" "ul \<le> x" "x \<le> uh"
    using unsigned_bounds_sound [OF ok(1) x] by blast
  obtain vl vh where b: "unsigned_bounds b = Some (vl, vh)" "vl \<le> y" "y \<le> vh"
    using unsigned_bounds_sound [OF ok(2) y] by blast
  obtain sl sh where sa: "signed_bounds a = Some (sl, sh)" "sl \<le> signed_at x (rwidth a)"
    "signed_at x (rwidth a) \<le> sh"
    using signed_bounds_sound [OF ok(1) x] by blast
  obtain wl wh where sb: "signed_bounds b = Some (wl, wh)" "wl \<le> signed_at y (rwidth a)"
    "signed_at y (rwidth a) \<le> wh"
    using signed_bounds_sound [OF ok(2) y] ok(3) by auto
  note bounds = a(1) b(1) sa(1) sb(1)
  show ?thesis
  proof (cases p)
    case Eq
    obtain r where r: "intersect a b = Some r" "range_ok r" "gamma a \<inter> gamma b \<subseteq> gamma r"
      using intersect_spec [OF ok] by blast
    then have "x \<in> gamma r" using x y holds Eq by auto
    then show ?thesis using gamma_not_empty [OF r(2)] by (simp add: possible_def bounds Eq r(1))
  next
    case Ne
    have "\<not> (singleton a = Some c \<and> singleton b = Some c)" for c
      using singleton_sound [OF ok(1)] singleton_sound [OF ok(2)] x y holds Ne by fastforce
    then show ?thesis by (auto simp: possible_def bounds Ne split: option.split)
  qed (use a b sa sb holds in \<open>auto simp: possible_def\<close>)
qed

lemma compare_sound:
  assumes ok: "range_ok a" "range_ok b" "rwidth a = rwidth b"
  shows "\<exists>t. ops_compare p a b = Some t \<and>
    (\<forall>x \<in> gamma a. \<forall>y \<in> gamma b.
      (t = Always \<longrightarrow> pred_holds p (rwidth a) x y) \<and> (t = Never \<longrightarrow> \<not> pred_holds p (rwidth a) x y))"
proof (cases "is_empty a \<or> is_empty b")
  case True
  then show ?thesis by (simp add: ops_compare_def)
next
  case False
  obtain yes no where t: "possible p a b = Some yes" "possible (inverse_pred p) a b = Some no"
    using possible_total [OF ok] by metis
  have "yes \<or> \<not> pred_holds p (rwidth a) x y" "no \<or> pred_holds p (rwidth a) x y"
    if "x \<in> gamma a" "y \<in> gamma b" for x y
    using possible_sound [OF ok that, of p] possible_sound [OF ok that, of "inverse_pred p"] t
    by (auto simp: inverse_pred_holds)
  then show ?thesis using False t by (auto simp: ops_compare_def split: if_splits)
qed

section \<open>What a branch says of its operand\<close>

lemma intersect_keeps:
  assumes "range_ok a" "range_ok b" "rwidth a = rwidth b" "x \<in> gamma a" "x \<in> gamma b"
  shows "\<exists>r. intersect a b = Some r \<and> range_ok r \<and> rwidth r = rwidth a \<and> x \<in> gamma r"
  using intersect_spec [OF assms(1-3)] assms(4,5) by blast

lemma narrow_for_sound:
  assumes ok: "range_ok a" "range_ok b" "rwidth a = rwidth b"
    and x: "x \<in> gamma a" and y: "y \<in> gamma b" and holds: "pred_holds p (rwidth a) x y"
  shows "\<exists>r. narrow_for p a b = Some r \<and> range_ok r \<and> rwidth r = rwidth a \<and> x \<in> gamma r"
proof -
  let ?w = "rwidth a"
  note w = range_okD(1,2,3) [OF ok(1)]
  have xw: "x \<le> maskw ?w" using gamma_le_width [OF ok(1) x] .
  have yw: "y \<le> maskw ?w" using gamma_le_width [OF ok(2) y] ok(3) by simp
  obtain ul uh where b: "unsigned_bounds b = Some (ul, uh)" "ul \<le> y" "y \<le> uh" "uh \<le> maskw ?w"
    using unsigned_bounds_sound [OF ok(2) y] ok(3) by auto
  obtain sl sh where s: "signed_bounds b = Some (sl, sh)" "sl \<le> signed_at y ?w" "signed_at y ?w \<le> sh"
    using signed_bounds_sound [OF ok(2) y] ok(3) by auto
  have sx: "- (2 ^ (?w - 1)) \<le> signed_at x ?w" "signed_at x ?w \<le> 2 ^ (?w - 1) - 1"
    using signed_at_limits [OF w(1,2) xw] by simp_all
  have i: "in_i128 (signed_at x ?w)"
    using sx by (intro limits_in_i128 [OF w(2)]) simp_all
  have eq: "narrow_for p a b = (case p of
       Eq \<Rightarrow> intersect a b
     | Ne \<Rightarrow> (case singleton b of Some value \<Rightarrow> intersect a (other_than value ?w) | None \<Rightarrow> Some a)
     | Ult \<Rightarrow> intersect a (if uh = 0 then range_empty ?w else between 0 (uh - 1) ?w)
     | Ule \<Rightarrow> intersect a (between 0 uh ?w)
     | Ugt \<Rightarrow> intersect a (if ul = maskw ?w then range_empty ?w else between (ul + 1) (maskw ?w) ?w)
     | Uge \<Rightarrow> intersect a (between ul (maskw ?w) ?w)
     | Slt \<Rightarrow> intersect a (signed_between (- (2 ^ (?w - 1))) (sat_i128 (sh - 1)) ?w)
     | Sle \<Rightarrow> intersect a (signed_between (- (2 ^ (?w - 1))) sh ?w)
     | Sgt \<Rightarrow> intersect a (signed_between (sat_i128 (sl + 1)) (2 ^ (?w - 1) - 1) ?w)
     | Sge \<Rightarrow> intersect a (signed_between sl (2 ^ (?w - 1) - 1) ?w))"
    using gamma_not_empty [OF ok(1) x] gamma_not_empty [OF ok(2) y]
    by (cases p) (simp_all add: narrow_for_def Let_def ok(3) [symmetric] b(1) s(1)
        signed_limits_eq [OF w(1,2)])
  have keep: "x \<in> gamma c \<Longrightarrow> range_ok c \<Longrightarrow> rwidth c = ?w \<Longrightarrow>
    \<exists>r. intersect a c = Some r \<and> range_ok r \<and> rwidth r = ?w \<and> x \<in> gamma r" for c
    using intersect_keeps [OF ok(1) _ _ x, of c] by simp
  have le: "lo \<le> x \<Longrightarrow> x \<le> hi \<Longrightarrow> hi \<le> maskw ?w \<Longrightarrow> x \<in> gamma (between lo hi ?w)" for lo hi
    by (rule gamma_betweenI [OF w(1,2)])
  have sle: "lo \<le> signed_at x ?w \<Longrightarrow> signed_at x ?w \<le> hi \<Longrightarrow> x \<in> gamma (signed_between lo hi ?w)" for lo hi
    by (rule signed_between_sound [OF w(1,2) xw])
  show ?thesis
  proof (cases p)
    case Eq
    then show ?thesis using eq intersect_keeps [OF ok x] y holds by simp
  next
    case Ne
    show ?thesis
    proof (cases "singleton b")
      case None
      then show ?thesis using eq x ok(1) by (simp add: Ne)
    next
      case (Some c)
      then have "y = c" using singleton_sound [OF ok(2) Some] y by auto
      then have "x \<in> gamma (other_than c ?w)"
        using holds xw yw w by (simp add: Ne gamma_other_than le_maskw_mask_iff)
      moreover have "range_ok (other_than c ?w)" "rwidth (other_than c ?w) = ?w"
        using w by (simp_all add: other_than_def Let_def)
      ultimately show ?thesis using eq keep by (simp add: Ne Some)
    qed
  next
    case Ult
    then have lt: "x < y" using holds by simp
    then have "uint x < uint uh" using b(3) by (simp add: word_less_def word_le_def)
    then have "0 < uint uh" using uint_ge_0 [of x] by linarith
    then have u: "uint (uh - 1) = uint uh - 1" "uh \<noteq> 0"
      by (auto intro!: uint_sub_small [THEN trans] simp: word_le_def)
    have "x \<le> uh - 1" using \<open>uint x < uint uh\<close> u by (simp add: word_le_def)
    moreover have "uh - 1 \<le> maskw ?w" using b(4) u by (simp add: word_le_def)
    ultimately show ?thesis using eq keep [OF le] u(2) w by (simp add: Ult)
  next
    case Ule
    then have "x \<le> uh" using holds b(3) by simp
    then show ?thesis using eq keep [OF le] b(4) w by (simp add: Ule)
  next
    case Ugt
    then have lt: "ul < x" using holds b(2) by simp
    then have ne: "ul \<noteq> maskw ?w" using xw by auto
    have "uint ul + 1 \<le> uint x" using lt by (simp add: word_less_def)
    then have "uint (ul + 1) = uint ul + 1"
      using uint_lt_size [of x] by (intro uint_add_small [THEN trans]) simp_all
    then have "ul + 1 \<le> x" using \<open>uint ul + 1 \<le> uint x\<close> by (simp add: word_le_def)
    then show ?thesis using eq keep [OF le] xw ne w by (simp add: Ugt)
  next
    case Uge
    then have "ul \<le> x" using holds b(2) by simp
    then show ?thesis using eq keep [OF le] xw w by (simp add: Uge)
  next
    case Slt
    then have "signed_at x ?w \<le> sat_i128 (sh - 1)" using holds s(3) by (intro sat_i128_ge [OF i]) simp
    then show ?thesis using eq keep [OF sle] sx w by (simp add: Slt)
  next
    case Sle
    then have "signed_at x ?w \<le> sh" using holds s(3) by simp
    then show ?thesis using eq keep [OF sle] sx w by (simp add: Sle)
  next
    case Sgt
    then have "sat_i128 (sl + 1) \<le> signed_at x ?w" using holds s(2) by (intro sat_i128_le [OF i]) simp
    then show ?thesis using eq keep [OF sle] sx w by (simp add: Sgt)
  next
    case Sge
    then have "sl \<le> signed_at x ?w" using holds s(2) by simp
    then show ?thesis using eq keep [OF sle] sx w by (simp add: Sge)
  qed
qed

section \<open>The flag of an overflow builtin\<close>

primrec checked_exact :: "checked \<Rightarrow> int \<Rightarrow> int \<Rightarrow> int" where
  "checked_exact CheckAdd x y = x + y"
| "checked_exact CheckSub x y = x - y"
| "checked_exact CheckMul x y = x * y"

text \<open>Whether the exact result of the operation leaves the type.\<close>

definition leaves_type :: "checked \<Rightarrow> bool \<Rightarrow> nat \<Rightarrow> u128 \<Rightarrow> u128 \<Rightarrow> bool" where
  "leaves_type opr is_signed w x y \<longleftrightarrow>
     (if is_signed then
        (let e = checked_exact opr (signed_at x w) (signed_at y w)
         in e < - (2 ^ (w - 1)) \<or> 2 ^ (w - 1) \<le> e)
      else (let e = checked_exact opr (uint x) (uint y) in e < 0 \<or> 2 ^ w \<le> e))"

lemma settledD:
  "settled never always = Never \<Longrightarrow> never" "settled never always = Always \<Longrightarrow> always \<and> \<not> never"
  by (auto simp: settled_def split: if_splits)

lemma settled_window:
  fixes e :: int
  assumes "lo \<le> e" "e \<le> hi"
  shows "settled (lo \<ge> m \<and> hi \<le> M - 1) (hi < m \<or> lo > M - 1) = Never \<Longrightarrow> \<not> (e < m \<or> M \<le> e)"
    and "settled (lo \<ge> m \<and> hi \<le> M - 1) (hi < m \<or> lo > M - 1) = Always \<Longrightarrow> e < m \<or> M \<le> e"
  using assms by (auto simp: settled_def split: if_splits)

lemma settled_above:
  fixes e :: int
  assumes "0 \<le> e" "lo \<le> e" "e \<le> hi"
  shows "(settled (hi < M) (M \<le> lo) = Never \<longrightarrow> \<not> (e < 0 \<or> M \<le> e)) \<and>
    (settled (hi < M) (M \<le> lo) = Always \<longrightarrow> e < 0 \<or> M \<le> e)"
  using assms by (auto simp: settled_def split: if_splits)

lemma signed_cornersD:
  assumes "signed_corners (a, b) (c, d) = Some (lo, hi)" "a \<le> x" "x \<le> b" "c \<le> y" "y \<le> d"
  shows "lo \<le> x * y \<and> x * y \<le> hi"
proof -
  obtain c1 c2 c3 c4 where k: "checked_i128 (a * c) = Some c1" "checked_i128 (a * d) = Some c2"
    "checked_i128 (b * c) = Some c3" "checked_i128 (b * d) = Some c4"
    and lh: "lo = min (min (min (min i128_max c1) c2) c3) c4" "hi = max (max (max (max i128_min c1) c2) c3) c4"
    using assms(1) unfolding signed_corners_def fst_conv snd_conv Option.bind_eq_Some_conv by blast
  have id: "c1 = a * c" "c2 = a * d" "c3 = b * c" "c4 = b * d"
    using k by (simp_all add: checked_i128_def split: if_splits)
  have "lo \<le> a * c" "lo \<le> a * d" "lo \<le> b * c" "lo \<le> b * d"
    "a * c \<le> hi" "a * d \<le> hi" "b * c \<le> hi" "b * d \<le> hi"
    unfolding lh id [symmetric] by linarith+
  moreover obtain k l where "k \<in> {a * c, a * d, b * c, b * d}" "k \<le> x * y"
    "l \<in> {a * c, a * d, b * c, b * d}" "x * y \<le> l"
    using corners [OF assms(2-5)] by blast
  ultimately have "lo \<le> k" "k \<le> x * y" "x * y \<le> l" "l \<le> hi" by blast+
  then show ?thesis by linarith
qed

lemma signed_window_sound:
  assumes "(case opr of
      CheckAdd \<Rightarrow> both (checked_i128 (al + bl)) (checked_i128 (ah + bh))
    | CheckSub \<Rightarrow> both (checked_i128 (al - bh)) (checked_i128 (ah - bl))
    | CheckMul \<Rightarrow> signed_corners (al, ah) (bl, bh)) = Some (lo, hi)"
    and "al \<le> x" "x \<le> ah" "bl \<le> y" "y \<le> bh"
  shows "lo \<le> checked_exact opr x y \<and> checked_exact opr x y \<le> hi"
proof (cases opr)
  case CheckMul
  then show ?thesis using assms signed_cornersD by simp
qed (use assms in \<open>auto simp: both_def checked_i128_def split: if_splits\<close>)

lemma overflows_signed:
  assumes ok: "range_ok a" "range_ok b" "rwidth a = rwidth b"
    and x: "x \<in> gamma a" and y: "y \<in> gamma b" and t: "overflows opr True a b = Some t"
  shows "t = Never \<Longrightarrow> \<not> leaves_type opr True (rwidth a) x y"
    and "t = Always \<Longrightarrow> leaves_type opr True (rwidth a) x y"
proof -
  note w = range_okD(1,2) [OF ok(1)]
  obtain al ah where a: "signed_bounds a = Some (al, ah)" "al \<le> signed_at x (rwidth a)"
    "signed_at x (rwidth a) \<le> ah"
    using signed_bounds_sound [OF ok(1) x] by blast
  obtain bl bh where b: "signed_bounds b = Some (bl, bh)" "bl \<le> signed_at y (rwidth a)"
    "signed_at y (rwidth a) \<le> bh"
    using signed_bounds_sound [OF ok(2) y] ok(3) by auto
  let ?win = "case opr of
      CheckAdd \<Rightarrow> both (checked_i128 (al + bl)) (checked_i128 (ah + bh))
    | CheckSub \<Rightarrow> both (checked_i128 (al - bh)) (checked_i128 (ah - bl))
    | CheckMul \<Rightarrow> signed_corners (al, ah) (bl, bh)"
  let ?e = "checked_exact opr (signed_at x (rwidth a)) (signed_at y (rwidth a))"
  have t': "t = (case ?win of None \<Rightarrow> Either | Some (lo, hi) \<Rightarrow>
      settled (lo \<ge> - (2 ^ (rwidth a - 1)) \<and> hi \<le> 2 ^ (rwidth a - 1) - 1)
        (hi < - (2 ^ (rwidth a - 1)) \<or> lo > 2 ^ (rwidth a - 1) - 1))"
    using t by (simp add: overflows_def Let_def a(1) b(1) ok(3) [symmetric] signed_limits_eq [OF w]
        split: option.splits prod.splits)
  have "(t = Never \<longrightarrow> \<not> leaves_type opr True (rwidth a) x y) \<and>
      (t = Always \<longrightarrow> leaves_type opr True (rwidth a) x y)"
  proof (cases ?win)
    case None
    then show ?thesis using t' by simp
  next
    case (Some p)
    obtain lo hi where p: "p = (lo, hi)" by (cases p)
    have "lo \<le> ?e" "?e \<le> hi" using signed_window_sound [OF Some [unfolded p] a(2,3) b(2,3)] by simp_all
    moreover have "t = settled (lo \<ge> - (2 ^ (rwidth a - 1)) \<and> hi \<le> 2 ^ (rwidth a - 1) - 1)
        (hi < - (2 ^ (rwidth a - 1)) \<or> lo > 2 ^ (rwidth a - 1) - 1)"
      using t' Some p by simp
    ultimately show ?thesis
      unfolding leaves_type_def Let_def if_True
      using settled_window [of lo ?e hi "- (2 ^ (rwidth a - 1))" "2 ^ (rwidth a - 1)"] by metis
  qed
  then show "t = Never \<Longrightarrow> \<not> leaves_type opr True (rwidth a) x y"
    "t = Always \<Longrightarrow> leaves_type opr True (rwidth a) x y" by blast+
qed

lemma checked_small:
  fixes a b :: u128
  assumes w: "w \<le> 128"
  shows "(case checked_add a b of None \<Rightarrow> False | Some hi \<Rightarrow> hi \<le> maskw w) \<longleftrightarrow> uint a + uint b < 2 ^ w"
    and "(case checked_mul a b of None \<Rightarrow> False | Some hi \<Rightarrow> hi \<le> maskw w) \<longleftrightarrow> uint a * uint b < 2 ^ w"
    and "(case checked_add a b of None \<Rightarrow> True | Some lo \<Rightarrow> lo > maskw w) \<longleftrightarrow> 2 ^ w \<le> uint a + uint b"
    and "(case checked_mul a b of None \<Rightarrow> True | Some lo \<Rightarrow> lo > maskw w) \<longleftrightarrow> 2 ^ w \<le> uint a * uint b"
proof -
  have p: "(2::int) ^ w \<le> 2 ^ LENGTH(128)" by (rule pow_128 [OF w])
  have le: "z \<le> maskw w \<longleftrightarrow> uint z < 2 ^ w" for z by (rule le_maskw_iff [OF w])
  have lt: "maskw w < z \<longleftrightarrow> 2 ^ w \<le> uint z" for z using le [of z] by (simp add: not_le [symmetric] not_less)
  have add: "checked_add a b = Some (a + b) \<and> uint (a + b) = uint a + uint b \<or>
      checked_add a b = None \<and> 2 ^ w \<le> uint a + uint b"
    using p by (auto simp: checked_add_def uint_add_small)
  show "(case checked_add a b of None \<Rightarrow> False | Some hi \<Rightarrow> hi \<le> maskw w) \<longleftrightarrow> uint a + uint b < 2 ^ w"
    using add by (auto simp: le)
  show "(case checked_add a b of None \<Rightarrow> True | Some lo \<Rightarrow> lo > maskw w) \<longleftrightarrow> 2 ^ w \<le> uint a + uint b"
    using add by (auto simp: lt)
  have mul: "checked_mul a b = Some (a * b) \<and> uint (a * b) = uint a * uint b \<or>
      checked_mul a b = None \<and> 2 ^ w \<le> uint a * uint b"
    using p by (auto simp: checked_mul_def uint_mult_small)
  show "(case checked_mul a b of None \<Rightarrow> False | Some hi \<Rightarrow> hi \<le> maskw w) \<longleftrightarrow> uint a * uint b < 2 ^ w"
    using mul by (auto simp: le)
  show "(case checked_mul a b of None \<Rightarrow> True | Some lo \<Rightarrow> lo > maskw w) \<longleftrightarrow> 2 ^ w \<le> uint a * uint b"
    using mul by (auto simp: lt)
qed

lemma overflows_unsigned:
  assumes ok: "range_ok a" "range_ok b" "rwidth a = rwidth b"
    and x: "x \<in> gamma a" and y: "y \<in> gamma b" and t: "overflows opr False a b = Some t"
  shows "(t = Never \<longrightarrow> \<not> leaves_type opr False (rwidth a) x y) \<and>
    (t = Always \<longrightarrow> leaves_type opr False (rwidth a) x y)"
proof -
  note w = range_okD(1,2) [OF ok(1)]
  obtain al ah where a: "unsigned_bounds a = Some (al, ah)" "al \<le> x" "x \<le> ah"
    using unsigned_bounds_sound [OF ok(1) x] by blast
  obtain bl bh where b: "unsigned_bounds b = Some (bl, bh)" "bl \<le> y" "y \<le> bh"
    using unsigned_bounds_sound [OF ok(2) y] by blast
  have xw: "uint x < 2 ^ rwidth a" using gamma_le_width [OF ok(1) x] w by (simp add: le_maskw_iff)
  have le: "uint al \<le> uint x" "uint x \<le> uint ah" "uint bl \<le> uint y" "uint y \<le> uint bh"
    using a b by (simp_all add: word_le_def)
  have mul: "uint al * uint bl \<le> uint x * uint y" "uint x * uint y \<le> uint ah * uint bh"
    using le by (simp_all add: mult_mono)
  have nn: "0 \<le> uint x" "0 \<le> uint y" "0 \<le> uint x * uint y" by simp_all
  have t': "t = (case opr of
      CheckAdd \<Rightarrow> settled (uint ah + uint bh < 2 ^ rwidth a) (2 ^ rwidth a \<le> uint al + uint bl)
    | CheckSub \<Rightarrow> settled (al \<ge> bh) (ah < bl)
    | CheckMul \<Rightarrow> settled (uint ah * uint bh < 2 ^ rwidth a) (2 ^ rwidth a \<le> uint al * uint bl))"
    using t by (cases opr) (simp_all add: overflows_def Let_def a(1) b(1) ok(3) [symmetric]
        checked_small [OF w(2)])
  show ?thesis
  proof (cases opr)
    case CheckAdd
    have "0 \<le> uint x + uint y" by simp
    from settled_above [OF this add_mono [OF le(1,3)] add_mono [OF le(2,4)]] show ?thesis
      using t' CheckAdd by (simp add: leaves_type_def Let_def)
  next
    case CheckSub
    have "uint x - uint y < 2 ^ rwidth a" using xw uint_ge_0 [of y] by linarith
    then show ?thesis
      using CheckSub t' le unfolding leaves_type_def Let_def settled_def word_le_def word_less_def
      by (simp split: if_splits del: uint_lt_size)
  next
    case CheckMul
    from settled_above [OF nn(3) mul] show ?thesis
      using t' CheckMul by (simp add: leaves_type_def Let_def)
  qed
qed

section \<open>Inverses\<close>

text \<open>The operation each inverse undoes: its result at the width, from the operand and the other one.\<close>

primrec forward :: "undo \<Rightarrow> nat \<Rightarrow> u128 \<Rightarrow> u128 \<Rightarrow> u128" where
  "forward AddLeft w x y = (x + y) AND maskw w"
| "forward SubRight w x y = (y - x) AND maskw w"
| "forward SubLeft w x y = (x - y) AND maskw w"
| "forward UndoNeg w x y = (- x) AND maskw w"
| "forward UndoNot w x y = NOT x AND maskw w"
| "forward UndoXor w x y = x XOR y"
| "forward (UndoZext from) w x y = x"
| "forward (UndoSext from) w x y = word_of_int (signed_at x from) AND maskw w"
| "forward (UDiv d) w x y = x div d"

definition operand_width :: "undo \<Rightarrow> nat \<Rightarrow> nat" where
  "operand_width u w = (case u of UndoZext from \<Rightarrow> from | UndoSext from \<Rightarrow> from | _ \<Rightarrow> w)"

subsection \<open>Intervals below a bound stay below it\<close>

definition below :: "u128 \<Rightarrow> interval list \<Rightarrow> bool" where
  "below h ps \<longleftrightarrow> (\<forall>p \<in> set ps. snd p \<le> h)"

lemma below_merge: "below h ps \<Longrightarrow> snd p \<le> h \<Longrightarrow> below h (merge_pair ps p)"
  by (cases ps rule: rev_cases) (auto simp: below_def merge_pair_def split: prod.split)

lemma below_Cons [simp]: "below h (p # ps) \<longleftrightarrow> snd p \<le> h \<and> below h ps" "below h []"
  by (auto simp: below_def)

lemma belowD: "below h ps \<Longrightarrow> (lo, hi) \<in> set ps \<Longrightarrow> hi \<le> h"
  by (auto simp: below_def)

lemma below_fold: "below h ps \<Longrightarrow> below h qs \<Longrightarrow> below h (foldl merge_pair qs ps)"
  by (induction ps arbitrary: qs) (simp_all add: below_merge)

lemma below_from_pairs:
  assumes "below h ps" shows "below h (rpairs (from_pairs ps w))"
proof -
  have "snd p \<le> h" if "p \<in> set (masked_pairs (clampw w) ps)" for p
  proof -
    obtain lo hi where "(lo, hi) \<in> set ps" "snd p = hi AND maskw (clampw w)"
    proof -
      obtain x where "x \<in> set ps" "p = (case x of (lo, hi) \<Rightarrow> (lo AND maskw (clampw w), hi AND maskw (clampw w)))"
        using \<open>p \<in> set (masked_pairs (clampw w) ps)\<close> by (auto simp: masked_pairs_def)
      moreover obtain lo hi where "x = (lo, hi)" by (rule prod.exhaust)
      ultimately show thesis by (auto intro: that)
    qed
    then show ?thesis using belowD [OF assms] word_and_le2 [of hi] by (metis order_trans)
  qed
  then have "below h (sort (masked_pairs (clampw w) ps))" by (simp add: below_def)
  then show ?thesis unfolding from_pairs_eq merged_def Let_def by (simp add: below_fold)
qed

lemma below_kept:
  assumes "below h ps"
  shows "below h (filter P (List.map_filter (\<lambda>(lo, hi).
      map_option (\<lambda>up. (up AND NOT m, hi AND NOT m)) (checked_add lo m))
      (filter P (map (\<lambda>(lo, hi). (max lo low, min hi high)) ps))))"
proof -
  have "snd q \<le> h" if q: "q \<in> set (List.map_filter (\<lambda>(lo, hi).
      map_option (\<lambda>up. (up AND NOT m, hi AND NOT m)) (checked_add lo m))
      (filter P (map (\<lambda>(lo, hi). (max lo low, min hi high)) ps)))" for q
  proof -
    obtain p where p: "p \<in> set (filter P (map (\<lambda>(lo, hi). (max lo low, min hi high)) ps))"
      "(\<lambda>(lo, hi). map_option (\<lambda>up. (up AND NOT m, hi AND NOT m)) (checked_add lo m)) p = Some q"
      using q by (rule in_map_filterE)
    obtain lo hi where lh: "(lo, hi) \<in> set ps" "p = (max lo low, min hi high)" using p(1) by auto
    have "snd q = min hi high AND NOT m" using p(2) by (auto simp: lh)
    also have "\<dots> \<le> min hi high" by (rule word_and_le2)
    also have "\<dots> \<le> hi" by simp
    also have "\<dots> \<le> h" using belowD [OF assms lh(1)] .
    finally show ?thesis .
  qed
  then show ?thesis by (simp add: below_def)
qed

lemma below_if:
  "(P \<Longrightarrow> below h (rpairs a)) \<Longrightarrow> (\<not> P \<Longrightarrow> below h (rpairs b)) \<Longrightarrow> below h (rpairs (if P then a else b))"
  by simp

lemma below_option:
  "(\<And>c. below h (rpairs (f c))) \<Longrightarrow> below h (rpairs e) \<Longrightarrow>
   below h (rpairs (case x of Some c \<Rightarrow> f c | None \<Rightarrow> e))"
  by (cases x) simp_all

lemma below_narrow:
  assumes "below h (rpairs r)" shows "below h (rpairs (narrow r b))"
proof (cases "meet (rbits r) b")
  case None
  then show ?thesis by (simp add: narrow_def range_empty_def)
next
  case (Some bits)
  have "below h (rpairs (range_exactly v w))" if "p \<in> set (rpairs r)" "in_pair v p" for v w p
  proof -
    have "v \<le> h" using that assms by (auto simp: below_def in_pair_def intro: order_trans)
    then show ?thesis
      using word_and_le2 [of v] by (simp add: range_exactly_def Let_def) (metis order_trans)
  qed
  then have exactly: "\<exists>p \<in> set (rpairs r). in_pair v p \<Longrightarrow> below h (rpairs (range_exactly v w))" for v w
    by blast
  have empty: "below h (rpairs (range_empty w))" for w by (simp add: range_empty_def)
  show ?thesis
    unfolding narrow_def Some option.case Let_def
    by (intro below_if below_option) (simp_all add: assms exactly empty below_from_pairs [OF below_kept [OF assms]])
qed

lemma below_intersect:
  assumes "below h (rpairs b)" "intersect a b = Some r" shows "below h (rpairs r)"
proof -
  have "snd p \<le> h" if pm: "p \<in> set (meets (rpairs a) (rpairs b))" for p
  proof -
    obtain x where x: "x \<in> set (rpairs a)"
      "p \<in> set (case x of (lo, hi) \<Rightarrow> map (\<lambda>(start, end). (max lo start, min hi end)) (rpairs b))"
      using pm unfolding meets_def set_filter set_concat set_map by blast
    obtain x1 x2 where "x = (x1, x2)" by (rule prod.exhaust)
    then obtain z where z: "z \<in> set (rpairs b)" "p = (case z of (start, end) \<Rightarrow> (max x1 start, min x2 end))"
      using x(2) by auto
    obtain lo hi where "z = (lo, hi)" by (rule prod.exhaust)
    with z have "(lo, hi) \<in> set (rpairs b)" "snd p = min x2 hi" by simp_all
    then show ?thesis using belowD [OF assms(1)] by (simp add: min.coboundedI2)
  qed
  then have "below h (meets (rpairs a) (rpairs b))" by (simp add: below_def)
  moreover have "r = narrow (narrow (from_pairs (meets (rpairs a) (rpairs b)) (rwidth a)) (rbits a)) (rbits b)"
    using assms(2) by (simp add: intersect_def Let_def meets_def split: if_splits)
  ultimately show ?thesis by (simp add: below_narrow below_from_pairs)
qed

subsection \<open>Running an operation backwards\<close>

lemma masked_inverse:
  assumes w: "w \<le> 128" and x: "x \<le> maskw w"
  shows "(((x + y) AND maskw w) - y) AND maskw w = x"
    "(y - ((y - x) AND maskw w)) AND maskw w = x"
    "(((x - y) AND maskw w) + y) AND maskw w = x"
    "(- ((- x) AND maskw w)) AND maskw w = x"
    "NOT (NOT x AND maskw w) AND maskw w = x"
proof -
  have "uint x < 2 ^ w" using assms by (simp add: le_maskw_iff)
  then have m: "uint x mod 2 ^ w = uint x" by simp
  show "(((x + y) AND maskw w) - y) AND maskw w = x"
    by (intro word_uint_eqI) (simp only: uint_sub_maskw [OF w] uint_add_maskw [OF w] mod_diff_left_eq, simp add: m)
  show "(y - ((y - x) AND maskw w)) AND maskw w = x"
    by (intro word_uint_eqI) (simp only: uint_sub_maskw [OF w] mod_diff_right_eq, simp add: m)
  show "(((x - y) AND maskw w) + y) AND maskw w = x"
    by (intro word_uint_eqI) (simp only: uint_sub_maskw [OF w] uint_add_maskw [OF w] mod_add_left_eq, simp add: m)
  have "(0 - ((0 - x) AND maskw w)) AND maskw w = x"
    by (intro word_uint_eqI) (simp only: uint_sub_maskw [OF w] mod_diff_right_eq, simp add: m)
  then show "(- ((- x) AND maskw w)) AND maskw w = x" by simp
  show "NOT (NOT x AND maskw w) AND maskw w = x"
    using le_maskw_bitD [OF x w] by (intro bit_word_eqI) (auto simp: bit_simps)
qed

lemma trunc_of_ext:
  assumes r: "range_ok result" and fr: "0 < from" "from \<le> rwidth result"
    and e: "range_ok e" "rwidth e = rwidth result"
    and v: "v \<in> gamma result" "v \<in> gamma e" "v AND maskw from = x"
  shows "\<exists>q. (do { q \<leftarrow> intersect result e; Some (ops_trunc q from) }) = Some q \<and>
    range_ok q \<and> rwidth q = from \<and> x \<in> gamma q"
proof -
  have f: "clampw from = from" using fr range_okD(2) [OF r] by simp
  obtain i where i: "intersect result e = Some i" "range_ok i" "v \<in> gamma i"
    using intersect_keeps [OF r e(1) e(2) [symmetric] v(1,2)] by blast
  have "range_ok (ops_trunc i from) \<and> rwidth (ops_trunc i from) = from \<and>
      v AND maskw from \<in> gamma (ops_trunc i from)"
    using rtrunc.transfer [OF i(2), of "from"] i(3) f by (simp add: trunc_conc_def)
  then show ?thesis using v(3) by (simp add: i(1))
qed

lemma udiv_interval:
  assumes w: "w \<le> 128" and x: "x \<le> maskw w" and d: "d \<noteq> 0"
    and p: "lo \<le> x div d" "x div d \<le> hi" "hi \<le> maskw w div d"
  shows "lo * d \<le> x" "x \<le> min (saturating_add (hi * d) (d - 1)) (maskw w)"
proof -
  have d0: "0 < uint d" using d uint_ge_0 [of d] by (metis less_le uint_0_iff)
  have q: "uint lo \<le> uint x div uint d" "uint x div uint d \<le> uint hi" "uint hi \<le> uint (maskw w) div uint d"
    using p by (simp_all add: word_le_def uint_div)
  have m: "uint z * uint d \<le> uint y" if "uint z \<le> uint y div uint d" for y z :: u128
  proof -
    have "uint z * uint d \<le> uint y div uint d * uint d" using that d0 by (intro mult_right_mono) simp_all
    also have "\<dots> = uint y - uint y mod uint d" by (simp add: minus_mod_eq_div_mult)
    also have "\<dots> \<le> uint y" using d0 by simp
    finally show ?thesis .
  qed
  have small: "uint z * uint d < 2 ^ LENGTH(128)" if "uint z \<le> uint y div uint d" for y z :: u128
    using m [OF that] uint_lt_size [of y] by (rule le_less_trans)
  have lo: "uint (lo * d) = uint lo * uint d" by (rule uint_mult_small [OF small [OF q(1)]])
  then show "lo * d \<le> x" using m [OF q(1)] by (simp add: word_le_def)
  have hi: "uint (hi * d) = uint hi * uint d" by (rule uint_mult_small [OF small [OF q(3)]])
  have d1: "uint (d - 1) = uint d - 1"
    using d0 by (intro uint_sub_small [THEN trans]) (simp_all add: word_le_def)
  have "uint x = uint x div uint d * uint d + uint x mod uint d" by simp
  moreover have "uint x mod uint d < uint d" using d0 by simp
  moreover have "uint x div uint d * uint d \<le> uint hi * uint d"
    using q(2) d0 by (intro mult_right_mono) simp_all
  ultimately have "uint x \<le> uint hi * uint d + (uint d - 1)" by linarith
  moreover have "uint x < 2 ^ LENGTH(128)" by (rule uint_lt_size)
  ultimately have "x \<le> saturating_add (hi * d) (d - 1)"
    unfolding word_le_def uint_saturating_add hi d1 by linarith
  then show "x \<le> min (saturating_add (hi * d) (d - 1)) (maskw w)" using x by simp
qed

lemma backward_sound:
  assumes r: "range_ok result" and o: "range_ok other" "rwidth other = rwidth result"
    and wd: "0 < operand_width u (rwidth result)" "operand_width u (rwidth result) \<le> rwidth result"
    and x: "x \<le> maskw (operand_width u (rwidth result))" and y: "y \<in> gamma other"
    and v: "forward u (rwidth result) x y \<in> gamma result"
  shows "\<exists>q. backward u result other = Some q \<and> range_ok q \<and>
    rwidth q = operand_width u (rwidth result) \<and> x \<in> gamma q"
proof -
  let ?w = "rwidth result"
  note w = range_okD(1,2,3) [OF r]
  note inv = masked_inverse [OF w(2)]
  show ?thesis
  proof (cases u)
    case AddLeft
    then have xw: "x \<le> maskw ?w" using x by (simp add: operand_width_def)
    obtain q where q: "ops_sub result other NONE = Some q" "range_ok q" "rwidth q = ?w"
      using rsub.total [OF r o(1) o(2) [symmetric], of NONE] by blast
    have "sub_conc NONE ?w ((x + y) AND maskw ?w) y = Some x"
      unfolding sub_conc_def inv(1) [OF xw] by simp
    then have "x \<in> gamma q"
      using v by (intro rsub.sound [OF r o(1) o(2) [symmetric] q(1) _ y]) (simp_all add: AddLeft)
    then show ?thesis using q by (simp add: AddLeft backward_def operand_width_def)
  next
    case SubRight
    then have xw: "x \<le> maskw ?w" using x by (simp add: operand_width_def)
    obtain q where q: "ops_sub other result NONE = Some q" "range_ok q" "rwidth q = ?w"
      using rsub.total [OF o(1) r o(2), of NONE] o(2) by auto
    have "x \<in> gamma q"
      using v by (intro rsub.sound [OF o(1) r o(2) q(1) y, of "forward u ?w x y"])
        (simp_all add: SubRight sub_conc_def o(2) inv(2) [OF xw])
    then show ?thesis using q by (simp add: SubRight backward_def operand_width_def)
  next
    case SubLeft
    then have xw: "x \<le> maskw ?w" using x by (simp add: operand_width_def)
    obtain q where q: "ops_add result other NONE = Some q" "range_ok q" "rwidth q = ?w"
      using radd.total [OF r o(1) o(2) [symmetric], of NONE] by blast
    have "add_conc NONE ?w ((x - y) AND maskw ?w) y = Some x"
      unfolding add_conc_def inv(3) [OF xw] by simp
    then have "x \<in> gamma q"
      using v by (intro radd.sound [OF r o(1) o(2) [symmetric] q(1) _ y]) (simp_all add: SubLeft)
    then show ?thesis using q by (simp add: SubLeft backward_def operand_width_def)
  next
    case UndoNeg
    then have xw: "x \<le> maskw ?w" using x by (simp add: operand_width_def)
    obtain q where q: "ops_neg result NONE = Some q" "range_ok q" "rwidth q = ?w"
      "\<forall>z \<in> gamma result. (- z) AND maskw ?w \<in> gamma q"
      using ops_neg_sound [OF r, of NONE] by auto
    have "(- forward u ?w x y) AND maskw ?w \<in> gamma q" using q(4) v by blast
    then show ?thesis using q inv(4) [OF xw] by (simp add: UndoNeg backward_def operand_width_def)
  next
    case UndoNot
    then have xw: "x \<le> maskw ?w" using x by (simp add: operand_width_def)
    have "NOT (forward u ?w x y) AND maskw ?w \<in> gamma (ops_not result)"
      using rnot.sound [OF r v] by (simp add: not_conc_def)
    then show ?thesis using rnot.transfer [OF r] inv(5) [OF xw]
      by (simp add: UndoNot backward_def operand_width_def)
  next
    case UndoXor
    obtain q where q: "ops_xor result other = Some q" "range_ok q" "rwidth q = ?w"
      using rxor.total [OF r o(1) o(2) [symmetric]] by blast
    have "xor_conc ?w (x XOR y) y = Some x" by (simp add: xor_conc_def xor.assoc)
    then have "x \<in> gamma q"
      using v by (intro rxor.sound [OF r o(1) o(2) [symmetric] q(1) _ y]) (simp_all add: UndoXor)
    then show ?thesis using q by (simp add: UndoXor backward_def operand_width_def)
  next
    case (UndoZext fw)
    then have f: "0 < fw" "fw \<le> ?w" "x \<le> maskw fw" using wd x by (simp_all add: operand_width_def)
    have fc: "clampw fw = fw" using f(1,2) w(2) by simp
    let ?e = "ops_zext (range_full fw) ?w"
    have "x \<in> gamma (range_full fw)" using f(3) fc by simp
    from rzext.sound [OF range_full_ok this, of ?w] have "x AND maskw ?w \<in> gamma ?e"
      using w(3) by (simp add: trunc_conc_def)
    moreover have "x \<le> maskw ?w" using f le_maskw_mono [of fw ?w] w(2) by simp
    ultimately have "x \<in> gamma ?e" using w(2) by (simp add: le_maskw_mask_iff)
    moreover have "range_ok ?e" "rwidth ?e = ?w" using rzext.transfer [OF range_full_ok, of fw ?w] w(3) by simp_all
    moreover have "x AND maskw fw = x" using f w(2) by (simp add: le_maskw_mask_iff)
    ultimately show ?thesis
      using trunc_of_ext [OF r f(1,2), of ?e x x] v by (simp add: UndoZext backward_def operand_width_def)
  next
    case (UndoSext fw)
    then have f: "0 < fw" "fw \<le> ?w" "x \<le> maskw fw" using wd x by (simp_all add: operand_width_def)
    have f128: "fw \<le> 128" using f(2) w(2) by simp
    have fc: "clampw fw = fw" using f(1) f128 by simp
    let ?e = "ops_sext (range_full fw) ?w" and ?v = "forward u ?w x y"
    have "x \<in> gamma (range_full fw)" using f(3) fc by simp
    from rsext.sound [OF range_full_ok this, of ?w] have "?v \<in> gamma ?e"
      using w(3) fc by (simp add: sext_conc_def UndoSext)
    moreover have "range_ok ?e" "rwidth ?e = ?w" using rsext.transfer [OF range_full_ok, of fw ?w] w(3) by simp_all
    moreover have "?v AND maskw fw = x"
    proof (intro word_uint_eqI)
      have "(2::int) ^ fw dvd 2 ^ ?w" using f(2) by (rule le_imp_power_dvd)
      then have "signed_at x fw mod 2 ^ ?w mod 2 ^ fw = signed_at x fw mod 2 ^ fw"
        by (rule mod_mod_cancel)
      also have "\<dots> = uint x mod 2 ^ fw" by (rule signed_at_mod [OF f(1) f128])
      also have "\<dots> = uint x" using f(3) f128 by (simp add: le_maskw_iff)
      finally show "uint (?v AND maskw fw) = uint x"
        using w(2) f128 by (simp add: UndoSext word_red uint_word_of_int mod_2_128)
    qed
    ultimately show ?thesis
      using trunc_of_ext [OF r f(1,2), of ?e ?v x] v by (simp add: UndoSext backward_def operand_width_def)
  next
    case (UDiv d)
    then have xw: "x \<le> maskw ?w" using x by (simp add: operand_width_def)
    show ?thesis
    proof (cases "d = 0")
      case True
      then show ?thesis using xw w by (simp add: UDiv backward_def operand_width_def)
    next
      case False
      let ?q = "x div d" and ?top = "maskw ?w div d"
      have d0: "0 < uint d" using False uint_ge_0 [of d] by (metis less_le uint_0_iff)
      have le: "?q \<le> ?top" "?top \<le> maskw ?w"
        using xw d0 zdiv_mono2 [of "uint (maskw ?w)" 1 "uint d"]
        by (simp_all add: word_le_def uint_div zdiv_mono1)
      let ?b = "between 0 ?top ?w"
      have "?q \<in> gamma ?b" using le by (intro gamma_betweenI w) simp_all
      then obtain i where i: "intersect result ?b = Some i" "range_ok i" "rwidth i = ?w" "?q \<in> gamma i"
        using intersect_keeps [OF r between_ok _ v [unfolded UDiv forward.simps], of 0 ?top ?w] w by auto
      have "below ?top (rpairs ?b)"
        using le(2) w by (simp add: between_def Let_def le_maskw_mask_iff below_from_pairs)
      then have top: "below ?top (rpairs i)" using i(1) by (rule below_intersect)
      obtain lo hi where p: "(lo, hi) \<in> set (rpairs i)" "lo \<le> ?q" "?q \<le> hi"
        using gamma_pair [OF i(2,4)] .
      note b = udiv_interval [OF w(2) xw False p(2,3) belowD [OF top p(1)]]
      let ?ps = "map (\<lambda>(lo, hi). (lo * d, min (saturating_add (hi * d) (d - 1)) (maskw ?w))) (rpairs i)"
      have "x \<in> gamma (from_pairs ?ps ?w)"
      proof (rule from_pairs_sound)
        show "(lo * d, min (saturating_add (hi * d) (d - 1)) (maskw ?w)) \<in> set ?ps"
          using p(1) by force
      qed (use b w in \<open>simp_all add: in_pair_def\<close>)
      then show ?thesis using False w by (simp add: UDiv backward_def operand_width_def i(1) Let_def)
    qed
  qed
qed

section \<open>Properties\<close>

text \<open>
  C8: a settled comparison is right. On well-formed ranges of one width \<open>ops::compare\<close>
  reaches no assertion; when it answers \<open>Always\<close> the predicate holds of every two values of
  the operands, and when it answers \<open>Never\<close> of no two.
\<close>

theorem range_compare_sound:
  assumes "range_ok a" "range_ok b" "rwidth a = rwidth b"
  shows "\<exists>t. ops_compare p a b = Some t \<and>
    (\<forall>x \<in> gamma a. \<forall>y \<in> gamma b.
      (t = Always \<longrightarrow> pred_holds p (rwidth a) x y) \<and> (t = Never \<longrightarrow> \<not> pred_holds p (rwidth a) x y))"
  by (rule compare_sound [OF assms])

theorem range_compare_sound_witness:
  "\<exists>t. ops_compare Slt (range_exactly 200 8) (range_exactly 3 8) = Some t \<and> t \<noteq> Never"
proof -
  obtain t where t: "ops_compare Slt (range_exactly 200 8) (range_exactly 3 8) = Some t"
    "\<forall>x \<in> gamma (range_exactly 200 8). \<forall>y \<in> gamma (range_exactly 3 8).
      t = Never \<longrightarrow> \<not> pred_holds Slt (rwidth (range_exactly 200 8)) x y"
    using range_compare_sound [of "range_exactly 200 8" "range_exactly 3 8" Slt] by auto
  have "signed_at 200 8 = - 56" "signed_at 3 8 = 3"
    by (simp_all add: signed_at_value le_maskw_iff)
  then have "t \<noteq> Never" using t(2) by (simp add: gamma_exactly maskw_def MAX_BITS_def)
  then show ?thesis using t(1) by blast
qed

text \<open>
  C9: what a branch teaches of its operand is sound. On well-formed ranges of one width
  \<open>ops::narrow_for\<close> keeps every value of the left operand for which the predicate holds with
  some value of the right one, and reaches neither the assertion nor an \<open>expect\<close>.
\<close>

theorem range_narrow_for_sound:
  assumes "range_ok a" "range_ok b" "rwidth a = rwidth b"
    and "x \<in> gamma a" "y \<in> gamma b" "pred_holds p (rwidth a) x y"
  shows "\<exists>r. narrow_for p a b = Some r \<and> range_ok r \<and> rwidth r = rwidth a \<and> x \<in> gamma r"
  by (rule narrow_for_sound [OF assms])

theorem range_narrow_for_sound_witness:
  "\<exists>r. narrow_for Ult (range_full 8) (range_exactly 10 8) = Some r \<and> range_ok r \<and> 9 \<in> gamma r"
  using range_narrow_for_sound [of "range_full 8" "range_exactly 10 8" 9 10 Ult]
  by (auto simp: gamma_exactly maskw_def MAX_BITS_def)

text \<open>
  C10: running an operation backwards keeps every operand that could have produced the result.
  For each inverse the query uses, if the operation on \<open>x\<close> and a value of \<open>other\<close> gives a value
  of \<open>result\<close>, then \<open>ops::backward\<close> reaches no assertion and its answer, at the operand's width,
  holds \<open>x\<close>.
\<close>

theorem range_backward_sound:
  assumes "range_ok result" "range_ok other" "rwidth other = rwidth result"
    and "0 < operand_width u (rwidth result)" "operand_width u (rwidth result) \<le> rwidth result"
    and "x \<le> maskw (operand_width u (rwidth result))" "y \<in> gamma other"
    and "forward u (rwidth result) x y \<in> gamma result"
  shows "\<exists>q. backward u result other = Some q \<and> range_ok q \<and>
    rwidth q = operand_width u (rwidth result) \<and> x \<in> gamma q"
  by (rule backward_sound [OF assms])

theorem range_backward_sound_witness:
  "\<exists>q. backward (UDiv 10) (range_exactly 4 8) (range_full 8) = Some q \<and> range_ok q \<and> 47 \<in> gamma q"
  using range_backward_sound [of "range_exactly 4 8" "range_full 8" "UDiv 10" 47 0]
  by (auto simp: gamma_exactly operand_width_def maskw_def MAX_BITS_def)

text \<open>
  C11: the flag of an overflow builtin is right when it is settled. For each of the three
  operations and both signednesses, \<open>Never\<close> means the exact result of no two values of the
  operands leaves the type, and \<open>Always\<close> that every one does.
\<close>

theorem overflows_sound:
  assumes "range_ok a" "range_ok b" "rwidth a = rwidth b"
    and "x \<in> gamma a" "y \<in> gamma b" "overflows opr is_signed a b = Some t"
  shows "(t = Never \<longrightarrow> \<not> leaves_type opr is_signed (rwidth a) x y) \<and>
    (t = Always \<longrightarrow> leaves_type opr is_signed (rwidth a) x y)"
  using overflows_signed [OF assms(1-5)] overflows_unsigned [OF assms(1-5)] assms(6)
  by (cases is_signed) simp_all

theorem overflows_sound_witness:
  "overflows CheckAdd False (range_exactly 200 8) (range_exactly 100 8) \<noteq> Some Never"
proof
  assume "overflows CheckAdd False (range_exactly 200 8) (range_exactly 100 8) = Some Never"
  then show False
    using overflows_sound [of "range_exactly 200 8" "range_exactly 100 8" 200 100 CheckAdd False Never]
    by (simp add: gamma_exactly maskw_def MAX_BITS_def leaves_type_def)
qed

end
