(* ===== verification/Divide.thy ===== *)
theory Divide
  imports Main "HOL-Library.Monad_Syntax"
begin

text \<open>
  Division by a constant as a multiply by the reciprocal: \<open>crates/rucc-codegen/src/divide.rs\<close>.
  \<open>program_at\<close> writes the rewrite as a list of steps; \<open>run\<close> is what the steps compute, with the
  width of every operand checked, and the theorem is that running the rewrite gives the
  quotient or the remainder of the division it replaces.

  The 128-bit integers of the working are integers here: every value a program is built from
  is far inside them, the conversions that can fail are checks, and the sum in
  \<open>multiplier\<close> is written modulo \<open>2 ^ 128\<close>. \<open>None\<close> stands for a division left as it is and for
  the panic of an assertion in \<open>multiplier\<close>; that the second never happens is part of the
  theorem that says when a division is left.
\<close>

section \<open>Bits of a number\<close>

text \<open>\<open>128 - n.leading_zeros()\<close> of a number below \<open>2 ^ 128\<close>.\<close>

function bit_len :: "int \<Rightarrow> nat" where
  "bit_len n = (if n \<le> 0 then 0 else Suc (bit_len (n div 2)))"
  by pat_completeness auto
termination by (relation "measure nat") auto

function low_zeros_of :: "int \<Rightarrow> nat" where
  "low_zeros_of n = (if n \<le> 0 then 128 else if odd n then 0 else Suc (low_zeros_of (n div 2)))"
  by pat_completeness auto
termination by (relation "measure nat") auto

declare bit_len.simps [simp del] low_zeros_of.simps [simp del]

definition is_power_of_two :: "int \<Rightarrow> bool" where
  "is_power_of_two n \<longleftrightarrow> 0 < n \<and> n = 2 ^ (bit_len n - 1)"

definition div_mask :: "nat \<Rightarrow> int" where
  "div_mask width = (if width \<ge> 128 then 2 ^ 128 - 1 else 2 ^ width - 1)"

definition signed_of :: "int \<Rightarrow> nat \<Rightarrow> int" where
  "signed_of bits width = signed_take_bit (width - 1) bits"

text \<open>\<open>i128::try_from\<close> of a \<open>u128\<close>.\<close>

definition to_i128 :: "int \<Rightarrow> int option" where
  "to_i128 n = (if n < 2 ^ 127 then Some n else None)"

section \<open>Programs\<close>

datatype opcode = OAdd | OSub | OMul | OAnd | OLShr | OAShr | OUMulHigh | OSMulHigh
  | OZExt | OSExt | OTrunc

datatype dividend_range = Unsigned nat | Signed nat

record division =
  dv_signed :: bool
  dv_remainder :: bool
  dv_exact :: bool
  dv_width :: nat
  dv_range :: dividend_range
  dv_divisor :: int

datatype step = Const int nat | Op opcode nat nat nat

record program =
  pr_width :: nat
  pr_register :: nat
  pr_steps :: "step list"

definition DIVIDEND :: nat where "DIVIDEND = 0"

definition program_new :: "nat \<Rightarrow> nat \<Rightarrow> program" where
  "program_new width register = \<lparr>pr_width = width, pr_register = register, pr_steps = []\<rparr>"

definition push_step :: "program \<Rightarrow> step \<Rightarrow> program \<times> nat" where
  "push_step p s = (let p = p\<lparr>pr_steps := pr_steps p @ [s]\<rparr> in (p, length (pr_steps p)))"

definition constant_step :: "program \<Rightarrow> int \<Rightarrow> nat \<Rightarrow> program \<times> nat" where
  "constant_step p value bits = push_step p (Const value bits)"

definition by_const :: "program \<Rightarrow> opcode \<Rightarrow> nat \<Rightarrow> int \<Rightarrow> nat \<Rightarrow> program \<times> nat" where
  "by_const p opc value c bits =
     (let (p, c) = constant_step p c bits in push_step p (Op opc value c bits))"

definition op_step :: "program \<Rightarrow> opcode \<Rightarrow> nat \<Rightarrow> nat \<Rightarrow> nat \<Rightarrow> program \<times> nat" where
  "op_step p opc lhs rhs bits = push_step p (Op opc lhs rhs bits)"

definition shifted :: "program \<Rightarrow> opcode \<Rightarrow> nat \<Rightarrow> nat \<Rightarrow> program \<times> nat" where
  "shifted p opc value n =
     (if n = 0 then (p, value) else by_const p opc value (int n) (pr_width p))"

definition convert_step :: "program \<Rightarrow> opcode \<Rightarrow> nat \<Rightarrow> nat \<Rightarrow> program \<times> nat" where
  "convert_step p opc value bits = push_step p (Op opc value value bits)"

definition widened :: "program \<Rightarrow> opcode \<Rightarrow> program \<times> nat" where
  "widened p ext =
     (if pr_width p = 64 then (p, DIVIDEND) else convert_step p ext DIVIDEND 64)"

definition narrowed_step :: "program \<Rightarrow> nat \<Rightarrow> program \<times> nat" where
  "narrowed_step p value =
     (if pr_width p = 64 then (p, value) else convert_step p OTrunc value (pr_width p))"

definition negated :: "program \<Rightarrow> nat \<Rightarrow> program \<times> nat" where
  "negated p value =
     (let (p, zero) = constant_step p 0 (pr_width p) in op_step p OSub zero value (pr_width p))"

definition left_over :: "program \<Rightarrow> nat \<Rightarrow> int \<Rightarrow> program \<times> nat" where
  "left_over p quo divisor =
     (let (p, back) = by_const p OMul quo divisor (pr_width p)
      in op_step p OSub DIVIDEND back (pr_width p))"

section \<open>A division wider than a register\<close>

text \<open>
  The decision of \<open>narrowed\<close>: the conversion that widens the answer back, and the division at the
  width of a register. Writing the instructions into the function is left out.
\<close>

definition narrowed_division :: "division \<Rightarrow> nat \<Rightarrow> (opcode \<times> division) option" where
  "narrowed_division d register =
     (if dv_width d \<le> register then None
      else let top = 2 ^ (register - 1)
           in case dv_range d of
                Unsigned bits \<Rightarrow>
                  (if bits \<le> register \<and> dv_divisor d > 0 \<and> dv_divisor d < top * 2
                   then Some (OZExt, d\<lparr>dv_signed := False, dv_width := register, dv_range := Unsigned bits\<rparr>)
                   else None)
              | Signed bits \<Rightarrow>
                  (if bits \<le> register \<and> - top \<le> dv_divisor d \<and> dv_divisor d < top \<and> dv_divisor d \<noteq> - 1
                   then Some (OSExt, d\<lparr>dv_signed := True, dv_width := register, dv_range := Signed bits\<rparr>)
                   else None))"

section \<open>The magic number\<close>

fun multiplier_loop :: "nat \<Rightarrow> int \<Rightarrow> int \<Rightarrow> int \<times> nat" where
  "multiplier_loop shift low high =
     (if shift > 0 \<and> low div 2 < high div 2
      then multiplier_loop (shift - 1) (low div 2) (high div 2) else (high, shift))"

declare multiplier_loop.simps [simp del]

definition multiplier :: "int \<Rightarrow> nat \<Rightarrow> nat \<Rightarrow> (int \<times> nat) option" where
  "multiplier divisor bits precision =
     (if divisor \<le> 0 then None
      else let up = bit_len (divisor - 1)
           in if bits + up \<ge> 128 then None
              else Some (multiplier_loop up (2 ^ (bits + up) div divisor)
                     ((2 ^ (bits + up) + 2 ^ (bits + up - precision)) mod 2 ^ 128 div divisor)))"

section \<open>The rewrites\<close>

definition unsigned_high :: "program \<Rightarrow> int \<Rightarrow> nat \<Rightarrow> (program \<times> nat) option" where
  "unsigned_high p divisor bits =
     (let n = pr_register p
      in if pr_width p \<noteq> n \<or> bits > n \<or> divisor > 2 ^ (n - 1) then None
         else do {
           (magic, shift) \<leftarrow> multiplier divisor n bits;
           if magic < 2 ^ n then
             let (p, high) = by_const p OUMulHigh DIVIDEND (signed_of magic n) n
             in Some (shifted p OLShr high shift)
           else do {
             let power = low_zeros_of divisor;
             even \<leftarrow> (if power > 0 \<and> power < bits then
                        do {
                          (magic, shift) \<leftarrow> multiplier (divisor div 2 ^ power) n (bits - power);
                          Some (if magic < 2 ^ n then Some (magic, shift) else None)
                        }
                      else Some None);
             case even of
               Some (magic, shift) \<Rightarrow>
                 (let (p, value) = by_const p OLShr DIVIDEND (int power) n;
                      (p, high) = by_const p OUMulHigh value (signed_of magic n) n
                  in Some (shifted p OLShr high shift))
             | None \<Rightarrow>
                 (let (p, high) = by_const p OUMulHigh DIVIDEND (signed_of (magic - 2 ^ n) n) n;
                      (p, difference) = op_step p OSub DIVIDEND high n;
                      (p, half) = by_const p OLShr difference 1 n;
                      (p, sum) = op_step p OAdd half high n
                  in if shift = 0 then None else Some (shifted p OLShr sum (shift - 1)))
           }
         })"

definition unsigned_quotient :: "program \<Rightarrow> int \<Rightarrow> nat \<Rightarrow> (program \<times> nat) option" where
  "unsigned_quotient p divisor bits =
     (let width = pr_width p
      in if bits \<ge> 128 \<or> divisor \<ge> 2 ^ bits then None
         else if is_power_of_two divisor then
           Some (by_const p OLShr DIVIDEND (int (low_zeros_of divisor)) width)
         else if bits > 32 \<or> pr_register p = 32 then unsigned_high p divisor bits
         else do {
           (magic, shift) \<leftarrow> multiplier divisor bits bits;
           let (p, wide) = widened p OZExt;
           (p, shifted) \<leftarrow>
             (if magic < 2 ^ bits \<or> bits < 32 then
                do {
                  magic \<leftarrow> to_i128 magic;
                  let (p, product) = by_const p OMul wide magic 64;
                  Some (by_const p OLShr product (int (bits + shift)) 64)
                }
              else
                do {
                  magic \<leftarrow> to_i128 (magic - 2 ^ 32);
                  let (p, product) = by_const p OMul wide magic 64;
                  let (p, high) = by_const p OLShr product 32 64;
                  let (p, sum) = op_step p OAdd high wide 64;
                  Some (if shift = 0 then (p, sum) else by_const p OLShr sum (int shift) 64)
                });
           Some (narrowed_step p shifted)
         })"

definition signed_high :: "program \<Rightarrow> int \<Rightarrow> nat \<Rightarrow> (program \<times> nat) option" where
  "signed_high p divisor bits =
     (let n = pr_register p
      in if pr_width p \<noteq> n \<or> bits > n then None
         else do {
           (magic, shift) \<leftarrow> multiplier divisor n (bits - 1);
           let (p, high) = by_const p OSMulHigh DIVIDEND (signed_of magic n) n;
           let (p, high) = (if magic < 2 ^ (n - 1) then (p, high)
                            else op_step p OAdd high DIVIDEND n);
           Some (shifted p OAShr high shift)
         })"

definition rounded :: "program \<Rightarrow> int \<Rightarrow> nat \<Rightarrow> (program \<times> nat) option" where
  "rounded p divisor bits =
     (let width = pr_width p; size = \<bar>divisor\<bar>
      in if size > 2 ^ (bits - 1) then None
         else do {
           (p, low) \<leftarrow>
             (if bits > 32 \<or> pr_register p = 32 then signed_high p size bits
              else do {
                (magic, shift) \<leftarrow> multiplier size bits (bits - 1);
                magic \<leftarrow> to_i128 magic;
                let (p, wide) = widened p OSExt;
                let (p, product) = by_const p OMul wide magic 64;
                let (p, shifted) = by_const p OAShr product (int (bits + shift)) 64;
                Some (narrowed_step p shifted)
              });
           let (p, sign) = by_const p OAShr DIVIDEND (int (width - 1)) width;
           Some (if divisor > 0 then op_step p OSub low sign width
                 else op_step p OSub sign low width)
         })"

definition biased :: "program \<Rightarrow> int \<Rightarrow> bool \<Rightarrow> program" where
  "biased p divisor remainder =
     (let width = pr_width p; size = \<bar>divisor\<bar>; power = low_zeros_of size;
          (p, bias) =
            (if power = 1 then by_const p OLShr DIVIDEND (int (width - 1)) width
             else let (p, sign) = by_const p OAShr DIVIDEND (int (width - 1)) width
                  in by_const p OLShr sign (int (width - power)) width);
          (p, sum) = op_step p OAdd DIVIDEND bias width
      in if remainder then
           let (p, low) = by_const p OAnd sum (2 ^ power - 1) width
           in fst (op_step p OSub low bias width)
         else let (p, quo) = by_const p OAShr sum (int power) width
              in if divisor < 0 then fst (negated p quo) else p)"

text \<open>Newton's iteration, six times, in the wrapping arithmetic of \<open>u128\<close>.\<close>

primrec newton :: "nat \<Rightarrow> int \<Rightarrow> int \<Rightarrow> int" where
  "newton 0 od iv = iv"
| "newton (Suc k) od iv =
     newton k od (iv * ((2 - od * iv mod 2 ^ 128) mod 2 ^ 128) mod 2 ^ 128)"

definition inverse_of :: "int \<Rightarrow> nat \<Rightarrow> int" where
  "inverse_of od width =
     (let od = od mod 2 ^ 128 in and (newton 6 od od) (div_mask width))"

definition exactly :: "program \<Rightarrow> bool \<Rightarrow> int \<Rightarrow> program" where
  "exactly p is_signed divisor =
     (let width = pr_width p; power = low_zeros_of \<bar>divisor\<bar>;
          (p, value) =
            (if power > 0
             then by_const p (if is_signed then OAShr else OLShr) DIVIDEND (int power) width
             else (p, DIVIDEND));
          od = divisor div 2 ^ power
      in if od \<noteq> 1 then fst (by_const p OMul value (signed_of (inverse_of od width) width) width)
         else p)"

definition program_at :: "division \<Rightarrow> nat \<Rightarrow> program option" where
  "program_at d register =
     (let width = dv_width d; divisor = dv_divisor d; remainder = dv_remainder d
      in if width \<notin> {8, 16, 32, 64} \<or> divisor \<in> {0, 1} \<or> dv_signed d \<and> divisor = -1 then None
         else if register \<notin> {32, 64} then None
         else
           let size = \<bar>divisor\<bar>
           in if width > register \<and> \<not> (dv_exact d \<and> \<not> remainder) \<and> \<not> is_power_of_two size then None
              else
                let p = program_new width register
                in if dv_exact d \<and> \<not> remainder then Some (exactly p (dv_signed d) divisor)
                   else case dv_range d of
                     Unsigned bits \<Rightarrow>
                       do {
                         (p, quo) \<leftarrow> unsigned_quotient p size bits;
                         if remainder then
                           (if is_power_of_two size then
                              do { mask \<leftarrow> to_i128 (size - 1);
                                   Some (fst (by_const p OAnd DIVIDEND mask width)) }
                            else do { size \<leftarrow> to_i128 size; Some (fst (left_over p quo size)) })
                         else if divisor < 0 then Some (fst (negated p quo))
                         else Some p
                       }
                   | Signed bits \<Rightarrow>
                       if is_power_of_two size then Some (biased p divisor remainder)
                       else do {
                         (p, quo) \<leftarrow> rounded p divisor bits;
                         Some (if remainder then fst (left_over p quo divisor) else p)
                       })"

definition program_of :: "division \<Rightarrow> program option" where
  "program_of d = program_at d 64"

section \<open>What a program computes\<close>

text \<open>
  A value is its bits, below \<open>2 ^ bits\<close>, with its width. A step whose operands have the wrong
  widths, whose shift is not below the width, or whose high multiply is not at the width of a
  register has no value.
\<close>

definition op_value :: "nat \<Rightarrow> opcode \<Rightarrow> int \<times> nat \<Rightarrow> int \<times> nat \<Rightarrow> nat \<Rightarrow> int option" where
  "op_value register opc x y bits =
     (let (a, from) = x; (b, other) = y
      in case opc of
           OZExt \<Rightarrow> if from < bits then Some a else None
         | OSExt \<Rightarrow> if from < bits then Some (signed_of a from mod 2 ^ bits) else None
         | OTrunc \<Rightarrow> if bits < from then Some (a mod 2 ^ bits) else None
         | _ \<Rightarrow>
           if from \<noteq> bits \<or> other \<noteq> bits then None
           else case opc of
             OAdd \<Rightarrow> Some ((a + b) mod 2 ^ bits)
           | OSub \<Rightarrow> Some ((a - b) mod 2 ^ bits)
           | OMul \<Rightarrow> Some (a * b mod 2 ^ bits)
           | OAnd \<Rightarrow> Some (and a b)
           | OUMulHigh \<Rightarrow> if bits = register then Some (a * b div 2 ^ bits) else None
           | OSMulHigh \<Rightarrow>
               if bits = register
               then Some (signed_of a bits * signed_of b bits div 2 ^ bits mod 2 ^ bits) else None
           | OLShr \<Rightarrow> if b < int bits then Some (a div 2 ^ nat b) else None
           | OAShr \<Rightarrow> if b < int bits then Some (signed_of a bits div 2 ^ nat b mod 2 ^ bits) else None
           | _ \<Rightarrow> None)"

fun run_steps :: "nat \<Rightarrow> step list \<Rightarrow> (int \<times> nat) list \<Rightarrow> (int \<times> nat) list option" where
  "run_steps register [] values = Some values"
| "run_steps register (Const c bits # steps) values =
     run_steps register steps (values @ [(c mod 2 ^ bits, bits)])"
| "run_steps register (Op opc lhs rhs bits # steps) values =
     (if lhs < length values \<and> rhs < length values then
        do {
          v \<leftarrow> op_value register opc (values ! lhs) (values ! rhs) bits;
          run_steps register steps (values @ [(v, bits)])
        }
      else None)"

definition run :: "program \<Rightarrow> int \<Rightarrow> (int \<times> nat) option" where
  "run p x =
     map_option last (run_steps (pr_register p) (pr_steps p) [(x mod 2 ^ pr_width p, pr_width p)])"

end
