(* ===== verification/Quotients.thy ===== *)
theory Quotients
  imports Main
begin

text \<open>Floor division by a positive integer, as the division components use it.\<close>

lemma div_eqI:
  fixes a b q :: int
  assumes "q * b \<le> a" "a < (q + 1) * b" "0 < b" shows "a div b = q"
proof -
  have "a - q * b < b" using assms(2) by (simp add: distrib_right)
  then show ?thesis using assms by (intro int_div_pos_eq [of a b q "a - q * b"]) (simp_all add: mult.commute)
qed

lemma div_less_of_mult: "(a::int) < c * b \<Longrightarrow> 0 < b \<Longrightarrow> a div b < c"
  using pos_mod_sign [of b a] div_mult_mod_eq [of a b]
  by (metis add_increasing2 linorder_not_less mult_right_mono order.trans order_less_imp_le)

end
