(* ===== verification/DivideMagic.thy ===== *)
theory DivideMagic
  imports Divide Quotients "HOL-Library.Signed_Division"
begin

text \<open>
  The arithmetic behind \<open>divide.rs\<close>: what \<open>multiplier\<close> answers, that the answer is a
  reciprocal over the whole range it was asked for, how wide it is, and Newton's inverse of
  an odd number. Then how a program's steps are evaluated one at a time.
\<close>

section \<open>Bit lengths and powers of two\<close>

lemma bit_len_bounds: "0 < n \<Longrightarrow> 2 ^ (bit_len n - 1) \<le> n \<and> n < 2 ^ bit_len n \<and> 0 < bit_len n"
proof (induction n rule: bit_len.induct)
  case (1 n)
  show ?case
  proof (cases "n div 2 > 0")
    case True
    define k where "k = bit_len (n div 2)"
    have IH: "2 ^ (k - 1) \<le> n div 2" "n div 2 < 2 ^ k" "0 < k"
      using 1 True by (simp_all add: k_def)
    have l: "bit_len n = Suc k" using 1(2) by (simp add: bit_len.simps [of n] k_def)
    have "(2::int) ^ k = 2 * 2 ^ (k - 1)" using IH(3) by (simp add: power_eq_if)
    then have "2 ^ k \<le> n" "n < 2 * 2 ^ k" using IH by linarith+
    then show ?thesis by (simp add: l)
  next
    case False
    then have "n = 1" using 1(2) by linarith
    then show ?thesis by (simp add: bit_len.simps)
  qed
qed

lemma bit_len_pred:
  assumes "2 \<le> d"
  shows "2 ^ (bit_len (d - 1) - 1) < d" "d \<le> 2 ^ bit_len (d - 1)" "0 < bit_len (d - 1)"
  using bit_len_bounds [of "d - 1"] assms by auto

lemma bit_len_le: "n < 2 ^ k \<Longrightarrow> bit_len n \<le> k"
proof (rule ccontr)
  assume n: "n < 2 ^ k" "\<not> bit_len n \<le> k"
  show False
  proof (cases "0 < n")
    case True
    have "(2::int) ^ k \<le> 2 ^ (bit_len n - 1)" using n(2) by (intro power_increasing) simp_all
    then show False using bit_len_bounds [OF True] n(1) by linarith
  next
    case False
    then show False using n(2) by (simp add: bit_len.simps)
  qed
qed

lemma low_zeros_of_spec:
  "0 < n \<Longrightarrow> n = n div 2 ^ low_zeros_of n * 2 ^ low_zeros_of n \<and> odd (n div 2 ^ low_zeros_of n)"
proof (induction n rule: low_zeros_of.induct)
  case (1 n)
  show ?case
  proof (cases "odd n")
    case True
    then show ?thesis using 1(2) by (simp add: low_zeros_of.simps [of n])
  next
    case False
    define k where "k = low_zeros_of (n div 2)"
    have l: "low_zeros_of n = Suc k" using 1(2) False by (simp add: low_zeros_of.simps [of n] k_def)
    have pos: "0 < n div 2" "\<not> n \<le> 0" using 1(2) False by (auto elim!: evenE)
    have IH: "n div 2 = n div 2 div 2 ^ k * 2 ^ k \<and> odd (n div 2 div 2 ^ k)"
      unfolding k_def by (rule 1(1) [OF pos(2) False pos(1)])
    have d: "n div 2 ^ Suc k = n div 2 div 2 ^ k" by (simp add: zdiv_zmult2_eq)
    have "n = 2 * (n div 2)" using False by simp
    also have "\<dots> = 2 * (n div 2 div 2 ^ k * 2 ^ k)" using IH by (metis (no_types))
    also have "\<dots> = n div 2 div 2 ^ k * 2 ^ Suc k" by simp
    finally show ?thesis using IH unfolding l d by (metis (no_types))
  qed
qed

lemma low_zeros_of_power: "low_zeros_of (2 ^ k) = k"
proof (induction k)
  case 0
  then show ?case by (simp add: low_zeros_of.simps)
next
  case (Suc k)
  then show ?case by (subst low_zeros_of.simps) simp
qed

lemma bit_len_power: "bit_len (2 ^ k) = Suc k"
proof (induction k)
  case 0
  then show ?case by (simp add: bit_len.simps)
next
  case (Suc k)
  then show ?case by (subst bit_len.simps) simp
qed

lemma is_power_of_two_iff: "is_power_of_two n \<longleftrightarrow> (\<exists>k. n = 2 ^ k)"
  by (auto simp: is_power_of_two_def bit_len_power)

lemma is_power_of_twoD: "is_power_of_two n \<Longrightarrow> n = 2 ^ low_zeros_of n"
  by (auto simp: is_power_of_two_iff low_zeros_of_power)

section \<open>The magic number\<close>

definition magic_ok :: "int \<Rightarrow> nat \<Rightarrow> nat \<Rightarrow> int \<Rightarrow> nat \<Rightarrow> bool" where
  "magic_ok d n p m s \<longleftrightarrow> p \<le> n + s \<and> 2 ^ (n + s) < m * d \<and> m * d \<le> 2 ^ (n + s) + 2 ^ (n + s - p)"

text \<open>One quotient of the loop from the next, and that they start apart.\<close>

lemma half_low: "(2::int) ^ (n + Suc s) div d div 2 = 2 ^ (n + s) div d"
proof -
  have "(2::int) ^ (n + Suc s) div d div 2 = 2 ^ (n + Suc s) div (2 * d)"
    by (metis div_mult2_eq mult.commute zdiv_zmult2_eq zero_le_numeral)
  then show ?thesis by simp
qed

lemma half_high:
  assumes "p \<le> n"
  shows "((2::int) ^ (n + Suc s) + 2 ^ (n + Suc s - p)) div d div 2 = (2 ^ (n + s) + 2 ^ (n + s - p)) div d"
proof -
  have "n + Suc s - p = Suc (n + s - p)" using assms by simp
  then have e: "(2::int) ^ (n + Suc s) + 2 ^ (n + Suc s - p) = 2 * (2 ^ (n + s) + 2 ^ (n + s - p))"
    by (simp only: add_Suc_right power_Suc distrib_left)
  have "2 * a div d div 2 = a div d" for a :: int
    by (metis div_mult_mult1 mult.commute zdiv_zmult2_eq zero_le_numeral zero_neq_numeral)
  then show ?thesis unfolding e .
qed

lemma loop_spec:
  assumes "p \<le> n" "0 < d"
    and "low = 2 ^ (n + s) div d" "high = (2 ^ (n + s) + 2 ^ (n + s - p)) div d" "low < high"
    and "multiplier_loop s low high = (m, t)"
  shows "t \<le> s \<and> m = (2 ^ (n + t) + 2 ^ (n + t - p)) div d \<and> 2 ^ (n + t) div d < m \<and>
    (t = 0 \<or> \<not> 2 ^ (n + t) div d div 2 < m div 2)"
  using assms
proof (induction s low high rule: multiplier_loop.induct)
  case (1 s low high)
  show ?case
  proof (cases "s > 0 \<and> low div 2 < high div 2")
    case True
    then obtain k where k: "s = Suc k" by (cases s) auto
    have "low div 2 = 2 ^ (n + k) div d" "high div 2 = (2 ^ (n + k) + 2 ^ (n + k - p)) div d"
      using 1(4,5) half_low [of n k d] half_high [OF 1(2), of k d] by (simp_all add: k)
    moreover have "multiplier_loop k (low div 2) (high div 2) = (m, t)"
      using 1(7) True unfolding multiplier_loop.simps [of s] by (simp add: k)
    ultimately have "t \<le> k \<and> m = (2 ^ (n + t) + 2 ^ (n + t - p)) div d \<and> 2 ^ (n + t) div d < m \<and>
      (t = 0 \<or> \<not> 2 ^ (n + t) div d div 2 < m div 2)"
      using 1(1) [OF True 1(2,3)] True unfolding k diff_Suc_1 by blast
    then show ?thesis unfolding k by (blast intro: le_SucI)
  next
    case False
    then have "m = high" "t = s" using 1(7) by (auto simp: multiplier_loop.simps [of s])
    then show ?thesis using 1(4-6) False by auto
  qed
qed

lemma div_less_mult: "0 < (d::int) \<Longrightarrow> a div d < m \<Longrightarrow> a < m * d"
proof -
  assume d: "0 < d" "a div d < m"
  have "a = a div d * d + a mod d" by simp
  also have "\<dots> < a div d * d + d" using pos_mod_bound [OF d(1)] by (rule add_strict_left_mono)
  also have "\<dots> = (a div d + 1) * d" by (simp add: algebra_simps)
  also have "\<dots> \<le> m * d" using d by (intro mult_right_mono) simp_all
  finally show ?thesis .
qed

lemma div_mult_below: "0 < (d::int) \<Longrightarrow> a div d * d \<le> a"
proof -
  assume "0 < d"
  then have "0 \<le> a mod d" by simp
  then show ?thesis using div_mult_mod_eq [of a d] by linarith
qed

theorem multiplier_spec:
  assumes d: "2 \<le> d" and p: "1 \<le> p" "p \<le> n" and small: "n + bit_len (d - 1) < 128"
  obtains m s where "multiplier d n p = Some (m, s)" "magic_ok d n p m s" "s \<le> bit_len (d - 1)"
    "bit_len (d - 1) \<le> p \<Longrightarrow> m < 2 ^ Suc n" "bit_len (d - 1) \<le> p \<Longrightarrow> p < n \<Longrightarrow> m < 2 ^ n"
    "bit_len (d - 1) \<le> p \<Longrightarrow> p < n \<Longrightarrow> s < bit_len (d - 1)"
proof -
  define up where "up = bit_len (d - 1)"
  have up: "2 ^ (up - 1) < d" "d \<le> 2 ^ up" "0 < up"
    using bit_len_pred [OF d] by (simp_all add: up_def)
  let ?L = "2 ^ (n + up) div d" and ?H = "(2 ^ (n + up) + 2 ^ (n + up - p)) div d"
  have n128: "n + up \<le> 127" using small by (simp add: up_def)
  have "(2::int) ^ (n + up) \<le> 2 ^ 127" "(2::int) ^ (n + up - p) \<le> 2 ^ 126"
    using n128 p by (intro power_increasing; simp)+
  then have fit: "((2::int) ^ (n + up) + 2 ^ (n + up - p)) mod 2 ^ 128 = 2 ^ (n + up) + 2 ^ (n + up - p)"
    by (intro mod_pos_pos_trivial) simp_all
  obtain m s where ms: "multiplier_loop up ?L ?H = (m, s)" by fastforce
  have mult: "multiplier d n p = Some (m, s)"
    using d n128 ms unfolding multiplier_def Let_def up_def [symmetric] fit by simp
  have gap: "2 ^ (up + (n - p)) = (2::int) ^ (n + up - p)" using p(2) by (simp add: add.commute)
  have apart: "?L + k \<le> ?H" if "k * d \<le> 2 ^ (n + up - p)" for k
  proof -
    have "?L + k = (2 ^ (n + up) + k * d) div d" using d by simp
    also have "\<dots> \<le> ?H" using that d by (intro zdiv_mono1) simp_all
    finally show ?thesis .
  qed
  have "(2::int) ^ up \<le> 2 ^ (up + (n - p))" by (intro power_increasing) simp_all
  then have d1: "1 * d \<le> 2 ^ (n + up - p)" using up(2) gap by linarith
  have spec: "s \<le> up" "m = (2 ^ (n + s) + 2 ^ (n + s - p)) div d" "2 ^ (n + s) div d < m"
    "s = 0 \<or> \<not> 2 ^ (n + s) div d div 2 < m div 2"
  proof -
    have "0 < d" "?L < ?H" using apart [OF d1] d by simp_all
    then show "s \<le> up" "m = (2 ^ (n + s) + 2 ^ (n + s - p)) div d" "2 ^ (n + s) div d < m"
      "s = 0 \<or> \<not> 2 ^ (n + s) div d div 2 < m div 2"
      using loop_spec [OF p(2) _ refl refl _ ms] by blast+
  qed
  have ok: "magic_ok d n p m s"
    unfolding magic_ok_def using div_less_mult [OF _ spec(3)] div_mult_below [of d] d p(2)
    by (simp add: spec(2))
  have d0: "0 < d" and d2: "2 ^ (up - 1) + 1 \<le> d" using d up(1) by simp_all
  have md: "m * d \<le> 2 ^ (n + s) + 2 ^ (n + s - p)" using ok by (simp add: magic_ok_def)
  have b1: "m < 2 ^ Suc n" if "up \<le> p"
  proof -
    have "(2::int) ^ (n + s) \<le> 2 ^ (n + up)" "(2::int) ^ (n + s - p) \<le> 2 ^ n"
      using spec(1) that by (intro power_increasing; simp)+
    moreover have "(2::int) ^ Suc n * (2 ^ (up - 1) + 1) \<le> 2 ^ Suc n * d"
      using d2 by (intro mult_left_mono) simp_all
    moreover have "(2::int) ^ Suc n * (2 ^ (up - 1) + 1) = 2 ^ (n + up) + 2 * 2 ^ n"
    proof -
      have "n + up = Suc n + (up - 1)" using up(3) by simp
      then have "(2::int) ^ (n + up) = 2 ^ Suc n * 2 ^ (up - 1)" by (simp only: power_add)
      then show ?thesis by (simp only: distrib_left power_Suc mult_1_right)
    qed
    moreover have "(0::int) < 2 ^ n" by simp
    ultimately have "m * d < 2 ^ Suc n * d" using md by linarith
    then show ?thesis using d0 by simp
  qed
  have s1: "s < up" if "p < n"
  proof (rule ccontr)
    assume "\<not> s < up"
    then have su: "s = up" using spec(1) by simp
    have "(2::int) ^ Suc up \<le> 2 ^ (up + (n - p))" using that by (intro power_increasing) simp_all
    then have "2 * d \<le> 2 ^ (n + up - p)" using up(2) gap by simp
    then have "?L + 2 \<le> ?H" by (rule apart)
    then have "?L div 2 < ?H div 2" by linarith
    then show False using spec(2,4) up(3) by (simp add: su)
  qed
  have b2: "m < 2 ^ n" if "up \<le> p" "p < n"
  proof -
    have "(2::int) ^ (n + s) \<le> 2 ^ (n + up - 1)" "(2::int) ^ (n + s - p) \<le> 2 ^ (n - 1)"
      using s1 [OF that(2)] that by (intro power_increasing; simp)+
    moreover have "(2::int) ^ n * (2 ^ (up - 1) + 1) \<le> 2 ^ n * d"
      using d2 by (intro mult_left_mono) simp_all
    moreover have "(2::int) ^ n * (2 ^ (up - 1) + 1) = 2 ^ (n + up - 1) + 2 ^ n"
    proof -
      have "n + up - 1 = n + (up - 1)" using up(3) by simp
      then have "(2::int) ^ (n + up - 1) = 2 ^ n * 2 ^ (up - 1)" by (simp only: power_add)
      then show ?thesis by (simp only: distrib_left mult_1_right)
    qed
    moreover have "(2::int) ^ (n - 1) < 2 ^ n" using that by (intro power_strict_increasing) simp_all
    ultimately have "m * d < 2 ^ n * d" using md by linarith
    then show ?thesis using d0 by simp
  qed
  show thesis
    by (rule that [OF mult ok]) (use spec(1) b1 b2 s1 in \<open>simp_all add: up_def\<close>)
qed

section \<open>The magic number is a reciprocal\<close>

text \<open>Rounded down for a dividend not negative, and one below the truncated quotient otherwise.\<close>

lemma magic_quotient:
  assumes m: "magic_ok d n p m s" and d: "0 < d" and x: "0 \<le> x" "x < 2 ^ p"
  shows "x * m div 2 ^ (n + s) = x div d"
proof -
  let ?K = "2 ^ (n + s) :: int" and ?q = "x div d" and ?r = "x mod d"
  define e where "e = m * d - ?K"
  have ps: "p \<le> n + s" and e: "0 \<le> e" "e \<le> 2 ^ (n + s - p)" using m by (simp_all add: magic_ok_def e_def)
  have r: "0 \<le> ?r" "?r < d" using d by simp_all
  have "x * e \<le> x * 2 ^ (n + s - p)" using e(2) x(1) by (rule mult_left_mono)
  also have "\<dots> < 2 ^ p * 2 ^ (n + s - p)" using x(2) by simp
  also have "\<dots> = ?K" using ps by (simp flip: power_add)
  finally have xe: "x * e < ?K" .
  have xmd: "x * m * d = x * ?K + x * e" by (simp add: e_def algebra_simps)
  have xq: "x * ?K = ?q * ?K * d + ?r * ?K"
    by (metis (no_types) div_mult_mod_eq distrib_right mult.assoc mult.commute)
  have "?q * ?K * d \<le> x * m * d"
    using xmd xq r(1) x(1) e(1) by (simp add: mult_nonneg_nonneg)
  moreover have "?r * ?K + ?K \<le> d * ?K"
  proof -
    have "(?r + 1) * ?K \<le> d * ?K" using r(2) by (intro mult_right_mono) simp_all
    then show ?thesis by (simp add: distrib_right)
  qed
  then have "x * m * d < (?q + 1) * ?K * d" using xmd xq xe by (simp add: algebra_simps)
  ultimately show ?thesis using d by (intro div_eqI) simp_all
qed

lemma magic_floor:
  assumes m: "magic_ok d n p m s" and d: "0 < d" and x: "- (2 ^ p) \<le> x" "x < 0"
  shows "x * m div 2 ^ (n + s) = - ((- x) div d) - 1"
proof -
  define y where "y = - x"
  let ?K = "2 ^ (n + s) :: int" and ?q = "y div d" and ?r = "y mod d"
  define e where "e = m * d - ?K"
  have y: "0 < y" "y \<le> 2 ^ p" using x by (simp_all add: y_def)
  have ps: "p \<le> n + s" and e: "0 < e" "e \<le> 2 ^ (n + s - p)" using m by (simp_all add: magic_ok_def e_def)
  have r: "0 \<le> ?r" "?r < d" using d by simp_all
  have "y * e \<le> 2 ^ p * 2 ^ (n + s - p)" using e y by (intro mult_mono) simp_all
  also have "\<dots> = ?K" using ps by (simp flip: power_add)
  finally have ye: "y * e \<le> ?K" .
  have ymd: "y * m * d = y * ?K + y * e" by (simp add: e_def algebra_simps)
  have yq: "y * ?K = ?q * ?K * d + ?r * ?K"
    by (metis (no_types) div_mult_mod_eq distrib_right mult.assoc mult.commute)
  have "0 < y * e" using y(1) e(1) by simp
  then have "?q * ?K * d < y * m * d" using ymd yq r(1) by (simp add: add_nonneg_pos)
  then have 1: "?q * ?K < y * m" using d by simp
  have "?r * ?K + ?K \<le> d * ?K"
  proof -
    have "(?r + 1) * ?K \<le> d * ?K" using r(2) by (intro mult_right_mono) simp_all
    then show ?thesis by (simp add: distrib_right)
  qed
  then have "y * m * d \<le> (?q + 1) * ?K * d" using ymd yq ye by (simp add: algebra_simps)
  then have 2: "y * m \<le> (?q + 1) * ?K" using d by simp
  have "x * m = - (y * m)" by (simp add: y_def)
  then show ?thesis
    using 1 2 unfolding y_def [symmetric] by (intro div_eqI) (simp_all add: algebra_simps)
qed

end
