(* ===== verification/DivideSteps.thy ===== *)
theory DivideSteps
  imports DivideMagic
begin

text \<open>
  Evaluating a program one step at a time: \<open>holds p x i v b\<close> says that on the dividend \<open>x\<close> the
  value numbered \<open>i\<close> of the program \<open>p\<close> is the integer \<open>v\<close> at the width \<open>b\<close>, and each lemma says
  what one more step adds. A value is named by any integer it is congruent to, so that
  the wrapping operations are the plain ones.
\<close>

definition env :: "program \<Rightarrow> int \<Rightarrow> (int \<times> nat) list option" where
  "env p x = run_steps (pr_register p) (pr_steps p) [(x mod 2 ^ pr_width p, pr_width p)]"

definition holds :: "program \<Rightarrow> int \<Rightarrow> nat \<Rightarrow> int \<Rightarrow> nat \<Rightarrow> bool" where
  "holds p x i v b \<longleftrightarrow> (\<exists>vs. env p x = Some vs \<and> i < length vs \<and> vs ! i = (v mod 2 ^ b, b))"

text \<open>Everything a program has computed is still there in the one it grew into.\<close>

definition grows :: "int \<Rightarrow> program \<Rightarrow> program \<Rightarrow> bool" where
  "grows x p p' \<longleftrightarrow> pr_width p' = pr_width p \<and> pr_register p' = pr_register p \<and>
     (\<forall>i v b. holds p x i v b \<longrightarrow> holds p' x i v b)"

text \<open>The value is the last one, so that it is what running the program gives.\<close>

definition gives :: "program \<Rightarrow> int \<Rightarrow> nat \<Rightarrow> int \<Rightarrow> nat \<Rightarrow> bool" where
  "gives p x i v b \<longleftrightarrow> holds p x i v b \<and> i = length (pr_steps p)"

lemma grows_refl: "grows x p p"
  by (simp add: grows_def)

lemma grows_trans: "grows x p q \<Longrightarrow> grows x q r \<Longrightarrow> grows x p r"
  by (simp add: grows_def)

lemma grows_holds: "grows x p q \<Longrightarrow> holds p x i v b \<Longrightarrow> holds q x i v b"
  by (simp add: grows_def)

lemma grows_shape: "grows x p q \<Longrightarrow> pr_width q = pr_width p \<and> pr_register q = pr_register p"
  by (simp add: grows_def)

lemma gives_holds: "gives p x i v b \<Longrightarrow> holds p x i v b"
  unfolding gives_def by blast

lemma holds_cong: "holds p x i v b \<Longrightarrow> v mod 2 ^ b = w mod 2 ^ b \<Longrightarrow> holds p x i w b"
  by (simp add: holds_def)

lemma gives_cong: "gives p x i v b \<Longrightarrow> v mod 2 ^ b = w mod 2 ^ b \<Longrightarrow> gives p x i w b"
  unfolding gives_def by (blast intro: holds_cong)

lemma run_steps_append:
  "run_steps r (ss @ ts) vs = Option.bind (run_steps r ss vs) (run_steps r ts)"
  by (induction r ss vs rule: run_steps.induct) (auto split: Option.bind_splits)

lemma run_steps_length: "run_steps r ss vs = Some us \<Longrightarrow> length us = length vs + length ss"
  by (induction r ss vs rule: run_steps.induct) (auto split: Option.bind_splits if_splits)

lemma env_length: "env p x = Some vs \<Longrightarrow> length vs = Suc (length (pr_steps p))"
  using run_steps_length by (fastforce simp: env_def)

lemma gives_run:
  assumes "gives p x i v b" shows "run p x = Some (v mod 2 ^ b, b)"
proof -
  obtain vs where vs: "env p x = Some vs" "vs ! i = (v mod 2 ^ b, b)" "i = length (pr_steps p)"
    using assms by (auto simp: gives_def holds_def)
  have "vs \<noteq> []" using env_length [OF vs(1)] by auto
  then have "last vs = vs ! i" using env_length [OF vs(1)] vs(3) by (simp add: last_conv_nth)
  then show ?thesis using vs by (simp add: run_def env_def)
qed

lemma holds_new: "holds (program_new w r) x DIVIDEND x w"
  by (simp add: holds_def env_def program_new_def DIVIDEND_def)

text \<open>One more step.\<close>

lemma push_const:
  assumes "holds p x j u c" "push_step p (Const k b) = (p', i)"
  shows "gives p' x i k b" "grows x p p'"
proof -
  obtain vs where vs: "env p x = Some vs" using assms(1) by (auto simp: holds_def)
  have p': "p' = p\<lparr>pr_steps := pr_steps p @ [Const k b]\<rparr>" "i = Suc (length (pr_steps p))"
    using assms(2) by (auto simp: push_step_def)
  have e: "env p' x = Some (vs @ [(k mod 2 ^ b, b)])" using vs by (simp add: env_def p' run_steps_append)
  show "gives p' x i k b" unfolding gives_def holds_def e using env_length [OF vs] by (simp add: p' nth_append)
  show "grows x p p'" unfolding grows_def holds_def e vs by (auto simp: p' nth_append)
qed

lemma push_op:
  assumes a: "holds p x l a c" "holds p x r d e"
    and v: "op_value (pr_register p) opc (a mod 2 ^ c, c) (d mod 2 ^ e, e) b = Some w"
    and w: "w = v mod 2 ^ b" and p: "push_step p (Op opc l r b) = (p', i)"
  shows "gives p' x i v b" "grows x p p'"
proof -
  obtain vs where vs: "env p x = Some vs" "l < length vs" "vs ! l = (a mod 2 ^ c, c)"
    "r < length vs" "vs ! r = (d mod 2 ^ e, e)"
    using a by (auto simp: holds_def)
  have p': "p' = p\<lparr>pr_steps := pr_steps p @ [Op opc l r b]\<rparr>" "i = Suc (length (pr_steps p))"
    using p by (auto simp: push_step_def)
  have e: "env p' x = Some (vs @ [(v mod 2 ^ b, b)])"
    using vs v w by (simp add: env_def p' run_steps_append)
  show "gives p' x i v b"
    unfolding gives_def holds_def e using env_length [OF vs(1)] by (simp add: p' nth_append)
  show "grows x p p'" unfolding grows_def holds_def e vs(1) by (auto simp: p' nth_append)
qed

lemma const_step:
  assumes "holds p x j u c" "constant_step p k b = (p', i)"
  shows "gives p' x i k b \<and> grows x p p'"
  using assms push_const unfolding constant_step_def by blast

lemma by_const_step:
  assumes a: "holds p x l a c" "by_const p opc l k b = (p', i)"
    and v: "op_value (pr_register p) opc (a mod 2 ^ c, c) (k mod 2 ^ b, b) b = Some (v mod 2 ^ b)"
  shows "gives p' x i v b \<and> grows x p p'"
proof -
  obtain q j where q: "constant_step p k b = (q, j)" by fastforce
  have j: "gives q x j k b" "grows x p q" using const_step [OF a(1) q] by simp_all
  have "push_step q (Op opc l j b) = (p', i)" using a(2) q by (simp add: by_const_def)
  moreover have "pr_register q = pr_register p" using grows_shape [OF j(2)] by simp
  ultimately show ?thesis
    using push_op [OF grows_holds [OF j(2) a(1)] gives_holds [OF j(1)]] v j(2) grows_trans by metis
qed

section \<open>The operations\<close>

lemma signed_of_mod:
  assumes "0 < b" "- (2 ^ (b - 1)) \<le> v" "v < 2 ^ (b - 1)"
  shows "signed_of (v mod 2 ^ b) b = v"
proof -
  have "signed_of (v mod 2 ^ b) b = signed_take_bit (b - 1) v"
    using assms(1) unfolding signed_of_def take_bit_eq_mod [symmetric]
    by (intro bit_eqI) (auto simp: bit_simps min_def)
  also have "\<dots> = v" using assms by (simp add: signed_take_bit_int_eq_self_iff)
  finally show ?thesis .
qed

lemma signed_of_cong: "0 < b \<Longrightarrow> signed_of v b mod 2 ^ b = v mod 2 ^ b"
  unfolding signed_of_def take_bit_eq_mod [symmetric] by (simp add: take_bit_signed_take_bit)

lemma and_below: "and v (2 ^ k - 1) = (v::int) mod 2 ^ k"
  by (metis mask_eq_exp_minus_1 take_bit_eq_mask take_bit_eq_mod)

lemma small_mod: "n < b \<Longrightarrow> int n mod 2 ^ b = int n"
proof -
  assume "n < b"
  then have "n < 2 ^ b" using less_exp less_trans by blast
  then have "int n < 2 ^ b" by (metis of_nat_less_iff of_nat_numeral of_nat_power)
  then show ?thesis by simp
qed

lemma add_const_step:
  assumes "by_const p OAdd l k b = (p', i)" "holds p x l a b"
  shows "gives p' x i (a + k) b \<and> grows x p p'"
  by (rule by_const_step [OF assms(2,1)]) (simp add: op_value_def mod_add_eq)

lemma mul_const_step:
  assumes "by_const p OMul l k b = (p', i)" "holds p x l a b"
  shows "gives p' x i (a * k) b \<and> grows x p p'"
  by (rule by_const_step [OF assms(2,1)]) (simp add: op_value_def mod_mult_eq)

lemma and_const_step:
  assumes "by_const p OAnd l (2 ^ k - 1) b = (p', i)" "holds p x l a b" "k \<le> b"
  shows "gives p' x i (a mod 2 ^ k) b \<and> grows x p p'"
proof (rule by_const_step [OF assms(2,1)])
  have "and (a mod 2 ^ b) ((2 ^ k - 1) mod 2 ^ b) = take_bit b (and a (mask k))"
    unfolding take_bit_eq_mod [symmetric] mask_eq_exp_minus_1 [symmetric] by (rule take_bit_and [symmetric])
  also have "\<dots> = a mod 2 ^ k mod 2 ^ b" by (simp add: take_bit_eq_mod flip: take_bit_eq_mask)
  finally show "op_value (pr_register p) OAnd (a mod 2 ^ b, b) ((2 ^ k - 1) mod 2 ^ b, b) b
    = Some (a mod 2 ^ k mod 2 ^ b)"
    by (simp add: op_value_def)
qed

lemma lshr_const_step:
  assumes "by_const p OLShr l k b = (p', i)" "holds p x l a b" "0 \<le> k" "k < int b" "0 \<le> a" "a < 2 ^ b"
  shows "gives p' x i (a div 2 ^ nat k) b \<and> grows x p p'"
proof (rule by_const_step [OF assms(2,1)])
  have "k mod 2 ^ b = k" using small_mod [of "nat k" b] assms(3,4) by simp
  moreover have "a div 2 ^ nat k \<le> a" using assms(5) by (simp add: zdiv_mono2 [of a 1, simplified])
  then have "a div 2 ^ nat k < 2 ^ b" "0 \<le> a div 2 ^ nat k"
    using assms(5,6) by (simp_all add: pos_imp_zdiv_nonneg_iff)
  ultimately show "op_value (pr_register p) OLShr (a mod 2 ^ b, b) (k mod 2 ^ b, b) b
    = Some (a div 2 ^ nat k mod 2 ^ b)"
    using assms by (simp add: op_value_def)
qed

lemma ashr_const_step:
  assumes "by_const p OAShr l k b = (p', i)" "holds p x l a b" "0 \<le> k" "k < int b"
    "- (2 ^ (b - 1)) \<le> a" "a < 2 ^ (b - 1)"
  shows "gives p' x i (a div 2 ^ nat k) b \<and> grows x p p'"
proof (rule by_const_step [OF assms(2,1)])
  have "k mod 2 ^ b = k" using small_mod [of "nat k" b] assms(3,4) by simp
  moreover have "0 < b" using assms(3,4) by simp
  ultimately show "op_value (pr_register p) OAShr (a mod 2 ^ b, b) (k mod 2 ^ b, b) b
    = Some (a div 2 ^ nat k mod 2 ^ b)"
    using assms by (simp add: op_value_def signed_of_mod)
qed

lemma umulhigh_const_step:
  assumes "by_const p OUMulHigh l (signed_of m b) b = (p', i)" "holds p x l a b" "b = pr_register p"
    "0 \<le> a" "a < 2 ^ b" "0 \<le> m" "m < 2 ^ b" "0 < b"
  shows "gives p' x i (a * m div 2 ^ b) b \<and> grows x p p'"
proof (rule by_const_step [OF assms(2,1)])
  have "signed_of m b mod 2 ^ b = m" using assms by (simp add: signed_of_cong)
  moreover have "a * m div 2 ^ b < 2 ^ b" "0 \<le> a * m div 2 ^ b"
  proof -
    have "a * m < 2 ^ b * 2 ^ b" using assms by (intro mult_strict_mono') simp_all
    then show "a * m div 2 ^ b < 2 ^ b" by (intro div_less_of_mult) simp_all
    show "0 \<le> a * m div 2 ^ b" using assms by (simp add: pos_imp_zdiv_nonneg_iff)
  qed
  ultimately show "op_value (pr_register p) OUMulHigh (a mod 2 ^ b, b) (signed_of m b mod 2 ^ b, b) b
    = Some (a * m div 2 ^ b mod 2 ^ b)"
    using assms by (simp add: op_value_def)
qed

lemma smulhigh_const_step:
  assumes "by_const p OSMulHigh l (signed_of m b) b = (p', i)" "holds p x l a b" "b = pr_register p"
    "- (2 ^ (b - 1)) \<le> a" "a < 2 ^ (b - 1)" "0 < b"
  shows "gives p' x i (a * signed_of m b div 2 ^ b) b \<and> grows x p p'"
proof (rule by_const_step [OF assms(2,1)])
  have "signed_of (signed_of m b mod 2 ^ b) b = signed_of m b"
    using assms(6) unfolding signed_of_def take_bit_eq_mod [symmetric]
    by (intro bit_eqI) (auto simp: bit_simps min_def)
  then show "op_value (pr_register p) OSMulHigh (a mod 2 ^ b, b) (signed_of m b mod 2 ^ b, b) b
    = Some (a * signed_of m b div 2 ^ b mod 2 ^ b)"
    using assms by (simp add: op_value_def signed_of_mod)
qed

lemma op_add_step:
  assumes "op_step p OAdd l r b = (p', i)" "holds p x l a b" "holds p x r c b"
  shows "gives p' x i (a + c) b \<and> grows x p p'"
proof -
  have "op_value (pr_register p) OAdd (a mod 2 ^ b, b) (c mod 2 ^ b, b) b = Some ((a + c) mod 2 ^ b)"
    by (simp add: op_value_def mod_add_eq)
  from push_op [OF assms(2,3) this refl] assms(1) show ?thesis by (simp add: op_step_def)
qed

lemma op_sub_step:
  assumes "op_step p OSub l r b = (p', i)" "holds p x l a b" "holds p x r c b"
  shows "gives p' x i (a - c) b \<and> grows x p p'"
proof -
  have "op_value (pr_register p) OSub (a mod 2 ^ b, b) (c mod 2 ^ b, b) b = Some ((a - c) mod 2 ^ b)"
    by (simp add: op_value_def mod_diff_eq)
  from push_op [OF assms(2,3) this refl] assms(1) show ?thesis by (simp add: op_step_def)
qed

lemma negated_step:
  assumes "negated p i = (p', j)" "holds p x i v (pr_width p)"
  shows "gives p' x j (- v) (pr_width p) \<and> grows x p p'"
proof -
  obtain q k where q: "constant_step p 0 (pr_width p) = (q, k)" by fastforce
  have k: "holds q x k 0 (pr_width p)" "grows x p q" using const_step [OF assms(2) q] gives_holds by auto
  have "op_step q OSub k i (pr_width p) = (p', j)"
    using assms(1) q grows_shape [OF k(2)] by (simp add: negated_def)
  from op_sub_step [OF this k(1) grows_holds [OF k(2) assms(2)]] k(2) grows_trans
  show ?thesis by auto
qed

lemma left_over_step:
  assumes "left_over p i d = (p', j)" "holds p x i q (pr_width p)" "holds p x DIVIDEND x (pr_width p)"
  shows "gives p' x j (x - q * d) (pr_width p) \<and> grows x p p'"
proof -
  obtain r k where r: "by_const p OMul i d (pr_width p) = (r, k)" by fastforce
  have k: "holds r x k (q * d) (pr_width p)" "grows x p r"
    using mul_const_step [OF r assms(2)] gives_holds by auto
  have "op_step r OSub DIVIDEND k (pr_width p) = (p', j)"
    using assms(1) r grows_shape [OF k(2)] by (simp add: left_over_def)
  from op_sub_step [OF this grows_holds [OF k(2) assms(3)] k(1)] k(2) grows_trans
  show ?thesis by auto
qed

lemma shifted_lshr_step:
  assumes "shifted p OLShr i n = (p', j)" "gives p x i v (pr_width p)" "n < pr_width p" "0 \<le> v" "v < 2 ^ pr_width p"
  shows "gives p' x j (v div 2 ^ n) (pr_width p) \<and> grows x p p'"
proof (cases "n = 0")
  case True
  then show ?thesis using assms by (simp add: shifted_def grows_refl)
next
  case False
  then have "by_const p OLShr i (int n) (pr_width p) = (p', j)" using assms(1) by (simp add: shifted_def)
  from lshr_const_step [OF this gives_holds [OF assms(2)]] assms show ?thesis by simp
qed

lemma shifted_ashr_step:
  assumes "shifted p OAShr i n = (p', j)" "gives p x i v (pr_width p)" "n < pr_width p"
    "- (2 ^ (pr_width p - 1)) \<le> v" "v < 2 ^ (pr_width p - 1)"
  shows "gives p' x j (v div 2 ^ n) (pr_width p) \<and> grows x p p'"
proof (cases "n = 0")
  case True
  then show ?thesis using assms by (simp add: shifted_def grows_refl)
next
  case False
  then have "by_const p OAShr i (int n) (pr_width p) = (p', j)" using assms(1) by (simp add: shifted_def)
  from ashr_const_step [OF this gives_holds [OF assms(2)]] assms show ?thesis by simp
qed

lemma narrowed_shape:
  assumes "narrowed_step p i = (p', j)" "gives p x i v 64" "pr_width p \<le> 64"
  shows "gives p' x j v (pr_width p) \<and> grows x p p'"
proof (cases "pr_width p = 64")
  case True
  then show ?thesis using assms by (simp add: narrowed_step_def grows_refl)
next
  case False
  then have p: "push_step p (Op OTrunc i i (pr_width p)) = (p', j)"
    using assms(1) by (simp add: narrowed_step_def convert_step_def)
  have "(2::int) ^ pr_width p dvd 2 ^ 64" using assms(3) by (rule le_imp_power_dvd)
  then have "v mod 2 ^ 64 mod 2 ^ pr_width p = v mod 2 ^ pr_width p" by (rule mod_mod_cancel)
  then have "op_value (pr_register p) OTrunc (v mod 2 ^ 64, 64) (v mod 2 ^ 64, 64) (pr_width p)
    = Some (v mod 2 ^ pr_width p)"
    using False assms(3) by (simp add: op_value_def)
  from push_op [OF gives_holds [OF assms(2)] gives_holds [OF assms(2)] this refl p] show ?thesis by simp
qed

lemma widened_zext_step:
  assumes "widened p OZExt = (p', j)" "holds p x DIVIDEND v (pr_width p)" "pr_width p \<le> 64" "0 \<le> v" "v < 2 ^ pr_width p"
  shows "holds p' x j v 64 \<and> grows x p p'"
proof (cases "pr_width p = 64")
  case True
  then show ?thesis using assms by (simp add: widened_def grows_refl)
next
  case False
  then have p: "push_step p (Op OZExt DIVIDEND DIVIDEND 64) = (p', j)"
    using assms(1) by (simp add: widened_def convert_step_def)
  have "(2::int) ^ pr_width p \<le> 2 ^ 64" using assms(3) by (intro power_increasing) simp_all
  then have "v mod 2 ^ 64 = v" using assms by simp
  then have "op_value (pr_register p) OZExt (v mod 2 ^ pr_width p, pr_width p) (v mod 2 ^ pr_width p, pr_width p) 64
    = Some (v mod 2 ^ 64)"
    using False assms by (simp add: op_value_def)
  from push_op [OF assms(2,2) this refl p] show ?thesis using gives_holds by auto
qed

lemma widened_sext_step:
  assumes "widened p OSExt = (p', j)" "holds p x DIVIDEND v (pr_width p)" "pr_width p \<le> 64" "0 < pr_width p"
    "- (2 ^ (pr_width p - 1)) \<le> v" "v < 2 ^ (pr_width p - 1)"
  shows "holds p' x j v 64 \<and> grows x p p'"
proof (cases "pr_width p = 64")
  case True
  then show ?thesis using assms by (simp add: widened_def grows_refl)
next
  case False
  then have p: "push_step p (Op OSExt DIVIDEND DIVIDEND 64) = (p', j)"
    using assms(1) by (simp add: widened_def convert_step_def)
  have "op_value (pr_register p) OSExt (v mod 2 ^ pr_width p, pr_width p) (v mod 2 ^ pr_width p, pr_width p) 64
    = Some (v mod 2 ^ 64)"
    using False assms by (simp add: op_value_def signed_of_mod)
  from push_op [OF assms(2,2) this refl p] show ?thesis using gives_holds by auto
qed

end
