(* ===== verification/DivideUnsigned.thy ===== *)
theory DivideUnsigned
  imports DivideSteps
begin

text \<open>
  The unsigned rewrites of \<open>divide.rs\<close>, \<open>unsigned\<close> and \<open>unsigned_high\<close>, compute the quotient.
\<close>

section \<open>The multiplier again\<close>

lemma multiplier_facts:
  assumes "multiplier d n p = Some (m, s)" "2 \<le> d" "1 \<le> p" "p \<le> n"
  shows "magic_ok d n p m s" "s \<le> bit_len (d - 1)"
    "bit_len (d - 1) \<le> p \<Longrightarrow> m < 2 ^ Suc n" "bit_len (d - 1) \<le> p \<Longrightarrow> p < n \<Longrightarrow> m < 2 ^ n"
    "bit_len (d - 1) \<le> p \<Longrightarrow> p < n \<Longrightarrow> s < bit_len (d - 1)"
proof -
  have small: "n + bit_len (d - 1) < 128"
    using assms(1) by (simp add: multiplier_def Let_def split: if_splits)
  obtain m' s' where ms: "multiplier d n p = Some (m', s')" "magic_ok d n p m' s'" "s' \<le> bit_len (d - 1)"
    "bit_len (d - 1) \<le> p \<Longrightarrow> m' < 2 ^ Suc n" "bit_len (d - 1) \<le> p \<Longrightarrow> p < n \<Longrightarrow> m' < 2 ^ n"
    "bit_len (d - 1) \<le> p \<Longrightarrow> p < n \<Longrightarrow> s' < bit_len (d - 1)"
    using multiplier_spec [OF assms(2-4) small] by blast
  have "m' = m" "s' = s" using ms(1) assms(1) by simp_all
  then show "magic_ok d n p m s" "s \<le> bit_len (d - 1)"
    "bit_len (d - 1) \<le> p \<Longrightarrow> m < 2 ^ Suc n" "bit_len (d - 1) \<le> p \<Longrightarrow> p < n \<Longrightarrow> m < 2 ^ n"
    "bit_len (d - 1) \<le> p \<Longrightarrow> p < n \<Longrightarrow> s < bit_len (d - 1)"
    using ms(2-) by blast+
qed

lemma magic_pos: "magic_ok d n p m s \<Longrightarrow> 0 < d \<Longrightarrow> 0 < m"
proof -
  assume m: "magic_ok d n p m s" "0 < d"
  have "(0::int) < 2 ^ (n + s)" by simp
  also have "\<dots> < m * d" using m(1) by (simp add: magic_ok_def)
  finally show "0 < m" using m(2) by (simp add: zero_less_mult_iff)
qed

text \<open>A multiplier that fits takes a shift the divisor is above.\<close>

lemma magic_shift:
  assumes "magic_ok d n p m s" "m < 2 ^ n" "0 < d" "d \<le> 2 ^ k"
  shows "s < k"
proof -
  have "(2::int) ^ (n + s) < m * d" using assms(1) by (simp add: magic_ok_def)
  also have "\<dots> < 2 ^ n * d" using assms(2,3) by simp
  also have "\<dots> \<le> 2 ^ n * 2 ^ k" using assms(4) by simp
  finally show ?thesis by (simp flip: power_add)
qed

lemma magic_shift_pos:
  assumes "magic_ok d n p m s" "2 ^ n \<le> m" "3 \<le> d"
  shows "0 < s"
proof (rule ccontr)
  assume "\<not> 0 < s"
  then have "m * d \<le> 2 ^ n + 2 ^ (n - p)" using assms(1) by (simp add: magic_ok_def)
  moreover have "(2::int) ^ (n - p) \<le> 2 ^ n" by (intro power_increasing) simp_all
  moreover have "0 \<le> m" using order_trans [OF _ assms(2), of 0] by simp
  then have "2 ^ n * 3 \<le> m * d" using assms(2,3) by (intro mult_mono) simp_all
  moreover have "(0::int) < 2 ^ n" by simp
  ultimately show False by linarith
qed

lemma magic_shift_le:
  assumes "multiplier d n p = Some (m, s)" "2 \<le> d" "1 \<le> p" "p \<le> n" "d \<le> 2 ^ k"
  shows "s \<le> k"
  using multiplier_facts(2) [OF assms(1-4)] bit_len_le [of "d - 1" k] assms(5) by linarith

lemma power_bound: "a < 2 ^ b \<Longrightarrow> b \<le> c \<Longrightarrow> a < (2::int) ^ c"
  using power_increasing [of b c "2::int"] by linarith

section \<open>Unsigned quotients\<close>

lemma unsigned_high_sound:
  assumes u: "unsigned_high p d bits = Some (p', i)" and x: "holds p x DIVIDEND x (pr_width p)"
    and r: "0 < pr_register p" and bnd: "0 \<le> x" "x < 2 ^ bits" "3 \<le> d" "d < 2 ^ bits" "\<not> is_power_of_two d"
  shows "gives p' x i (x div d) (pr_width p) \<and> grows x p p'"
proof -
  let ?n = "pr_register p"
  have n: "pr_width p = ?n" "bits \<le> ?n" "d \<le> 2 ^ (?n - 1)"
    using u by (auto simp: unsigned_high_def Let_def split: if_splits)
  have b1: "1 \<le> bits" using bnd(3,4) by (cases bits) simp_all
  obtain m s where ms: "multiplier d ?n bits = Some (m, s)"
    using u n by (auto simp: unsigned_high_def Let_def bind_eq_Some_conv)
  have d2: "2 \<le> d" "0 < d" using bnd(3) by simp_all
  note f = multiplier_facts [OF ms d2(1) b1 n(2)]
  have up: "bit_len (d - 1) \<le> bits" using bnd(4) by (intro bit_len_le) simp
  have xn: "x < 2 ^ ?n" using bnd(2) n(2) by (rule power_bound)
  show ?thesis
  proof (cases "m < 2 ^ ?n")
    case True
    obtain q j where q: "by_const p OUMulHigh DIVIDEND (signed_of m ?n) ?n = (q, j)" by fastforce
    have j: "gives q x j (x * m div 2 ^ ?n) ?n" "grows x p q"
      using umulhigh_const_step [OF q x [unfolded n(1)] refl bnd(1) xn _ True r] magic_pos [OF f(1) d2(2)] by auto
    have q': "shifted q OLShr j s = (p', i)"
      using u n ms True q by (simp add: unsigned_high_def Let_def)
    have sh: "pr_width q = ?n" using grows_shape [OF j(2)] n(1) by simp
    have bd: "0 \<le> x * m div 2 ^ ?n" "x * m div 2 ^ ?n < 2 ^ ?n"
    proof -
      have "x * m < 2 ^ ?n * 2 ^ ?n"
        using xn True bnd(1) magic_pos [OF f(1) d2(2)] by (intro mult_strict_mono') simp_all
      then show "x * m div 2 ^ ?n < 2 ^ ?n" by (intro div_less_of_mult) simp_all
      show "0 \<le> x * m div 2 ^ ?n"
        using bnd(1) magic_pos [OF f(1) d2(2)] by (simp add: pos_imp_zdiv_nonneg_iff)
    qed
    have "s < ?n" using magic_shift [OF f(1) True d2(2) n(3)] by simp
    then have "gives p' x i (x * m div 2 ^ ?n div 2 ^ s) ?n \<and> grows x q p'"
      using shifted_lshr_step [OF q', of x] j(1) bd sh by simp
    moreover have "x * m div 2 ^ ?n div 2 ^ s = x div d"
      using magic_quotient [OF f(1) d2(2) bnd(1,2)] by (simp add: power_add zdiv_zmult2_eq)
    ultimately show ?thesis using j(2) grows_trans n(1) by auto
  next
    case False
    let ?k = "low_zeros_of d"
    show ?thesis
    proof (cases "\<exists>m' s'. 0 < ?k \<and> ?k < bits \<and> multiplier (d div 2 ^ ?k) ?n (bits - ?k) = Some (m', s') \<and> m' < 2 ^ ?n")
      case True
      then obtain m' s' where e: "0 < ?k" "?k < bits" "multiplier (d div 2 ^ ?k) ?n (bits - ?k) = Some (m', s')"
        "m' < 2 ^ ?n" by blast
      let ?d = "d div 2 ^ ?k"
      have dz: "d = ?d * 2 ^ ?k" "odd ?d" using low_zeros_of_spec [OF d2(2)] by simp_all
      have d0: "0 < ?d" using dz(1) d2(2) by (metis zero_less_mult_pos2 zero_less_numeral zero_less_power)
      have "?d \<noteq> 1" using bnd(5) dz(1) by (metis is_power_of_two_iff mult_1)
      then have d2': "2 \<le> ?d" using d0 by simp
      have pp: "1 \<le> bits - ?k" "bits - ?k \<le> ?n" using e(2) n(2) by simp_all
      note g = multiplier_facts [OF e(3) d2' pp]
      obtain q j where q: "by_const p OLShr DIVIDEND (int ?k) ?n = (q, j)" by fastforce
      have j: "gives q x j (x div 2 ^ ?k) ?n" "grows x p q"
        using lshr_const_step [OF q x [unfolded n(1)]] e(2) n(2) bnd(1) xn by simp_all
      let ?y = "x div 2 ^ ?k"
      have y: "0 \<le> ?y" "?y < 2 ^ (bits - ?k)"
      proof -
        show "0 \<le> ?y" using bnd(1) by (simp add: pos_imp_zdiv_nonneg_iff)
        have "(2::int) ^ bits = 2 ^ (bits - ?k) * 2 ^ ?k" using e(2) by (simp flip: power_add)
        then show "?y < 2 ^ (bits - ?k)" using bnd(2) by (intro div_less_of_mult) simp_all
      qed
      have yn: "?y < 2 ^ ?n" using y(2) by (rule power_bound) (use n(2) in simp)
      have sh: "pr_width q = ?n" "pr_register q = ?n" using grows_shape [OF j(2)] n(1) by simp_all
      obtain o' l where o: "by_const q OUMulHigh j (signed_of m' ?n) ?n = (o', l)" by fastforce
      have mp: "0 < m'" using magic_pos [OF g(1) d0] .
      have l: "gives o' x l (?y * m' div 2 ^ ?n) ?n" "grows x q o'"
        using umulhigh_const_step [OF o gives_holds [OF j(1)] sh(2) [symmetric] y(1) yn _ e(4) r] mp by auto
      have fin: "shifted o' OLShr l s' = (p', i)"
        using u n ms False e q o by (simp add: unsigned_high_def Let_def)
      have sh': "pr_width o' = ?n" using grows_shape [OF l(2)] sh by simp
      have "?y * m' < 2 ^ ?n * 2 ^ ?n" using yn e(4) y(1) mp by (intro mult_strict_mono') simp_all
      then have bd: "?y * m' div 2 ^ ?n < 2 ^ ?n" by (intro div_less_of_mult) simp_all
      have bd0: "0 \<le> ?y * m' div 2 ^ ?n" using y(1) mp by (simp add: pos_imp_zdiv_nonneg_iff)
      have "?d \<le> d" using d2(2) by (simp add: zdiv_mono2 [of d 1, simplified])
      then have "s' < ?n" using magic_shift [OF g(1) e(4) d0, of "?n - 1"] n(3) by simp
      then have "gives p' x i (?y * m' div 2 ^ ?n div 2 ^ s') ?n \<and> grows x o' p'"
        using shifted_lshr_step [OF fin, of x] l(1) bd bd0 sh' by simp
      moreover have "?y * m' div 2 ^ ?n div 2 ^ s' = x div d"
      proof -
        have "?y * m' div 2 ^ ?n div 2 ^ s' = ?y * m' div 2 ^ (?n + s')"
          by (simp add: power_add zdiv_zmult2_eq)
        also have "\<dots> = ?y div ?d" by (rule magic_quotient [OF g(1) d0 y])
        also have "\<dots> = x div (2 ^ ?k * ?d)" using d0 by (intro zdiv_zmult2_eq [symmetric]) simp
        finally show ?thesis using dz(1) by (simp add: mult.commute)
      qed
      ultimately show ?thesis using j(2) l(2) grows_trans n(1) by metis
    next
      case no: False
      let ?M = "m - 2 ^ ?n"
      obtain q j where q: "by_const p OUMulHigh DIVIDEND (signed_of ?M ?n) ?n = (q, j)" by fastforce
      obtain q2 j2 where q2: "op_step q OSub DIVIDEND j ?n = (q2, j2)" by fastforce
      obtain q3 j3 where q3: "by_const q2 OLShr j2 1 ?n = (q3, j3)" by fastforce
      obtain q4 j4 where q4: "op_step q3 OAdd j3 j ?n = (q4, j4)" by fastforce
      have s0: "0 < s" using magic_shift_pos [OF f(1) _ bnd(3)] False by simp
      have fin: "shifted q4 OLShr j4 (s - 1) = (p', i)"
        using u n ms False no q q2 q3 q4 s0
        by (auto simp: unsigned_high_def Let_def bind_eq_Some_conv split: if_splits)
      have M: "0 \<le> ?M" "?M < 2 ^ ?n" using f(3) [OF up] False by simp_all
      let ?h = "x * ?M div 2 ^ ?n"
      have j: "gives q x j ?h ?n" "grows x p q"
        using umulhigh_const_step [OF q x [unfolded n(1)] refl bnd(1) xn M r] by auto
      have h: "0 \<le> ?h" "?h \<le> x"
      proof -
        show "0 \<le> ?h" using bnd(1) M(1) by (simp add: pos_imp_zdiv_nonneg_iff)
        have "x * ?M \<le> x * 2 ^ ?n" using M(2) bnd(1) by (intro mult_left_mono) simp_all
        then have "?h \<le> x * 2 ^ ?n div 2 ^ ?n" by (intro zdiv_mono1) simp_all
        then show "?h \<le> x" by simp
      qed
      have j2: "gives q2 x j2 (x - ?h) ?n" "grows x q q2"
        using op_sub_step [OF q2 grows_holds [OF j(2) x [unfolded n(1)]] gives_holds [OF j(1)]] by simp_all
      have w3: "1 < int ?n" using r n(3) bnd(3) by (cases "?n = 1") auto
      have j3: "gives q3 x j3 ((x - ?h) div 2) ?n" "grows x q2 q3"
        using lshr_const_step [OF q3 gives_holds [OF j2(1)]] h xn w3 by simp_all
      have j4: "gives q4 x j4 ((x - ?h) div 2 + ?h) ?n" "grows x q3 q4"
        using op_add_step [OF q4 gives_holds [OF j3(1)]] grows_holds [OF j3(2)] grows_holds [OF j2(2)]
          gives_holds [OF j(1)] by blast+
      have sum: "(x - ?h) div 2 + ?h = (x + ?h) div 2" by linarith
      have xm: "x + ?h = x * m div 2 ^ ?n"
      proof -
        have "x * m = x * ?M + x * 2 ^ ?n" by (simp add: algebra_simps)
        then show ?thesis by simp
      qed
      have "pr_width q4 = ?n" using j(2) j2(2) j3(2) j4(2) n(1) by (simp add: grows_def)
      moreover have "s - 1 < ?n" using magic_shift_le [OF ms d2(1) b1 n(2), of "?n - 1"] n(3) s0 by simp
      moreover have "0 \<le> (x + ?h) div 2" "(x + ?h) div 2 < 2 ^ ?n" using h xn bnd(1) by linarith+
      ultimately have "gives p' x i ((x + ?h) div 2 div 2 ^ (s - 1)) ?n \<and> grows x q4 p'"
        using shifted_lshr_step [OF fin, of x] j4(1) unfolding sum by simp
      moreover have "(x + ?h) div 2 div 2 ^ (s - 1) = x div d"
      proof -
        have "(x + ?h) div 2 div 2 ^ (s - 1) = (x + ?h) div (2 * 2 ^ (s - 1))" by (simp add: zdiv_zmult2_eq)
        also have "(2::int) * 2 ^ (s - 1) = 2 ^ s" using s0 by (simp add: power_eq_if)
        also have "(x + ?h) div 2 ^ s = x * m div 2 ^ (?n + s)" unfolding xm by (simp add: power_add zdiv_zmult2_eq)
        also have "\<dots> = x div d" by (rule magic_quotient [OF f(1) d2(2) bnd(1,2)])
        finally show ?thesis .
      qed
      ultimately show ?thesis using j(2) j2(2) j3(2) j4(2) grows_trans n(1) by metis
    qed
  qed
qed

lemma unsigned_quotient_sound:
  assumes u: "unsigned_quotient p d bits = Some (p', i)" and x: "holds p x DIVIDEND x (pr_width p)"
    and r: "pr_register p \<in> {32, 64}" "pr_width p \<le> 64" "bits \<le> pr_width p"
    and bnd: "0 \<le> x" "x < 2 ^ bits" "2 \<le> d"
  shows "gives p' x i (x div d) (pr_width p) \<and> grows x p p'"
proof -
  let ?w = "pr_width p"
  have d: "d < 2 ^ bits" using u by (auto simp: unsigned_quotient_def Let_def split: if_splits)
  have b1: "1 \<le> bits" using d bnd(3) by (cases bits) simp_all
  have xw: "x < 2 ^ ?w" using bnd(2) r(3) by (rule power_bound)
  have d0: "0 < d" using bnd(3) by simp
  consider (two) "is_power_of_two d" | (high) "\<not> is_power_of_two d" "bits > 32 \<or> pr_register p = 32"
    | (low) "\<not> is_power_of_two d" "bits \<le> 32" "pr_register p \<noteq> 32" by linarith
  then show ?thesis
  proof cases
    case two
    let ?k = "low_zeros_of d"
    have k: "d = 2 ^ ?k" using two by (rule is_power_of_twoD)
    have "2 ^ ?k < (2::int) ^ bits" using d by (simp flip: k)
    then have "?k < bits" by simp
    then have kw: "?k < ?w" using r(3) by simp
    have "by_const p OLShr DIVIDEND (int ?k) ?w = (p', i)"
      using u d two by (auto simp: unsigned_quotient_def Let_def split: if_splits)
    from lshr_const_step [OF this x] kw bnd(1) xw show ?thesis by (simp flip: k)
  next
    case high
    have "3 \<le> d"
    proof (rule ccontr)
      assume "\<not> 3 \<le> d"
      then have "d = 2 ^ 1" using bnd(3) by simp
      then show False using high(1) is_power_of_two_iff by blast
    qed
    moreover have "unsigned_high p d bits = Some (p', i)"
      using u d high by (auto simp: unsigned_quotient_def Let_def split: if_splits)
    ultimately show ?thesis using unsigned_high_sound [OF _ x _ bnd(1,2) _ d high(1)] r(1) by auto
  next
    case low
    obtain m s where ms: "multiplier d bits bits = Some (m, s)"
      using u d low by (auto simp: unsigned_quotient_def Let_def bind_eq_Some_conv split: if_splits)
    note f = multiplier_facts [OF ms bnd(3) b1 order_refl]
    have mp: "0 < m" using magic_pos [OF f(1) d0] .
    have up: "bit_len (d - 1) \<le> bits" using d by (intro bit_len_le) simp
    have m2: "m < 2 ^ Suc bits" using f(3) [OF up] .
    have sb: "s \<le> bits" using magic_shift_le [OF ms bnd(3) b1 order_refl] d by simp
    obtain q j where q: "widened p OZExt = (q, j)" by fastforce
    have j: "holds q x j x 64" "grows x p q" using widened_zext_step [OF q x r(2) bnd(1) xw] by simp_all
    have x32: "x < 2 ^ 32" using bnd(2) low(2) by (rule power_bound)
    have res: "x * m div 2 ^ (bits + s) = x div d" by (rule magic_quotient [OF f(1) d0 bnd(1,2)])
    have "\<exists>q' j'. gives q' x j' (x div d) 64 \<and> grows x q q' \<and> narrowed_step q' j' = (p', i)"
    proof (cases "m < 2 ^ bits \<or> bits < 32")
      case True
      obtain q2 j2 where q2: "by_const q OMul j m 64 = (q2, j2)" by fastforce
      obtain q3 j3 where q3: "by_const q2 OLShr j2 (int (bits + s)) 64 = (q3, j3)" by fastforce
      have j2: "gives q2 x j2 (x * m) 64" "grows x q q2" using mul_const_step [OF q2 j(1)] by simp_all
      have fin: "narrowed_step q3 j3 = (p', i)"
        using u d low ms True q q2 q3
        by (auto simp: unsigned_quotient_def Let_def to_i128_def bind_eq_Some_conv split: if_splits)
      have "x * m < 2 ^ 64 \<and> bits + s < 64"
      proof (cases "m < 2 ^ bits")
        case True
        then have "m < 2 ^ 32" using low(2) by (rule power_bound)
        then have "x * m < 2 ^ 32 * 2 ^ 32" using x32 bnd(1) mp by (intro mult_strict_mono') simp_all
        moreover have "s < bits" using magic_shift [OF f(1) True d0] d by simp
        ultimately show ?thesis using low(2) by simp
      next
        case False
        then have b: "bits \<le> 31" using True by simp
        have "x < 2 ^ 31" using bnd(2) b by (rule power_bound)
        moreover have "m < 2 ^ 32" using m2 by (rule power_bound) (use b in simp)
        ultimately have "x * m < 2 ^ 31 * 2 ^ 32" using bnd(1) mp by (intro mult_strict_mono') simp_all
        then show ?thesis using b sb by simp
      qed
      then have "gives q3 x j3 (x * m div 2 ^ (bits + s)) 64 \<and> grows x q2 q3"
        using lshr_const_step [OF q3 gives_holds [OF j2(1)]] bnd(1) mp by (simp add: nat_int_add)
      then show ?thesis using fin j2(2) grows_trans unfolding res by blast
    next
      case False
      then have b: "bits = 32" "2 ^ 32 \<le> m" using low(2) by auto
      obtain q2 j2 where q2: "by_const q OMul j (m - 2 ^ 32) 64 = (q2, j2)" by fastforce
      obtain q3 j3 where q3: "by_const q2 OLShr j2 32 64 = (q3, j3)" by fastforce
      obtain q4 j4 where q4: "op_step q3 OAdd j3 j 64 = (q4, j4)" by fastforce
      obtain q5 j5 where q5: "(if s = 0 then (q4, j4) else by_const q4 OLShr j4 (int s) 64) = (q5, j5)"
        by fastforce
      have fin: "narrowed_step q5 j5 = (p', i)"
        using u d low ms False q q2 q3 q4 q5
        by (auto simp: unsigned_quotient_def Let_def to_i128_def bind_eq_Some_conv split: if_splits)
      let ?M = "m - 2 ^ 32"
      have M: "0 \<le> ?M" "?M < 2 ^ 32" using m2 b by simp_all
      have j2: "gives q2 x j2 (x * ?M) 64" "grows x q q2" using mul_const_step [OF q2 j(1)] by simp_all
      have pr: "0 \<le> x * ?M" "x * ?M < 2 ^ 32 * 2 ^ 32"
        using bnd(1) M(1) x32 M(2) by (simp, intro mult_strict_mono') simp_all
      have j3: "gives q3 x j3 (x * ?M div 2 ^ 32) 64" "grows x q2 q3"
        using lshr_const_step [OF q3 gives_holds [OF j2(1)]] pr by simp_all
      have sum: "x * ?M div 2 ^ 32 + x = x * m div 2 ^ 32"
      proof -
        have "x * m = x * ?M + x * 2 ^ 32" by (simp add: algebra_simps)
        then show ?thesis by simp
      qed
      have j4: "gives q4 x j4 (x * m div 2 ^ 32) 64" "grows x q3 q4"
        using op_add_step [OF q4 gives_holds [OF j3(1)] grows_holds [OF j3(2) grows_holds [OF j2(2) j(1)]]]
      unfolding sum by simp_all
      have bd: "0 \<le> x * m div 2 ^ 32" "x * m div 2 ^ 32 < 2 ^ 64"
      proof -
        have "x * ?M div 2 ^ 32 < 2 ^ 32" using pr(2) by (intro div_less_of_mult) simp_all
        then show "x * m div 2 ^ 32 < 2 ^ 64" using x32 unfolding sum [symmetric] by simp
        show "0 \<le> x * m div 2 ^ 32" using bnd(1) mp by (simp add: pos_imp_zdiv_nonneg_iff)
      qed
      have "gives q5 x j5 (x * m div 2 ^ 32 div 2 ^ s) 64 \<and> grows x q4 q5"
      proof (cases "s = 0")
        case True
        then show ?thesis using q5 j4 by (simp add: grows_refl)
      next
        case False
        then have "by_const q4 OLShr j4 (int s) 64 = (q5, j5)" using q5 by simp
        from lshr_const_step [OF this gives_holds [OF j4(1)]] bd sb b show ?thesis by simp
      qed
      moreover have "x * m div 2 ^ 32 div 2 ^ s = x div d"
        using res by (simp add: b(1) power_add zdiv_zmult2_eq)
      ultimately show ?thesis using fin j2(2) j3(2) j4(2) grows_trans by metis
    qed
    then obtain q' j' where e: "gives q' x j' (x div d) 64" "grows x q q'" "narrowed_step q' j' = (p', i)"
      by blast
    have sh: "pr_width q' = ?w" using grows_shape [OF j(2)] grows_shape [OF e(2)] by simp
    show ?thesis using narrowed_shape [OF e(3,1)] sh r(2) j(2) e(2) grows_trans by metis
  qed
qed

end
