(* ===== verification/DivideSigned.thy ===== *)
theory DivideSigned
  imports DivideUnsigned
begin

text \<open>
  The signed rewrites of \<open>divide.rs\<close>, \<open>rounded\<close>, \<open>signed_high\<close> and \<open>biased\<close>, compute the quotient
  truncated towards zero or its remainder, and \<open>exactly\<close> the quotient of an exact division.
\<close>

section \<open>Signed quotients\<close>

lemma sdiv_sign:
  fixes x d :: int
  assumes "d \<noteq> 0"
  shows "x sdiv d = (if 0 \<le> x then x div \<bar>d\<bar> else - ((- x) div \<bar>d\<bar>)) * (if 0 < d then 1 else - 1)"
proof -
  have "x sdiv d = sgn x * sgn d * (\<bar>x\<bar> div \<bar>d\<bar>)" by (simp add: signed_divide_int_def)
  then show ?thesis using assms by (cases "x = 0"; cases "0 < d"; cases "0 < x") simp_all
qed

lemma sign_bit:
  assumes "0 < w" "- (2 ^ (w - 1)) \<le> x" "x < (2::int) ^ (w - 1)"
  shows "x div 2 ^ (w - 1) = (if x < 0 then - 1 else 0)"
proof (cases "x < 0")
  case True
  have "x div 2 ^ (w - 1) = - 1" by (rule div_eqI) (use True assms in simp_all)
  then show ?thesis using True by simp
next
  case False
  then show ?thesis using assms by simp
qed

lemma half_range: "x < (2::int) ^ (b - 1) \<Longrightarrow> b \<le> w \<Longrightarrow> x < 2 ^ (w - 1)"
  by (erule power_bound) simp

lemma half_range_neg: "- ((2::int) ^ (b - 1)) \<le> x \<Longrightarrow> b \<le> w \<Longrightarrow> - (2 ^ (w - 1)) \<le> x"
proof -
  assume a: "- ((2::int) ^ (b - 1)) \<le> x" "b \<le> w"
  have "(2::int) ^ (b - 1) \<le> 2 ^ (w - 1)" using a(2) by (intro power_increasing) simp_all
  then show ?thesis using a(1) by linarith
qed

lemma nat_pred: "nat (int n - 1) = n - 1"
  by arith

text \<open>What the multiply and the shift give before the sign is taken off.\<close>

definition low_quotient :: "int \<Rightarrow> int \<Rightarrow> int" where
  "low_quotient x d = (if 0 \<le> x then x div d else - ((- x) div d) - 1)"

lemma magic_low:
  assumes "magic_ok d n p m s" "0 < d" "- (2 ^ p) \<le> x" "x < 2 ^ p"
  shows "x * m div 2 ^ (n + s) = low_quotient x d"
  using magic_quotient [OF assms(1,2)] magic_floor [OF assms(1,2)] assms(3,4)
  by (simp add: low_quotient_def)

lemma low_sdiv:
  assumes "d \<noteq> 0" "sign = (if x < 0 then - 1 else 0)"
  shows "x sdiv d = (if 0 < d then low_quotient x \<bar>d\<bar> - sign else sign - low_quotient x \<bar>d\<bar>)"
  using assms by (simp add: sdiv_sign low_quotient_def)

lemma signed_high_sound:
  assumes u: "signed_high p d bits = Some (p', i)" and x: "holds p x DIVIDEND x (pr_width p)"
    and bnd: "- (2 ^ (bits - 1)) \<le> x" "x < 2 ^ (bits - 1)" "3 \<le> d" "d \<le> 2 ^ (bits - 1)"
  shows "gives p' x i (low_quotient x d) (pr_width p) \<and> grows x p p'"
proof -
  let ?n = "pr_register p"
  have n: "pr_width p = ?n" "bits \<le> ?n"
    using u by (auto simp: signed_high_def Let_def split: if_splits)
  have b3: "3 \<le> bits"
  proof (rule ccontr)
    assume "\<not> 3 \<le> bits"
    then have "(2::int) ^ (bits - 1) \<le> 2 ^ 1" by (intro power_increasing) simp_all
    then show False using bnd(3,4) by simp
  qed
  obtain m s where ms: "multiplier d ?n (bits - 1) = Some (m, s)"
    using u n by (auto simp: signed_high_def Let_def bind_eq_Some_conv)
  have d0: "2 \<le> d" "0 < d" using bnd(3) by simp_all
  have pr: "1 \<le> bits - 1" "bits - 1 \<le> ?n" "bits - 1 < ?n" using b3 n(2) by simp_all
  note f = multiplier_facts [OF ms d0(1) pr(1,2)]
  have up: "bit_len (d - 1) \<le> bits - 1" using bnd(4) by (intro bit_len_le) simp
  have mp: "0 < m" using magic_pos [OF f(1) d0(2)] .
  have mn: "m < 2 ^ ?n" using f(4) [OF up pr(3)] .
  have sn: "s < ?n" using f(5) [OF up pr(3)] up pr(3) by simp
  have xr: "- (2 ^ (?n - 1)) \<le> x" "x < 2 ^ (?n - 1)"
    using half_range_neg [OF bnd(1) n(2)] half_range [OF bnd(2) n(2)] by simp_all
  have n0: "0 < ?n" using b3 n(2) by simp
  obtain q j where q: "by_const p OSMulHigh DIVIDEND (signed_of m ?n) ?n = (q, j)" by fastforce
  obtain q2 j2 where q2: "(if m < 2 ^ (?n - 1) then (q, j) else op_step q OAdd j DIVIDEND ?n) = (q2, j2)"
    by fastforce
  have fin: "shifted q2 OAShr j2 s = (p', i)"
    using u n ms q q2 by (auto simp: signed_high_def Let_def)
  have j: "gives q x j (x * signed_of m ?n div 2 ^ ?n) ?n" "grows x p q"
    using smulhigh_const_step [OF q x [unfolded n(1)] refl xr n0] by simp_all
  have j2: "gives q2 x j2 (x * m div 2 ^ ?n) ?n \<and> grows x q q2"
  proof (cases "m < 2 ^ (?n - 1)")
    case True
    then have "signed_of m ?n = m" using signed_of_mod [OF n0, of m] mp mn by simp
    then show ?thesis using True q2 j(1) by (simp add: grows_refl)
  next
    case False
    have h: "(2::int) ^ ?n = 2 * 2 ^ (?n - 1)" using n0 by (simp add: power_eq_if)
    have "signed_of m ?n = signed_of ((m - 2 ^ ?n) mod 2 ^ ?n) ?n" using mp mn by simp
    also have "\<dots> = m - 2 ^ ?n"
      by (rule signed_of_mod [OF n0]) (use False mn h in linarith)+
    finally have sg: "signed_of m ?n = m - 2 ^ ?n" .
    have "x * m = x * (m - 2 ^ ?n) + x * 2 ^ ?n" by (simp add: algebra_simps)
    then have sum: "x * signed_of m ?n div 2 ^ ?n + x = x * m div 2 ^ ?n" unfolding sg by simp
    have "op_step q OAdd j DIVIDEND ?n = (q2, j2)" using q2 False by simp
    from op_add_step [OF this gives_holds [OF j(1)] grows_holds [OF j(2) x [unfolded n(1)]]]
    show ?thesis unfolding sum .
  qed
  have bd: "- (2 ^ (?n - 1)) \<le> x * m div 2 ^ ?n" "x * m div 2 ^ ?n < 2 ^ (?n - 1)"
  proof -
    have "x * m < 2 ^ (?n - 1) * 2 ^ ?n"
    proof -
      have "x * m \<le> \<bar>x\<bar> * m" using mp by (intro mult_right_mono) simp_all
      show ?thesis
      proof (cases "0 \<le> x")
        case True
        then show ?thesis using xr mn mp by (intro mult_strict_mono') simp_all
      next
        case False
        then have "x * m < 0" using mp by (simp add: mult_neg_pos)
        also have "(0::int) < 2 ^ (?n - 1) * 2 ^ ?n" by simp
        finally show ?thesis .
      qed
    qed
    then show "x * m div 2 ^ ?n < 2 ^ (?n - 1)" by (intro div_less_of_mult) simp_all
    have "(- (2 ^ (?n - 1))) * 2 ^ ?n \<le> x * m"
    proof (cases "0 \<le> x")
      case True
      have "(- (2 ^ (?n - 1))) * 2 ^ ?n \<le> (0::int)" by simp
      also have "0 \<le> x * m" using True mp by simp
      finally show ?thesis .
    next
      case False
      then have "(- x) * m \<le> 2 ^ (?n - 1) * 2 ^ ?n" using xr mn mp by (intro mult_mono) simp_all
      then show ?thesis by simp
    qed
    then have "(- (2 ^ (?n - 1))) * 2 ^ ?n div 2 ^ ?n \<le> x * m div 2 ^ ?n" by (intro zdiv_mono1) simp_all
    then show "- (2 ^ (?n - 1)) \<le> x * m div 2 ^ ?n"
      using nonzero_mult_div_cancel_right [of "(2::int) ^ ?n" "- (2 ^ (?n - 1))"] by simp
  qed
  have sh: "pr_width q2 = ?n" using j(2) j2 n(1) by (simp add: grows_def)
  then have "gives q2 x j2 (x * m div 2 ^ ?n) (pr_width q2)" using j2 by simp
  then have "gives p' x i (x * m div 2 ^ ?n div 2 ^ s) ?n \<and> grows x q2 p'"
    using shifted_ashr_step [OF fin, of x] bd sn unfolding sh by blast
  moreover have "x * m div 2 ^ ?n div 2 ^ s = low_quotient x d"
    using magic_low [OF f(1) d0(2) bnd(1,2)] by (simp add: power_add zdiv_zmult2_eq)
  ultimately show ?thesis using j(2) j2 grows_trans n(1) by auto
qed

lemma rounded_sound:
  assumes u: "rounded p d bits = Some (p', i)" and x: "holds p x DIVIDEND x (pr_width p)"
    and r: "pr_width p \<le> 64" "bits \<le> pr_width p"
    and bnd: "- (2 ^ (bits - 1)) \<le> x" "x < 2 ^ (bits - 1)" "3 \<le> \<bar>d\<bar>"
  shows "gives p' x i (x sdiv d) (pr_width p) \<and> grows x p p'"
proof -
  let ?w = "pr_width p" and ?d = "\<bar>d\<bar>"
  have d: "?d \<le> 2 ^ (bits - 1)" using u by (auto simp: rounded_def Let_def split: if_splits)
  have b3: "3 \<le> bits"
  proof (rule ccontr)
    assume "\<not> 3 \<le> bits"
    then have "(2::int) ^ (bits - 1) \<le> 2 ^ 1" by (intro power_increasing) simp_all
    then show False using bnd(3) d by simp
  qed
  have w0: "0 < ?w" using b3 r(2) by simp
  have xr: "- (2 ^ (?w - 1)) \<le> x" "x < 2 ^ (?w - 1)"
    using half_range_neg [OF bnd(1) r(2)] half_range [OF bnd(2) r(2)] by simp_all
  let ?high = "bits > 32 \<or> pr_register p = 32"
  have "\<exists>q j. gives q x j (low_quotient x ?d) ?w \<and> grows x p q \<and>
    (let (q, sign) = by_const q OAShr DIVIDEND (int (?w - 1)) ?w
     in if d > 0 then op_step q OSub j sign ?w else op_step q OSub sign j ?w) = (p', i)"
  proof (cases ?high)
    case True
    then obtain q j where q: "signed_high p ?d bits = Some (q, j)"
      using u d by (auto simp: rounded_def Let_def bind_eq_Some_conv)
    have "(let (q, sign) = by_const q OAShr DIVIDEND (int (?w - 1)) ?w
     in if d > 0 then op_step q OSub j sign ?w else op_step q OSub sign j ?w) = (p', i)"
      using u d True q by (simp add: rounded_def Let_def split: prod.splits if_splits)
    then show ?thesis using signed_high_sound [OF q x bnd d] by blast
  next
    case False
    obtain m s where ms: "multiplier ?d bits (bits - 1) = Some (m, s)"
      using u d False by (auto simp: rounded_def Let_def bind_eq_Some_conv)
    have d0: "2 \<le> ?d" "0 < ?d" using bnd(3) by simp_all
    have pr: "1 \<le> bits - 1" "bits - 1 \<le> bits" "bits - 1 < bits" using b3 by simp_all
    note f = multiplier_facts [OF ms d0(1) pr(1,2)]
    have up: "bit_len (?d - 1) \<le> bits - 1" using d by (intro bit_len_le) simp
    have mp: "0 < m" using magic_pos [OF f(1) d0(2)] .
    have "m < 2 ^ bits" using f(4) [OF up pr(3)] .
    then have m32: "m < 2 ^ 32" by (rule power_bound) (use False in simp)
    have mi: "to_i128 m = Some m" using m32 by (simp add: to_i128_def)
    have sh: "bits + s < 64" using f(5) [OF up pr(3)] up False b3 by linarith
    obtain q j where q: "widened p OSExt = (q, j)" by fastforce
    obtain q2 j2 where q2: "by_const q OMul j m 64 = (q2, j2)" by fastforce
    obtain q3 j3 where q3: "by_const q2 OAShr j2 (int (bits + s)) 64 = (q3, j3)" by fastforce
    obtain q4 j4 where q4: "narrowed_step q3 j3 = (q4, j4)" by fastforce
    have j: "holds q x j x 64" "grows x p q" using widened_sext_step [OF q x r(1) w0 xr] by simp_all
    have j2: "gives q2 x j2 (x * m) 64" "grows x q q2" using mul_const_step [OF q2 j(1)] by simp_all
    have x31: "- (2 ^ 31) \<le> x" "x < 2 ^ 31"
      using half_range_neg [OF bnd(1), of 32] half_range [OF bnd(2), of 32] False by simp_all
    have "\<bar>x * m\<bar> \<le> 2 ^ 31 * (2 ^ 32 - 1)"
      unfolding abs_mult using x31 m32 mp by (intro mult_mono) simp_all
    then have pb: "- (2 ^ 63) \<le> x * m" "x * m < 2 ^ 63" by simp_all
    have j3: "gives q3 x j3 (low_quotient x ?d) 64" "grows x q2 q3"
      using ashr_const_step [OF q3 gives_holds [OF j2(1)]] pb sh magic_low [OF f(1) d0(2) bnd(1,2)]
      by (simp_all add: nat_int_add)
    have shape: "pr_width q3 = ?w" using j(2) j2(2) j3(2) by (simp add: grows_def)
    have j4: "gives q4 x j4 (low_quotient x ?d) ?w" "grows x q3 q4"
      using narrowed_shape [OF q4 j3(1)] shape r(1) by simp_all
    obtain q5 k where q5: "by_const q4 OAShr DIVIDEND (int (?w - 1)) ?w = (q5, k)" by fastforce
    have "rounded p d bits = Some (if d > 0 then op_step q5 OSub j4 k ?w else op_step q5 OSub k j4 ?w)"
      using d unfolding not_less [symmetric]
      by (simp only: rounded_def Let_def False ms mi q q2 q3 q4 q5 if_False prod.case Option.bind.simps cong: if_cong)
    then have "(let (q, sign) = by_const q4 OAShr DIVIDEND (int (?w - 1)) ?w
     in if d > 0 then op_step q OSub j4 sign ?w else op_step q OSub sign j4 ?w) = (p', i)"
      unfolding u q5 option.inject Let_def prod.case by (rule sym)
    moreover have "grows x p q4"
      using grows_trans [OF j(2) grows_trans [OF j2(2) grows_trans [OF j3(2) j4(2)]]] .
    ultimately show ?thesis using j4(1) by blast
  qed
  then obtain q j where j: "gives q x j (low_quotient x ?d) ?w" "grows x p q"
    "(let (q, sign) = by_const q OAShr DIVIDEND (int (?w - 1)) ?w
     in if d > 0 then op_step q OSub j sign ?w else op_step q OSub sign j ?w) = (p', i)"
    by blast
  obtain q2 k where q2: "by_const q OAShr DIVIDEND (int (?w - 1)) ?w = (q2, k)" by fastforce
  let ?sign = "x div 2 ^ (?w - 1)"
  have k: "gives q2 x k ?sign ?w" "grows x q q2"
    using ashr_const_step [OF q2 grows_holds [OF j(2) x]] w0 xr by (simp_all add: nat_pred)
  have jj: "holds q2 x j (low_quotient x ?d) ?w" using grows_holds [OF k(2) gives_holds [OF j(1)]] .
  have "d \<noteq> 0" using bnd(3) by auto
  note sd = low_sdiv [OF this sign_bit [OF w0 xr]]
  have "gives p' x i (x sdiv d) ?w \<and> grows x q2 p'"
  proof (cases "0 < d")
    case True
    then have "op_step q2 OSub j k ?w = (p', i)" using j(3) q2 by simp
    from op_sub_step [OF this jj gives_holds [OF k(1)]] show ?thesis using True sd by simp
  next
    case False
    then have "op_step q2 OSub k j ?w = (p', i)" using j(3) q2 by simp
    from op_sub_step [OF this gives_holds [OF k(1)] jj] show ?thesis using False sd by simp
  qed
  then show ?thesis using j(2) k(2) grows_trans by blast
qed

section \<open>A power of two\<close>

lemma trunc_shift:
  assumes "d = (2::int) ^ k"
  shows "(x + (if x < 0 then 2 ^ k - 1 else 0)) div 2 ^ k = x sdiv d"
proof (cases "x < 0")
  case True
  let ?q = "(- x) div 2 ^ k" and ?r = "(- x) mod 2 ^ k"
  have r: "0 \<le> ?r" "?r < 2 ^ k" by simp_all
  have r3: "- x = ?q * 2 ^ k + ?r" by (rule div_mult_mod_eq [symmetric])
  have "(x + (2 ^ k - 1)) div 2 ^ k = - ?q"
  proof (rule div_eqI)
    have "x = - (?q * 2 ^ k) - ?r" using r3 by linarith
    then show "- ?q * 2 ^ k \<le> x + (2 ^ k - 1)" "x + (2 ^ k - 1) < (- ?q + 1) * 2 ^ k"
      using r(1,2) by (simp_all only: distrib_right minus_mult_left [symmetric] mult_1)
  qed simp
  moreover have "x sdiv d = - ?q" using True assms by (simp add: sdiv_sign)
  ultimately show ?thesis using True by simp
next
  case False
  then show ?thesis using assms by (simp add: sdiv_sign)
qed

lemma smod_sdiv: "(x::int) smod d = x - x sdiv d * d"
  using sdiv_mult_smod_eq [of x d] by linarith

lemma trunc_mask:
  assumes "d = 2 ^ k"
  shows "(x + (if x < 0 then 2 ^ k - 1 else 0)) mod 2 ^ k - (if x < 0 then 2 ^ k - 1 else 0) = x smod (d::int)"
proof -
  let ?b = "if x < 0 then 2 ^ k - 1 else (0::int)"
  have "(x + ?b) mod 2 ^ k = x + ?b - (x + ?b) div 2 ^ k * 2 ^ k" by (simp add: minus_div_mult_eq_mod)
  then show ?thesis
    unfolding trunc_shift [OF assms] using smod_sdiv [of x d] assms by auto
qed

lemma sdiv_abs: "(x::int) sdiv d = (if d < 0 then - (x sdiv \<bar>d\<bar>) else x sdiv \<bar>d\<bar>)"
  by (simp add: signed_divide_int_def sgn_if)

lemma smod_abs: "(x::int) smod d = x smod \<bar>d\<bar>"
  by (simp add: signed_modulo_int_def)

lemma biased_sound:
  assumes b: "biased p d rem = p'" and x: "holds p x DIVIDEND x (pr_width p)"
    and r: "0 < pr_width p" and bnd: "- (2 ^ (pr_width p - 1)) \<le> x" "x < 2 ^ (pr_width p - 1)"
    and d: "is_power_of_two \<bar>d\<bar>" "2 \<le> \<bar>d\<bar>" "\<bar>d\<bar> \<le> 2 ^ (pr_width p - 1)"
  shows "\<exists>i. gives p' x i (if rem then x smod d else x sdiv d) (pr_width p)"
proof -
  let ?w = "pr_width p" and ?k = "low_zeros_of \<bar>d\<bar>"
  have k: "\<bar>d\<bar> = 2 ^ ?k" using d(1) by (rule is_power_of_twoD)
  have k0: "0 < ?k" using d(2) k by (cases ?k) simp_all
  have "(2::int) ^ ?k \<le> 2 ^ (?w - 1)" using d(3) by (simp flip: k)
  then have kw: "?k \<le> ?w - 1" by simp
  then have kw': "?k < ?w" using r by simp
  let ?bias = "if x < 0 then 2 ^ ?k - 1 else (0::int)"
  have xm: "x mod 2 ^ ?w = (if x < 0 then x + 2 ^ ?w else x)"
  proof -
    have h: "(2::int) ^ ?w = 2 * 2 ^ (?w - 1)" using r by (simp add: power_eq_if)
    then have "x < 0 \<Longrightarrow> (x + 2 ^ ?w) mod 2 ^ ?w = x + 2 ^ ?w" using bnd by (intro mod_pos_pos_trivial) linarith+
    then show ?thesis using bnd h by simp
  qed
  obtain q j where q: "(if ?k = 1 then by_const p OLShr DIVIDEND (int (?w - 1)) ?w
             else let (p, sign) = by_const p OAShr DIVIDEND (int (?w - 1)) ?w
                  in by_const p OLShr sign (int (?w - ?k)) ?w) = (q, j)"
    by fastforce
  have j: "gives q x j ?bias ?w \<and> grows x p q"
  proof (cases "?k = 1")
    case True
    have "by_const p OLShr DIVIDEND (int (?w - 1)) ?w = (q, j)" using q True by simp
    moreover have "holds p x DIVIDEND (x mod 2 ^ ?w) ?w" using x by (rule holds_cong) simp
    ultimately have "gives q x j (x mod 2 ^ ?w div 2 ^ (?w - 1)) ?w \<and> grows x p q"
      using lshr_const_step [of p DIVIDEND "int (?w - 1)" ?w q j x "x mod 2 ^ ?w"] r by (simp add: nat_pred)
    moreover have "x mod 2 ^ ?w div 2 ^ (?w - 1) = ?bias"
    proof (cases "x < 0")
      case True
      have h: "(2::int) ^ ?w = 2 * 2 ^ (?w - 1)" using r by (simp add: power_eq_if)
      have "(x + 2 ^ ?w) div 2 ^ (?w - 1) = 1"
        by (rule div_eqI) (use h True bnd in \<open>simp_all\<close>)
      then show ?thesis using True \<open>?k = 1\<close> xm by simp
    next
      case False
      then show ?thesis using xm bnd by simp
    qed
    ultimately show ?thesis by simp
  next
    case False
    obtain q1 j1 where q1: "by_const p OAShr DIVIDEND (int (?w - 1)) ?w = (q1, j1)" by fastforce
    have q2: "by_const q1 OLShr j1 (int (?w - ?k)) ?w = (q, j)" using q q1 False by simp
    let ?s = "if x < 0 then - 1 else (0::int)"
    have j1: "gives q1 x j1 ?s ?w" "grows x p q1"
      using ashr_const_step [OF q1 x] bnd r sign_bit [OF r bnd] by (simp_all add: nat_pred)
    have "holds q1 x j1 (?s mod 2 ^ ?w) ?w" using gives_holds [OF j1(1)] by (rule holds_cong) simp
    then have "gives q x j (?s mod 2 ^ ?w div 2 ^ (?w - ?k)) ?w \<and> grows x q1 q"
      using lshr_const_step [OF q2, of x "?s mod 2 ^ ?w"] k0 r by simp
    moreover have "?s mod 2 ^ ?w div 2 ^ (?w - ?k) = ?bias"
    proof (cases "x < 0")
      case True
      have "(- 1) mod (2::int) ^ ?w = 2 ^ ?w - 1" by (simp add: zmod_minus1)
      moreover have "(2::int) ^ ?w = 2 ^ ?k * 2 ^ (?w - ?k)" using kw by (simp flip: power_add)
      moreover have "(2 ^ ?k * 2 ^ (?w - ?k) - 1) div 2 ^ (?w - ?k) = (2::int) ^ ?k - 1"
        by (rule div_eqI) (simp_all add: algebra_simps)
      ultimately show ?thesis using True by simp
    qed simp
    ultimately show ?thesis using j1(2) grows_trans by auto
  qed
  obtain q2 j2 where q2: "op_step q OAdd DIVIDEND j ?w = (q2, j2)" by fastforce
  have xq: "holds q x DIVIDEND x ?w" using j x grows_holds by blast
  have j2: "gives q2 x j2 (x + ?bias) ?w" "grows x q q2"
    using op_add_step [OF q2 xq gives_holds] j by blast+
  show ?thesis
  proof (cases rem)
    case True
    obtain q3 j3 where q3: "by_const q2 OAnd j2 (2 ^ ?k - 1) ?w = (q3, j3)" by fastforce
    obtain q4 j4 where q4: "op_step q3 OSub j3 j ?w = (q4, j4)" by fastforce
    have j3: "gives q3 x j3 ((x + ?bias) mod 2 ^ ?k) ?w" "grows x q2 q3"
      using and_const_step [OF q3 gives_holds [OF j2(1)]] kw by simp_all
    have "holds q x j ?bias ?w" using j gives_holds by simp
    then have "holds q3 x j ?bias ?w" by (rule grows_holds [OF j3(2) grows_holds [OF j2(2)]])
    from op_sub_step [OF q4 gives_holds [OF j3(1)] this]
    have "gives q4 x j4 (x smod \<bar>d\<bar>) ?w" unfolding trunc_mask [OF k, of x] by simp
    moreover have "p' = q4"
      using b q q2 q3 q4 True by (simp add: biased_def Let_def split: prod.splits)
    ultimately show ?thesis using True smod_abs by auto
  next
    case False
    obtain q3 j3 where q3: "by_const q2 OAShr j2 (int ?k) ?w = (q3, j3)" by fastforce
    have "- (2 ^ (?w - 1)) \<le> x + ?bias" "x + ?bias < 2 ^ (?w - 1)"
    proof -
      have b: "0 \<le> ?bias" "x < 0 \<Longrightarrow> ?bias < 2 ^ ?k" "0 \<le> x \<Longrightarrow> ?bias = 0" by simp_all
      show "- (2 ^ (?w - 1)) \<le> x + ?bias" using b(1) bnd(1) by linarith
      show "x + ?bias < 2 ^ (?w - 1)"
        using b(2,3) bnd(2) \<open>(2::int) ^ ?k \<le> 2 ^ (?w - 1)\<close> by (cases "x < 0") linarith+
    qed
    then have j3: "gives q3 x j3 (x sdiv \<bar>d\<bar>) ?w" "grows x q2 q3"
      using ashr_const_step [OF q3 gives_holds [OF j2(1)]] kw' r trunc_shift [OF k, of x]
      by simp_all
    have p': "p' = (if d < 0 then fst (negated q3 j3) else q3)"
      using b q q2 q3 False by (simp add: biased_def Let_def split: prod.splits)
    show ?thesis
    proof (cases "d < 0")
      case True
      obtain q4 j4 where q4: "negated q3 j3 = (q4, j4)" by fastforce
      have sh: "pr_width q3 = ?w" using j j2(2) j3(2) by (simp add: grows_def)
      have "gives q4 x j4 (- (x sdiv \<bar>d\<bar>)) ?w"
        using negated_step [OF q4] gives_holds [OF j3(1)] sh by auto
      moreover have "x sdiv d = - (x sdiv \<bar>d\<bar>)" using True by (subst sdiv_abs) (simp only: if_True)
      moreover have "p' = q4" using p' True q4 by simp
      ultimately show ?thesis using False by (simp only: if_False) blast
    next
      case f: False
      then have "x sdiv d = x sdiv \<bar>d\<bar>" by (subst sdiv_abs) (simp only: if_False)
      moreover have "p' = q3" using p' f by simp
      ultimately show ?thesis using j3(1) False by (simp only: if_False) blast
    qed
  qed
qed

section \<open>An exact division\<close>

lemma newton_step:
  assumes "2 ^ k dvd od * iv - (1::int)" "e \<le> 2 * k" "e \<le> 128"
  shows "2 ^ e dvd od * (iv * ((2 - od * iv mod 2 ^ 128) mod 2 ^ 128) mod 2 ^ 128) - 1"
proof -
  let ?M = "2 ^ 128 :: int"
  have "2 ^ (2 * k) dvd (od * iv - 1) * (od * iv - 1)"
    using mult_dvd_mono [OF assms(1,1)] by (simp add: mult_2 power_add)
  then have sq: "2 ^ e dvd (od * iv - 1) * (od * iv - 1)"
    using le_imp_power_dvd [OF assms(2), of "2::int"] dvd_trans by blast
  have eM: "2 ^ e dvd ?M" using assms(3) by (rule le_imp_power_dvd)
  have "(iv * ((2 - od * iv mod ?M) mod ?M)) mod ?M = (iv * (2 - od * iv)) mod ?M"
    by (simp add: mod_simps)
  then have "?M dvd iv * (2 - od * iv) - (iv * ((2 - od * iv mod ?M) mod ?M) mod ?M)"
    by (metis mod_eq_dvd_iff mod_mod_trivial)
  then have "?M dvd od * (iv * (2 - od * iv) - (iv * ((2 - od * iv mod ?M) mod ?M) mod ?M))" by simp
  then have "2 ^ e dvd od * (iv * (2 - od * iv) - (iv * ((2 - od * iv mod ?M) mod ?M) mod ?M))"
    using eM dvd_trans by blast
  moreover have "od * (iv * (2 - od * iv)) - 1 = - ((od * iv - 1) * (od * iv - 1))"
    by (simp add: algebra_simps)
  ultimately have "2 ^ e dvd - ((od * iv - 1) * (od * iv - 1))
      - od * (iv * (2 - od * iv) - (iv * ((2 - od * iv mod ?M) mod ?M) mod ?M))"
    using sq by (intro dvd_diff) simp_all
  then show ?thesis by (simp add: algebra_simps)
qed

lemma odd_square: "odd (n::int) \<Longrightarrow> 8 dvd n * n - 1"
proof -
  assume "odd n"
  then obtain k where k: "n = 2 * k + 1" by (rule oddE)
  have "even (k * (k + 1))" by simp
  then obtain l where "k * (k + 1) = 2 * l" by (rule evenE)
  then have "n * n - 1 = 8 * l" unfolding k by (simp add: algebra_simps)
  then show ?thesis by simp
qed

lemma newton_correct:
  "2 ^ k dvd od * iv - (1::int) \<Longrightarrow> e \<le> k * 2 ^ n \<Longrightarrow> e \<le> 128 \<Longrightarrow> 2 ^ e dvd od * newton n od iv - 1"
proof (induction n arbitrary: iv k)
  case 0
  then show ?case using dvd_trans [OF le_imp_power_dvd] by (metis mult.right_neutral newton.simps(1) power_0)
next
  case (Suc n)
  have "e \<le> min (2 * k) 128 * 2 ^ n"
  proof (cases "2 * k \<le> 128")
    case True
    then show ?thesis using Suc.prems(2) by simp
  next
    case False
    then have "min (2 * k) 128 = 128" by simp
    moreover have "e \<le> 128 * 2 ^ n" by (rule order_trans [OF Suc.prems(3)]) simp
    ultimately show ?thesis by simp
  qed
  then show ?case
    unfolding newton.simps using Suc.prems(3)
    by (intro Suc.IH [of "min (2 * k) 128"] newton_step [OF Suc.prems(1)]) simp_all
qed

lemma inverse_of_correct:
  assumes "odd od" "w \<le> 128" shows "od * inverse_of od w mod 2 ^ w = 1 mod 2 ^ w"
proof -
  let ?o = "od mod 2 ^ 128"
  have "odd ?o" using assms(1) by (simp add: dvd_mod_iff)
  then have "2 ^ 3 dvd ?o * ?o - 1" using odd_square by simp
  then have "2 ^ w dvd ?o * newton 6 ?o ?o - 1" using assms(2) by (intro newton_correct [of 3]) simp_all
  then have n: "?o * newton 6 ?o ?o mod 2 ^ w = 1 mod 2 ^ w" unfolding mod_eq_dvd_iff .
  have "div_mask w = 2 ^ w - 1" using assms(2) by (simp add: div_mask_def)
  then have i: "inverse_of od w = newton 6 ?o ?o mod 2 ^ w" by (simp add: inverse_of_def Let_def and_below)
  have "?o mod 2 ^ w = od mod 2 ^ w" using assms(2) by (intro mod_mod_cancel le_imp_power_dvd)
  then have "od * newton 6 ?o ?o mod 2 ^ w = ?o * newton 6 ?o ?o mod 2 ^ w" by (intro mod_mult_cong refl) simp
  then show ?thesis using n unfolding i by (simp add: mod_mult_right_eq)
qed

lemma exactly_sound:
  assumes e: "exactly p sg d = p'" and x: "holds p x DIVIDEND x (pr_width p)"
    and w: "0 < pr_width p" "pr_width p \<le> 128" and d: "d \<noteq> 0" "d \<noteq> 1" "d dvd x"
    and s: "sg \<Longrightarrow> - (2 ^ (pr_width p - 1)) \<le> x \<and> x < 2 ^ (pr_width p - 1) \<and> \<bar>d\<bar> \<le> 2 ^ (pr_width p - 1)"
    and u: "\<not> sg \<Longrightarrow> 0 \<le> x \<and> x < 2 ^ pr_width p \<and> \<bar>d\<bar> < 2 ^ pr_width p"
  shows "\<exists>i. gives p' x i (x div d) (pr_width p)"
proof -
  let ?w = "pr_width p" and ?k = "low_zeros_of \<bar>d\<bar>"
  let ?od = "d div 2 ^ ?k"
  have a: "\<bar>d\<bar> = \<bar>d\<bar> div 2 ^ ?k * 2 ^ ?k" "odd (\<bar>d\<bar> div 2 ^ ?k)"
    using low_zeros_of_spec [of "\<bar>d\<bar>"] d(1) by simp_all
  then have "2 ^ ?k dvd d" by (metis dvd_abs_iff dvd_triv_right)
  then have dz: "d = ?od * 2 ^ ?k" by simp
  have "\<bar>d\<bar> div 2 ^ ?k = \<bar>?od\<bar>" using \<open>2 ^ ?k dvd d\<close> by (metis abs_div abs_numeral power_abs)
  then have od: "odd ?od" using a(2) by simp
  have "?od \<noteq> 0" using od by auto
  then have kd: "2 ^ ?k \<le> \<bar>d\<bar>"
    using zdvd_imp_le [of "2 ^ ?k" "\<bar>d\<bar>"] \<open>2 ^ ?k dvd d\<close> d(1) by simp
  have kw: "?k < ?w"
  proof (cases sg)
    case True
    then have "(2::int) ^ ?k \<le> 2 ^ (?w - 1)" using kd s by linarith
    then show ?thesis using w(1) by simp
  next
    case False
    then have "(2::int) ^ ?k < 2 ^ ?w" using kd u by linarith
    then show ?thesis by simp
  qed
  obtain q i where q: "(if ?k > 0 then by_const p (if sg then OAShr else OLShr) DIVIDEND (int ?k) ?w
      else (p, DIVIDEND)) = (q, i)" by fastforce
  let ?y = "x div 2 ^ ?k"
  have "2 ^ ?k dvd x" using d(3) \<open>2 ^ ?k dvd d\<close> dvd_trans by blast
  then have xy: "x = ?y * 2 ^ ?k" by simp
  have i: "holds q x i ?y ?w \<and> grows x p q \<and> (0 < ?k \<longrightarrow> gives q x i ?y ?w)"
  proof (cases "?k > 0")
    case True
    show ?thesis
    proof (cases sg)
      case sg: True
      then have "by_const p OAShr DIVIDEND (int ?k) ?w = (q, i)" using q True by simp
      from ashr_const_step [OF this x] s [OF sg] kw show ?thesis using gives_holds by simp
    next
      case sg: False
      then have "by_const p OLShr DIVIDEND (int ?k) ?w = (q, i)" using q True by simp
      from lshr_const_step [OF this x] u [OF sg] kw show ?thesis using gives_holds by simp
    qed
  next
    case False
    then show ?thesis using q x by (simp add: grows_refl)
  qed
  have div: "x div d = ?y div ?od"
  proof -
    have "x div d = (?y * 2 ^ ?k) div (?od * 2 ^ ?k)" using xy dz by simp
    also have "\<dots> = ?y div ?od" by (rule div_mult_mult2) simp
    finally show ?thesis .
  qed
  have dv: "?od * (x div d) = ?y"
  proof -
    have "?od * 2 ^ ?k * (x div d) = ?y * 2 ^ ?k" using d(3) dz xy by (metis dvd_mult_div_cancel)
    then show ?thesis by simp
  qed
  show ?thesis
  proof (cases "?od = 1")
    case True
    then have "0 < ?k" using dz d(2) by (cases ?k) auto
    moreover have "p' = q" using e q True by (simp add: exactly_def Let_def split: prod.splits)
    ultimately show ?thesis using i div True by auto
  next
    case False
    obtain q2 j where q2: "by_const q OMul i (signed_of (inverse_of ?od ?w) ?w) ?w = (q2, j)" by fastforce
    have p': "p' = q2" using e q q2 False by (simp add: exactly_def Let_def split: prod.splits)
    have "gives q2 x j (?y * signed_of (inverse_of ?od ?w) ?w) ?w"
      using mul_const_step [OF q2] i by blast
    moreover have "?y * signed_of (inverse_of ?od ?w) ?w mod 2 ^ ?w = (x div d) mod 2 ^ ?w"
    proof -
      have "?y * signed_of (inverse_of ?od ?w) ?w mod 2 ^ ?w = ?y * inverse_of ?od ?w mod 2 ^ ?w"
        using signed_of_cong [OF w(1)] by (intro mod_mult_cong refl)
      also have "?y * inverse_of ?od ?w = (x div d) * (?od * inverse_of ?od ?w)"
        using dv by (metis mult.assoc mult.commute)
      also have "\<dots> mod 2 ^ ?w = (x div d) * 1 mod 2 ^ ?w"
        using inverse_of_correct [OF od w(2)] by (intro mod_mult_cong refl)
      finally show ?thesis by simp
    qed
    ultimately have "gives q2 x j (x div d) ?w" by (rule gives_cong)
    then show ?thesis using p' by blast
  qed
qed

end
