(* ===== verification/DivideSound.thy ===== *)
theory DivideSound
  imports DivideSigned
begin

text \<open>
  What the rewrites of \<open>divide.rs\<close> promise together: the program \<open>program_at\<close> answers computes the
  division it replaces, the quotient truncated towards zero or the remainder with the sign of
  the dividend, and the divisions the documentation names are rewritten.
\<close>

text \<open>The division \<open>divide.rs\<close> reads off an instruction: the divisor is a value of the type, and the
  range is no wider than the type and signed only when the division is.\<close>

definition division_ok :: "division \<Rightarrow> bool" where
  "division_ok d \<longleftrightarrow>
     (let w = dv_width d; k = dv_divisor d in
      k \<noteq> 0 \<and>
      (if dv_signed d then - (2 ^ (w - 1)) \<le> k \<and> k < 2 ^ (w - 1) else 0 < k \<and> k < 2 ^ w) \<and>
      (case dv_range d of
         Unsigned b \<Rightarrow> if dv_signed d then b < w else b \<le> w
       | Signed b \<Rightarrow> dv_signed d \<and> 0 < b \<and> b \<le> w))"

text \<open>A dividend in the range, and a multiple of the divisor where the division is exact.\<close>

definition dividend_ok :: "division \<Rightarrow> int \<Rightarrow> bool" where
  "dividend_ok d x \<longleftrightarrow>
     (case dv_range d of
        Unsigned b \<Rightarrow> 0 \<le> x \<and> x < 2 ^ b
      | Signed b \<Rightarrow> - (2 ^ (b - 1)) \<le> x \<and> x < 2 ^ (b - 1)) \<and>
     (dv_exact d \<longrightarrow> dv_divisor d dvd x)"

definition answer :: "division \<Rightarrow> int \<Rightarrow> int" where
  "answer d x = (if dv_remainder d then x smod dv_divisor d else x sdiv dv_divisor d)"

lemma sdiv_nonneg: "0 \<le> (x::int) \<Longrightarrow> d \<noteq> 0 \<Longrightarrow> x sdiv d = (if d < 0 then - (x div \<bar>d\<bar>) else x div \<bar>d\<bar>)"
  by (simp add: sdiv_sign)

lemma smod_nonneg: "0 \<le> (x::int) \<Longrightarrow> x smod d = x mod \<bar>d\<bar>"
  by (simp add: signed_modulo_int_def sgn_if)

lemma sdiv_exact: "d dvd (x::int) \<Longrightarrow> d \<noteq> 0 \<Longrightarrow> x sdiv d = x div d"
proof -
  assume "d dvd x" "d \<noteq> 0"
  then obtain q where "x = d * q" by blast
  then show ?thesis using \<open>d \<noteq> 0\<close> by (simp add: signed_divide_int_def abs_mult sgn_mult) (simp add: sgn_if)
qed

lemma signed_range:
  assumes "division_ok d" "dividend_ok d x" "dv_signed d"
  shows "- (2 ^ (dv_width d - 1)) \<le> x" "x < 2 ^ (dv_width d - 1)"
proof -
  have "- (2 ^ (dv_width d - 1)) \<le> x \<and> x < 2 ^ (dv_width d - 1)"
  proof (cases "dv_range d")
    case (Unsigned b)
    then have b: "0 \<le> x" "x < 2 ^ b" "b \<le> dv_width d - 1"
      using assms by (auto simp: division_ok_def dividend_ok_def Let_def)
    have "- (2 ^ (dv_width d - 1)) \<le> (0::int)" by simp
    then show ?thesis using b(1) power_bound [OF b(2,3)] by linarith
  next
    case (Signed b)
    then have "b \<le> dv_width d" "- (2 ^ (b - 1)) \<le> x" "x < 2 ^ (b - 1)"
      using assms by (auto simp: division_ok_def dividend_ok_def Let_def)
    then show ?thesis using half_range half_range_neg by blast
  qed
  then show "- (2 ^ (dv_width d - 1)) \<le> x" "x < 2 ^ (dv_width d - 1)" by simp_all
qed

lemma unsigned_answer:
  assumes q: "unsigned_quotient p \<bar>k\<bar> b = Some (p1, i)" and p: "p = program_new w r"
    and r: "r \<in> {32, 64}" "w \<le> 64" "b \<le> w" and x: "0 \<le> x" "x < 2 ^ b" and k: "2 \<le> \<bar>k\<bar>"
    and res: "(if rem then
                 (if is_power_of_two \<bar>k\<bar> then
                    do { mask \<leftarrow> to_i128 (\<bar>k\<bar> - 1); Some (fst (by_const p1 OAnd DIVIDEND mask w)) }
                  else do { size \<leftarrow> to_i128 \<bar>k\<bar>; Some (fst (left_over p1 i size)) })
               else if k < 0 then Some (fst (negated p1 i)) else Some p1) = Some p'"
  shows "\<exists>j. gives p' x j (if rem then x smod k else x sdiv k) w"
proof -
  have pw: "pr_width p = w" "pr_register p = r" by (simp_all add: p program_new_def)
  have d: "holds p x DIVIDEND x w" unfolding p by (rule holds_new)
  have g: "gives p1 x i (x div \<bar>k\<bar>) w" "grows x p p1"
    using unsigned_quotient_sound [OF q, of x] d r x k unfolding pw by simp_all
  have w1: "pr_width p1 = w" using grows_shape [OF g(2)] pw by simp
  have d1: "holds p1 x DIVIDEND x w" using grows_holds [OF g(2) d] .
  have kb: "\<bar>k\<bar> < 2 ^ b" using q by (auto simp: unsigned_quotient_def Let_def split: if_splits)
  show ?thesis
  proof (cases rem)
    case True
    show ?thesis
    proof (cases "is_power_of_two \<bar>k\<bar>")
      case two: True
      define n where "n = low_zeros_of \<bar>k\<bar>"
      have n: "\<bar>k\<bar> = 2 ^ n" unfolding n_def using two by (rule is_power_of_twoD)
      have "(2::int) ^ n < 2 ^ b" using kb by (simp flip: n)
      then have nw: "n \<le> w" using r(3) by simp
      obtain m where m: "to_i128 (\<bar>k\<bar> - 1) = Some m" "p' = fst (by_const p1 OAnd DIVIDEND m w)"
        using res True two by (auto simp: bind_eq_Some_conv)
      have mn: "m = 2 ^ n - 1" using m(1) n by (simp add: to_i128_def split: if_splits)
      obtain j where "by_const p1 OAnd DIVIDEND (2 ^ n - 1) w = (p', j)" using m(2) mn by (metis prod.collapse)
      from and_const_step [OF this d1 nw] show ?thesis using True n smod_nonneg [OF x(1)] by auto
    next
      case False
      obtain m where m: "to_i128 \<bar>k\<bar> = Some m" "p' = fst (left_over p1 i m)"
        using res True False by (auto simp: bind_eq_Some_conv)
      have mk: "m = \<bar>k\<bar>" using m(1) by (simp add: to_i128_def split: if_splits)
      obtain j where "left_over p1 i \<bar>k\<bar> = (p', j)" using m(2) mk by (metis prod.collapse)
      from left_over_step [OF this] gives_holds [OF g(1)] d1
      have "gives p' x j (x - x div \<bar>k\<bar> * \<bar>k\<bar>) w" unfolding w1 by blast
      then show ?thesis using True smod_nonneg [OF x(1)] by (auto simp: minus_div_mult_eq_mod)
    qed
  next
    case False
    show ?thesis
    proof (cases "k < 0")
      case True
      then obtain j where "negated p1 i = (p', j)" using res False by (metis option.inject prod.collapse)
      from negated_step [OF this] gives_holds [OF g(1)]
      have "gives p' x j (- (x div \<bar>k\<bar>)) w" unfolding w1 by blast
      then show ?thesis using False True sdiv_nonneg [OF x(1), of k] by auto
    next
      case pos: False
      then show ?thesis using False res g(1) sdiv_nonneg [OF x(1), of k] k by auto
    qed
  qed
qed

lemma signed_answer:
  assumes q: "rounded p k b = Some (p1, i)" and p: "p = program_new w r"
    and r: "w \<le> 64" "b \<le> w" and x: "- (2 ^ (b - 1)) \<le> x" "x < 2 ^ (b - 1)" and k: "3 \<le> \<bar>k\<bar>"
    and res: "p' = (if rem then fst (left_over p1 i k) else p1)"
  shows "\<exists>j. gives p' x j (if rem then x smod k else x sdiv k) w"
proof -
  have pw: "pr_width p = w" by (simp add: p program_new_def)
  have d: "holds p x DIVIDEND x w" unfolding p by (rule holds_new)
  have g: "gives p1 x i (x sdiv k) w" "grows x p p1"
    using rounded_sound [OF q, of x] d r x k unfolding pw by simp_all
  have w1: "pr_width p1 = w" using grows_shape [OF g(2)] pw by simp
  show ?thesis
  proof (cases rem)
    case True
    obtain j where "left_over p1 i k = (p', j)" using res True by (metis prod.collapse)
    from left_over_step [OF this] gives_holds [OF g(1)] grows_holds [OF g(2) d]
    have "gives p' x j (x - x sdiv k * k) w" unfolding w1 by blast
    then show ?thesis using True smod_sdiv by auto
  next
    case False
    then show ?thesis using res g(1) by auto
  qed
qed

lemma not_power_three:
  assumes "2 \<le> \<bar>k\<bar>" "\<not> is_power_of_two \<bar>k\<bar>" shows "3 \<le> \<bar>k::int\<bar>"
proof (rule ccontr)
  assume "\<not> 3 \<le> \<bar>k\<bar>"
  then have "\<bar>k\<bar> = 2 ^ 1" using assms(1) by simp
  then show False using assms(2) is_power_of_two_iff by blast
qed

definition rewritten :: "division \<Rightarrow> program \<Rightarrow> program option" where
  "rewritten d p =
     (case dv_range d of
        Unsigned bits \<Rightarrow>
          do {
            (p1, quo) \<leftarrow> unsigned_quotient p \<bar>dv_divisor d\<bar> bits;
            if dv_remainder d then
              (if is_power_of_two \<bar>dv_divisor d\<bar> then
                 do { mask \<leftarrow> to_i128 (\<bar>dv_divisor d\<bar> - 1);
                      Some (fst (by_const p1 OAnd DIVIDEND mask (dv_width d))) }
               else do { size \<leftarrow> to_i128 \<bar>dv_divisor d\<bar>; Some (fst (left_over p1 quo size)) })
            else if dv_divisor d < 0 then Some (fst (negated p1 quo))
            else Some p1
          }
      | Signed bits \<Rightarrow>
          if is_power_of_two \<bar>dv_divisor d\<bar> then Some (biased p (dv_divisor d) (dv_remainder d))
          else do {
            (p1, quo) \<leftarrow> rounded p (dv_divisor d) bits;
            Some (if dv_remainder d then fst (left_over p1 quo (dv_divisor d)) else p1)
          })"

lemma if_None_Some: "(if c then None else e) = Some y \<Longrightarrow> \<not> c \<and> e = Some y"
  by (simp split: if_splits)

lemma program_at_cases:
  assumes "program_at d r = Some p"
  shows "dv_width d \<in> {8, 16, 32, 64}" "dv_divisor d \<notin> {0, 1}" "\<not> (dv_signed d \<and> dv_divisor d = - 1)"
    "r \<in> {32, 64}"
    "(if dv_exact d \<and> \<not> dv_remainder d
      then Some (exactly (program_new (dv_width d) r) (dv_signed d) (dv_divisor d))
      else rewritten d (program_new (dv_width d) r)) = Some p"
proof -
  note a = if_None_Some [OF assms [unfolded program_at_def Let_def]]
  note b = if_None_Some [OF conjunct2 [OF a]]
  note c = if_None_Some [OF conjunct2 [OF b]]
  show "dv_width d \<in> {8, 16, 32, 64}" "dv_divisor d \<notin> {0, 1}" "\<not> (dv_signed d \<and> dv_divisor d = - 1)"
    using conjunct1 [OF a] by blast+
  show "r \<in> {32, 64}" using conjunct1 [OF b] by blast
  show "(if dv_exact d \<and> \<not> dv_remainder d
      then Some (exactly (program_new (dv_width d) r) (dv_signed d) (dv_divisor d))
      else rewritten d (program_new (dv_width d) r)) = Some p"
    unfolding rewritten_def by (rule conjunct2 [OF c])
qed

lemma program_gives:
  assumes p: "program_at d r = Some p" and d: "division_ok d" and x: "dividend_ok d x"
  shows "\<exists>j. gives p x j (answer d x) (dv_width d)"
proof -
  let ?w = "dv_width d" and ?k = "dv_divisor d"
  have c: "?w \<in> {8, 16, 32, 64}" "?k \<notin> {0, 1}" "\<not> (dv_signed d \<and> ?k = - 1)" "r \<in> {32, 64}"
    using program_at_cases(1-4) [OF p] by blast+
  then have w: "0 < ?w" "?w \<le> 64" by auto
  have k: "2 \<le> \<bar>?k\<bar>" using c(2,3) d by (auto simp: division_ok_def Let_def split: if_splits)
  define p0 where "p0 = program_new ?w r"
  have pw: "pr_width p0 = ?w" by (simp add: p0_def program_new_def)
  have h: "holds p0 x DIVIDEND x (pr_width p0)" unfolding pw unfolding p0_def by (rule holds_new)
  show ?thesis
  proof (cases "dv_exact d \<and> \<not> dv_remainder d")
    case True
    then have e: "exactly p0 (dv_signed d) ?k = p"
      using program_at_cases(5) [OF p] by (simp add: p0_def)
    have dv: "?k dvd x" using x True by (simp add: dividend_ok_def)
    have "\<exists>i. gives p x i (x div ?k) (pr_width p0)"
    proof (rule exactly_sound [OF e h])
      show "0 < pr_width p0" "pr_width p0 \<le> 128" "?k \<noteq> 0" "?k \<noteq> 1" "?k dvd x"
        using w c(2) dv by (simp_all add: pw)
      show "- (2 ^ (pr_width p0 - 1)) \<le> x \<and> x < 2 ^ (pr_width p0 - 1) \<and> \<bar>?k\<bar> \<le> 2 ^ (pr_width p0 - 1)"
        if "dv_signed d"
        using signed_range [OF d x that] that d unfolding pw by (auto simp: division_ok_def Let_def)
      show "0 \<le> x \<and> x < 2 ^ pr_width p0 \<and> \<bar>?k\<bar> < 2 ^ pr_width p0" if "\<not> dv_signed d"
        using that d x power_bound [of x _ ?w] unfolding pw
        by (auto simp: division_ok_def dividend_ok_def Let_def split: dividend_range.splits)
    qed
    then show ?thesis using True sdiv_exact [OF dv] c(2) by (simp add: answer_def pw)
  next
    case False
    then have re: "rewritten d p0 = Some p" using program_at_cases(5) [OF p] by (simp only: if_False p0_def)
    show ?thesis
    proof (cases "dv_range d")
      case (Unsigned b)
      obtain p1 i where q: "unsigned_quotient p0 \<bar>?k\<bar> b = Some (p1, i)"
        "(if dv_remainder d then
            (if is_power_of_two \<bar>?k\<bar> then
               do { mask \<leftarrow> to_i128 (\<bar>?k\<bar> - 1); Some (fst (by_const p1 OAnd DIVIDEND mask ?w)) }
             else do { size \<leftarrow> to_i128 \<bar>?k\<bar>; Some (fst (left_over p1 i size)) })
          else if ?k < 0 then Some (fst (negated p1 i)) else Some p1) = Some p"
        using re unfolding rewritten_def Unsigned dividend_range.case bind_eq_Some_conv by fast
      have b: "b \<le> ?w" "0 \<le> x" "x < 2 ^ b"
        using d x by (auto simp: division_ok_def dividend_ok_def Let_def Unsigned split: if_splits)
      show ?thesis
        unfolding answer_def using unsigned_answer [OF q(1) p0_def c(4) w(2) b k q(2)] .
    next
      case (Signed b)
      have b: "b \<le> ?w" "- (2 ^ (b - 1)) \<le> x" "x < 2 ^ (b - 1)" "dv_signed d"
        using d x by (auto simp: division_ok_def dividend_ok_def Let_def Signed)
      show ?thesis
      proof (cases "is_power_of_two \<bar>?k\<bar>")
        case True
        have "biased p0 ?k (dv_remainder d) = p"
          using re True unfolding rewritten_def Signed dividend_range.case by (simp only: if_True option.inject)
        moreover have "\<bar>?k\<bar> \<le> 2 ^ (?w - 1)" using d b(4) by (auto simp: division_ok_def Let_def)
        ultimately show ?thesis
          using biased_sound [OF _ h] w(1) signed_range [OF d x b(4)] True k unfolding pw answer_def by blast
      next
        case no: False
        obtain p1 i where "rounded p0 ?k b = Some (p1, i)"
          "p = (if dv_remainder d then fst (left_over p1 i ?k) else p1)"
          using re no unfolding rewritten_def Signed dividend_range.case if_not_P [OF no] bind_eq_Some_conv
            prod.case_distrib option.inject by fast
        from signed_answer [OF this(1) p0_def w(2) b(1-3) not_power_three [OF k no] this(2)]
        show ?thesis unfolding answer_def .
      qed
    qed
  qed
qed

text \<open>
  C15: The rewrite of a division by a constant computes that division. For a register of either
  width, a division as \<open>divide.rs\<close> reads it and a dividend in the range it was told, every step
  of the program \<open>program_at\<close> answers has a value and the last is the quotient truncated
  towards zero, or the remainder with the sign of the dividend, at the width of the division.
\<close>

theorem division_by_constant:
  assumes "program_at d r = Some p" "division_ok d" "dividend_ok d x"
  shows "run p x = Some (answer d x mod 2 ^ dv_width d, dv_width d)"
  using program_gives [OF assms] gives_run by blast

definition seventh :: division where
  "seventh = \<lparr>dv_signed = True, dv_remainder = False, dv_exact = False, dv_width = 32,
     dv_range = Signed 32, dv_divisor = - 7\<rparr>"

lemma division_by_constant_witness:
  "\<exists>p. program_at seventh 64 = Some p \<and> run p (- 100) = Some (14, 32)"
proof -
  have "program_at seventh 64 \<noteq> None" by code_simp
  then obtain p where p: "program_at seventh 64 = Some p" by blast
  have "answer seventh (- 100) = 14" by (simp add: answer_def seventh_def signed_divide_int_def)
  moreover have "division_ok seventh" "dividend_ok seventh (- 100)" "dv_width seventh = 32"
    by (simp_all add: division_ok_def dividend_ok_def seventh_def)
  ultimately show ?thesis using p division_by_constant [OF p, of "- 100"] by simp
qed

section \<open>Which divisions are rewritten\<close>

lemma multiplier_some:
  assumes "2 \<le> d" "1 \<le> p" "p \<le> n" "d \<le> 2 ^ k" "n + k < 128"
  shows "\<exists>m s. multiplier d n p = Some (m, s) \<and> magic_ok d n p m s"
proof -
  have "bit_len (d - 1) \<le> k" using assms(4) by (intro bit_len_le) simp
  then have "n + bit_len (d - 1) < 128" using assms(5) by simp
  then show ?thesis using multiplier_spec [OF assms(1-3)] by metis
qed

lemma unsigned_high_some:
  assumes p: "pr_width p = 64" "pr_register p = 64" and b: "bits \<le> 64" "d < 2 ^ bits"
    and d: "3 \<le> d" "d \<le> 2 ^ 63" "\<not> is_power_of_two d"
  shows "\<exists>r. unsigned_high p d bits = Some r"
proof -
  have b1: "1 \<le> bits" using b(2) d(1) by (cases bits) simp_all
  have d2: "2 \<le> d" "0 < d" using d(1) by simp_all
  obtain m s where ms: "multiplier d 64 bits = Some (m, s)" "magic_ok d 64 bits m s"
    using multiplier_some [OF d2(1) b1 b(1) d(2)] by auto
  let ?k = "low_zeros_of d" and ?d = "d div 2 ^ low_zeros_of d"
  have even: "\<exists>m' s'. multiplier ?d 64 (bits - ?k) = Some (m', s')" if "0 < ?k" "?k < bits"
  proof -
    have dz: "d = ?d * 2 ^ ?k" "odd ?d" using low_zeros_of_spec [OF d2(2)] by simp_all
    have "0 < ?d" using dz(1) d2(2) by (metis zero_less_mult_pos2 zero_less_numeral zero_less_power)
    moreover have "?d \<noteq> 1" using d(3) dz(1) by (metis is_power_of_two_iff mult_1)
    ultimately have "2 \<le> ?d" by simp
    moreover have "?d \<le> d" using d2(2) by (simp add: zdiv_mono2 [of d 1, simplified])
    then have "?d \<le> 2 ^ 63" using d(2) by linarith
    ultimately show ?thesis using multiplier_some [of ?d "bits - ?k" 64 63] that b(1) by fastforce
  qed
  have g: "\<not> (pr_width p \<noteq> pr_register p \<or> bits > pr_register p \<or> d > 2 ^ (pr_register p - 1))"
    using p b(1) d(2) by simp
  show ?thesis
  proof (cases "m < 2 ^ 64")
    case True
    then show ?thesis using ms(1) p g by (simp add: unsigned_high_def Let_def split: prod.splits)
  next
    case False
    have "0 < s" using magic_shift_pos [OF ms(2)] False d(1) by simp
    moreover obtain ev where ev: "(if ?k > 0 \<and> ?k < bits then
        do { (magic, shift) \<leftarrow> multiplier ?d 64 (bits - ?k);
             Some (if magic < 2 ^ 64 then Some (magic, shift) else None) }
      else Some None) = Some ev"
    proof (cases "0 < ?k \<and> ?k < bits")
      case True
      then obtain m' s' where "multiplier ?d 64 (bits - ?k) = Some (m', s')" using even by blast
      then show thesis using that [of "if m' < 2 ^ 64 then Some (m', s') else None"] True by simp
    next
      case False
      then show thesis using that [of None] unfolding if_not_P [OF False] by simp
    qed
    ultimately show ?thesis
      unfolding unsigned_high_def Let_def p ms(1) if_not_P [OF g [unfolded p]] bind.bind_lunit prod.case
        if_not_P [OF False] ev
      by (cases ev) (simp_all split: prod.splits)
  qed
qed

lemma unsigned_quotient_some:
  assumes p: "pr_register p = 64" "pr_width p \<le> 64" "bits \<le> pr_width p" and d: "2 \<le> d" "d < 2 ^ bits"
    and h: "is_power_of_two d \<or> bits \<le> 32 \<or> (pr_width p = 64 \<and> d \<le> 2 ^ 63)"
  shows "\<exists>q i. unsigned_quotient p d bits = Some (q, i)"
proof -
  have b1: "1 \<le> bits" using d by (cases bits) simp_all
  have g: "\<not> (bits \<ge> 128 \<or> d \<ge> 2 ^ bits)" using p d(2) by simp
  consider (two) "is_power_of_two d" | (high) "\<not> is_power_of_two d" "32 < bits"
    | (low) "\<not> is_power_of_two d" "bits \<le> 32" by linarith
  then show ?thesis
  proof cases
    case two
    then show ?thesis using g by (simp add: unsigned_quotient_def Let_def)
  next
    case high
    have "3 \<le> d" using not_power_three [of d] d(1) high(1) by simp
    then obtain r where "unsigned_high p d bits = Some r"
      using unsigned_high_some [of p bits d] p h high d(2) by auto
    then show ?thesis using g high by (cases r) (simp add: unsigned_quotient_def Let_def)
  next
    case low
    obtain m s where ms: "multiplier d bits bits = Some (m, s)"
      using multiplier_some [OF d(1) b1 order_refl, of bits] d(2) low(2) by auto
    have "bit_len (d - 1) \<le> bits" using d(2) by (intro bit_len_le) simp
    then have "m < 2 ^ Suc bits" by (rule multiplier_facts(3) [OF ms d(1) b1 order_refl])
    then have "m < 2 ^ 33" by (rule power_bound) (use low(2) in simp)
    then have "to_i128 m = Some m" "to_i128 (m - 2 ^ 32) = Some (m - 2 ^ 32)"
      by (simp_all add: to_i128_def)
    then show ?thesis
      using g low ms p(1) by (simp add: unsigned_quotient_def Let_def split: prod.splits)
  qed
qed

lemma rounded_some:
  assumes p: "pr_register p = 64" "pr_width p \<in> {8, 16, 32, 64}" "bits \<le> pr_width p"
    and d: "3 \<le> \<bar>d\<bar>" "\<bar>d\<bar> \<le> 2 ^ (bits - 1)" and h: "bits \<le> 32 \<or> pr_width p = 64"
  shows "\<exists>q i. rounded p d bits = Some (q, i)"
proof -
  have b3: "3 \<le> bits"
  proof (rule ccontr)
    assume "\<not> 3 \<le> bits"
    then have "(2::int) ^ (bits - 1) \<le> 2 ^ 1" by (intro power_increasing) simp_all
    then show False using d by simp
  qed
  have b64: "bits \<le> 64" using p by auto
  have d2: "2 \<le> \<bar>d\<bar>" using d(1) by simp
  have pr: "1 \<le> bits - 1" "bits - 1 \<le> 64" "bits - 1 \<le> bits" using b3 b64 by simp_all
  show ?thesis
  proof (cases "bits > 32")
    case True
    obtain m s where "multiplier \<bar>d\<bar> 64 (bits - 1) = Some (m, s)"
      using multiplier_some [OF d2 pr(1,2) d(2)] b64 b3 by auto
    then have "\<exists>r. signed_high p \<bar>d\<bar> bits = Some r"
      using True h p(1) b64 by (simp add: signed_high_def Let_def split: prod.splits)
    then obtain r where "signed_high p \<bar>d\<bar> bits = Some r" by blast
    then show ?thesis using True d(2) by (cases r) (simp add: rounded_def Let_def split: prod.splits)
  next
    case False
    obtain m s where ms: "multiplier \<bar>d\<bar> bits (bits - 1) = Some (m, s)"
    proof -
      have "bits + (bits - 1) < 128" using False by linarith
      from multiplier_some [OF d2 pr(1,3) d(2) this] show thesis using that by blast
    qed
    have "bit_len (\<bar>d\<bar> - 1) \<le> bits - 1" using d(2) by (intro bit_len_le) simp
    then have "m < 2 ^ bits" using multiplier_facts(4) [OF ms d2 pr(1,3)] b3 by simp
    then have "m < 2 ^ 32" by (rule power_bound) (use False in simp)
    then have "to_i128 m = Some m" by (simp add: to_i128_def)
    then show ?thesis using False ms d(2) p(1) by (simp add: rounded_def Let_def split: prod.splits)
  qed
qed



section \<open>The numbers the rewrites use\<close>

text \<open>
  The number \<open>multiplier\<close> answers is a reciprocal. Over every dividend the precision was asked
  for, multiplying by it and shifting is dividing, rounded towards zero from below and one
  further down for a negative dividend; and it fits one bit over the width it was asked at.
\<close>

theorem multiplier_reciprocal:
  assumes "multiplier d bits precision = Some (m, shift)" "2 \<le> d" "1 \<le> precision" "precision \<le> bits"
    and "bit_len (d - 1) \<le> precision"
  shows "m < 2 ^ Suc bits \<and> shift \<le> bit_len (d - 1) \<and>
    (\<forall>x. (0 \<le> x \<longrightarrow> x < 2 ^ precision \<longrightarrow> x * m div 2 ^ (bits + shift) = x div d) \<and>
         (- (2 ^ precision) \<le> x \<longrightarrow> x < 0 \<longrightarrow> x * m div 2 ^ (bits + shift) = - (- x div d) - 1))"
  using multiplier_facts [OF assms(1-4)] magic_quotient magic_floor assms(2,5) by simp

lemma multiplier_reciprocal_witness:
  "\<exists>m shift. multiplier 7 32 31 = Some (m, shift) \<and> 100 * m div 2 ^ (32 + shift) = 14"
proof -
  have b: "bit_len (7 - 1) = 3" by (simp add: bit_len.simps)
  obtain m shift where ms: "multiplier 7 32 31 = Some (m, shift)"
    using multiplier_some [of 7 31 32 3] by auto
  from multiplier_reciprocal [OF this] b have "100 * m div 2 ^ (32 + shift) = 100 div 7" by simp
  then show ?thesis using ms by simp
qed

text \<open>
  \<open>inverse\<close> is the multiplicative inverse. Six rounds of Newton's iteration, started at the odd
  number itself, give the number whose product with it is one at any width up to 128 bits.
\<close>

theorem inverse_is_inverse:
  assumes "odd od" "width \<le> 128"
  shows "od * inverse_of od width mod 2 ^ width = 1 mod 2 ^ width \<and> inverse_of od width < 2 ^ width"
proof -
  have "div_mask width = 2 ^ width - 1" using assms(2) by (simp add: div_mask_def)
  then have "inverse_of od width = newton 6 (od mod 2 ^ 128) (od mod 2 ^ 128) mod 2 ^ width"
    by (simp add: inverse_of_def Let_def and_below)
  then show ?thesis using inverse_of_correct [OF assms] by simp
qed

lemma inverse_is_inverse_witness: "3 * inverse_of 3 32 mod 2 ^ 32 = 1"
  using inverse_is_inverse [of 3 32] by simp

section \<open>At the width of a register\<close>

lemma sdiv_range:
  assumes "- (2 ^ n) \<le> x" "x < 2 ^ n" "k \<noteq> - 1" "k \<noteq> (0::int)"
  shows "- (2 ^ n) \<le> x sdiv k \<and> x sdiv k < 2 ^ n"
proof (cases "k = 1")
  case True
  then show ?thesis using assms by simp
next
  case False
  then have k: "2 \<le> \<bar>k\<bar>" using assms(3,4) by linarith
  have "\<bar>x sdiv k\<bar> \<le> \<bar>x\<bar> div \<bar>k\<bar>" by (simp add: signed_divide_int_def abs_mult abs_sgn_eq pos_imp_zdiv_nonneg_iff)
  also have "\<dots> \<le> \<bar>x\<bar> div 2" using k by (intro zdiv_mono2) simp_all
  finally have "\<bar>x sdiv k\<bar> \<le> \<bar>x\<bar> div 2" .
  moreover have "\<bar>x\<bar> \<le> 2 ^ n" "(1::int) \<le> 2 ^ n" using assms(1,2) by simp_all
  ultimately show ?thesis by linarith
qed

lemma smod_range:
  assumes "- (2 ^ n) \<le> x" "x < 2 ^ n"
  shows "- (2 ^ n) \<le> x smod k \<and> x smod (k::int) < 2 ^ n"
proof -
  have "\<bar>x smod k\<bar> \<le> \<bar>x\<bar> \<and> (0 \<le> x \<longrightarrow> 0 \<le> x smod k) \<and> (x < 0 \<longrightarrow> x smod k \<le> 0)"
  proof (cases "k = 0")
    case False
    have "\<bar>x\<bar> mod \<bar>k\<bar> \<le> \<bar>x\<bar>" using False by (intro zmod_le_nonneg_dividend) simp
    moreover have "0 \<le> \<bar>x\<bar> mod \<bar>k\<bar>" using False by simp
    moreover have "x smod k = sgn x * (\<bar>x\<bar> mod \<bar>k\<bar>)" by (simp add: signed_modulo_int_def)
    ultimately show ?thesis by (cases "0 < x"; cases "x = 0") simp_all
  qed simp
  then show ?thesis using assms by (cases "0 \<le> x") auto
qed

text \<open>
  C17: A division wider than a register of a value that fits in one is the division at the width
  of the register: the narrow division is a proper one, the dividend is in its range, it has
  the same answer, and widening that answer the way \<open>narrowed\<close> says changes nothing.
\<close>

theorem division_narrowed:
  assumes n: "narrowed_division d register = Some (widen, narrow)" and r: "0 < register"
    and d: "division_ok d" "dividend_ok d x"
  shows "division_ok narrow \<and> dividend_ok narrow x \<and> dv_width narrow = register \<and> answer narrow x = answer d x \<and>
    (widen = OZExt \<longrightarrow> 0 \<le> answer d x \<and> answer d x < 2 ^ register) \<and>
    (widen \<noteq> OZExt \<longrightarrow> widen = OSExt \<and> - (2 ^ (register - 1)) \<le> answer d x \<and> answer d x < 2 ^ (register - 1))"
proof -
  let ?k = "dv_divisor d" and ?top = "2 ^ (register - 1) :: int"
  have t: "?top * 2 = 2 ^ register" using r by (simp add: power_eq_if)
  have w: "\<not> dv_width d \<le> register" using n by (auto simp: narrowed_division_def)
  have k0: "?k \<noteq> 0" using d(1) by (simp add: division_ok_def Let_def)
  show ?thesis
  proof (cases "dv_range d")
    case (Unsigned b)
    have c: "b \<le> register" "0 < ?k" "?k < 2 ^ register" "widen = OZExt"
      "narrow = d\<lparr>dv_signed := False, dv_width := register, dv_range := Unsigned b\<rparr>"
      using n w unfolding narrowed_division_def Let_def t by (auto simp: Unsigned split: if_splits)
    have x: "0 \<le> x" "x < 2 ^ b" using d(2) by (simp_all add: dividend_ok_def Unsigned)
    have xr: "x < 2 ^ register" using power_bound [OF x(2) c(1)] .
    have "x div ?k \<le> x div 1" using c(2) x(1) by (intro zdiv_mono2) simp_all
    moreover have "x mod ?k \<le> x" using x(1) by (rule zmod_le_nonneg_dividend)
    moreover have "0 \<le> x div ?k" "0 \<le> x mod ?k" using x(1) c(2) by (simp_all add: pos_imp_zdiv_nonneg_iff)
    ultimately have "0 \<le> answer d x \<and> answer d x < 2 ^ register"
      using xr c(2) sdiv_nonneg [OF x(1) k0] smod_nonneg [OF x(1)] by (simp add: answer_def)
    moreover have "division_ok narrow" "dividend_ok narrow x" "answer narrow x = answer d x"
      using c d x unfolding c(5) by (simp_all add: division_ok_def dividend_ok_def answer_def Let_def)
    ultimately show ?thesis using c(4,5) by simp
  next
    case (Signed b)
    have c: "b \<le> register" "- ?top \<le> ?k" "?k < ?top" "?k \<noteq> - 1" "widen = OSExt"
      "narrow = d\<lparr>dv_signed := True, dv_width := register, dv_range := Signed b\<rparr>"
      using n w unfolding narrowed_division_def Let_def by (auto simp: Signed split: if_splits)
    have x: "- (2 ^ (b - 1)) \<le> x" "x < 2 ^ (b - 1)" and b: "0 < b"
      using d by (simp_all add: division_ok_def dividend_ok_def Let_def Signed)
    have xr: "- ?top \<le> x" "x < ?top" using half_range [OF x(2) c(1)] half_range_neg [OF x(1) c(1)] by simp_all
    have "- ?top \<le> answer d x \<and> answer d x < ?top"
      unfolding answer_def using sdiv_range [OF xr c(4) k0] smod_range [OF xr] by simp
    moreover have "division_ok narrow" "dividend_ok narrow x" "answer narrow x = answer d x"
      using c d x b k0 unfolding c(6) by (simp_all add: division_ok_def dividend_ok_def answer_def Let_def Signed)
    ultimately show ?thesis using c(5,6) by simp
  qed
qed

definition wide_tenth :: division where
  "wide_tenth = \<lparr>dv_signed = False, dv_remainder = False, dv_exact = False, dv_width = 64,
     dv_range = Unsigned 32, dv_divisor = 10\<rparr>"

lemma division_narrowed_witness:
  "\<exists>narrow. narrowed_division wide_tenth 32 = Some (OZExt, narrow) \<and> answer narrow 1234 = 123"
proof -
  obtain narrow where n: "narrowed_division wide_tenth 32 = Some (OZExt, narrow)"
    by (simp add: narrowed_division_def wide_tenth_def)
  have "answer wide_tenth 1234 = 123" by (simp add: answer_def wide_tenth_def signed_divide_int_def)
  moreover have "division_ok wide_tenth" "dividend_ok wide_tenth 1234"
    by (simp_all add: division_ok_def dividend_ok_def wide_tenth_def)
  ultimately show ?thesis using n division_narrowed [OF n] by simp
qed

end
