(* ===== verification/Decimal.thy ===== *)
theory Decimal
  imports Main
begin

text \<open>
  Decimal text as Rust's standard library writes and reads it: \<open>dec\<close> is what \<open>{}\<close> prints for an
  unsigned integer and \<open>undec\<close> the number a run of ASCII digits spells. The two are inverse
  exactly on the texts with no superfluous leading zero.
\<close>

definition is_digit :: "char \<Rightarrow> bool" where
  "is_digit c \<longleftrightarrow> 48 \<le> (of_char c :: nat) \<and> (of_char c :: nat) \<le> 57"

definition digit_char :: "nat \<Rightarrow> char" where
  "digit_char n = char_of (48 + n)"

definition digit_val :: "char \<Rightarrow> nat" where
  "digit_val c = of_char c - 48"

fun dec :: "nat \<Rightarrow> string" where
  "dec n = (if n < 10 then [digit_char n] else dec (n div 10) @ [digit_char (n mod 10)])"

declare dec.simps [simp del]

definition undec :: "string \<Rightarrow> nat" where
  "undec s = foldl (\<lambda>a c. 10 * a + digit_val c) 0 s"

lemma of_char_digit: "n < 10 \<Longrightarrow> of_char (digit_char n) = 48 + n"
  by (simp add: digit_char_def of_char_of)

lemma is_digit_char [simp]: "n < 10 \<Longrightarrow> is_digit (digit_char n)"
  by (simp add: is_digit_def of_char_digit)

lemma digit_val_char [simp]: "n < 10 \<Longrightarrow> digit_val (digit_char n) = n"
  by (simp add: digit_val_def of_char_digit)

lemma digit_char_val: "is_digit c \<Longrightarrow> digit_char (digit_val c) = c"
  by (simp add: is_digit_def digit_char_def digit_val_def)

lemma digit_val_less: "is_digit c \<Longrightarrow> digit_val c < 10"
  by (auto simp: is_digit_def digit_val_def)

lemma undec_snoc [simp]: "undec (s @ [c]) = 10 * undec s + digit_val c"
  by (simp add: undec_def)

lemma undec_Nil [simp]: "undec [] = 0"
  by (simp add: undec_def)

lemma undec_single [simp]: "undec [c] = digit_val c"
  by (simp add: undec_def)

lemma undec_dec: "undec (dec n) = n"
  by (induction n rule: dec.induct) (subst dec.simps, simp)

lemma dec_digits: "list_all is_digit (dec n)"
  by (induction n rule: dec.induct) (subst dec.simps, simp)

lemma dec_not_Nil [simp]: "dec n \<noteq> []"
  by (subst dec.simps) simp

lemma dec_hd: "0 < n \<Longrightarrow> hd (dec n) \<noteq> CHR ''0''"
proof (induction n rule: dec.induct)
  case (1 n)
  show ?case
  proof (cases "n < 10")
    case True
    have "of_char (digit_char n) \<noteq> (of_char (CHR ''0'') :: nat)" using True 1(2) by (simp add: of_char_digit)
    then show ?thesis using True by (subst dec.simps) auto
  next
    case False
    then show ?thesis using 1 by (subst dec.simps) (simp add: hd_append)
  qed
qed

lemma dec_single: "dec n = s \<Longrightarrow> hd s = CHR ''0'' \<Longrightarrow> length s = 1"
  using dec_hd [of n] by (cases "n = 0") (auto simp: dec.simps [of 0])

lemma undec_pos: "list_all is_digit s \<Longrightarrow> s \<noteq> [] \<Longrightarrow> hd s \<noteq> CHR ''0'' \<Longrightarrow> 0 < undec s"
proof (induction s rule: rev_induct)
  case (snoc c s)
  show ?case
  proof (cases "s = []")
    case True
    have "is_digit c" "c \<noteq> CHR ''0''" using snoc.prems True by simp_all
    then have "(of_char c :: nat) \<noteq> of_char (CHR ''0'')" by (simp only: of_char_eq_iff not_False_eq_True)
    then show ?thesis using \<open>is_digit c\<close> True by (simp add: digit_val_def is_digit_def)
  next
    case False
    then show ?thesis using snoc by simp
  qed
qed simp

lemma dec_undec:
  "list_all is_digit s \<Longrightarrow> s \<noteq> [] \<Longrightarrow> hd s \<noteq> CHR ''0'' \<or> length s = 1 \<Longrightarrow> dec (undec s) = s"
proof (induction s rule: rev_induct)
  case (snoc c s)
  have c: "is_digit c" using snoc.prems by simp
  note v = digit_val_less [OF c] digit_char_val [OF c]
  show ?case
  proof (cases "s = []")
    case True
    then show ?thesis using v by (simp add: dec.simps)
  next
    case False
    then have h: "hd s \<noteq> CHR ''0''" using snoc.prems(3) by (auto simp: hd_append)
    have "0 < undec s" using undec_pos snoc.prems(1) False h by simp
    then have "\<not> 10 * undec s + digit_val c < 10" by simp
    moreover have "(10 * undec s + digit_val c) div 10 = undec s" "(10 * undec s + digit_val c) mod 10 = digit_val c"
      using v(1) by simp_all
    ultimately show ?thesis using snoc.IH snoc.prems(1) False h v(2) by (subst dec.simps) simp
  qed
qed simp

end
