(* ===== verification/IrType.thy ===== *)
theory IrType
  imports Decimal "HOL-Library.Word"
begin

text \<open>
  The packed type of the IR, \<open>crates/rucc-ir/src/ty.rs\<close>: a kind, a width and a lane count in the 32
  bits of one word, the constructors that check what goes in, and the textual form with its
  parser. A panic of a constructor is \<open>None\<close>. The theorems are that unpacking gives back what
  was packed and that the text and the type determine each other, character for character.
\<close>

unbundle bit_operations_syntax

type_synonym u32 = "32 word"

section \<open>Kinds and formats\<close>

datatype kind = KVoid | KInt | KFloat | KPtr | KMem | KCap

fun kind_code :: "kind \<Rightarrow> u32" where
  "kind_code KVoid = 0"
| "kind_code KInt = 1"
| "kind_code KFloat = 2"
| "kind_code KPtr = 3"
| "kind_code KMem = 4"
| "kind_code KCap = 5"

datatype float_format = F16 | F32 | F64 | F80 | F128 | D32 | D64 | D128

fun float_bits :: "float_format \<Rightarrow> u32" where
  "float_bits F16 = 16"
| "float_bits F32 = 32"
| "float_bits F64 = 64"
| "float_bits F80 = 80"
| "float_bits F128 = 128"
| "float_bits D128 = 128"
| "float_bits D32 = 32"
| "float_bits D64 = 64"

definition is_decimal :: "float_format \<Rightarrow> bool" where
  "is_decimal f \<longleftrightarrow> f \<in> {D32, D64, D128}"

definition float_from_bits :: "u32 \<Rightarrow> float_format option" where
  "float_from_bits bits =
     (if bits = 16 then Some F16 else if bits = 32 then Some F32 else if bits = 64 then Some F64
      else if bits = 80 then Some F80 else if bits = 128 then Some F128 else None)"

text \<open>The encodings of \<open>rucc_base::float\<close> an IR format can be.\<close>

datatype encoding = Half | Single | Double | X87Extended | Quad | Decimal32 | Decimal64 | Decimal128

fun float_encoding :: "float_format \<Rightarrow> encoding" where
  "float_encoding F16 = Half"
| "float_encoding F32 = Single"
| "float_encoding F64 = Double"
| "float_encoding F80 = X87Extended"
| "float_encoding F128 = Quad"
| "float_encoding D32 = Decimal32"
| "float_encoding D64 = Decimal64"
| "float_encoding D128 = Decimal128"

section \<open>The packing\<close>

definition BITS_MASK :: u32 where "BITS_MASK = 0xffff"

definition LANES_SHIFT :: nat where "LANES_SHIFT = 16"

definition LANES_MASK :: u32 where "LANES_MASK = 0x1fff"

definition KIND_SHIFT :: nat where "KIND_SHIFT = 29"

definition DECIMAL :: u32 where "DECIMAL = push_bit 15 1"

definition MAX_TYPE_BITS :: u32 where "MAX_TYPE_BITS = BITS_MASK"

definition MAX_LANES :: u32 where "MAX_LANES = LANES_MASK + 1"

definition float_code :: "float_format \<Rightarrow> u32" where
  "float_code f = (if is_decimal f then float_bits f OR DECIMAL else float_bits f)"

definition float_from_code :: "u32 \<Rightarrow> float_format option" where
  "float_from_code c =
     (if c = DECIMAL OR 32 then Some D32 else if c = DECIMAL OR 64 then Some D64
      else if c = DECIMAL OR 128 then Some D128 else float_from_bits c)"

datatype irtype = Type (raw: u32)

definition pack :: "kind \<Rightarrow> u32 \<Rightarrow> u32 \<Rightarrow> irtype" where
  "pack k bits lanes =
     Type (push_bit KIND_SHIFT (kind_code k) OR push_bit LANES_SHIFT (lanes - 1) OR bits)"

definition VOID :: irtype where "VOID = pack KVoid 0 1"

definition PTR :: irtype where "PTR = pack KPtr 0 1"

definition MEM :: irtype where "MEM = pack KMem 0 1"

definition CAP :: irtype where "CAP = pack KCap 0 1"

definition I1 :: irtype where "I1 = pack KInt 1 1"

definition kind_of :: "irtype \<Rightarrow> kind" where
  "kind_of t =
     (let k = drop_bit KIND_SHIFT (raw t)
      in if k = 0 then KVoid else if k = 1 then KInt else if k = 2 then KFloat
         else if k = 3 then KPtr else if k = 4 then KMem else KCap)"

definition type_field :: "irtype \<Rightarrow> u32" where
  "type_field t = raw t AND BITS_MASK"

definition type_bits :: "irtype \<Rightarrow> u32" where
  "type_bits t = (if kind_of t = KFloat then type_field t AND NOT DECIMAL else type_field t)"

definition type_lanes :: "irtype \<Rightarrow> u32" where
  "type_lanes t = (drop_bit LANES_SHIFT (raw t) AND LANES_MASK) + 1"

definition is_scalar :: "irtype \<Rightarrow> bool" where
  "is_scalar t \<longleftrightarrow> type_lanes t = 1"

definition is_vector :: "irtype \<Rightarrow> bool" where
  "is_vector t \<longleftrightarrow> type_lanes t > 1"

definition type_int :: "u32 \<Rightarrow> irtype option" where
  "type_int bits = (if bits > 0 \<and> bits \<le> MAX_TYPE_BITS then Some (pack KInt bits 1) else None)"

definition type_float :: "float_format \<Rightarrow> irtype" where
  "type_float f = pack KFloat (float_code f) 1"

definition type_vector :: "irtype \<Rightarrow> u32 \<Rightarrow> irtype option" where
  "type_vector lane lanes =
     (if \<not> (lanes > 0 \<and> lanes \<le> MAX_LANES) then None
      else if \<not> is_scalar lane then None
      else if kind_of lane \<notin> {KInt, KFloat} then None
      else Some (pack (kind_of lane) (type_field lane) lanes))"

definition type_lane :: "irtype \<Rightarrow> irtype" where
  "type_lane t = pack (kind_of t) (type_field t) 1"

definition with_lane :: "irtype \<Rightarrow> irtype \<Rightarrow> irtype option" where
  "with_lane t lane = type_vector lane (type_lanes t)"

definition is_int :: "irtype \<Rightarrow> bool" where "is_int t \<longleftrightarrow> kind_of t = KInt"

definition is_float :: "irtype \<Rightarrow> bool" where "is_float t \<longleftrightarrow> kind_of t = KFloat"

definition is_ptr :: "irtype \<Rightarrow> bool" where "is_ptr t \<longleftrightarrow> kind_of t = KPtr"

definition is_void :: "irtype \<Rightarrow> bool" where "is_void t \<longleftrightarrow> kind_of t = KVoid"

definition is_mem :: "irtype \<Rightarrow> bool" where "is_mem t \<longleftrightarrow> kind_of t = KMem"

definition is_cap :: "irtype \<Rightarrow> bool" where "is_cap t \<longleftrightarrow> kind_of t = KCap"

definition type_format :: "irtype \<Rightarrow> float_format option" where
  "type_format t = (if kind_of t = KFloat then float_from_code (type_field t) else None)"

section \<open>The textual form\<close>

definition parse_u32 :: "string \<Rightarrow> u32 option" where
  "parse_u32 s =
     (if s = [] \<or> (hd s = CHR ''0'' \<and> length s > 1) then None
      else if \<not> list_all is_digit s then None
      else if undec s < 2 ^ 32 then Some (word_of_nat (undec s)) else None)"

text \<open>\<open>split_once\<close>: what is before the first of the character and what is after it.\<close>

definition split_once :: "char \<Rightarrow> string \<Rightarrow> (string \<times> string) option" where
  "split_once c s =
     (if c \<in> set s then Some (takeWhile (\<lambda>d. d \<noteq> c) s, tl (dropWhile (\<lambda>d. d \<noteq> c) s)) else None)"

definition parse_lane :: "string \<Rightarrow> irtype option" where
  "parse_lane head =
     (case head of
        [] \<Rightarrow> None
      | c # rest \<Rightarrow>
        if c \<notin> {CHR ''i'', CHR ''f'', CHR ''d''} then None
        else case parse_u32 rest of
               None \<Rightarrow> None
             | Some bits \<Rightarrow>
               if c = CHR ''i'' \<and> bits > 0 \<and> bits \<le> MAX_TYPE_BITS then type_int bits
               else if c = CHR ''f'' then map_option type_float (float_from_bits bits)
               else if c = CHR ''d'' \<and> bits < DECIMAL
                    then map_option type_float (float_from_code (bits OR DECIMAL))
               else None)"

definition parse_type :: "string \<Rightarrow> irtype option" where
  "parse_type s =
     (if s = ''void'' then Some VOID else if s = ''ptr'' then Some PTR
      else if s = ''mem'' then Some MEM else if s = ''cap'' then Some CAP
      else
        case (case split_once (CHR ''x'') s of
                Some (head, lanes) \<Rightarrow>
                  (case parse_u32 lanes of
                     Some n \<Rightarrow> if n > 1 then Some (head, n) else None
                   | None \<Rightarrow> None)
              | None \<Rightarrow> Some (s, 1)) of
          None \<Rightarrow> None
        | Some (head, lanes) \<Rightarrow>
            (case parse_lane head of
               None \<Rightarrow> None
             | Some lane \<Rightarrow>
                 if lanes > MAX_LANES then None
                 else if lanes = 1 then Some lane else type_vector lane lanes))"

definition show_float :: "float_format \<Rightarrow> string" where
  "show_float f = (if is_decimal f then CHR ''d'' else CHR ''f'') # dec (unat (float_bits f))"

definition show_type :: "irtype \<Rightarrow> string" where
  "show_type t =
     (case kind_of t of
        KVoid \<Rightarrow> ''void''
      | KPtr \<Rightarrow> ''ptr''
      | KMem \<Rightarrow> ''mem''
      | KCap \<Rightarrow> ''cap''
      | KInt \<Rightarrow> (CHR ''i'' # dec (unat (type_bits t)))
          @ (if is_vector t then CHR ''x'' # dec (unat (type_lanes t)) else [])
      | KFloat \<Rightarrow> (case type_format t of
            Some f \<Rightarrow> show_float f
          | None \<Rightarrow> CHR ''f'' # dec (unat (type_bits t)))
          @ (if is_vector t then CHR ''x'' # dec (unat (type_lanes t)) else []))"

section \<open>The types that can be built\<close>

inductive built :: "irtype \<Rightarrow> bool" where
  void: "built VOID"
| ptr: "built PTR"
| mem: "built MEM"
| cap: "built CAP"
| int: "type_int bits = Some t \<Longrightarrow> built t"
| float: "built (type_float f)"
| vector: "built lane \<Longrightarrow> type_vector lane lanes = Some t \<Longrightarrow> built t"

text \<open>Types are ordered by their packed form, as the derived \<open>Ord\<close> orders them.\<close>

instantiation irtype :: linorder
begin

definition less_eq_irtype :: "irtype \<Rightarrow> irtype \<Rightarrow> bool" where
  "less_eq_irtype s t \<longleftrightarrow> raw s \<le> raw t"

definition less_irtype :: "irtype \<Rightarrow> irtype \<Rightarrow> bool" where
  "less_irtype s t \<longleftrightarrow> raw s < raw t"

instance
  by standard (auto simp: less_eq_irtype_def less_irtype_def irtype.expand)

end

section \<open>Unpacking\<close>

lemma u32_fits: "k < 32 \<Longrightarrow> take_bit k (w :: u32) = w \<longleftrightarrow> unat w < 2 ^ k"
proof -
  have "take_bit k w = w \<longleftrightarrow> unat w mod 2 ^ k = unat w"
    unfolding word_unat_eq_iff unsigned_take_bit_eq by (simp only: take_bit_eq_mod)
  also have "\<dots> \<longleftrightarrow> unat w < 2 ^ k" by (metis mod_less mod_less_divisor zero_less_numeral zero_less_power)
  finally show ?thesis .
qed

lemma fits_16: "w \<le> MAX_TYPE_BITS \<longleftrightarrow> take_bit 16 w = w"
  by (auto simp: u32_fits word_le_nat_alt MAX_TYPE_BITS_def BITS_MASK_def)

lemma fits_13: "0 < l \<Longrightarrow> l \<le> MAX_LANES \<Longrightarrow> take_bit 13 (l - 1) = l - 1"
proof -
  assume l: "0 < l" "l \<le> MAX_LANES"
  then have "unat l \<le> 8192" "0 < unat l" by (simp_all add: word_le_nat_alt MAX_LANES_def LANES_MASK_def word_greater_zero_iff unat_gt_0)
  moreover have "unat (l - 1) = unat l - 1" using l(1) by (simp add: unat_minus_one word_greater_zero_iff)
  ultimately show ?thesis by (simp add: u32_fits)
qed

lemma pack_bit:
  assumes "take_bit 16 b = b" "take_bit 13 (l - 1) = l - 1"
  shows "bit (raw (pack k b l)) n \<longleftrightarrow>
    (if n < 16 then bit b n else if n < 29 then bit (l - 1) (n - 16) else n < 32 \<and> bit (kind_code k) (n - 29))"
proof -
  have "bit b n \<Longrightarrow> n < 16" "bit (l - 1) m \<Longrightarrow> m < 13" for m
    using assms by (metis bit_take_bit_iff)+
  from this(1) this(2) [of "n - 16"] show ?thesis
    by (auto simp: pack_def bit_simps KIND_SHIFT_def LANES_SHIFT_def)
qed

lemma kind_code_take: "take_bit 3 (kind_code k) = kind_code k"
  by (cases k) (simp_all add: u32_fits)

lemma pack_fields:
  assumes "take_bit 16 b = b" "take_bit 13 (l - 1) = l - 1"
  shows "kind_of (pack k b l) = k" "type_field (pack k b l) = b" "type_lanes (pack k b l) = l"
proof -
  have m: "BITS_MASK = mask 16" "LANES_MASK = mask 13"
    by (simp_all add: BITS_MASK_def LANES_MASK_def mask_eq_exp_minus_1)
  have "bit (kind_code k) n \<Longrightarrow> n < 3" for n using kind_code_take by (metis bit_take_bit_iff)
  then have "drop_bit KIND_SHIFT (raw (pack k b l)) = kind_code k"
    by (intro bit_word_eqI) (auto simp: bit_drop_bit_eq pack_bit [OF assms] KIND_SHIFT_def)
  then show "kind_of (pack k b l) = k" by (cases k) (simp_all add: kind_of_def)
  have "bit b n \<Longrightarrow> n < 16" for n using assms(1) by (metis bit_take_bit_iff)
  then show "type_field (pack k b l) = b"
    unfolding type_field_def m
    by (intro bit_word_eqI) (auto simp: bit_and_iff bit_mask_iff pack_bit [OF assms])
  have "bit (l - 1) n \<Longrightarrow> n < 13" for n using assms(2) by (metis bit_take_bit_iff)
  then have "drop_bit LANES_SHIFT (raw (pack k b l)) AND LANES_MASK = l - 1"
    unfolding m
    by (intro bit_word_eqI) (auto simp: bit_and_iff bit_mask_iff bit_drop_bit_eq pack_bit [OF assms] LANES_SHIFT_def)
  then show "type_lanes (pack k b l) = l" by (simp add: type_lanes_def)
qed

lemma lane_fits: "take_bit 13 (1 - 1 :: u32) = 1 - 1"
  by simp

lemma code_fits: "take_bit 16 (float_code f) = float_code f"
  by (cases f) (simp_all add: float_code_def is_decimal_def DECIMAL_def)

lemmas unpack = pack_fields [OF _ lane_fits]

lemmas scalar_unpack = unpack [where b = 0, simplified]

text \<open>What the fields of a type that can be built are.\<close>

definition canonical :: "irtype \<Rightarrow> bool" where
  "canonical t \<longleftrightarrow> t \<in> {VOID, PTR, MEM, CAP} \<or>
     (\<exists>k b l. t = pack k b l \<and> 0 < l \<and> l \<le> MAX_LANES \<and> take_bit 16 b = b \<and>
        (k = KInt \<and> 0 < b \<or> k = KFloat \<and> b \<in> range float_code))"

lemma canonicalI:
  assumes "t = pack k b l" "0 < l" "l \<le> MAX_LANES" "take_bit 16 b = b"
    and "k = KInt \<and> 0 < b \<or> k = KFloat \<and> b \<in> range float_code"
  shows "canonical t"
  using assms unfolding canonical_def by blast

lemma less_one_u32: "(l :: u32) < 1 \<Longrightarrow> l = 0"
  by (simp add: word_less_nat_alt word_unat_eq_iff)

lemma one_lane: "(0::u32) < 1" "1 \<le> MAX_LANES"
  by (simp_all add: MAX_LANES_def LANES_MASK_def)

lemma type_int_SomeD:
  "type_int b = Some t \<Longrightarrow> t = pack KInt b 1 \<and> 0 < b \<and> take_bit 16 b = b"
  by (auto simp: type_int_def fits_16 split: if_splits)

lemma type_vector_SomeD:
  assumes "type_vector lane l = Some t"
  shows "t = pack (kind_of lane) (type_field lane) l" "0 < l" "l \<le> MAX_LANES" "is_scalar lane"
    "kind_of lane = KInt \<or> kind_of lane = KFloat"
  using assms by (auto simp: type_vector_def split: if_splits)

lemma built_canonical: "built t \<Longrightarrow> canonical t"
proof (induction rule: built.induct)
  case (int bits t)
  then show ?case using type_int_SomeD one_lane by (intro canonicalI [of t KInt bits 1]) auto
next
  case (float f)
  then show ?case using one_lane code_fits by (intro canonicalI [OF type_float_def]) auto
next
  case (vector lane lanes t)
  note v = type_vector_SomeD [OF vector(2)]
  have "lane \<notin> {VOID, PTR, MEM, CAP}"
    using v(5) by (auto simp: VOID_def PTR_def MEM_def CAP_def scalar_unpack)
  then obtain k b l where l: "lane = pack k b l" "0 < l" "l \<le> MAX_LANES" "take_bit 16 b = b"
    "k = KInt \<and> 0 < b \<or> k = KFloat \<and> b \<in> range float_code"
    using vector.IH unfolding canonical_def by blast
  have "kind_of lane = k" "type_field lane = b"
    using pack_fields [OF l(4) fits_13 [OF l(2,3)]] l(1) by simp_all
  then show ?case using v l by (intro canonicalI [of t k b lanes]) simp_all
qed (simp_all add: canonical_def)

section \<open>The text and the type\<close>

lemma parse_u32_dec: "n < 2 ^ 32 \<Longrightarrow> parse_u32 (dec n) = Some (word_of_nat n)"
  using dec_single [of n "dec n"] by (auto simp: parse_u32_def dec_digits undec_dec)

lemma parse_u32_unat: "parse_u32 (dec (unat w)) = Some w"
proof -
  have "unat w < 2 ^ LENGTH(32)" by (rule unsigned_less)
  then show ?thesis by (simp add: parse_u32_dec)
qed

lemma parse_u32_SomeD: "parse_u32 s = Some w \<Longrightarrow> s = dec (unat w)"
proof -
  assume p: "parse_u32 s = Some w"
  have s: "s \<noteq> []" "hd s \<noteq> CHR ''0'' \<or> length s = 1" "list_all is_digit s" "undec s < 2 ^ 32"
    "w = word_of_nat (undec s)"
    using p by (auto simp: parse_u32_def split: if_splits) (cases s; auto)+
  have "unat w = undec s" using s(4) by (simp add: s(5) unsigned_of_nat take_bit_nat_eq_self)
  then show ?thesis using dec_undec [OF s(3,1,2)] by simp
qed

lemma not_digit: "c \<in> {CHR ''x'', CHR ''i''} \<Longrightarrow> \<not> is_digit c"
  by (auto simp: is_digit_def)

lemma no_x: "CHR ''x'' \<notin> set (dec n)"
  using dec_digits [of n] not_digit by (auto simp: list_all_iff)

lemma split_once_append: "c \<notin> set a \<Longrightarrow> split_once c (a @ c # b) = Some (a, b)"
  by (auto simp: split_once_def takeWhile_append dropWhile_append)

lemma split_once_None: "c \<notin> set a \<Longrightarrow> split_once c a = None"
  by (simp add: split_once_def)

lemma split_once_SomeD: "split_once c s = Some (a, b) \<Longrightarrow> s = a @ c # b"
proof -
  assume s: "split_once c s = Some (a, b)"
  then have c: "c \<in> set s" "a = takeWhile (\<lambda>d. d \<noteq> c) s" "b = tl (dropWhile (\<lambda>d. d \<noteq> c) s)"
    by (auto simp: split_once_def split: if_splits)
  have "dropWhile (\<lambda>d. d \<noteq> c) s \<noteq> []" using c(1) by (simp add: dropWhile_eq_Nil_conv)
  then have "hd (dropWhile (\<lambda>d. d \<noteq> c) s) = c" using hd_dropWhile [of "\<lambda>d. d \<noteq> c" s] by simp
  then have "c # b = dropWhile (\<lambda>d. d \<noteq> c) s"
    using list.collapse [OF \<open>dropWhile (\<lambda>d. d \<noteq> c) s \<noteq> []\<close>] c(3) by simp
  then show ?thesis using takeWhile_dropWhile_id [of "\<lambda>d. d \<noteq> c" s] c(2) by simp
qed

lemma float_code_from: "float_from_code (float_code f) = Some f"
  by (cases f) (simp_all add: float_code_def is_decimal_def DECIMAL_def float_from_code_def float_from_bits_def)

lemma float_from_bitsD: "float_from_bits b = Some f \<Longrightarrow> b = float_bits f \<and> \<not> is_decimal f"
  by (auto simp: float_from_bits_def is_decimal_def split: if_splits)

lemma float_from_decimalD:
  assumes "float_from_code (b OR DECIMAL) = Some f" "b < DECIMAL"
  shows "b = float_bits f" "is_decimal f"
proof -
  have b: "take_bit 15 b = b" using assms(2) by (simp add: u32_fits DECIMAL_def word_less_nat_alt)
  have lo: "take_bit 15 (b OR DECIMAL) = b" using b by (simp add: DECIMAL_def)
  have hi: "bit (b OR DECIMAL) 15" by (simp add: DECIMAL_def bit_or_iff)
  have "float_from_bits (b OR DECIMAL) = None"
    using hi by (auto simp: float_from_bits_def)
  then have "(b OR DECIMAL = DECIMAL OR 32 \<and> f = D32) \<or> (b OR DECIMAL = DECIMAL OR 64 \<and> f = D64) \<or>
    (b OR DECIMAL = DECIMAL OR 128 \<and> f = D128)"
    using assms(1) by (auto simp: float_from_code_def split: if_splits)
  then have "(b = take_bit 15 (DECIMAL OR 32) \<and> f = D32) \<or> (b = take_bit 15 (DECIMAL OR 64) \<and> f = D64) \<or>
    (b = take_bit 15 (DECIMAL OR 128) \<and> f = D128)"
    using lo by metis
  then show "b = float_bits f" "is_decimal f" by (auto simp: DECIMAL_def is_decimal_def)
qed

text \<open>What a lane is written as.\<close>

lemma show_lane:
  assumes "take_bit 16 b = b" "0 < l" "l \<le> MAX_LANES" "k = KInt \<or> k = KFloat"
  shows "show_type (pack k b l) = show_type (pack k b 1) @ (if l > 1 then CHR ''x'' # dec (unat l) else [])"
  using assms pack_fields [OF assms(1) fits_13 [OF assms(2,3)]] unpack [OF assms(1)]
  by (auto simp: show_type_def is_vector_def type_bits_def type_format_def split: option.split)

lemma show_int: "type_int b = Some t \<Longrightarrow> show_type t = CHR ''i'' # dec (unat b)"
  using type_int_SomeD [of b t] unpack [of b] by (auto simp: show_type_def is_vector_def type_bits_def)

lemma show_type_float: "show_type (type_float f) = show_float f"
  using unpack [OF code_fits [of f]]
  by (simp add: show_type_def type_float_def is_vector_def type_format_def float_code_from)

lemma parse_lane_int: "type_int b = Some t \<Longrightarrow> parse_lane (CHR ''i'' # dec (unat b)) = Some t"
  by (auto simp: parse_lane_def parse_u32_unat type_int_def split: if_splits)

lemma parse_lane_float: "parse_lane (show_float f) = Some (type_float f)"
proof (cases "is_decimal f")
  case True
  then have "float_from_code (float_bits f OR DECIMAL) = Some f"
    using float_code_from [of f] by (simp add: float_code_def)
  moreover have "float_bits f < DECIMAL" by (cases f) (simp_all add: DECIMAL_def)
  ultimately show ?thesis using True by (simp add: show_float_def parse_lane_def parse_u32_unat)
next
  case False
  then have "float_from_bits (float_bits f) = Some f"
    by (cases f) (simp_all add: is_decimal_def float_from_bits_def)
  then show ?thesis using False by (simp add: show_float_def parse_lane_def parse_u32_unat)
qed

lemma parse_laneD:
  assumes "parse_lane s = Some t"
  shows "(\<exists>b. s = CHR ''i'' # dec (unat b) \<and> type_int b = Some t) \<or> (\<exists>f. s = show_float f \<and> t = type_float f)"
proof -
  obtain c rest bits where s: "s = c # rest" "parse_u32 rest = Some bits"
    using assms by (auto simp: parse_lane_def split: list.splits option.splits if_splits)
  have rest: "rest = dec (unat bits)" using parse_u32_SomeD [OF s(2)] .
  consider "c = CHR ''i''" "type_int bits = Some t"
    | f where "c = CHR ''f''" "float_from_bits bits = Some f" "t = type_float f"
    | f where "c = CHR ''d''" "bits < DECIMAL" "float_from_code (bits OR DECIMAL) = Some f" "t = type_float f"
    using assms s by (auto simp: parse_lane_def split: if_splits)
  then show ?thesis
  proof cases
    case 1
    then show ?thesis using s rest by blast
  next
    case 2
    then show ?thesis using s rest float_from_bitsD [OF 2(2)] by (auto simp: show_float_def)
  next
    case 3
    then show ?thesis using s rest float_from_decimalD [OF 3(3,2)] by (auto simp: show_float_def)
  qed
qed

lemma show_lane_head:
  "type_int b = Some t \<or> t = type_float f \<Longrightarrow>
    show_type t \<noteq> [] \<and> hd (show_type t) \<in> {CHR ''i'', CHR ''f'', CHR ''d''} \<and> CHR ''x'' \<notin> set (show_type t)"
  using show_int [of b t] show_type_float [of f] no_x by (auto simp: show_float_def split: if_splits)

text \<open>A scalar lane: an integer or a float of one lane, and a vector of it.\<close>

lemma canonical_cases:
  assumes "canonical t"
  obtains "t \<in> {VOID, PTR, MEM, CAP}"
  | lane where "(\<exists>b. type_int b = Some lane) \<or> (\<exists>f. lane = type_float f)" "t = lane"
      "type_lanes t = 1" "show_type t = show_type lane" "parse_lane (show_type lane) = Some lane"
  | lane l where "(\<exists>b. type_int b = Some lane) \<or> (\<exists>f. lane = type_float f)" "1 < l" "l \<le> MAX_LANES"
      "type_vector lane l = Some t" "show_type t = show_type lane @ CHR ''x'' # dec (unat l)"
      "parse_lane (show_type lane) = Some lane"
proof (cases "t \<in> {VOID, PTR, MEM, CAP}")
  case False
  then obtain k b l where t: "t = pack k b l" "0 < l" "l \<le> MAX_LANES" "take_bit 16 b = b"
    "k = KInt \<and> 0 < b \<or> k = KFloat \<and> b \<in> range float_code"
    using assms unfolding canonical_def by blast
  let ?lane = "pack k b 1"
  have lane: "(\<exists>b. type_int b = Some ?lane) \<or> (\<exists>f. ?lane = type_float f)"
    using t(4,5) by (auto simp: type_int_def fits_16 type_float_def)
  have parse: "parse_lane (show_type ?lane) = Some ?lane"
    using lane parse_lane_int show_int parse_lane_float show_type_float by fastforce
  have kk: "k = KInt \<or> k = KFloat" using t(5) by blast
  note u = unpack [OF t(4)] and s = show_lane [OF t(4,2,3) kk]
  show thesis
  proof (cases "l = 1")
    case True
    then show thesis using that(2) [OF lane] t(1) u parse by simp
  next
    case False
    then have l: "1 < l" using t(2) using less_one_u32 [of l] by (auto simp: neq_iff)
    have "type_vector ?lane l = Some t" using t u kk by (auto simp: type_vector_def is_scalar_def)
    then show thesis using that(3) [OF lane l t(3)] s l t(1) parse by simp
  qed
qed (use that(1) in blast)

lemma parse_type_lane:
  assumes "hd s \<in> {CHR ''i'', CHR ''f'', CHR ''d''}"
  shows "parse_type s =
     (case (case split_once (CHR ''x'') s of
              Some (head, lanes) \<Rightarrow>
                (case parse_u32 lanes of Some n \<Rightarrow> if n > 1 then Some (head, n) else None | None \<Rightarrow> None)
            | None \<Rightarrow> Some (s, 1)) of
        None \<Rightarrow> None
      | Some (head, lanes) \<Rightarrow>
          (case parse_lane head of
             None \<Rightarrow> None
           | Some lane \<Rightarrow>
               if lanes > MAX_LANES then None
               else if lanes = 1 then Some lane else type_vector lane lanes))"
proof -
  have "s \<notin> {''void'', ''ptr'', ''mem'', ''cap''}" using assms by auto
  then show ?thesis by (simp add: parse_type_def)
qed

lemma parse_show: "canonical t \<Longrightarrow> parse_type (show_type t) = Some t"
proof (erule canonical_cases)
  assume "t \<in> {VOID, PTR, MEM, CAP}"
  then show "parse_type (show_type t) = Some t"
    by (auto simp: show_type_def parse_type_def VOID_def PTR_def MEM_def CAP_def scalar_unpack)
next
  fix lane
  assume lane: "(\<exists>b. type_int b = Some lane) \<or> (\<exists>f. lane = type_float f)" and t: "t = lane"
    "parse_lane (show_type lane) = Some lane"
  have h: "hd (show_type lane) \<in> {CHR ''i'', CHR ''f'', CHR ''d''}" "CHR ''x'' \<notin> set (show_type lane)"
    using lane show_lane_head by blast+
  show "parse_type (show_type t) = Some t"
    unfolding t(1) parse_type_lane [OF h(1)] split_once_None [OF h(2)] using t(2)
    by (simp add: MAX_LANES_def LANES_MASK_def)
next
  fix lane l
  assume lane: "(\<exists>b. type_int b = Some lane) \<or> (\<exists>f. lane = type_float f)"
    and l: "1 < l" "l \<le> MAX_LANES" and t: "type_vector lane l = Some t"
    "show_type t = show_type lane @ CHR ''x'' # dec (unat l)" "parse_lane (show_type lane) = Some lane"
  have h: "hd (show_type lane) \<in> {CHR ''i'', CHR ''f'', CHR ''d''}" "CHR ''x'' \<notin> set (show_type lane)"
    "show_type lane \<noteq> []"
    using lane show_lane_head by blast+
  have h': "hd (show_type t) \<in> {CHR ''i'', CHR ''f'', CHR ''d''}" using h t(2) by simp
  show "parse_type (show_type t) = Some t"
    unfolding parse_type_lane [OF h'] unfolding t(2) split_once_append [OF h(2)]
    using t l by (auto simp: parse_u32_unat not_less)
qed

lemma show_parse:
  assumes "parse_type s = Some t"
  shows "built t \<and> show_type t = s"
proof (cases "s \<in> {''void'', ''ptr'', ''mem'', ''cap''}")
  case True
  then show ?thesis
    using assms built.intros(1-4)
    by (auto simp: parse_type_def show_type_def VOID_def PTR_def MEM_def CAP_def scalar_unpack)
next
  case False
  then obtain head lanes lane where h:
    "(case split_once (CHR ''x'') s of
        Some (head, lanes) \<Rightarrow>
          (case parse_u32 lanes of Some n \<Rightarrow> if n > 1 then Some (head, n) else None | None \<Rightarrow> None)
      | None \<Rightarrow> Some (s, 1)) = Some (head, lanes)"
    "parse_lane head = Some lane" "\<not> lanes > MAX_LANES"
    "(if lanes = 1 then Some lane else type_vector lane lanes) = Some t"
    using assms by (auto simp: parse_type_def split: option.splits if_splits)
  have lane: "(\<exists>b. type_int b = Some lane) \<or> (\<exists>f. lane = type_float f)" "show_type lane = head"
    using parse_laneD [OF h(2)] show_int show_type_float by blast+
  have built: "built lane" using lane(1) built.int built.float by blast
  show ?thesis
  proof (cases "split_once (CHR ''x'') s")
    case None
    then show ?thesis using h lane built by simp
  next
    case (Some p)
    then obtain ls where p: "p = (head, ls)" "parse_u32 ls = Some lanes" "1 < lanes"
      using h(1) by (cases p) (auto split: option.splits if_splits)
    have t: "type_vector lane lanes = Some t" using h(4) p(3) by (simp split: if_splits)
    note v = type_vector_SomeD [OF t]
    obtain k b where f: "lane = pack k b 1" "take_bit 16 b = b" "k = KInt \<or> k = KFloat"
      using lane(1) type_int_SomeD code_fits unfolding type_float_def by blast
    have "t = pack k b lanes" using v(1) unpack [OF f(2)] f(1) by simp
    then have "show_type t = show_type lane @ CHR ''x'' # dec (unat lanes)"
      using show_lane [OF f(2) v(2,3) f(3)] p(3) f(1) by simp
    moreover have "s = head @ CHR ''x'' # dec (unat lanes)"
      using split_once_SomeD [OF Some [unfolded p(1)]] parse_u32_SomeD [OF p(2)] by simp
    ultimately show ?thesis using lane(2) built.vector [OF built t] by simp
  qed
qed

section \<open>Properties\<close>

text \<open>
  C18: Printing a type and parsing what was printed gives the type back, for every type the
  constructors can build.
\<close>

theorem type_print_parse:
  assumes "built t"
  shows "parse_type (show_type t) = Some t"
  using parse_show built_canonical [OF assms] by blast

lemma type_print_parse_witness: "\<exists>t. type_int 32 = Some t \<and> parse_type (show_type t) = Some t"
proof -
  obtain t where t: "type_int 32 = Some t" by (simp add: type_int_def MAX_TYPE_BITS_def BITS_MASK_def)
  show ?thesis using t type_print_parse [OF built.int [OF t]] by blast
qed

text \<open>
  C19: A text the parser accepts is the spelling of the type it answers, so no type has two
  spellings and what is read back is written byte for byte; and the type is one the
  constructors build, so no accepted text makes a constructor panic.
\<close>

theorem type_parse_print:
  assumes "parse_type s = Some t"
  shows "show_type t = s \<and> built t"
  using show_parse [OF assms] by blast

lemma type_parse_print_witness: "\<exists>t. parse_type ''i32'' = Some t \<and> show_type t = ''i32'' \<and> built t"
proof -
  obtain t where t: "type_int 32 = Some t" by (simp add: type_int_def MAX_TYPE_BITS_def BITS_MASK_def)
  have "dec 32 = ''32''" by code_simp
  then have "show_type t = ''i32''" using show_int [OF t] by simp
  then have p: "parse_type ''i32'' = Some t" using parse_show [OF built_canonical [OF built.int [OF t]]] by simp
  show ?thesis using p type_parse_print [OF p] by blast
qed

text \<open>
  C20: Unpacking gives back what the constructors packed: the kind, the width without the decimal
  flag, the lane count and the format, for an integer, a float and a vector of either; and a
  vector taken apart into its lane and put together again is the vector.
\<close>

theorem type_accessors:
  assumes "built t"
  shows "(type_int b = Some t \<longrightarrow> kind_of t = KInt \<and> type_bits t = b \<and> is_scalar t \<and> type_lane t = t) \<and>
    (t = type_float f \<longrightarrow>
       kind_of t = KFloat \<and> type_bits t = float_bits f \<and> type_format t = Some f \<and> is_scalar t \<and> type_lane t = t) \<and>
    (type_vector t n = Some v \<longrightarrow>
       kind_of v = kind_of t \<and> type_bits v = type_bits t \<and> type_format v = type_format t \<and>
       type_lanes v = n \<and> type_lane v = type_lane t \<and> with_lane v t = Some v \<and>
       (is_vector v \<longleftrightarrow> n > 1))"
proof (intro conjI impI)
  assume "type_int b = Some t"
  then have t: "t = pack KInt b 1" "take_bit 16 b = b" using type_int_SomeD by blast+
  show "kind_of t = KInt" "type_bits t = b" "is_scalar t" "type_lane t = t"
    using unpack [OF t(2)] t(1) by (simp_all add: type_bits_def is_scalar_def type_lane_def)
next
  assume t: "t = type_float f"
  note u = unpack [OF code_fits [of f]]
  show "kind_of t = KFloat" "is_scalar t" "type_lane t = t" "type_format t = Some f"
    using u unfolding t by (simp_all add: type_float_def is_scalar_def type_lane_def type_format_def float_code_from)
  have "float_code f AND NOT DECIMAL = float_bits f"
    by (cases f) (simp_all add: float_code_def is_decimal_def DECIMAL_def)
  then show "type_bits t = float_bits f" using u unfolding t by (simp add: type_float_def type_bits_def)
next
  assume v: "type_vector t n = Some v"
  note d = type_vector_SomeD [OF v]
  have "type_field t = take_bit 16 (raw t)"
    by (simp add: type_field_def BITS_MASK_def take_bit_eq_mask mask_eq_exp_minus_1)
  then have f: "take_bit 16 (type_field t) = type_field t" by simp
  note u = pack_fields [OF f fits_13 [OF d(2,3)]]
  show "kind_of v = kind_of t" "type_bits v = type_bits t" "type_format v = type_format t" "type_lanes v = n"
    "type_lane v = type_lane t" "is_vector v \<longleftrightarrow> n > 1"
    using u d(1) by (simp_all add: type_bits_def type_format_def type_lane_def is_vector_def)
  show "with_lane v t = Some v" using v u(3) d(1) by (simp add: with_lane_def)
qed

lemma type_accessors_witness:
  "\<exists>v. type_vector (type_float F32) 4 = Some v \<and> type_lanes v = 4 \<and> type_format v = type_format (type_float F32)"
proof -
  have "type_vector (type_float F32) 4 \<noteq> None"
    using unpack [OF code_fits [of F32]]
    by (simp add: type_vector_def is_scalar_def type_float_def MAX_LANES_def LANES_MASK_def)
  then obtain v where v: "type_vector (type_float F32) 4 = Some v" by blast
  show ?thesis using v type_accessors [OF built.float [of F32], where n = 4 and v = v] by blast
qed

end
