(* ===== verification/LongDivision.thy ===== *)
theory LongDivision
  imports Main "HOL-Library.Monad_Syntax" "HOL-Library.Signed_Division"
begin

text \<open>
  Division the machine has no instruction for: \<open>runtime/rucc-builtins/src/div.rs\<close>, long division in
  base \<open>2 ^ 32\<close> by Knuth's algorithm D, and the multiply and shifts of \<open>wide.rs\<close> beside it.

  A shift by 32 bits is written as a product or quotient by \<open>BASE\<close>. Every digit and every intermediate value is an integer with the bound of its type checked:
  \<open>u64\<close> and \<open>i64\<close> fail with \<open>None\<close> where the Rust operation would overflow, a read or a write past
  the end of an array is \<open>None\<close>, and the casts that drop bits are written as remainders. So a
  theorem that says a division returns says that nothing in it overflows.
\<close>

unbundle bit_operations_syntax

section \<open>Checked integers and arrays\<close>

definition u64 :: "int \<Rightarrow> int option" where
  "u64 x = (if 0 \<le> x \<and> x < 2 ^ 64 then Some x else None)"

definition i64 :: "int \<Rightarrow> int option" where
  "i64 x = (if - (2 ^ 63) \<le> x \<and> x < 2 ^ 63 then Some x else None)"

definition BASE :: int where "BASE = 2 ^ 32"

definition as_u32 :: "int \<Rightarrow> int" where "as_u32 x = x mod BASE"

definition as_i64 :: "int \<Rightarrow> int" where "as_i64 x = signed_take_bit 63 x"

definition get :: "int list \<Rightarrow> nat \<Rightarrow> int option" where
  "get xs i = (if i < length xs then Some (xs ! i) else None)"

definition put :: "int list \<Rightarrow> nat \<Rightarrow> int \<Rightarrow> int list option" where
  "put xs i d = (if i < length xs then Some (xs[i := d]) else None)"

section \<open>Digits\<close>

definition DIGITS :: nat where "DIGITS = 4"

definition split_digits :: "int \<Rightarrow> int list" where
  "split_digits v = map (\<lambda>i. as_u32 (v div 2 ^ (32 * i))) [0..<DIGITS]"

primrec join_upto :: "nat \<Rightarrow> int list \<Rightarrow> int" where
  "join_upto 0 ds = 0"
| "join_upto (Suc i) ds = join_upto i ds OR push_bit (32 * i) (ds ! i)"

definition join_digits :: "int list \<Rightarrow> int" where
  "join_digits ds = join_upto (length ds) ds"

primrec used_from :: "nat \<Rightarrow> int list \<Rightarrow> nat" where
  "used_from 0 ds = 0"
| "used_from (Suc n) ds = (if ds ! n = 0 then used_from n ds else Suc n)"

definition used :: "int list \<Rightarrow> nat" where "used ds = used_from DIGITS ds"

text \<open>\<open>shift_up\<close> with the digits written so far and the carry; \<open>by\<close> is below 32.\<close>

primrec shift_up_loop :: "nat \<Rightarrow> int list \<Rightarrow> nat \<Rightarrow> int list \<times> int" where
  "shift_up_loop 0 ds amount = ([], 0)"
| "shift_up_loop (Suc i) ds amount =
     (let (out, carry) = shift_up_loop i ds amount
      in (out @ [as_u32 (push_bit amount (ds ! i)) OR carry],
          if amount = 0 then 0 else drop_bit (32 - amount) (ds ! i)))"

definition shift_up :: "int list \<Rightarrow> nat \<Rightarrow> int list" where
  "shift_up ds amount = (let (out, carry) = shift_up_loop DIGITS ds amount in out @ [carry])"

definition shift_down :: "int list \<Rightarrow> nat \<Rightarrow> int" where
  "shift_down ds amount =
     join_digits (map (\<lambda>i. drop_bit amount (ds ! i) OR
        (if amount = 0 then 0 else as_u32 (push_bit (32 - amount) (ds ! (i + 1))))) [0..<DIGITS])"

text \<open>\<open>u32::leading_zeros\<close>.\<close>

fun lead_from :: "nat \<Rightarrow> int \<Rightarrow> nat" where
  "lead_from 0 d = 0"
| "lead_from (Suc n) d = (if d < 2 ^ n then Suc (lead_from n d) else 0)"

definition lead_zeros :: "int \<Rightarrow> nat" where "lead_zeros d = lead_from 32 d"

section \<open>One digit of divisor\<close>

text \<open>The loop over \<open>(0..DIGITS).rev()\<close>: \<open>Suc i\<close> has digit \<open>i\<close> to do next.\<close>

primrec short_loop :: "nat \<Rightarrow> int list \<Rightarrow> int \<Rightarrow> int list \<Rightarrow> int \<Rightarrow> (int list \<times> int) option" where
  "short_loop 0 a d quo rest = Some (quo, rest)"
| "short_loop (Suc i) a d quo rest =
     do {
       x \<leftarrow> get a i;
       let here = (rest * BASE) mod 2 ^ 64 OR x;
       quo \<leftarrow> put quo i (as_u32 (here div d));
       short_loop i a d quo (here mod d)
     }"

section \<open>The estimate of a digit\<close>

text \<open>Knuth's correction of the estimate.\<close>

function correct :: "int \<Rightarrow> int \<Rightarrow> int \<Rightarrow> int \<Rightarrow> int \<Rightarrow> int option" where
  "correct guess rest v1 v2 u2 =
     do {
       over \<leftarrow> (if guess \<ge> BASE then Some True
               else do {
                 left \<leftarrow> u64 (guess * v2);
                 Some (left > ((rest * BASE) mod 2 ^ 64 OR u2))
               });
       if \<not> over then Some guess
       else if guess \<le> 0 then None
       else do {
         rest \<leftarrow> u64 (rest + v1);
         if rest \<ge> BASE then Some (guess - 1) else correct (guess - 1) rest v1 v2 u2
       }
     }"
  by pat_completeness auto
termination by (relation "measure (\<lambda>(g, _). nat g)") auto

declare correct.simps [simp del]

section \<open>Multiply and subtract, add back\<close>

text \<open>After \<open>k\<close> rounds: the digits, the carry of the product and the borrow of the difference.\<close>

primrec mul_sub :: "nat \<Rightarrow> int \<Rightarrow> int list \<Rightarrow> nat \<Rightarrow> int list \<Rightarrow> (int list \<times> int \<times> int) option" where
  "mul_sub 0 guess v j u = Some (u, 0, 0)"
| "mul_sub (Suc k) guess v j u =
     do {
       (u, carry, borrow) \<leftarrow> mul_sub k guess v j u;
       y \<leftarrow> get v k;
       product \<leftarrow> u64 (guess * y);
       product \<leftarrow> u64 (product + carry);
       x \<leftarrow> get u (k + j);
       diff \<leftarrow> i64 (x - as_u32 product);
       diff \<leftarrow> i64 (diff + borrow);
       u \<leftarrow> put u (k + j) (as_u32 diff);
       Some (u, product div BASE, diff div BASE)
     }"

primrec add_back :: "nat \<Rightarrow> int list \<Rightarrow> nat \<Rightarrow> int list \<Rightarrow> (int list \<times> int) option" where
  "add_back 0 v j u = Some (u, 0)"
| "add_back (Suc k) v j u =
     do {
       (u, carry) \<leftarrow> add_back k v j u;
       x \<leftarrow> get u (k + j);
       y \<leftarrow> get v k;
       sum \<leftarrow> u64 (x + y);
       sum \<leftarrow> u64 (sum + carry);
       u \<leftarrow> put u (k + j) (as_u32 sum);
       Some (u, sum div BASE)
     }"

text \<open>The body of the loop over the digits of the quotient.\<close>

definition one_digit :: "nat \<Rightarrow> int list \<Rightarrow> nat \<Rightarrow> int list \<Rightarrow> (int list \<times> int) option" where
  "one_digit n v j u =
     do {
       top \<leftarrow> get u (j + n);
       next \<leftarrow> get u (j + n - 1);
       u2 \<leftarrow> get u (j + n - 2);
       v1 \<leftarrow> get v (n - 1);
       v2 \<leftarrow> get v (n - 2);
       let here = (top * BASE) mod 2 ^ 64 OR next;
       guess \<leftarrow> correct (here div v1) (here mod v1) v1 v2 u2;
       (u, carry, borrow) \<leftarrow> mul_sub n guess v j u;
       top \<leftarrow> get u (j + n);
       diff \<leftarrow> i64 (top - as_i64 carry);
       diff \<leftarrow> i64 (diff + borrow);
       u \<leftarrow> put u (j + n) (as_u32 diff);
       if diff div BASE \<noteq> 0 then do {
         guess \<leftarrow> u64 (guess - 1);
         (u, carry) \<leftarrow> add_back n v j u;
         top \<leftarrow> get u (j + n);
         sum \<leftarrow> u64 (top + carry);
         u \<leftarrow> put u (j + n) (as_u32 sum);
         Some (u, as_u32 guess)
       }
       else Some (u, as_u32 guess)
     }"

primrec long_loop :: "nat \<Rightarrow> nat \<Rightarrow> int list \<Rightarrow> int list \<Rightarrow> int list \<Rightarrow> (int list \<times> int list) option" where
  "long_loop 0 n v u quo = Some (u, quo)"
| "long_loop (Suc j) n v u quo =
     do {
       (u, d) \<leftarrow> one_digit n v j u;
       quo \<leftarrow> put quo j d;
       long_loop j n v u quo
     }"

section \<open>Division\<close>

definition divide :: "int \<Rightarrow> int \<Rightarrow> (int \<times> int) option" where
  "divide num den =
     (let a = split_digits num; b = split_digits den; m = used a; n = used b
      in if n = 0 then Some (0, 0)
         else if n = 1 then do {
           (quo, rest) \<leftarrow> short_loop DIGITS a (b ! 0) (replicate DIGITS 0) 0;
           Some (join_digits quo, rest)
         }
         else if m < n then Some (0, num)
         else do {
           let amount = lead_zeros (b ! (n - 1));
           let v = shift_up b amount;
           (u, quo) \<leftarrow> long_loop (Suc (m - n)) n v (shift_up a amount) (replicate DIGITS 0);
           Some (join_digits quo, shift_down u amount)
         })"

text \<open>Signed values of a width, and \<open>wrapping_neg\<close> of an unsigned one.\<close>

definition as_signed_width :: "nat \<Rightarrow> int \<Rightarrow> int" where
  "as_signed_width w x = signed_take_bit (w - 1) x"

definition wrapping_neg :: "nat \<Rightarrow> int \<Rightarrow> int" where
  "wrapping_neg w x = - x mod 2 ^ w"

definition magnitude :: "nat \<Rightarrow> int \<Rightarrow> int" where
  "magnitude w v = (if v < 0 then wrapping_neg w (v mod 2 ^ w) else v)"

definition divide_signed :: "int \<Rightarrow> int \<Rightarrow> (int \<times> int) option" where
  "divide_signed num den =
     do {
       (quo, rest) \<leftarrow> divide (magnitude 128 num) (magnitude 128 den);
       Some (as_signed_width 128 (if (num < 0) = (den < 0) then quo else wrapping_neg 128 quo),
             as_signed_width 128 (if num < 0 then wrapping_neg 128 rest else rest))
     }"

definition divide_long :: "int \<Rightarrow> int \<Rightarrow> (int \<times> int) option" where
  "divide_long num den =
     do { (quo, rest) \<leftarrow> divide num den; Some (quo mod 2 ^ 64, rest mod 2 ^ 64) }"

definition divide_long_signed :: "int \<Rightarrow> int \<Rightarrow> (int \<times> int) option" where
  "divide_long_signed num den =
     do {
       (quo, rest) \<leftarrow> divide_long (magnitude 64 num) (magnitude 64 den);
       Some (as_signed_width 64 (if (num < 0) = (den < 0) then quo else wrapping_neg 64 quo),
             as_signed_width 64 (if num < 0 then wrapping_neg 64 rest else rest))
     }"

text \<open>The C entry points; one that writes through a pointer answers what it writes as well.\<close>

definition udivti3 :: "int \<Rightarrow> int \<Rightarrow> int option" where "udivti3 num den = map_option fst (divide num den)"

definition umodti3 :: "int \<Rightarrow> int \<Rightarrow> int option" where "umodti3 num den = map_option snd (divide num den)"

definition udivmodti4 :: "int \<Rightarrow> int \<Rightarrow> (int \<times> int) option" where "udivmodti4 num den = divide num den"

definition divti3 :: "int \<Rightarrow> int \<Rightarrow> int option" where "divti3 num den = map_option fst (divide_signed num den)"

definition modti3 :: "int \<Rightarrow> int \<Rightarrow> int option" where "modti3 num den = map_option snd (divide_signed num den)"

definition divmodti4 :: "int \<Rightarrow> int \<Rightarrow> (int \<times> int) option" where "divmodti4 num den = divide_signed num den"

definition udivdi3 :: "int \<Rightarrow> int \<Rightarrow> int option" where "udivdi3 num den = map_option fst (divide_long num den)"

definition umoddi3 :: "int \<Rightarrow> int \<Rightarrow> int option" where "umoddi3 num den = map_option snd (divide_long num den)"

definition udivmoddi4 :: "int \<Rightarrow> int \<Rightarrow> (int \<times> int) option" where "udivmoddi4 num den = divide_long num den"

definition divdi3 :: "int \<Rightarrow> int \<Rightarrow> int option" where "divdi3 num den = map_option fst (divide_long_signed num den)"

definition moddi3 :: "int \<Rightarrow> int \<Rightarrow> int option" where "moddi3 num den = map_option snd (divide_long_signed num den)"

definition divmoddi4 :: "int \<Rightarrow> int \<Rightarrow> (int \<times> int) option" where "divmoddi4 num den = divide_long_signed num den"

section \<open>Multiplication and shifts\<close>

definition multiply :: "int \<Rightarrow> int \<Rightarrow> int" where
  "multiply left right = as_signed_width 128 (left * right)"

text \<open>\<open>i128::wrapping_div\<close> of a divisor that is not zero.\<close>

definition wrapping_div :: "int \<Rightarrow> int \<Rightarrow> int" where
  "wrapping_div x y = as_signed_width 128 (x sdiv y)"

definition multiply_checked :: "int \<Rightarrow> int \<Rightarrow> int \<times> bool" where
  "multiply_checked left right =
     (let product = as_signed_width 128 (left * right)
      in (product, left \<noteq> 0 \<and> (wrapping_div product left \<noteq> right \<or> (left = -1 \<and> right = - (2 ^ 127)))))"

definition shift_left :: "int \<Rightarrow> nat \<Rightarrow> int" where
  "shift_left v count = as_signed_width 128 (push_bit count v)"

definition shift_right_logical :: "int \<Rightarrow> nat \<Rightarrow> int" where
  "shift_right_logical v count = as_signed_width 128 (drop_bit count (v mod 2 ^ 128))"

definition shift_right_arithmetic :: "int \<Rightarrow> nat \<Rightarrow> int" where
  "shift_right_arithmetic v count = drop_bit count v"

definition count_of :: "int \<Rightarrow> nat" where
  "count_of count = nat ((count mod 2 ^ 32) AND 127)"

definition multi3 :: "int \<Rightarrow> int \<Rightarrow> int" where "multi3 left right = multiply left right"

definition muloti4 :: "int \<Rightarrow> int \<Rightarrow> int \<times> int" where
  "muloti4 left right = (let (product, overflowed) = multiply_checked left right in (product, of_bool overflowed))"

definition ashlti3 :: "int \<Rightarrow> int \<Rightarrow> int" where "ashlti3 v count = shift_left v (count_of count)"

definition lshrti3 :: "int \<Rightarrow> int \<Rightarrow> int" where "lshrti3 v count = shift_right_logical v (count_of count)"

definition ashrti3 :: "int \<Rightarrow> int \<Rightarrow> int" where "ashrti3 v count = shift_right_arithmetic v (count_of count)"

end
