(* ===== verification/LongDigits.thy ===== *)
theory LongDigits
  imports LongDivision Quotients
begin

text \<open>
  The value of a run of base \<open>2 ^ 32\<close> digits, and what the loops of \<open>div.rs\<close> over digits compute:
  splitting and joining, the two shifts, the digits in use, the multiply and subtract and the
  add back.
\<close>

section \<open>The base\<close>

lemma BASE_pos [simp]: "0 < BASE" "BASE \<noteq> 0" "0 \<le> BASE" "1 < BASE" "1 \<le> BASE"
  by (simp_all add: BASE_def)

lemma BASE_power [simp]: "0 < BASE ^ k" "0 \<le> BASE ^ k" "BASE ^ k \<noteq> 0"
  by simp_all

lemma BASE_two: "BASE ^ k = 2 ^ (32 * k)"
  unfolding BASE_def power_mult ..

lemma u64I: "0 \<le> x \<Longrightarrow> x < BASE * BASE \<Longrightarrow> u64 x = Some x"
  by (simp add: u64_def BASE_def)

lemma i64I: "- (2 * BASE) \<le> x \<Longrightarrow> x \<le> 2 * BASE \<Longrightarrow> i64 x = Some x"
  by (simp add: i64_def BASE_def)

lemma as_i64_small: "0 \<le> x \<Longrightarrow> x < BASE \<Longrightarrow> as_i64 x = x"
  by (simp add: as_i64_def BASE_def signed_take_bit_int_eq_self_iff)

lemma or_disjoint: "0 \<le> (x::int) \<Longrightarrow> x < 2 ^ k \<Longrightarrow> x OR y * 2 ^ k = x + y * 2 ^ k"
proof -
  assume x: "0 \<le> x" "x < 2 ^ k"
  then have "take_bit k x = x" by (simp add: take_bit_int_eq_self_iff)
  then have "\<not> bit x n \<or> \<not> bit (push_bit k y) n" for n
    by (metis bit_push_bit_iff_int bit_take_bit_iff linorder_not_le)
  then have "x + push_bit k y = x OR push_bit k y" by (rule disjunctive_add)
  then show ?thesis by (simp add: push_bit_eq_mult)
qed

lemma or_digit: "0 \<le> x \<Longrightarrow> x < BASE \<Longrightarrow> (y * BASE OR x) = y * BASE + x"
  using or_disjoint [of x 32 y] by (simp add: BASE_def or.commute)

section \<open>Runs of digits\<close>

primrec part :: "int list \<Rightarrow> nat \<Rightarrow> nat \<Rightarrow> int" where
  "part xs j 0 = 0"
| "part xs j (Suc k) = part xs j k + xs ! (k + j) * BASE ^ k"

definition digits_ok :: "int list \<Rightarrow> bool" where
  "digits_ok xs \<longleftrightarrow> (\<forall>d \<in> set xs. 0 \<le> d \<and> d < BASE)"

lemma digits_nth: "digits_ok xs \<Longrightarrow> i < length xs \<Longrightarrow> 0 \<le> xs ! i \<and> xs ! i < BASE"
  by (simp add: digits_ok_def)

lemma digits_update: "digits_ok xs \<Longrightarrow> 0 \<le> d \<Longrightarrow> d < BASE \<Longrightarrow> digits_ok (xs[i := d])"
  using set_update_subset_insert [of xs i d] by (auto simp: digits_ok_def)

lemma part_bound: "digits_ok xs \<Longrightarrow> k + j \<le> length xs \<Longrightarrow> 0 \<le> part xs j k \<and> part xs j k < BASE ^ k"
proof (induction k)
  case (Suc k)
  have d: "0 \<le> xs ! (k + j)" "xs ! (k + j) + 1 \<le> BASE" using digits_nth [OF Suc.prems(1), of "k + j"] Suc.prems(2) by simp_all
  have "(xs ! (k + j) + 1) * BASE ^ k \<le> BASE * BASE ^ k" using d(2) by (intro mult_right_mono) simp_all
  moreover have "0 \<le> xs ! (k + j) * BASE ^ k" using d(1) by simp
  ultimately show ?case using Suc by (simp add: distrib_right)
qed simp

lemma part_cong: "(\<And>i. j \<le> i \<Longrightarrow> i < k + j \<Longrightarrow> xs ! i = ys ! i) \<Longrightarrow> part xs j k = part ys j k"
  by (induction k) simp_all

lemma part_split: "part xs j (k + l) = part xs j k + BASE ^ k * part xs (j + k) l"
  by (induction l) (simp_all add: power_add algebra_simps)

lemma part_zero: "(\<And>i. j \<le> i \<Longrightarrow> i < k + j \<Longrightarrow> xs ! i = 0) \<Longrightarrow> part xs j k = 0"
  by (induction k) simp_all

text \<open>A value below a power of the base has no digits above it.\<close>

lemma part_high:
  assumes "digits_ok xs" "k + l + j \<le> length xs" "part xs j (k + l) < BASE ^ k"
  shows "part xs (j + k) l = 0" "part xs j (k + l) = part xs j k"
proof -
  have b: "0 \<le> part xs (j + k) l" "0 \<le> part xs j k" using part_bound assms(1,2) by simp_all
  have "\<not> 1 \<le> part xs (j + k) l"
  proof
    assume "1 \<le> part xs (j + k) l"
    then have "BASE ^ k * 1 \<le> BASE ^ k * part xs (j + k) l" by (intro mult_left_mono) simp_all
    then show False using assms(3) b(2) unfolding part_split mult_1_right by linarith
  qed
  then show "part xs (j + k) l = 0" using b(1) by linarith
  then show "part xs j (k + l) = part xs j k" by (simp add: part_split)
qed

section \<open>Splitting and joining\<close>

lemma split_length: "length (split_digits v) = 4"
  by (simp add: split_digits_def DIGITS_def)

lemma split_ok: "digits_ok (split_digits v)"
  by (auto simp: digits_ok_def split_digits_def as_u32_def)

lemma split_nth: "i < 4 \<Longrightarrow> split_digits v ! i = v div BASE ^ i mod BASE"
  by (simp add: split_digits_def DIGITS_def as_u32_def BASE_two)

lemma part_split_digits: "k \<le> 4 \<Longrightarrow> part (split_digits v) 0 k = v mod BASE ^ k"
proof (induction k)
  case (Suc k)
  have "v mod (BASE ^ k * BASE) = BASE ^ k * (v div BASE ^ k mod BASE) + v mod BASE ^ k"
    by (rule zmod_zmult2_eq) simp
  then show ?case using Suc split_nth [of k v] by (simp add: mult.commute)
qed simp

lemma split_value: "0 \<le> v \<Longrightarrow> v < 2 ^ 128 \<Longrightarrow> part (split_digits v) 0 4 = v"
  by (simp add: part_split_digits BASE_two)

lemma join_upto_part: "digits_ok ds \<Longrightarrow> k \<le> length ds \<Longrightarrow> join_upto k ds = part ds 0 k"
proof (induction k)
  case (Suc k)
  have "0 \<le> part ds 0 k" "part ds 0 k < 2 ^ (32 * k)"
    using part_bound [OF Suc.prems(1), of k 0] Suc.prems(2) by (simp_all add: BASE_two)
  then have "part ds 0 k OR ds ! k * 2 ^ (32 * k) = part ds 0 k + ds ! k * 2 ^ (32 * k)" by (rule or_disjoint)
  then show ?case using Suc by (simp add: push_bit_eq_mult BASE_two)
qed simp

lemma join_part: "digits_ok ds \<Longrightarrow> join_digits ds = part ds 0 (length ds)"
  by (simp add: join_digits_def join_upto_part)

section \<open>Digits in use\<close>

lemma used_from_le: "used_from n ds \<le> n"
  by (induction n) (simp_all add: le_SucI)

lemma used_from_zero: "used_from n ds \<le> i \<Longrightarrow> i < n \<Longrightarrow> ds ! i = 0"
  by (induction n) (auto simp: less_Suc_eq split: if_splits)

lemma used_from_top: "0 < used_from n ds \<Longrightarrow> ds ! (used_from n ds - 1) \<noteq> 0"
  by (induction n) (simp_all split: if_splits)

lemma used_facts:
  "used (split_digits v) \<le> 4" "used (split_digits v) \<le> i \<Longrightarrow> i < 4 \<Longrightarrow> split_digits v ! i = 0"
  "0 < used (split_digits v) \<Longrightarrow> 0 < split_digits v ! (used (split_digits v) - 1)"
proof -
  show "used (split_digits v) \<le> 4"
    using used_from_le [of 4 "split_digits v"] by (simp add: used_def DIGITS_def)
  show "used (split_digits v) \<le> i \<Longrightarrow> i < 4 \<Longrightarrow> split_digits v ! i = 0"
    using used_from_zero [of 4 "split_digits v" i] by (simp add: used_def DIGITS_def)
  assume u: "0 < used (split_digits v)"
  then have "split_digits v ! (used (split_digits v) - 1) \<noteq> 0"
    using used_from_top [of 4 "split_digits v"] by (simp add: used_def DIGITS_def)
  moreover have "used (split_digits v) - 1 < 4" using u \<open>used (split_digits v) \<le> 4\<close> by simp
  ultimately show "0 < split_digits v ! (used (split_digits v) - 1)"
    using digits_nth [OF split_ok, of "used (split_digits v) - 1" v] split_length [of v] by fastforce
qed

text \<open>The value lies between the powers its digits in use say.\<close>

lemma used_value:
  assumes "0 \<le> v" "v < 2 ^ 128"
  defines "n \<equiv> used (split_digits v)"
  shows "v = part (split_digits v) 0 n" "v < BASE ^ n" "0 < n \<Longrightarrow> BASE ^ (n - 1) \<le> v" "n = 0 \<longleftrightarrow> v = 0"
proof -
  let ?d = "split_digits v"
  have n4: "n \<le> 4" using used_facts(1) by (simp add: n_def)
  have "part ?d n (4 - n) = 0" using used_facts(2) [of v] n4 by (intro part_zero) (simp add: n_def)
  then have "part ?d 0 4 = part ?d 0 n" using part_split [of ?d 0 n "4 - n"] n4 by simp
  then show v: "v = part ?d 0 n" using split_value [OF assms(1,2)] by simp
  have b: "part ?d 0 k < BASE ^ k \<and> 0 \<le> part ?d 0 k" if "k \<le> 4" for k
    using part_bound [OF split_ok, of k 0 v] that split_length [of v] by simp
  show "v < BASE ^ n" using v b [OF n4] by simp
  show ge: "BASE ^ (n - 1) \<le> v" if "0 < n"
  proof -
    have p: "part ?d 0 n = part ?d 0 (n - 1) + ?d ! (n - 1) * BASE ^ (n - 1)"
      using that by (cases n) simp_all
    have "1 * BASE ^ (n - 1) \<le> ?d ! (n - 1) * BASE ^ (n - 1)"
      using used_facts(3) [of v] that by (intro mult_right_mono) (simp_all add: n_def)
    moreover have "0 \<le> part ?d 0 (n - 1)" using b [of "n - 1"] n4 by simp
    ultimately show ?thesis using v p by linarith
  qed
  show "n = 0 \<longleftrightarrow> v = 0"
  proof
    assume "n = 0"
    then show "v = 0" using v by simp
  next
    assume "v = 0"
    have "\<not> 0 < n"
    proof
      assume "0 < n"
      then have "BASE ^ (n - 1) \<le> v" by (rule ge)
      moreover have "0 < BASE ^ (n - 1)" by simp
      ultimately show False using \<open>v = 0\<close> by linarith
    qed
    then show "n = 0" by simp
  qed
qed

section \<open>Multiply and subtract\<close>

lemma mul_sub_correct:
  assumes "digits_ok u" "digits_ok v" "0 \<le> g" "g < BASE" "k \<le> length v" "k + j \<le> length u"
  shows "\<exists>u' c b. mul_sub k g v j u = Some (u', c, b) \<and> length u' = length u \<and> digits_ok u' \<and>
    0 \<le> c \<and> c < BASE \<and> (b = 0 \<or> b = - 1) \<and> (\<forall>i. i < j \<or> k + j \<le> i \<longrightarrow> u' ! i = u ! i) \<and>
    part u' j k = part u j k - g * part v 0 k + BASE ^ k * (c - b)"
  using assms(5,6)
proof (induction k)
  case 0
  then show ?case using assms(1) by simp
next
  case (Suc k)
  then obtain u' c b where IH: "mul_sub k g v j u = Some (u', c, b)" "length u' = length u" "digits_ok u'"
    "0 \<le> c" "c < BASE" "b = 0 \<or> b = - 1" "\<forall>i. i < j \<or> k + j \<le> i \<longrightarrow> u' ! i = u ! i"
    "part u' j k = part u j k - g * part v 0 k + BASE ^ k * (c - b)"
    by auto
  define x where "x = u ! (k + j)"
  define y where "y = v ! k"
  define pr where "pr = g * y + c"
  define diff where "diff = x - pr mod BASE + b"
  have x: "0 \<le> x" "x < BASE" using digits_nth [OF assms(1), of "k + j"] Suc.prems(2) by (simp_all add: x_def)
  have y: "0 \<le> y" "y < BASE" using digits_nth [OF assms(2), of k] Suc.prems(1) by (simp_all add: y_def)
  have xg: "get u' (k + j) = Some x" using IH(2,7) Suc.prems(2) by (simp add: get_def x_def)
  have yg: "get v k = Some y" using Suc.prems(1) by (simp add: get_def y_def)
  have gy: "0 \<le> g * y" "g * y \<le> (BASE - 1) * (BASE - 1)"
    using assms(3,4) y by (simp, intro mult_mono) simp_all
  then have pr: "0 \<le> pr" "pr \<le> BASE * BASE - BASE" "g * y < BASE * BASE"
    using IH(4,5) by (simp_all add: pr_def algebra_simps)
  have p0: "0 \<le> pr mod BASE" "pr mod BASE < BASE" by simp_all
  have c': "0 \<le> pr div BASE" "pr div BASE < BASE"
  proof -
    have "pr div BASE \<le> (BASE * BASE - BASE) div BASE" using pr(2) by (intro zdiv_mono1) simp_all
    also have "BASE * BASE - BASE = (BASE - 1) * BASE" by (simp add: algebra_simps)
    also have "(BASE - 1) * BASE div BASE = BASE - 1" by simp
    finally show "pr div BASE < BASE" by simp
    show "0 \<le> pr div BASE" using pr(1) by (simp add: pos_imp_zdiv_nonneg_iff)
  qed
  have d: "- BASE \<le> diff" "diff < BASE" unfolding diff_def using x p0 IH(6) by linarith+
  have b': "diff div BASE = 0 \<or> diff div BASE = - 1"
  proof (cases "0 \<le> diff")
    case True
    then show ?thesis using d(2) by simp
  next
    case False
    then have "diff div BASE = - 1" using d by (intro int_div_pos_eq [of diff BASE "- 1" "diff + BASE"]) simp_all
    then show ?thesis by simp
  qed
  have run: "mul_sub (Suc k) g v j u = Some (u'[k + j := diff mod BASE], pr div BASE, diff div BASE)"
  proof -
    have "pr < BASE * BASE" using pr(2) BASE_pos(1) by linarith
    then have "u64 (g * y) = Some (g * y)" "u64 (g * y + c) = Some pr"
      using gy pr IH(4) u64I [of "g * y"] u64I [of pr] by (simp_all add: pr_def)
    moreover have "- (2 * BASE) \<le> x - pr mod BASE" "x - pr mod BASE \<le> 2 * BASE" using x p0 by linarith+
    then have "i64 (x - as_u32 pr) = Some (x - pr mod BASE)" "i64 (x - pr mod BASE + b) = Some diff"
      using d i64I [of "x - pr mod BASE"] i64I [of diff] by (simp_all add: as_u32_def diff_def)
    moreover have "put u' (k + j) (as_u32 diff) = Some (u'[k + j := diff mod BASE])"
      using IH(2) Suc.prems(2) by (simp add: put_def as_u32_def)
    ultimately show ?thesis using IH(1) xg yg by simp
  qed
  have val: "part (u'[k + j := diff mod BASE]) j (Suc k)
      = part u j (Suc k) - g * part v 0 (Suc k) + BASE ^ Suc k * (pr div BASE - diff div BASE)"
  proof -
    have same: "part (u'[k + j := diff mod BASE]) j k = part u' j k" by (rule part_cong) simp
    have dm: "diff mod BASE = x - g * y - c + BASE * (pr div BASE) + b - BASE * (diff div BASE)"
    proof -
      have "diff mod BASE = diff - BASE * (diff div BASE)" by (simp add: minus_mult_div_eq_mod)
      moreover have "pr mod BASE = pr - BASE * (pr div BASE)" by (simp add: minus_mult_div_eq_mod)
      ultimately show ?thesis by (simp add: diff_def pr_def)
    qed
    have "part (u'[k + j := diff mod BASE]) j (Suc k) = part u' j k + (diff mod BASE) * BASE ^ k"
      using IH(2) Suc.prems(2) same by simp
    also have "\<dots> = part u j (Suc k) - g * part v 0 (Suc k) + BASE ^ Suc k * (pr div BASE - diff div BASE)"
    proof -
      have pu: "part u j (Suc k) = part u j k + x * BASE ^ k" "part v 0 (Suc k) = part v 0 k + y * BASE ^ k"
        by (simp_all add: x_def y_def)
      show ?thesis unfolding IH(8) dm pu by (simp add: algebra_simps)
    qed
    finally show ?thesis .
  qed
  have "digits_ok (u'[k + j := diff mod BASE])" using IH(3) by (intro digits_update) simp_all
  then show ?case using run val c' b' IH(2,7) by auto
qed

lemma add_back_correct:
  assumes "digits_ok u" "digits_ok v" "k \<le> length v" "k + j \<le> length u"
  shows "\<exists>u' c. add_back k v j u = Some (u', c) \<and> length u' = length u \<and> digits_ok u' \<and>
    0 \<le> c \<and> c \<le> 1 \<and> (\<forall>i. i < j \<or> k + j \<le> i \<longrightarrow> u' ! i = u ! i) \<and>
    part u' j k + BASE ^ k * c = part u j k + part v 0 k"
  using assms(3,4)
proof (induction k)
  case 0
  then show ?case using assms(1) by simp
next
  case (Suc k)
  then obtain u' c where IH: "add_back k v j u = Some (u', c)" "length u' = length u" "digits_ok u'"
    "0 \<le> c" "c \<le> 1" "\<forall>i. i < j \<or> k + j \<le> i \<longrightarrow> u' ! i = u ! i"
    "part u' j k + BASE ^ k * c = part u j k + part v 0 k"
    by auto
  define x where "x = u ! (k + j)"
  define y where "y = v ! k"
  define t where "t = x + y + c"
  have x: "0 \<le> x" "x < BASE" using digits_nth [OF assms(1), of "k + j"] Suc.prems(2) by (simp_all add: x_def)
  have y: "0 \<le> y" "y < BASE" using digits_nth [OF assms(2), of k] Suc.prems(1) by (simp_all add: y_def)
  have t: "0 \<le> t" "t < 2 * BASE" using x y IH(4,5) by (simp_all add: t_def)
  have b2: "2 * BASE < BASE * BASE" by (simp add: BASE_def)
  have c': "0 \<le> t div BASE" "t div BASE \<le> 1"
  proof -
    have "t div BASE \<le> (2 * BASE - 1) div BASE" using t(2) by (intro zdiv_mono1) simp_all
    also have "(2 * BASE - 1) div BASE = 1" by (simp add: BASE_def)
    finally show "t div BASE \<le> 1" .
    show "0 \<le> t div BASE" using t(1) by (simp add: pos_imp_zdiv_nonneg_iff)
  qed
  have run: "add_back (Suc k) v j u = Some (u'[k + j := t mod BASE], t div BASE)"
  proof -
    have "x + y < BASE * BASE" "t < BASE * BASE" using x y t b2 by linarith+
    then have "u64 (x + y) = Some (x + y)" "u64 (x + y + c) = Some t"
      using x y t u64I [of "x + y"] u64I [of t] by (simp_all add: t_def)
    moreover have "get u' (k + j) = Some x" "get v k = Some y"
      using IH(2,6) Suc.prems by (simp_all add: get_def x_def y_def)
    moreover have "put u' (k + j) (as_u32 t) = Some (u'[k + j := t mod BASE])"
      using IH(2) Suc.prems(2) by (simp add: put_def as_u32_def)
    ultimately show ?thesis using IH(1) by simp
  qed
  have val: "part (u'[k + j := t mod BASE]) j (Suc k) + BASE ^ Suc k * (t div BASE)
      = part u j (Suc k) + part v 0 (Suc k)"
  proof -
    have same: "part (u'[k + j := t mod BASE]) j k = part u' j k" by (rule part_cong) simp
    have tm: "t mod BASE = x + y + c - BASE * (t div BASE)"
      unfolding t_def by (simp add: minus_mult_div_eq_mod)
    have "part (u'[k + j := t mod BASE]) j (Suc k) = part u' j k + (t mod BASE) * BASE ^ k"
      using IH(2) Suc.prems(2) same by simp
    moreover have "(t mod BASE) * BASE ^ k + BASE ^ Suc k * (t div BASE) = (x + y + c) * BASE ^ k"
      unfolding tm by (simp add: algebra_simps)
    moreover have "part u j (Suc k) = part u j k + x * BASE ^ k" "part v 0 (Suc k) = part v 0 k + y * BASE ^ k"
      by (simp_all add: x_def y_def)
    ultimately show ?thesis using IH(7) by (simp only: distrib_left mult.commute [of _ "BASE ^ k"])
  qed
  have "digits_ok (u'[k + j := t mod BASE])" using IH(3) by (intro digits_update) simp_all
  then show ?case using run val c' IH(2,6) by auto
qed

end
