(* ===== verification/KnuthSound.thy ===== *)
theory KnuthSound
  imports LongDigits
begin

text \<open>
  Knuth's algorithm D as \<open>div.rs\<close> writes it is division: the correction leaves an estimate that
  is the digit or one above it, the multiply and subtract with the add back make it the
  digit, and the loop over the digits leaves the quotient and the remainder. Then the signed
  divisions, the other width and \<open>wide.rs\<close>.
\<close>

section \<open>The estimate\<close>

lemma guess_word: "0 \<le> r \<Longrightarrow> r < BASE \<Longrightarrow> 0 \<le> d \<Longrightarrow> d < BASE \<Longrightarrow> ((r * BASE) mod 2 ^ 64 OR d) = r * BASE + d"
proof -
  assume a: "0 \<le> r" "r < BASE" "0 \<le> d" "d < BASE"
  have "(2::int) ^ 64 = BASE * BASE" by (simp add: BASE_def)
  moreover have "r * BASE < BASE * BASE" "0 \<le> r * BASE" using a(1,2) by simp_all
  ultimately have "(r * BASE) mod 2 ^ 64 = r * BASE" by simp
  then show ?thesis using or_digit [OF a(3,4), of r] by simp
qed

lemma correct_spec:
  assumes "0 \<le> rest" "rest < BASE" "0 < v1" "v1 < BASE" "0 \<le> v2" "v2 < BASE" "0 \<le> u2" "u2 < BASE"
    and "here = guess * v1 + rest" "here < (v1 + 1) * BASE" "0 \<le> q" "q < BASE" "q \<le> guess"
    and "\<And>g. here * BASE + u2 < g * (v1 * BASE + v2) \<Longrightarrow> q < g"
  shows "\<exists>g. correct guess rest v1 v2 u2 = Some g \<and> q \<le> g \<and> g < BASE \<and> g * (v1 * BASE + v2) \<le> here * BASE + u2"
  using assms
proof (induction guess rest v1 v2 u2 rule: correct.induct)
  case (1 guess rest v1 v2 u2)
  note a = 1(2-)
  have low: "((rest * BASE) mod 2 ^ 64 OR u2) = rest * BASE + u2" using guess_word a(1,2,7,8) by blast
  have g0: "0 \<le> guess" using a(11,13) by linarith
  have three: "guess * (v1 * BASE + v2) = (here - rest) * BASE + guess * v2" unfolding a(9) by (simp add: algebra_simps)
  show ?case
  proof (cases "guess < BASE \<and> guess * v2 \<le> rest * BASE + u2")
    case True
    have "guess * v2 < BASE * BASE"
    proof -
      have "guess * v2 \<le> guess * BASE" using a(6) g0 by (intro mult_left_mono) simp_all
      also have "\<dots> < BASE * BASE" using True by simp
      finally show ?thesis .
    qed
    then have "u64 (guess * v2) = Some (guess * v2)" using g0 a(5) by (intro u64I) simp_all
    then have "correct guess rest v1 v2 u2 = Some guess"
      using True unfolding correct.simps [of guess] low by simp
    moreover have "guess * (v1 * BASE + v2) \<le> here * BASE + u2"
      unfolding three using True by (simp add: left_diff_distrib)
    ultimately show ?thesis using True a(13) by blast
  next
    case False
    have gq: "q < guess"
    proof (cases "guess < BASE")
      case True
      then have "here * BASE + u2 < guess * (v1 * BASE + v2)"
        unfolding three using False by (simp add: left_diff_distrib)
      then show ?thesis by (rule a(14))
    next
      case False
      then show ?thesis using a(12) by linarith
    qed
    then have gpos: "\<not> guess \<le> 0" using a(11) by linarith
    have over: "(if guess \<ge> BASE then Some True
        else do { left \<leftarrow> u64 (guess * v2); Some (left > ((rest * BASE) mod 2 ^ 64 OR u2)) }) = Some True"
    proof (cases "guess \<ge> BASE")
      case False
      have "guess * v2 \<le> guess * BASE" using a(6) g0 by (intro mult_left_mono) simp_all
      also have "\<dots> < BASE * BASE" using False by simp
      finally have "u64 (guess * v2) = Some (guess * v2)" using g0 a(5) by (intro u64I) simp_all
      then show ?thesis using False \<open>\<not> (guess < BASE \<and> guess * v2 \<le> rest * BASE + u2)\<close> unfolding low by simp
    qed simp
    have "rest + v1 < BASE * BASE"
    proof -
      have "rest + v1 < 2 * BASE" "2 * BASE \<le> BASE * BASE" using a(2,4) by (linarith, simp add: BASE_def)
      then show ?thesis by linarith
    qed
    then have r64: "u64 (rest + v1) = Some (rest + v1)" using a(1,3) by (intro u64I) simp_all
    have step: "correct guess rest v1 v2 u2 =
        (if rest + v1 \<ge> BASE then Some (guess - 1) else correct (guess - 1) (rest + v1) v1 v2 u2)"
      unfolding correct.simps [of guess rest] over using gpos r64 by simp
    have here': "here = (guess - 1) * v1 + (rest + v1)" unfolding a(9) by (simp add: algebra_simps)
    show ?thesis
    proof (cases "rest + v1 \<ge> BASE")
      case True
      let ?g = "guess - 1"
      have "?g * v1 < BASE * v1"
      proof -
        have "(v1 + 1) * BASE = BASE * v1 + BASE" by (simp add: algebra_simps)
        then show ?thesis using a(10) True unfolding here' by linarith
      qed
      then have gB: "?g < BASE" using a(3) by simp
      have "?g * v2 \<le> (BASE - 1) * (BASE - 1)" using gB gpos a(5,6) by (intro mult_mono) simp_all
      also have "\<dots> \<le> BASE * BASE" by (intro mult_mono) simp_all
      also have "\<dots> \<le> (rest + v1) * BASE" using True by (intro mult_right_mono) simp_all
      finally have "?g * v2 \<le> (rest + v1) * BASE" .
      then have "?g * (v1 * BASE + v2) \<le> here * BASE + u2"
        unfolding here' using a(7) by (simp add: algebra_simps)
      then show ?thesis using step True gB gq by auto
    next
      case False
      have "\<exists>g. correct (guess - 1) (rest + v1) v1 v2 u2 = Some g \<and> q \<le> g \<and> g < BASE \<and>
          g * (v1 * BASE + v2) \<le> here * BASE + u2"
      proof (rule 1(1) [OF over])
        show "\<not> \<not> True" by simp
        show "\<not> guess \<le> 0" by (rule gpos)
        show "u64 (rest + v1) = Some (rest + v1)" by (rule r64)
        show "\<not> BASE \<le> rest + v1" by (rule False)
        show "here = (guess - 1) * v1 + (rest + v1)" by (rule here')
        show "q < g" if "here * BASE + u2 < g * (v1 * BASE + v2)" for g using that by (rule a(14))
      qed (use a(1-8,10-12) gq False in \<open>simp_all\<close>)
      then show ?thesis using step False by simp
    qed
  qed
qed

section \<open>One digit of the quotient\<close>

text \<open>The window of the dividend against the divisor, and what their leading digits say.\<close>

lemma leading_digits:
  fixes W V :: int
  assumes W: "W = (here * BASE + u2) * P + w" "0 \<le> w" "w < P" and V: "V = (v1 * BASE + v2) * P + x" "0 \<le> x" "x < P"
    and d: "0 < v1" "v1 < BASE" "0 \<le> v2" "v2 < BASE" "0 \<le> u2" "0 \<le> here" "u2 < BASE" and b: "W < BASE * V"
  shows "0 \<le> W div V" "W div V < BASE" "here < (v1 + 1) * BASE" "W div V \<le> here div v1"
    "here * BASE + u2 < g * (v1 * BASE + v2) \<Longrightarrow> W div V < g"
    "g < BASE \<Longrightarrow> W div V \<le> g \<Longrightarrow> g * (v1 * BASE + v2) \<le> here * BASE + u2 \<Longrightarrow> g \<le> W div V + 1"
proof -
  have P: "0 < P" using W(2,3) by linarith
  have vp: "0 < v1 * BASE" using d(1) by simp
  have Vp: "v1 * BASE * P \<le> V" "0 < V"
  proof -
    have "v1 * BASE * P \<le> (v1 * BASE + v2) * P" using d(3) P by (intro mult_right_mono) simp_all
    then show "v1 * BASE * P \<le> V" using V by linarith
    moreover have "0 < v1 * BASE * P" using vp P by simp
    ultimately show "0 < V" by linarith
  qed
  have h0: "0 \<le> here * BASE" using d(6) by simp
  have Wp: "here * BASE * P \<le> W" "0 \<le> W"
  proof -
    have "here * BASE * P \<le> (here * BASE + u2) * P" using d(5) P by (intro mult_right_mono) simp_all
    then show "here * BASE * P \<le> W" using W by linarith
    moreover have "0 \<le> here * BASE * P" using h0 P by simp
    ultimately show "0 \<le> W" by linarith
  qed
  show "0 \<le> W div V" using Wp(2) Vp(2) by (simp add: pos_imp_zdiv_nonneg_iff)
  show "W div V < BASE"
  proof -
    have "W div V \<le> (BASE * V - 1) div V" using b Vp(2) by (intro zdiv_mono1) simp_all
    also have "(BASE * V - 1) div V < BASE" using Vp(2) by (intro div_less_of_mult) (simp_all add: mult.commute)
    finally show ?thesis .
  qed
  have Vu: "V < (v1 + 1) * BASE * P"
  proof -
    have "(v1 * BASE + v2 + 1) * P \<le> (v1 + 1) * BASE * P"
      using d(4) P by (intro mult_right_mono) (simp_all add: distrib_right)
    then show ?thesis using V by (simp add: distrib_right)
  qed
  show "here < (v1 + 1) * BASE"
  proof -
    have "here * BASE * P < BASE * ((v1 + 1) * BASE * P)"
      using Wp(1) b Vu mult_strict_left_mono [OF Vu BASE_pos(1)] by linarith
    then have "here * (BASE * P) < ((v1 + 1) * BASE) * (BASE * P)" by (simp add: algebra_simps)
    then show ?thesis using P by (simp only: mult_less_cancel_right) simp
  qed
  show gq: "W div V < g" if "here * BASE + u2 < g * (v1 * BASE + v2)" for g
  proof -
    have "0 < g"
    proof (rule ccontr)
      assume "\<not> 0 < g"
      then have "g * (v1 * BASE + v2) \<le> 0" using vp d(3) by (simp add: mult_nonpos_nonneg)
      then show False using that h0 d(5) by linarith
    qed
    have "W < (here * BASE + u2 + 1) * P" using W by (simp add: distrib_right)
    also have "\<dots> \<le> g * (v1 * BASE + v2) * P" using that P by (intro mult_right_mono) simp_all
    also have "\<dots> \<le> g * V" using V(1,2) \<open>0 < g\<close> by (simp add: algebra_simps)
    finally show ?thesis using Vp(2) by (intro div_less_of_mult) (simp_all add: mult.commute)
  qed
  show "W div V \<le> here div v1"
  proof -
    have "here < (here div v1 + 1) * v1"
    proof -
      have "here = here div v1 * v1 + here mod v1" by simp
      also have "\<dots> < here div v1 * v1 + v1" using pos_mod_bound [OF d(1)] by (rule add_strict_left_mono)
      finally show ?thesis by (simp add: distrib_right)
    qed
    then have "(here + 1) * BASE \<le> (here div v1 + 1) * v1 * BASE" by (intro mult_right_mono) simp_all
    moreover have "0 \<le> (here div v1 + 1) * v2" using d by (simp add: pos_imp_zdiv_nonneg_iff)
    ultimately have "here * BASE + u2 < (here div v1 + 1) * (v1 * BASE + v2)"
      using d(7) by (simp add: algebra_simps)
    then have "W div V < here div v1 + 1" by (rule gq)
    then show ?thesis by simp
  qed
  show "g \<le> W div V + 1" if "g < BASE" "W div V \<le> g" "g * (v1 * BASE + v2) \<le> here * BASE + u2" for g
  proof -
    have "0 \<le> g" using that(2) \<open>0 \<le> W div V\<close> by linarith
    have "g * (v1 * BASE + v2) * P \<le> (here * BASE + u2) * P" using that(3) P by (intro mult_right_mono) simp_all
    then have 1: "g * (v1 * BASE + v2) * P \<le> W" using W by linarith
    have "g * x \<le> BASE * P" using that(1) \<open>0 \<le> g\<close> V(2,3) by (intro mult_mono) simp_all
    moreover have "BASE * P \<le> v1 * BASE * P" using d(1) P by simp
    ultimately have "g * x \<le> V" using Vp(1) by linarith
    then have "(g - 1) * V \<le> W" using 1 V(1) by (simp add: algebra_simps)
    then have "(g - 1) * V div V \<le> W div V" using Vp(2) by (rule zdiv_mono1)
    then show ?thesis using Vp(2) by simp
  qed
qed

lemma window_top:
  assumes "2 \<le> n"
  shows "part u j (n + 1) = (u ! (j + n) * BASE + u ! (j + n - 1)) * BASE ^ (n - 1) + part u j (n - 1)"
    "part u j n = (u ! (j + n - 1) * BASE + u ! (j + n - 2)) * BASE ^ (n - 2) + part u j (n - 2)"
proof -
  obtain k where n: "n = Suc (Suc k)" using assms by (metis Suc_diff_le Suc_1 le_Suc_ex add_2_eq_Suc)
  show "part u j (n + 1) = (u ! (j + n) * BASE + u ! (j + n - 1)) * BASE ^ (n - 1) + part u j (n - 1)"
    by (simp add: n algebra_simps)
  show "part u j n = (u ! (j + n - 1) * BASE + u ! (j + n - 2)) * BASE ^ (n - 2) + part u j (n - 2)"
    by (simp add: n algebra_simps)
qed

lemma one_digit_spec:
  assumes n: "2 \<le> n" "n \<le> length v" "j + n < length u" and ok: "digits_ok u" "digits_ok v"
    and v1: "0 < v ! (n - 1)" and W: "part u j (n + 1) < BASE * part v 0 n"
  shows "\<exists>u'. one_digit n v j u = Some (u', part u j (n + 1) div part v 0 n) \<and>
    length u' = length u \<and> digits_ok u' \<and> (\<forall>i. i < j \<or> j + n < i \<longrightarrow> u' ! i = u ! i) \<and>
    part u' j (n + 1) = part u j (n + 1) mod part v 0 n"
proof -
  let ?W = "part u j (n + 1)" and ?V = "part v 0 n" and ?P = "BASE ^ (n - 2)"
  let ?t = "u ! (j + n)" and ?x = "u ! (j + n - 1)" and ?y = "u ! (j + n - 2)"
  let ?v1 = "v ! (n - 1)" and ?v2 = "v ! (n - 2)"
  define here where "here = ?t * BASE + ?x"
  define q where "q = ?W div ?V"
  have dg: "0 \<le> ?t" "?t < BASE" "0 \<le> ?x" "?x < BASE" "0 \<le> ?y" "?y < BASE" "?v1 < BASE" "0 \<le> ?v2" "?v2 < BASE"
    using digits_nth [OF ok(1)] digits_nth [OF ok(2)] n by simp_all
  have P: "BASE ^ (n - 1) = BASE * ?P" using n(1) by (cases n) (auto simp: power_eq_if)
  have Wd: "?W = (here * BASE + ?y) * ?P + part u j (n - 2)"
  proof -
    have "part u j (n - 1) = ?y * ?P + part u j (n - 2)"
    proof -
      have "n - 1 = Suc (n - 2)" "n - 2 + j = j + n - 2" using n(1) by simp_all
      then show ?thesis by simp
    qed
    then show ?thesis unfolding window_top(1) [OF n(1)] P here_def by (simp add: algebra_simps)
  qed
  have Vd: "?V = (?v1 * BASE + ?v2) * ?P + part v 0 (n - 2)" using window_top(2) [OF n(1), of v 0] by simp
  have bw: "0 \<le> part u j (n - 2)" "part u j (n - 2) < ?P" "0 \<le> part v 0 (n - 2)" "part v 0 (n - 2) < ?P"
    using part_bound [OF ok(1), of "n - 2" j] part_bound [OF ok(2), of "n - 2" 0] n by simp_all
  have h0: "0 \<le> here" using dg by (simp add: here_def)
  note lead = leading_digits [OF Wd bw(1,2) Vd bw(3,4) v1 dg(7,8,9,5) h0 dg(6) W]
  have V0: "0 < ?V"
  proof -
    have "0 < (?v1 * BASE + ?v2) * ?P" using v1 dg(8) by (simp add: add_pos_nonneg)
    then show ?thesis using Vd bw(3) by linarith
  qed
  have word: "((?t * BASE) mod 2 ^ 64 OR ?x) = here" using guess_word dg by (simp add: here_def)
  obtain g where g: "correct (here div ?v1) (here mod ?v1) ?v1 ?v2 ?y = Some g" "q \<le> g" "g < BASE"
    "g * (?v1 * BASE + ?v2) \<le> here * BASE + ?y"
  proof -
    have rB: "here mod ?v1 < BASE" using pos_mod_bound [OF v1, of here] dg(7) by linarith
    have r0: "0 \<le> here mod ?v1" using v1 by simp
    have hd: "here = here div ?v1 * ?v1 + here mod ?v1" by (rule div_mult_mod_eq [symmetric])
    have "\<exists>g. correct (here div ?v1) (here mod ?v1) ?v1 ?v2 ?y = Some g \<and> q \<le> g \<and> g < BASE \<and>
        g * (?v1 * BASE + ?v2) \<le> here * BASE + ?y"
      unfolding q_def by (rule correct_spec [OF r0 rB v1 dg(7,8,9,5,6) hd lead(3,1,2,4,5)])
    then show thesis using that by blast
  qed
  have gq: "g = q \<or> g = q + 1" using lead(6) [OF g(3) _ g(4)] g(2) unfolding q_def by linarith
  have g0: "0 \<le> g" using g(2) lead(1) by (simp add: q_def)
  obtain u1 c b where m: "mul_sub n g v j u = Some (u1, c, b)" "length u1 = length u" "digits_ok u1"
    "0 \<le> c" "c < BASE" "b = 0 \<or> b = - 1" "\<forall>i. i < j \<or> n + j \<le> i \<longrightarrow> u1 ! i = u ! i"
    "part u1 j n = part u j n - g * ?V + BASE ^ n * (c - b)"
    using mul_sub_correct [OF ok g0 g(3) n(2), of j] n(3) by (auto simp: add.commute)
  define diff where "diff = ?t - c + b"
  define u2 where "u2 = u1[j + n := diff mod BASE]"
  have gets: "get u (j + n) = Some ?t" "get u (j + n - 1) = Some ?x" "get u (j + n - 2) = Some ?y"
    "get v (n - 1) = Some ?v1" "get v (n - 2) = Some ?v2" "get u1 (j + n) = Some ?t"
    using n m(2,7) by (simp_all add: get_def)
  have "- (2 * BASE) \<le> ?t - c" "?t - c \<le> 2 * BASE" "- (2 * BASE) \<le> diff" "diff \<le> 2 * BASE"
    using dg(1,2) m(4,5,6) BASE_pos(1) unfolding diff_def by linarith+
  then have chk: "i64 (?t - as_i64 c) = Some (?t - c)" "i64 (?t - c + b) = Some diff"
    "put u1 (j + n) (as_u32 diff) = Some u2"
    using i64I as_i64_small [OF m(4,5)] m(2) n(3) by (simp_all add: diff_def put_def as_u32_def u2_def)
  have u2: "digits_ok u2" "length u2 = length u" using m(2,3) digits_update by (simp_all add: u2_def)
  define e where "e = diff div BASE"
  have step: "one_digit n v j u = (if e \<noteq> 0 then do {
         guess \<leftarrow> u64 (g - 1);
         (u, carry) \<leftarrow> add_back n v j u2;
         top \<leftarrow> get u (j + n);
         sum \<leftarrow> u64 (top + carry);
         u \<leftarrow> put u (j + n) (as_u32 sum);
         Some (u, as_u32 guess)
       }
       else Some (u2, as_u32 g))"
    unfolding one_digit_def gets bind.bind_lunit Let_def word g(1) m(1) prod.case chk e_def by (rule refl)
  have total: "part u2 j (n + 1) = ?W - g * ?V - BASE ^ (n + 1) * e"
  proof -
    have "part u2 j n = part u1 j n" unfolding u2_def by (rule part_cong) simp
    then have 1: "part u2 j (n + 1) = part u1 j n + (diff mod BASE) * BASE ^ n"
      using m(2) n(3) by (simp add: u2_def add.commute)
    have "diff mod BASE = diff - BASE * e" by (simp add: e_def minus_mult_div_eq_mod)
    then have 2: "(diff mod BASE) * BASE ^ n = ?t * BASE ^ n - c * BASE ^ n + b * BASE ^ n - BASE ^ (n + 1) * e"
      by (simp add: diff_def left_diff_distrib distrib_right)
    have 3: "?W = part u j n + ?t * BASE ^ n" by (simp add: add.commute)
    have 4: "part u1 j n = part u j n - g * ?V + c * BASE ^ n - b * BASE ^ n"
      unfolding m(8) by (simp add: right_diff_distrib left_diff_distrib mult.commute)
    show ?thesis unfolding 1 2 3 4 by simp
  qed
  have tb: "0 \<le> part u2 j (n + 1)" "part u2 j (n + 1) < BASE ^ (n + 1)"
    using part_bound [OF u2(1), of "n + 1" j] u2(2) n(3) by simp_all
  have r: "?W - q * ?V = ?W mod ?V" "0 \<le> ?W mod ?V" "?W mod ?V < ?V"
    using V0 by (simp_all add: q_def minus_div_mult_eq_mod)
  have Vb: "?V < BASE ^ n" using part_bound [OF ok(2), of n 0] n(2) by simp
  have Vb': "?V < BASE ^ (n + 1)"
  proof -
    have "BASE ^ n \<le> BASE ^ (n + 1)" by (intro power_increasing) simp_all
    then show ?thesis using Vb by linarith
  qed
  have q32: "as_u32 q = q" using lead(1,2) by (simp add: as_u32_def q_def)
  show ?thesis
  proof (cases "g = q")
    case True
    have "e = 0"
    proof -
      have "BASE ^ (n + 1) * e = ?W mod ?V - part u2 j (n + 1)" using total [unfolded True] r(1) by linarith
      then have "\<bar>BASE ^ (n + 1) * e\<bar> < BASE ^ (n + 1)" using tb r(2,3) Vb' by linarith
      then have "BASE ^ (n + 1) * \<bar>e\<bar> < BASE ^ (n + 1) * 1" by (simp add: abs_mult)
      then have "\<bar>e\<bar> < 1" by (simp only: mult_less_cancel_left_pos [OF BASE_power(1)])
      then show ?thesis by simp
    qed
    then have "one_digit n v j u = Some (u2, q)" using step True q32 by simp
    moreover have "part u2 j (n + 1) = ?W mod ?V" using total r(1) True \<open>e = 0\<close> by simp
    ultimately show ?thesis using u2 m(7) by (auto simp: q_def u2_def)
  next
    case False
    then have gq1: "g = q + 1" using gq by simp
    have tt: "part u2 j (n + 1) = ?W mod ?V - ?V - BASE ^ (n + 1) * e"
      using total r(1) gq1 by (simp add: distrib_right)
    have "e = - 1"
    proof -
      have lo: "BASE ^ (n + 1) * e < BASE ^ (n + 1) * 0" using tt tb(1) r(3) by simp
      have hi: "BASE ^ (n + 1) * (- 2) < BASE ^ (n + 1) * e" using tt tb(2) r(2) Vb' by linarith
      have "e < 0" using lo by (simp only: mult_less_cancel_left_pos [OF BASE_power(1)])
      moreover have "- 2 < e" using hi by (simp only: mult_less_cancel_left_pos [OF BASE_power(1)])
      ultimately show ?thesis by linarith
    qed
    then have tt': "part u2 j (n + 1) + ?V = ?W mod ?V + BASE ^ (n + 1)" using tt by simp
    obtain u3 c3 where a: "add_back n v j u2 = Some (u3, c3)" "length u3 = length u2" "digits_ok u3"
      "0 \<le> c3" "c3 \<le> 1" "\<forall>i. i < j \<or> n + j \<le> i \<longrightarrow> u3 ! i = u2 ! i"
      "part u3 j n + BASE ^ n * c3 = part u2 j n + ?V"
      using add_back_correct [OF u2(1) ok(2) n(2), of j] u2(2) n(3) by (auto simp: add.commute)
    let ?z = "u2 ! (j + n)"
    define t where "t = ?z + c3"
    define u4 where "u4 = u3[j + n := t mod BASE]"
    have z: "0 \<le> ?z" "?z < BASE" using digits_nth [OF u2(1), of "j + n"] u2(2) n(3) by simp_all
    have z3: "u3 ! (j + n) = ?z" using a(6) by simp
    have "BASE + 1 < BASE * BASE" by (simp add: BASE_def)
    then have tB: "t < BASE * BASE" "0 \<le> t" using z a(4,5) unfolding t_def by linarith+
    have "BASE \<le> BASE * BASE" by (simp add: BASE_def)
    then have "u64 q = Some q" using lead(1,2) unfolding q_def by (intro u64I) linarith+
    then have gu: "u64 (g - 1) = Some q" using gq1 by simp
    have t64: "u64 (?z + c3) = Some t" using u64I [OF tB(2,1)] by (simp add: t_def)
    have gz: "get u3 (j + n) = Some ?z" "put u3 (j + n) (as_u32 t) = Some u4"
      using a(2) z3 u2(2) n(3) by (simp_all add: get_def put_def u4_def as_u32_def)
    have "one_digit n v j u = Some (u4, q)"
      unfolding step gu bind.bind_lunit a(1) prod.case gz(1) t64 gz(2) q32 using \<open>e = - 1\<close> by simp
    moreover have "part u4 j (n + 1) = ?W mod ?V"
    proof -
      have "part u4 j n = part u3 j n" unfolding u4_def by (rule part_cong) simp
      then have p4: "part u4 j (n + 1) = part u3 j n + (t mod BASE) * BASE ^ n"
        using a(2) u2(2) n(3) by (simp add: u4_def add.commute)
      have tm: "t mod BASE = ?z + c3 - BASE * (t div BASE)" by (simp add: t_def minus_mult_div_eq_mod)
      have 1: "(t mod BASE) * BASE ^ n = ?z * BASE ^ n + BASE ^ n * c3 - BASE ^ (n + 1) * (t div BASE)"
        unfolding tm by (simp add: algebra_simps)
      have 2: "part u2 j (n + 1) = part u2 j n + ?z * BASE ^ n" by (simp add: add.commute)
      have 3: "BASE ^ (n + 1) * (1 - t div BASE) = BASE ^ (n + 1) - BASE ^ (n + 1) * (t div BASE)"
        by (simp only: right_diff_distrib mult_1_right)
      have e4: "part u4 j (n + 1) = ?W mod ?V + BASE ^ (n + 1) * (1 - t div BASE)"
        using p4 a(7) tt' unfolding 1 2 3 by linarith
      have "digits_ok u4" using digits_update [OF a(3)] by (simp add: u4_def)
      then have b4: "0 \<le> part u4 j (n + 1)" "part u4 j (n + 1) < BASE ^ (n + 1)"
        using part_bound [of u4 "n + 1" j] a(2) u2(2) n(3) by (simp_all add: u4_def)
      have "\<bar>BASE ^ (n + 1) * (1 - t div BASE)\<bar> < BASE ^ (n + 1)" using e4 b4 r(2,3) Vb' by linarith
      then have "BASE ^ (n + 1) * \<bar>1 - t div BASE\<bar> < BASE ^ (n + 1) * 1" by (simp add: abs_mult)
      then have "\<bar>1 - t div BASE\<bar> < 1" by (simp only: mult_less_cancel_left_pos [OF BASE_power(1)])
      then show ?thesis using e4 by simp
    qed
    moreover have "digits_ok u4" using digits_update [OF a(3)] by (simp add: u4_def)
    moreover have "u4 ! i = u ! i" if "i < j \<or> j + n < i" for i
      using that a(6) m(7) by (auto simp: u4_def u2_def)
    moreover have "length u4 = length u" using a(2) u2(2) by (simp add: u4_def)
    ultimately show ?thesis unfolding q_def by blast
  qed
qed

section \<open>The loop over the digits\<close>

text \<open>
  The quotient digits written so far times the divisor, with what is left of the dividend, is
  what was there before.
\<close>

lemma long_loop_spec:
  assumes n: "2 \<le> n" "n \<le> length v" and ok: "digits_ok v" and v1: "0 < v ! (n - 1)"
  shows "k + n \<le> length u \<Longrightarrow> digits_ok u \<Longrightarrow> digits_ok quo \<Longrightarrow> k \<le> length quo \<Longrightarrow>
    part u 0 (length u) < part v 0 n * BASE ^ k \<Longrightarrow>
    \<exists>u' quo'. long_loop k n v u quo = Some (u', quo') \<and> length u' = length u \<and> digits_ok u' \<and>
      length quo' = length quo \<and> digits_ok quo' \<and> (\<forall>i. k \<le> i \<longrightarrow> quo' ! i = quo ! i) \<and>
      part quo' 0 k * part v 0 n + part u' 0 (length u) = part u 0 (length u) \<and>
      part u' 0 (length u) < part v 0 n"
proof (induction k arbitrary: u quo)
  case 0
  then show ?case by simp
next
  case (Suc j)
  let ?V = "part v 0 n" and ?W = "part u j (n + 1)" and ?L = "length u"
  have len: "j + n < ?L" using Suc.prems(1) by simp
  define rest where "rest = ?L - (j + (n + 1))"
  have L: "?L = j + ((n + 1) + rest)" using len by (simp add: rest_def)
  have Vb: "0 \<le> ?V" "?V < BASE ^ n" using part_bound [OF ok, of n 0] n(2) by simp_all
  have bl: "0 \<le> part u 0 j" "part u 0 j < BASE ^ j" using part_bound [OF Suc.prems(2), of j 0] len by simp_all
  have whole: "part u 0 ?L = part u 0 j + BASE ^ j * part u j ((n + 1) + rest)"
    using part_split [of u 0 j "(n + 1) + rest"] L by simp
  have small: "part u 0 ?L < BASE ^ (j + (n + 1))"
  proof -
    have "?V * BASE ^ Suc j \<le> BASE ^ n * BASE ^ Suc j" using Vb(2) by (intro mult_right_mono) simp_all
    also have "\<dots> = BASE ^ (j + (n + 1))" by (simp add: power_add)
    finally show ?thesis using Suc.prems(5) by linarith
  qed
  have top: "part u j ((n + 1) + rest) = ?W"
  proof (rule part_high(2) [OF Suc.prems(2)])
    show "n + 1 + rest + j \<le> ?L" using L by simp
    have "BASE ^ j * part u j (n + 1 + rest) < BASE ^ j * BASE ^ (n + 1)"
      using whole small bl(1) unfolding power_add [of BASE j] by linarith
    then show "part u j (n + 1 + rest) < BASE ^ (n + 1)" by (simp only: mult_less_cancel_left_pos [OF BASE_power(1)])
  qed
  have WV: "?W < BASE * ?V"
  proof -
    have "BASE ^ j * ?W < BASE ^ j * (BASE * ?V)"
    proof -
      have "?V * BASE ^ Suc j = BASE ^ j * (BASE * ?V)" by simp
      then show ?thesis using whole Suc.prems(5) bl(1) unfolding top by linarith
    qed
    then show ?thesis by (simp only: mult_less_cancel_left_pos [OF BASE_power(1)])
  qed
  obtain u1 where u1: "one_digit n v j u = Some (u1, ?W div ?V)" "length u1 = ?L" "digits_ok u1"
    "\<forall>i. i < j \<or> j + n < i \<longrightarrow> u1 ! i = u ! i" "part u1 j (n + 1) = ?W mod ?V"
    using one_digit_spec [OF n len Suc.prems(2) ok v1 WV] by blast
  have Vpos: "0 < ?V"
  proof -
    have "0 \<le> ?W" using part_bound [OF Suc.prems(2), of "n + 1" j] len by simp
    then have "0 < BASE * ?V" using WV by linarith
    then show ?thesis by (rule zero_less_mult_pos) simp
  qed
  define q where "q = ?W div ?V"
  have q: "0 \<le> q" "q < BASE"
  proof -
    show "0 \<le> q" using part_bound [OF Suc.prems(2), of "n + 1" j] len Vpos
      by (simp add: q_def pos_imp_zdiv_nonneg_iff)
    show "q < BASE" unfolding q_def using WV Vpos by (intro div_less_of_mult) simp_all
  qed
  have low: "part u1 0 j = part u 0 j" using u1(4) by (intro part_cong) simp
  have "part u1 (j + (n + 1)) rest = part u (j + (n + 1)) rest" using u1(4) by (intro part_cong) simp
  moreover have "part u (j + (n + 1)) rest = 0"
  proof (rule part_high(1) [OF Suc.prems(2)])
    show "n + 1 + rest + j \<le> ?L" using L by simp
    show "part u j (n + 1 + rest) < BASE ^ (n + 1)"
      unfolding top using part_bound [OF Suc.prems(2), of "n + 1" j] len by simp
  qed
  ultimately have "part u1 j (n + 1 + rest) = part u1 j (n + 1)" by (simp only: part_split mult_zero_right add_0_right)
  then have whole1: "part u1 0 ?L = part u 0 j + BASE ^ j * (?W mod ?V)"
    using part_split [of u1 0 j "(n + 1) + rest"] L low u1(5) by simp
  have left: "part u1 0 ?L = part u 0 ?L - q * ?V * BASE ^ j"
  proof -
    have "?W mod ?V = ?W - q * ?V" by (simp add: q_def minus_div_mult_eq_mod)
    then have "BASE ^ j * (?W mod ?V) = BASE ^ j * ?W - q * ?V * BASE ^ j"
      by (metis mult.commute right_diff_distrib)
    then show ?thesis using whole1 whole unfolding top by linarith
  qed
  have less: "part u1 0 ?L < ?V * BASE ^ j"
  proof -
    have "BASE ^ j * (?W mod ?V) \<le> BASE ^ j * (?V - 1)" using Vpos by (intro mult_left_mono) simp_all
    then show ?thesis unfolding whole1 using bl(2) by (simp add: algebra_simps)
  qed
  let ?q1 = "quo[j := q]"
  have q1: "put quo j q = Some ?q1" "digits_ok ?q1" "length ?q1 = length quo"
    using Suc.prems(3,4) q digits_update by (simp_all add: put_def)
  obtain u' quo' where IH: "long_loop j n v u1 ?q1 = Some (u', quo')" "length u' = ?L" "digits_ok u'"
    "length quo' = length quo" "digits_ok quo'" "\<forall>i. j \<le> i \<longrightarrow> quo' ! i = ?q1 ! i"
    "part quo' 0 j * ?V + part u' 0 ?L = part u1 0 ?L" "part u' 0 ?L < ?V"
    using Suc.IH [of u1 ?q1] u1(2,3) q1 len less Suc.prems(4) by auto
  have "part quo' 0 (Suc j) = part quo' 0 j + q * BASE ^ j" using IH(6) Suc.prems(4) by simp
  then have "part quo' 0 (Suc j) * ?V + part u' 0 ?L = part u 0 ?L"
    using IH(7) left by (simp add: distrib_right algebra_simps)
  moreover have "long_loop (Suc j) n v u quo = Some (u', quo')"
    using u1(1) q1(1) IH(1) by (simp add: q_def)
  moreover have "\<forall>i. Suc j \<le> i \<longrightarrow> quo' ! i = quo ! i" using IH(6) by simp
  ultimately show ?case using IH(2-5,8) by blast
qed

lemma short_loop_spec:
  assumes ok: "digits_ok a" and d: "0 < d" "d < BASE"
  shows "k \<le> length a \<Longrightarrow> k \<le> length quo \<Longrightarrow> digits_ok quo \<Longrightarrow> 0 \<le> rest \<Longrightarrow> rest < d \<Longrightarrow>
    \<exists>quo' rest'. short_loop k a d quo rest = Some (quo', rest') \<and> length quo' = length quo \<and> digits_ok quo' \<and>
      (\<forall>i. k \<le> i \<longrightarrow> quo' ! i = quo ! i) \<and> 0 \<le> rest' \<and> rest' < d \<and>
      part quo' 0 k * d + rest' = rest * BASE ^ k + part a 0 k"
proof (induction k arbitrary: quo rest)
  case 0
  then show ?case by simp
next
  case (Suc i)
  define x where "x = a ! i"
  have x: "get a i = Some x" "0 \<le> x" "x < BASE"
    using digits_nth [OF ok, of i] Suc.prems(1) by (simp_all add: get_def x_def)
  define here where "here = rest * BASE + x"
  have "rest < BASE" using Suc.prems(5) d(2) by simp
  then have word: "((rest * BASE) mod 2 ^ 64 OR x) = here"
    using guess_word [OF Suc.prems(4) _ x(2,3)] by (simp add: here_def)
  have h: "0 \<le> here div d" "here div d < BASE" "0 \<le> here mod d" "here mod d < d"
  proof -
    have "0 \<le> here" using Suc.prems(4) x(2) by (simp add: here_def)
    then show "0 \<le> here div d" using d(1) by (simp add: pos_imp_zdiv_nonneg_iff)
    have "(rest + 1) * BASE \<le> d * BASE" using Suc.prems(5) by (intro mult_right_mono) simp_all
    then have "here < BASE * d" using x(3) unfolding here_def distrib_right mult.commute [of BASE d] by linarith
    then show "here div d < BASE" using d(1) by (rule div_less_of_mult)
  qed (use d in simp_all)
  let ?q1 = "quo[i := here div d]"
  have q1: "put quo i (as_u32 (here div d)) = Some ?q1" "digits_ok ?q1"
    using Suc.prems(2,3) h(1,2) digits_update by (simp_all add: put_def as_u32_def)
  obtain quo' rest' where IH: "short_loop i a d ?q1 (here mod d) = Some (quo', rest')" "length quo' = length quo"
    "digits_ok quo'" "\<forall>j. i \<le> j \<longrightarrow> quo' ! j = ?q1 ! j" "0 \<le> rest'" "rest' < d"
    "part quo' 0 i * d + rest' = (here mod d) * BASE ^ i + part a 0 i"
    using Suc.IH [of ?q1 "here mod d"] Suc.prems(1,2) q1(2) h(3,4) by auto
  have p: "part quo' 0 (Suc i) = part quo' 0 i + here div d * BASE ^ i" using IH(4) Suc.prems(2) by simp
  have "(part quo' 0 i + here div d * BASE ^ i) * d = part quo' 0 i * d + (here div d * d) * BASE ^ i"
    by (simp add: algebra_simps)
  moreover have "here * BASE ^ i = (here div d * d) * BASE ^ i + (here mod d) * BASE ^ i"
    by (metis div_mult_mod_eq distrib_right)
  moreover have "here * BASE ^ i = rest * BASE ^ Suc i + x * BASE ^ i"
    by (simp add: here_def distrib_right)
  moreover have "part a 0 (Suc i) = part a 0 i + x * BASE ^ i" by (simp add: x_def)
  ultimately have "part quo' 0 (Suc i) * d + rest' = rest * BASE ^ Suc i + part a 0 (Suc i)"
    unfolding p using IH(7) by linarith
  moreover have "short_loop (Suc i) a d quo rest = Some (quo', rest')"
    using x(1) word q1(1) IH(1) by (simp add: Let_def)
  moreover have "\<forall>j. Suc i \<le> j \<longrightarrow> quo' ! j = quo ! j" using IH(4) by simp
  ultimately show ?case using IH(2,3,5,6) by blast
qed

end
