(* ===== verification/LongSound.thy ===== *)
theory LongSound
  imports KnuthSound
begin

text \<open>
  What \<open>div.rs\<close> and \<open>wide.rs\<close> answer: the normalising shifts around the digit loop, then
  \<open>divide\<close> on every pair of operands, the signed divisions, the 64-bit ones and the entry points
  a C compiler calls, and the multiplication that says whether it overflowed.
\<close>

section \<open>The normalising shifts\<close>

lemma lead_from_spec: "0 \<le> d \<Longrightarrow> d < 2 ^ n \<Longrightarrow> (d + 1) * 2 ^ lead_from n d \<le> 2 ^ n"
  by (induction n) (auto simp: not_less)

lemma lead_from_less: "0 < d \<Longrightarrow> d < 2 ^ n \<Longrightarrow> lead_from n d < n"
  by (induction n) (auto simp: not_less)

lemma part_append: "k \<le> length xs \<Longrightarrow> part (xs @ ys) 0 k = part xs 0 k"
  by (rule part_cong) (simp add: nth_append)

lemma base_by: "s < 32 \<Longrightarrow> BASE = 2 ^ (32 - s) * 2 ^ s"
  by (simp add: BASE_def flip: power_add)

lemma mod_room: "(d::int) mod 2 ^ k + 1 \<le> 2 ^ k"
proof -
  have "d mod 2 ^ k < 2 ^ k" by (rule pos_mod_bound) simp
  then show ?thesis by linarith
qed

text \<open>What one digit contributes to a value shifted up, and to one shifted down.\<close>

lemma up_digit:
  assumes "0 \<le> d" "d < BASE" "s < 32" "0 \<le> c" "c < 2 ^ s"
  shows "(as_u32 (push_bit s d) OR c) = (d mod 2 ^ (32 - s)) * 2 ^ s + c"
    "(d mod 2 ^ (32 - s)) * 2 ^ s + c < BASE"
    "BASE * (d div 2 ^ (32 - s)) + (d mod 2 ^ (32 - s)) * 2 ^ s = 2 ^ s * d"
    "(if s = 0 then 0 else drop_bit (32 - s) d) = d div 2 ^ (32 - s)" "d div 2 ^ (32 - s) < 2 ^ s"
proof -
  let ?h = "2 ^ (32 - s) :: int"
  note B = base_by [OF assms(3)]
  have "as_u32 (push_bit s d) = (d mod ?h) * 2 ^ s"
    by (simp add: as_u32_def push_bit_eq_mult B)
  then show "(as_u32 (push_bit s d) OR c) = (d mod ?h) * 2 ^ s + c"
    using or_disjoint [OF assms(4,5), of "d mod ?h"] by (simp add: or.commute)
  have "(d mod ?h + 1) * 2 ^ s \<le> ?h * 2 ^ s" using mod_room by (intro mult_right_mono) simp_all
  then show "(d mod ?h) * 2 ^ s + c < BASE" unfolding B distrib_right using assms(5) by linarith
  have "BASE * (d div ?h) + (d mod ?h) * 2 ^ s = 2 ^ s * (?h * (d div ?h) + d mod ?h)"
    unfolding B by (simp only: distrib_left mult.assoc mult.commute mult.left_commute)
  then show "BASE * (d div ?h) + (d mod ?h) * 2 ^ s = 2 ^ s * d" unfolding mult_div_mod_eq .
  show "(if s = 0 then 0 else drop_bit (32 - s) d) = d div ?h"
    using assms(1,2) by (simp add: drop_bit_eq_div BASE_def)
  show "d div ?h < 2 ^ s" using assms(2) unfolding B by (intro div_less_of_mult) (simp_all add: mult.commute)
qed

lemma shift_up_loop_spec:
  assumes "s < 32" "digits_ok ds"
  shows "i \<le> length ds \<Longrightarrow> \<exists>out c. shift_up_loop i ds s = (out, c) \<and> length out = i \<and> digits_ok out \<and>
    0 \<le> c \<and> c < 2 ^ s \<and> part out 0 i + BASE ^ i * c = 2 ^ s * part ds 0 i"
proof (induction i)
  case 0
  then show ?case by (simp add: digits_ok_def)
next
  case (Suc i)
  then obtain out c where IH: "shift_up_loop i ds s = (out, c)" "length out = i" "digits_ok out" "0 \<le> c" "c < 2 ^ s"
    "part out 0 i + BASE ^ i * c = 2 ^ s * part ds 0 i"
    by auto
  let ?d = "ds ! i" and ?h = "2 ^ (32 - s) :: int"
  have d: "0 \<le> ?d" "?d < BASE" using digits_nth [OF assms(2), of i] Suc.prems by simp_all
  note u = up_digit [OF d assms(1) IH(4,5)]
  let ?x = "(?d mod ?h) * 2 ^ s + c"
  have run: "shift_up_loop (Suc i) ds s = (out @ [?x], ?d div ?h)" using IH(1) u(1,4) by simp
  have "part (out @ [?x]) 0 (Suc i) = part out 0 i + ?x * BASE ^ i"
    using part_append [of i out "[?x]"] IH(2) by (simp add: nth_append)
  moreover have "BASE ^ i * (BASE * (?d div ?h) + (?d mod ?h) * 2 ^ s) = BASE ^ i * (2 ^ s * ?d)" unfolding u(3) ..
  ultimately have "part (out @ [?x]) 0 (Suc i) + BASE ^ Suc i * (?d div ?h) = 2 ^ s * part ds 0 (Suc i)"
    using IH(6) by (simp add: algebra_simps)
  moreover have "digits_ok (out @ [?x])" using IH(3,4) u(2) by (simp add: digits_ok_def)
  ultimately show ?case using run u(5) d(1) IH(2) by (simp add: pos_imp_zdiv_nonneg_iff)
qed

lemma shift_up_spec:
  assumes "s < 32" "digits_ok ds" "length ds = 4"
  shows "length (shift_up ds s) = 5" "digits_ok (shift_up ds s)" "part (shift_up ds s) 0 5 = 2 ^ s * part ds 0 4"
proof -
  obtain out c where o: "shift_up_loop 4 ds s = (out, c)" "length out = 4" "digits_ok out" "0 \<le> c" "c < 2 ^ s"
    "part out 0 4 + BASE ^ 4 * c = 2 ^ s * part ds 0 4"
    using shift_up_loop_spec [OF assms(1,2), of 4] assms(3) by auto
  have r: "shift_up ds s = out @ [c]" using o(1) by (simp add: shift_up_def DIGITS_def)
  have "(2::int) ^ s < BASE" unfolding BASE_def using assms(1) by (intro power_strict_increasing) simp_all
  then show "digits_ok (shift_up ds s)" using o(3,4,5) unfolding r by (simp add: digits_ok_def)
  show "length (shift_up ds s) = 5" using o(2) by (simp add: r)
  have "part (out @ [c]) 0 (Suc 4) = part out 0 4 + c * BASE ^ 4"
    using part_append [of 4 out "[c]"] o(2) by (simp only: part.simps) (simp add: nth_append)
  then show "part (shift_up ds s) 0 5 = 2 ^ s * part ds 0 4" using o(6) by (simp add: r mult.commute)
qed

lemma down_digit:
  assumes "0 \<le> d" "d < BASE" "0 \<le> e" "e < BASE" "s < 32"
  defines "x \<equiv> drop_bit s d OR (if s = 0 then 0 else as_u32 (push_bit (32 - s) e))"
  shows "0 \<le> x" "x < BASE" "2 ^ s * x = d - d mod 2 ^ s + (e mod 2 ^ s) * BASE"
proof -
  let ?h = "2 ^ (32 - s) :: int"
  have B: "BASE = 2 ^ s * ?h" using base_by [OF assms(5)] by (simp only: mult.commute)
  have z: "0 \<le> d div 2 ^ s" "d div 2 ^ s < ?h"
    using assms(1,2) unfolding B by (simp_all add: pos_imp_zdiv_nonneg_iff div_less_of_mult mult.commute)
  have "(if s = 0 then 0 else as_u32 (push_bit (32 - s) e)) = (e mod 2 ^ s) * ?h"
    by (simp add: as_u32_def push_bit_eq_mult B)
  then have x: "x = d div 2 ^ s + (e mod 2 ^ s) * ?h"
    using or_disjoint [OF z] unfolding x_def by (simp add: drop_bit_eq_div)
  then show "0 \<le> x" using z(1) by simp
  have "(e mod 2 ^ s + 1) * ?h \<le> 2 ^ s * ?h" using mod_room by (intro mult_right_mono) simp_all
  then show "x < BASE" using z(2) unfolding x B distrib_right by linarith
  have "2 ^ s * (d div 2 ^ s) = d - d mod 2 ^ s" by (simp add: minus_mod_eq_mult_div)
  then show "2 ^ s * x = d - d mod 2 ^ s + (e mod 2 ^ s) * BASE"
    unfolding x B by (simp add: distrib_left)
qed

lemma shift_down_spec:
  assumes s: "s < 32" and ok: "digits_ok ds" "length ds = 5" and top: "ds ! 4 = 0" and val: "part ds 0 5 = 2 ^ s * r"
  shows "shift_down ds s = r"
proof -
  define x where "x i = (drop_bit s (ds ! i) OR (if s = 0 then 0 else as_u32 (push_bit (32 - s) (ds ! (i + 1)))))" for i
  have x: "0 \<le> x i \<and> x i < BASE \<and> 2 ^ s * x i = ds ! i - ds ! i mod 2 ^ s + (ds ! (i + 1) mod 2 ^ s) * BASE" if "i < 4" for i
    unfolding x_def using down_digit [of "ds ! i" "ds ! (i + 1)" s] digits_nth [OF ok(1)] ok(2) that s by simp
  let ?o = "map x [0..<4]"
  have o: "digits_ok ?o" using x by (auto simp: digits_ok_def)
  have tele: "k \<le> 4 \<Longrightarrow> 2 ^ s * part ?o 0 k = part ds 0 k - ds ! 0 mod 2 ^ s + (ds ! k mod 2 ^ s) * BASE ^ k" for k
  proof (induction k)
    case (Suc k)
    have "2 ^ s * (x k * BASE ^ k) = (2 ^ s * x k) * BASE ^ k" by simp
    also have "\<dots> = (ds ! k - ds ! k mod 2 ^ s + (ds ! (k + 1) mod 2 ^ s) * BASE) * BASE ^ k" using x [of k] Suc.prems by simp
    finally show ?case using Suc by (simp add: distrib_left left_diff_distrib distrib_right)
  qed simp
  have sp: "part ds 0 5 = ds ! 0 + BASE * part ds 1 4" using part_split [of ds 0 1 4] by simp
  have "part ds 0 5 mod 2 ^ s = 0" unfolding val by simp
  moreover have "part ds 0 5 mod 2 ^ s = ds ! 0 mod 2 ^ s"
    unfolding sp base_by [OF s] by (simp add: mod_add_eq [symmetric] mult.assoc mult.commute [of "2 ^ (32 - s)"])
  ultimately have "ds ! 0 mod 2 ^ s = 0" by simp
  then have "2 ^ s * part ?o 0 4 = part ds 0 4" using tele [of 4] top by simp
  moreover have "part ds 0 (Suc 4) = part ds 0 4" using top by (simp only: part.simps) simp
  then have "part ds 0 4 = 2 ^ s * r" using val by simp
  ultimately have "2 ^ s * part ?o 0 4 = 2 ^ s * r" by simp
  then have "part ?o 0 4 = r" by (simp only: mult_cancel_left) simp
  moreover have "shift_down ds s = join_digits ?o" unfolding shift_down_def DIGITS_def x_def ..
  ultimately show ?thesis using join_part [OF o] by simp
qed

section \<open>Unsigned division\<close>

lemma replicate_ok: "digits_ok (replicate 4 0)"
  by (simp add: digits_ok_def)

lemma divide_short:
  assumes v: "0 \<le> num" "num < 2 ^ 128" "0 < den" "den < 2 ^ 128" and n: "used (split_digits den) = 1"
  shows "divide num den = Some (num div den, num mod den)"
proof -
  let ?a = "split_digits num" and ?b = "split_digits den"
  have den: "?b ! 0 = den" using used_value(1) [of den] v(3,4) n by simp
  have dB: "den < BASE" using used_value(2) [of den] v(3,4) n by simp
  obtain quo rest where q: "short_loop 4 ?a den (replicate 4 0) 0 = Some (quo, rest)" "length quo = 4" "digits_ok quo"
    "0 \<le> rest" "rest < den" "part quo 0 4 * den + rest = 0 * BASE ^ 4 + part ?a 0 4"
    using short_loop_spec [OF split_ok v(3) dB, of 4 num "replicate 4 0" 0] split_length replicate_ok v(3) by auto
  have "part quo 0 4 * den + rest = num" using q(6) split_value [OF v(1,2)] by simp
  then have "num div den = part quo 0 4" "num mod den = rest"
    using q(4,5) v(3) by (auto simp: int_div_pos_eq int_mod_pos_eq mult.commute)
  moreover have "join_digits quo = part quo 0 4" using join_part [OF q(3)] q(2) by simp
  ultimately show ?thesis using n q(1) den by (simp add: divide_def DIGITS_def)
qed

lemma divide_long_digits:
  assumes v: "0 \<le> num" "num < 2 ^ 128" "0 < den" "den < 2 ^ 128"
    and n: "2 \<le> used (split_digits den)" "used (split_digits den) \<le> used (split_digits num)"
  shows "divide num den = Some (num div den, num mod den)"
proof -
  let ?a = "split_digits num" and ?b = "split_digits den"
  define n where "n = used ?b"
  define m where "m = used ?a"
  define s where "s = lead_zeros (?b ! (n - 1))"
  define k where "k = Suc (m - n)"
  have nm: "2 \<le> n" "n \<le> m" "m \<le> 4" "n \<le> 4" using n used_facts(1) [of num] by (simp_all add: n_def m_def)
  have den: "den = part ?b 0 n" "BASE ^ (n - 1) \<le> den" and num: "num < BASE ^ m"
    using used_value [of den] used_value [of num] v nm(1) by (simp_all add: n_def m_def)
  have d: "0 < ?b ! (n - 1)" "?b ! (n - 1) < 2 ^ 32"
    using used_facts(3) [of den] digits_nth [OF split_ok, of "n - 1" den] nm split_length [of den]
    by (simp_all add: n_def BASE_def)
  have s: "s < 32" "(?b ! (n - 1) + 1) * 2 ^ s \<le> 2 ^ 32"
    using lead_from_less [OF d] lead_from_spec [of "?b ! (n - 1)" 32] d by (simp_all add: s_def lead_zeros_def)
  define V where "V = 2 ^ s * den"
  let ?v = "shift_up ?b s" and ?u = "shift_up ?a s"
  have up: "length ?v = 5" "digits_ok ?v" "part ?v 0 5 = V" "length ?u = 5" "digits_ok ?u" "part ?u 0 5 = 2 ^ s * num"
    using shift_up_spec [OF s(1) split_ok split_length] split_value v by (simp_all add: V_def)
  have VB: "V < BASE ^ n"
  proof -
    have n1: "n = Suc (n - 1)" using nm(1) by simp
    have "den = part ?b 0 (n - 1) + ?b ! (n - 1) * BASE ^ (n - 1)"
      using den(1) by (subst (asm) n1) (simp only: part.simps add_0_right)
    moreover have "part ?b 0 (n - 1) < BASE ^ (n - 1)"
      using part_bound [OF split_ok, of "n - 1" 0 den] split_length [of den] nm by simp
    ultimately have "den < (?b ! (n - 1) + 1) * BASE ^ (n - 1)" by (simp add: distrib_right)
    then have "V < 2 ^ s * ((?b ! (n - 1) + 1) * BASE ^ (n - 1))" by (simp add: V_def)
    also have "\<dots> = ((?b ! (n - 1) + 1) * 2 ^ s) * BASE ^ (n - 1)" by simp
    also have "\<dots> \<le> BASE * BASE ^ (n - 1)" using s(2) by (intro mult_right_mono) (simp_all add: BASE_def)
    also have "\<dots> = BASE ^ n" by (subst (2) n1) (simp only: power_Suc)
    finally show ?thesis .
  qed
  have Vn: "part ?v 0 n = V"
  proof -
    have "n + (5 - n) = 5" using nm by simp
    then show ?thesis using part_high(2) [OF up(2), of n "5 - n" 0] up(1,3) VB by simp
  qed
  have Vd: "den \<le> V" using v(3) by (simp add: V_def)
  have top: "0 < ?v ! (n - 1)"
  proof (rule ccontr)
    assume "\<not> 0 < ?v ! (n - 1)"
    then have "?v ! (n - 1) = 0" using digits_nth [OF up(2), of "n - 1"] up(1) nm by simp
    then have "part ?v 0 n = part ?v 0 (n - 1)" using nm(1) by (cases n) simp_all
    moreover have "part ?v 0 (n - 1) < BASE ^ (n - 1)"
      using part_bound [OF up(2), of "n - 1" 0] up(1) nm by linarith
    ultimately show False using Vn den(2) Vd by linarith
  qed
  have start: "part ?u 0 (length ?u) < part ?v 0 n * BASE ^ k"
  proof -
    have "m = (n - 1) + k" using nm by (simp add: k_def)
    then have "num < BASE ^ (n - 1) * BASE ^ k" using num by (simp add: power_add)
    also have "\<dots> \<le> den * BASE ^ k" using den(2) by (intro mult_right_mono) simp_all
    finally have "2 ^ s * num < 2 ^ s * (den * BASE ^ k)" by simp
    then show ?thesis using up(4,6) Vn by (simp add: V_def mult.assoc)
  qed
  obtain u' quo where L: "long_loop k n ?v ?u (replicate 4 0) = Some (u', quo)" "length u' = 5" "digits_ok u'"
    "length quo = 4" "digits_ok quo" "\<forall>i. k \<le> i \<longrightarrow> quo ! i = replicate 4 0 ! i"
    "part quo 0 k * V + part u' 0 5 = 2 ^ s * num" "part u' 0 5 < V"
  proof -
    have c: "n \<le> length ?v" "k + n \<le> length ?u" "k \<le> length (replicate 4 (0::int))"
      using nm up(1,4) by (simp_all add: k_def)
    show thesis
      using long_loop_spec [OF nm(1) c(1) up(2) top c(2) up(5) replicate_ok c(3) start]
      unfolding Vn up(4,6) length_replicate by (elim exE conjE) (rule that)
  qed
  have k4: "k + (4 - k) = 4" using nm by (simp add: k_def)
  have "part quo (0 + k) (4 - k) = 0" using L(6) by (intro part_zero) simp
  then have Q: "part quo 0 4 = part quo 0 k" using part_split [of quo 0 k "4 - k"] k4 by simp
  define r where "r = num - part quo 0 k * den"
  have rest: "part u' 0 5 = 2 ^ s * r" using L(7) by (simp add: r_def V_def algebra_simps)
  have r: "0 \<le> r" "r < den"
    using part_bound [OF L(3), of 5 0] L(2,8) unfolding rest V_def by (simp_all add: zero_le_mult_iff)
  have dq: "num div den = part quo 0 k"
    using r v(3) by (intro div_eqI) (simp_all add: r_def distrib_right)
  then have "num mod den = r" by (simp add: r_def minus_div_mult_eq_mod [symmetric])
  note dq this
  moreover have "join_digits quo = part quo 0 k" using join_part [OF L(5)] L(4) Q by simp
  moreover have "shift_down u' s = r"
  proof (rule shift_down_spec [OF s(1) L(3,2) _ rest])
    have "BASE ^ n \<le> BASE ^ 4" using nm by (intro power_increasing) simp_all
    then have "part u' 0 5 < BASE ^ 4" using L(8) VB by linarith
    then have "part u' (0 + 4) 1 = 0" by (intro part_high(1) [OF L(3)]) (simp_all add: L(2))
    then show "u' ! 4 = 0" by simp
  qed
  moreover have "divide num den = Option.bind (long_loop k n ?v ?u (replicate 4 0))
      (\<lambda>(u, quo). Some (join_digits quo, shift_down u s))"
    using nm by (simp add: divide_def DIGITS_def s_def k_def Let_def del: long_loop.simps flip: n_def m_def)
  ultimately show ?thesis unfolding L(1) by simp
qed

text \<open>Division answers, whatever it is given, and zero by zero is two zeroes.\<close>

lemma divide_spec:
  assumes v: "0 \<le> num" "num < 2 ^ 128" "0 \<le> den" "den < 2 ^ 128"
  shows "divide num den = Some (num div den, if den = 0 then 0 else num mod den)"
proof -
  have z: "used (split_digits den) = 0 \<longleftrightarrow> den = 0" using used_value(4) v(3,4) by simp
  consider "den = 0" | "0 < den" "used (split_digits den) = 1"
    | "0 < den" "2 \<le> used (split_digits den)" "used (split_digits den) \<le> used (split_digits num)"
    | "0 < den" "2 \<le> used (split_digits den)" "used (split_digits num) < used (split_digits den)"
    using z v(3) by linarith
  then show ?thesis
  proof cases
    case 4
    have "num < BASE ^ used (split_digits num)" using used_value(2) v(1,2) by simp
    also have "\<dots> \<le> BASE ^ (used (split_digits den) - 1)" using 4 by (intro power_increasing) simp_all
    also have "\<dots> \<le> den" using used_value(3) [of den] v 4 by simp
    finally have "num < den" .
    then show ?thesis using 4 v by (simp add: divide_def div_pos_pos_trivial)
  qed (use z v divide_short divide_long_digits in \<open>simp_all add: divide_def\<close>)
qed

section \<open>Signed division\<close>

lemma wrap_neg: "as_signed_width w (wrapping_neg w x) = as_signed_width w (- x)" if "0 < w"
  unfolding as_signed_width_def wrapping_neg_def
proof -
  have "signed_take_bit (w - 1) (take_bit w (- x)) = signed_take_bit (w - 1) (- x)"
  proof -
    have "\<not> w \<le> w - 1" using that by linarith
    then show ?thesis by (simp only: signed_take_bit_take_bit if_False)
  qed
  then show "signed_take_bit (w - 1) (- x mod 2 ^ w) = signed_take_bit (w - 1) (- x)"
    by (simp only: take_bit_eq_mod)
qed

lemma magnitude_abs: "- (2 ^ (w - 1)) \<le> v \<Longrightarrow> v < 2 ^ (w - 1) \<Longrightarrow> 0 < w \<Longrightarrow> magnitude w v = \<bar>v\<bar>"
proof -
  assume a: "- (2 ^ (w - 1)) \<le> v" "v < 2 ^ (w - 1)" "0 < w"
  have "(2::int) ^ w = 2 * 2 ^ (w - 1)" using a(3) by (cases w) simp_all
  moreover have "(0::int) < 2 ^ (w - 1)" by simp
  ultimately have "- v < 2 ^ w" using a(1) by linarith
  then have "wrapping_neg w (v mod 2 ^ w) = - v" if "v < 0"
    unfolding wrapping_neg_def mod_minus_eq using that by (intro mod_pos_pos_trivial) simp_all
  then show "magnitude w v = \<bar>v\<bar>" by (simp add: magnitude_def)
qed

lemma sign_rules:
  "(if (a < 0) = (b < 0) then \<bar>a\<bar> div \<bar>b\<bar> else - (\<bar>a\<bar> div \<bar>b\<bar>)) = a sdiv b"
  "(if a < 0 then - (\<bar>a\<bar> mod \<bar>b\<bar>) else \<bar>a\<bar> mod \<bar>b\<bar>) = a smod b" for a b :: int
proof -
  have "a < 0 \<or> a = 0 \<or> 0 < a" "b < 0 \<or> b = 0 \<or> 0 < b" by linarith+
  then show "(if (a < 0) = (b < 0) then \<bar>a\<bar> div \<bar>b\<bar> else - (\<bar>a\<bar> div \<bar>b\<bar>)) = a sdiv b"
    unfolding signed_divide_int_def by (elim disjE) simp_all
  show "(if a < 0 then - (\<bar>a\<bar> mod \<bar>b\<bar>) else \<bar>a\<bar> mod \<bar>b\<bar>) = a smod b"
    unfolding signed_modulo_int_def by (cases "a = 0") (simp_all add: sgn_if)
qed

text \<open>What both signed divisions do with the unsigned answer.\<close>

lemma signs_put_back:
  assumes "0 < w" "b \<noteq> 0"
  shows "as_signed_width w (if (a < 0) = (b < 0) then \<bar>a\<bar> div \<bar>b\<bar> else wrapping_neg w (\<bar>a\<bar> div \<bar>b\<bar>))
      = as_signed_width w (a sdiv b)"
    "as_signed_width w (if a < 0 then wrapping_neg w (\<bar>a\<bar> mod \<bar>b\<bar>) else \<bar>a\<bar> mod \<bar>b\<bar>)
      = as_signed_width w (a smod b)"
  unfolding sign_rules [symmetric] using wrap_neg [OF assms(1)] by simp_all

lemma signed_in_range:
  assumes "0 < w" "b \<noteq> 0" "- (2 ^ (w - 1)) \<le> a" "a < 2 ^ (w - 1)" "- (2 ^ (w - 1)) \<le> b" "b < 2 ^ (w - 1)"
  shows "as_signed_width w (a sdiv b) = (if a = - (2 ^ (w - 1)) \<and> b = - 1 then a else a sdiv b)"
    "as_signed_width w (a smod b) = a smod b"
proof -
  let ?h = "2 ^ (w - 1) :: int"
  have h: "0 < ?h" by simp
  have keep: "as_signed_width w x = x" if "- ?h \<le> x" "x < ?h" for x
    unfolding as_signed_width_def using that by (simp only: signed_take_bit_int_eq_self)
  have "a smod b \<in> {- \<bar>b\<bar> + 1..\<bar>b\<bar> - 1}" by (rule smod_int_range [OF assms(2)])
  then show "as_signed_width w (a smod b) = a smod b" using assms(5,6) by (intro keep) auto
  have r: "a sdiv b \<in> {- \<bar>a\<bar>..\<bar>a\<bar>}" by (rule sdiv_int_range)
  show "as_signed_width w (a sdiv b) = (if a = - ?h \<and> b = - 1 then a else a sdiv b)"
  proof (cases "a = - ?h \<and> b = - 1")
    case True
    have "signed_take_bit (w - 1) ?h = - ?h"
      by (simp add: signed_take_bit_eq_take_bit_shift take_bit_eq_mod mult_2 [symmetric])
    then show ?thesis using True by (simp add: as_signed_width_def)
  next
    case False
    have "a sdiv b < ?h"
    proof (rule ccontr)
      assume "\<not> a sdiv b < ?h"
      then have "?h \<le> \<bar>a\<bar>" "?h \<le> a sdiv b" using r by auto
      then have a: "a = - ?h" using assms(3,4) by auto
      then have "a sdiv b = - a" using r \<open>?h \<le> a sdiv b\<close> h by auto
      then have "b = - 1" using a h int_sdiv_negated_is_minus1 [of a b] by linarith
      then show False using a False by simp
    qed
    moreover have "- ?h \<le> a sdiv b" using r assms(3,4) by auto
    ultimately show ?thesis using keep False by simp
  qed
qed

section \<open>The divisions\<close>

text \<open>
  C21: Knuth's algorithm D as \<open>divide\<close> in \<open>div.rs\<close> writes it is division. For every 128-bit
  dividend and divisor it returns, no word of it overflows, no index leaves an array, and the
  answer is the floor quotient and the remainder; a divisor of zero gives two zeroes. The three
  unsigned entry points answer the parts of it.
\<close>

theorem long_division_correct:
  assumes "0 \<le> num" "num < 2 ^ 128" "0 \<le> den" "den < 2 ^ 128"
  shows "divide num den = Some (num div den, if den = 0 then 0 else num mod den) \<and>
    udivti3 num den = Some (num div den) \<and> umodti3 num den = Some (if den = 0 then 0 else num mod den) \<and>
    udivmodti4 num den = divide num den"
  using divide_spec [OF assms] by (simp add: udivti3_def umodti3_def udivmodti4_def)

theorem long_division_correct_witness:
  "divide (2 ^ 127 + 5) (2 ^ 64 + 1) = Some ((2 ^ 127 + 5) div (2 ^ 64 + 1), (2 ^ 127 + 5) mod (2 ^ 64 + 1)) \<and>
    udivti3 7 2 = Some 3"
  using long_division_correct [of "2 ^ 127 + 5" "2 ^ 64 + 1"] long_division_correct [of 7 2] by simp

lemma divide_signed_spec:
  assumes "- (2 ^ 127) \<le> num" "num < 2 ^ 127" "- (2 ^ 127) \<le> den" "den < 2 ^ 127" "den \<noteq> 0"
  shows "divide_signed num den = Some (if num = - (2 ^ 127) \<and> den = - 1 then num else num sdiv den, num smod den)"
proof -
  have m: "magnitude 128 num = \<bar>num\<bar>" "magnitude 128 den = \<bar>den\<bar>"
    using magnitude_abs [of 128 num] magnitude_abs [of 128 den] assms by simp_all
  have "divide \<bar>num\<bar> \<bar>den\<bar> = Some (\<bar>num\<bar> div \<bar>den\<bar>, \<bar>num\<bar> mod \<bar>den\<bar>)"
    using divide_spec [of "\<bar>num\<bar>" "\<bar>den\<bar>"] assms by simp
  moreover have w: "as_signed_width 128 (num sdiv den) = (if num = - (2 ^ 127) \<and> den = - 1 then num else num sdiv den)"
    "as_signed_width 128 (num smod den) = num smod den"
    using signed_in_range [of 128 den num] assms by simp_all
  ultimately show ?thesis
    using signs_put_back [of 128 den num] assms(5) by (simp only: divide_signed_def m bind.bind_lunit prod.case w) simp
qed

text \<open>
  C22: signed 128-bit division truncates towards zero and its remainder has the sign of the
  dividend, as C asks, for every dividend and every divisor that is not zero. The one quotient
  that has no 128-bit value, the most negative value by minus one, wraps to the most negative value.
\<close>

theorem signed_division_correct:
  assumes "- (2 ^ 127) \<le> num" "num < 2 ^ 127" "- (2 ^ 127) \<le> den" "den < 2 ^ 127" "den \<noteq> 0"
  shows "divti3 num den = Some (if num = - (2 ^ 127) \<and> den = - 1 then num else num sdiv den) \<and>
    modti3 num den = Some (num smod den) \<and> divmodti4 num den = divide_signed num den"
  using divide_signed_spec [OF assms] by (simp add: divti3_def modti3_def divmodti4_def)

theorem signed_division_correct_witness:
  "divti3 (- 7) 2 = Some (- 3) \<and> modti3 (- 7) 2 = Some (- 1) \<and> divti3 (- (2 ^ 127)) (- 1) = Some (- (2 ^ 127))"
  using signed_division_correct [of "- 7" 2] signed_division_correct [of "- (2 ^ 127)" "- 1"] by simp

lemma divide_long_spec:
  assumes "0 \<le> num" "num < 2 ^ 64" "0 < den" "den < 2 ^ 64"
  shows "divide_long num den = Some (num div den, num mod den)"
proof -
  have "num div den \<le> num" using assms zdiv_mono2 [of num 1 den] by simp
  moreover have "0 \<le> num div den" using assms by (simp add: pos_imp_zdiv_nonneg_iff)
  ultimately have q: "(num div den) mod 2 ^ 64 = num div den" using assms by simp
  have "num mod den < den" "0 \<le> num mod den" using assms by simp_all
  then have r: "(num mod den) mod 2 ^ 64 = num mod den" using assms by (intro mod_pos_pos_trivial) linarith+
  have "divide num den = Some (num div den, num mod den)" using divide_spec [of num den] assms by simp
  then show ?thesis by (simp only: divide_long_def bind.bind_lunit prod.case q r)
qed

lemma divide_long_signed_spec:
  assumes "- (2 ^ 63) \<le> num" "num < 2 ^ 63" "- (2 ^ 63) \<le> den" "den < 2 ^ 63" "den \<noteq> 0"
  shows "divide_long_signed num den = Some (if num = - (2 ^ 63) \<and> den = - 1 then num else num sdiv den, num smod den)"
proof -
  have m: "magnitude 64 num = \<bar>num\<bar>" "magnitude 64 den = \<bar>den\<bar>"
    using magnitude_abs [of 64 num] magnitude_abs [of 64 den] assms by simp_all
  have "divide_long \<bar>num\<bar> \<bar>den\<bar> = Some (\<bar>num\<bar> div \<bar>den\<bar>, \<bar>num\<bar> mod \<bar>den\<bar>)"
    using divide_long_spec [of "\<bar>num\<bar>" "\<bar>den\<bar>"] assms by simp
  moreover have w: "as_signed_width 64 (num sdiv den) = (if num = - (2 ^ 63) \<and> den = - 1 then num else num sdiv den)"
    "as_signed_width 64 (num smod den) = num smod den"
    using signed_in_range [of 64 den num] assms by simp_all
  ultimately show ?thesis
    using signs_put_back [of 64 den num] assms(5) by (simp only: divide_long_signed_def m bind.bind_lunit prod.case w) simp
qed

text \<open>
  The 64-bit entry points are the same division one width down: narrowing the long division's
  answer drops nothing, and the signed one wraps on the same one pair.
\<close>

theorem long_long_division_correct:
  assumes "den \<noteq> 0"
  shows "(0 \<le> num \<and> num < 2 ^ 64 \<and> 0 \<le> den \<and> den < 2 ^ 64 \<longrightarrow>
      udivdi3 num den = Some (num div den) \<and> umoddi3 num den = Some (num mod den) \<and>
      udivmoddi4 num den = Some (num div den, num mod den)) \<and>
    (- (2 ^ 63) \<le> num \<and> num < 2 ^ 63 \<and> - (2 ^ 63) \<le> den \<and> den < 2 ^ 63 \<longrightarrow>
      divdi3 num den = Some (if num = - (2 ^ 63) \<and> den = - 1 then num else num sdiv den) \<and>
      moddi3 num den = Some (num smod den) \<and> divmoddi4 num den = divide_long_signed num den)"
  using divide_long_spec [of num den] divide_long_signed_spec [of num den] assms
  by (simp add: udivdi3_def umoddi3_def udivmoddi4_def divdi3_def moddi3_def divmoddi4_def)

section \<open>The multiplication that says whether it overflowed\<close>

lemma wrapped_apart:
  assumes "\<not> (- (2 ^ 127) \<le> p \<and> p < 2 ^ 127)"
  shows "2 ^ 128 \<le> \<bar>p - as_signed_width 128 p\<bar>"
proof -
  define k where "k = (p + 2 ^ 127) div 2 ^ 128"
  have eq: "p - as_signed_width 128 p = 2 ^ 128 * k"
    unfolding as_signed_width_def k_def
    by (simp add: signed_take_bit_eq_take_bit_shift take_bit_eq_mod minus_mod_eq_mult_div [symmetric])
  have "as_signed_width 128 p \<noteq> p" using assms by (simp add: as_signed_width_def signed_take_bit_int_eq_self_iff)
  then have "1 \<le> \<bar>k\<bar>" using eq by auto
  then have "2 ^ 128 * 1 \<le> 2 ^ 128 * \<bar>k\<bar>" by (intro mult_left_mono) simp_all
  then show ?thesis unfolding eq by (simp add: abs_mult)
qed

lemma times_sdiv: "left \<noteq> 0 \<Longrightarrow> (left * right) sdiv left = right" for left right :: int
proof -
  assume l: "left \<noteq> 0"
  have "\<bar>left * right\<bar> div \<bar>left\<bar> = \<bar>right\<bar>" using l by (simp add: abs_mult)
  moreover have "sgn left * sgn left = 1" using l by simp
  then have "sgn right * (sgn left * sgn left) = sgn right" by simp
  then have "sgn (left * right) * sgn left = sgn right" by (simp only: sgn_mult mult.assoc mult.commute mult.left_commute)
  ultimately show "(left * right) sdiv left = right" unfolding signed_divide_int_def by (simp only: sgn_mult_abs)
qed

text \<open>
  C23: the overflow flag is exact. Dividing the wrapped product back and comparing, with the one
  pair a division cannot check excluded by hand, says overflow just when the product of the two
  128-bit values is outside the type, and the product is the wrapped one either way.
\<close>

theorem overflow_flag_exact:
  assumes "- (2 ^ 127) \<le> left" "left < 2 ^ 127" "- (2 ^ 127) \<le> right" "right < 2 ^ 127"
  shows "muloti4 left right = (multi3 left right, of_bool (\<not> (- (2 ^ 127) \<le> left * right \<and> left * right < 2 ^ 127)))"
proof -
  define p where "p = left * right"
  define w where "w = as_signed_width 128 p"
  have w: "- (2 ^ 127) \<le> w" "w < 2 ^ 127"
    unfolding w_def as_signed_width_def
    using signed_take_bit_int_greater_eq_minus_exp [of 127 p] signed_take_bit_int_less_exp [of 127 p] by simp_all
  have d: "wrapping_div w left = (if w = - (2 ^ 127) \<and> left = - 1 then w else w sdiv left)" if "left \<noteq> 0"
    unfolding wrapping_div_def using signed_in_range(1) [of 128 left w] that w assms(1,2) by simp
  have "(left \<noteq> 0 \<and> (wrapping_div w left \<noteq> right \<or> (left = - 1 \<and> right = - (2 ^ 127)))) \<longleftrightarrow>
      \<not> (- (2 ^ 127) \<le> p \<and> p < 2 ^ 127)"
  proof (cases "- (2 ^ 127) \<le> p \<and> p < 2 ^ 127")
    case True
    then have wp: "w = left * right"
      unfolding w_def as_signed_width_def p_def by (simp add: signed_take_bit_int_eq_self)
    have "wrapping_div w left = right" if "left \<noteq> 0"
    proof -
      have "\<not> (w = - (2 ^ 127) \<and> left = - 1)" using wp assms(4) by auto
      then have "wrapping_div w left = w sdiv left" using d [OF that] by (simp only: if_False)
      then show ?thesis using times_sdiv [OF that, of right] wp by (simp only:)
    qed
    moreover have "\<not> (left = - 1 \<and> right = - (2 ^ 127))" using True by (auto simp: p_def)
    ultimately show ?thesis using True by blast
  next
    case False
    then have far: "2 ^ 128 \<le> \<bar>p - w\<bar>" unfolding w_def by (rule wrapped_apart)
    have l0: "left \<noteq> 0" using False by (auto simp: p_def)
    have "w sdiv left \<noteq> right"
    proof
      assume "w sdiv left = right"
      then have "p - w = - (w smod left)"
        using minus_mult_sdiv_eq_smod [of w left] unfolding p_def by simp
      moreover have "w smod left \<in> {- \<bar>left\<bar> + 1..\<bar>left\<bar> - 1}" by (rule smod_int_range [OF l0])
      ultimately show False using far assms(1,2) by auto
    qed
    then show ?thesis using False d l0 by auto
  qed
  then show ?thesis
    by (simp add: muloti4_def multiply_checked_def multi3_def multiply_def Let_def flip: p_def w_def)
qed

theorem overflow_flag_exact_witness:
  "muloti4 (- 1) (- (2 ^ 127)) = (- (2 ^ 127), 1) \<and> muloti4 (2 ^ 63) (2 ^ 63) = (2 ^ 126, 0)"
  using overflow_flag_exact [of "- 1" "- (2 ^ 127)"] overflow_flag_exact [of "2 ^ 63" "2 ^ 63"]
  by (simp add: multi3_def multiply_def as_signed_width_def signed_take_bit_eq_take_bit_shift take_bit_eq_mod)

section \<open>Shifts by any count\<close>

lemma count_of_mod: "count_of c = nat (c mod 128)"
proof -
  have "take_bit 7 (take_bit 32 c) = take_bit 7 c" by simp
  moreover have "take_bit 7 x = x AND 127" for x :: int by (simp add: take_bit_eq_mask mask_eq_exp_minus_1)
  ultimately have "take_bit 32 c AND 127 = take_bit 7 c" by metis
  then have "(c mod 2 ^ 32) AND 127 = c mod 128" unfolding take_bit_eq_mod by simp
  then show ?thesis by (simp add: count_of_def)
qed

text \<open>
  The three shift entry points shift by the count modulo 128, whatever the count: left is a
  multiplication that wraps, the arithmetic one is floor division by the power of two, and the
  logical one is floor division of the unsigned reading of the value.
\<close>

theorem wide_shifts_correct:
  "ashlti3 v c = as_signed_width 128 (v * 2 ^ nat (c mod 128)) \<and>
    ashrti3 v c = v div 2 ^ nat (c mod 128) \<and>
    lshrti3 v c = as_signed_width 128 ((v mod 2 ^ 128) div 2 ^ nat (c mod 128)) \<and> nat (c mod 128) < 128"
  by (simp add: ashlti3_def ashrti3_def lshrti3_def shift_left_def shift_right_arithmetic_def
      shift_right_logical_def count_of_mod push_bit_eq_mult drop_bit_eq_div nat_less_iff)

end
