(* ===== verification/Moves.thy ===== *)
theory Moves
  imports Main "HOL-Library.Monad_Syntax"
begin

text \<open>
  Parallel moves put in an order, \<open>crates/rucc-regalloc/src/moves.rs\<close>. The moves of an edge all read
  before any writes; \<open>sequence\<close> writes them as single moves with one scratch place. The loop need
  not end when a caller breaks the contract, so it is a partial function; under the contract
  it returns, the places hold what the parallel moves said, and the scratch is touched only
  when no order of the moves alone could do it.
\<close>

section \<open>The code\<close>

record 'a move =
  to_place :: 'a
  from_place :: 'a

definition move_new :: "'a \<Rightarrow> 'a \<Rightarrow> 'a move" where
  "move_new dest src = \<lparr>to_place = dest, from_place = src\<rparr>"

text \<open>\<open>position\<close> of an iterator, and \<open>Vec::remove\<close>.\<close>

fun position :: "('a \<Rightarrow> bool) \<Rightarrow> 'a list \<Rightarrow> nat option" where
  "position P [] = None"
| "position P (x # xs) = (if P x then Some 0 else map_option Suc (position P xs))"

definition remove_at :: "nat \<Rightarrow> 'a list \<Rightarrow> 'a list" where
  "remove_at i xs = take i xs @ drop (Suc i) xs"

definition ready :: "'a move list \<Rightarrow> 'a move \<Rightarrow> bool" where
  "ready pending one \<longleftrightarrow>
     \<not> list_ex (\<lambda>other. from_place other = to_place one \<and> to_place other \<noteq> to_place one) pending"

definition break_cycle :: "'a move list \<Rightarrow> 'a move list \<Rightarrow> 'a \<Rightarrow> 'a move list \<times> 'a move list" where
  "break_cycle pending order scratch =
     (let source = from_place (hd pending)
      in (map (\<lambda>one. if from_place one = source then one\<lparr>from_place := scratch\<rparr> else one) pending,
          order @ [move_new scratch source]))"

partial_function (option) sequence_loop ::
  "'a move list \<Rightarrow> 'a move list \<Rightarrow> 'a \<Rightarrow> 'a move list option" where
  "sequence_loop pending order scratch =
     (if pending = [] then Some order
      else case position (ready pending) pending of
             Some index \<Rightarrow>
               sequence_loop (remove_at index pending) (order @ [pending ! index]) scratch
           | None \<Rightarrow>
               sequence_loop (fst (break_cycle pending order scratch))
                 (snd (break_cycle pending order scratch)) scratch)"

definition nontrivial :: "'a move list \<Rightarrow> 'a move list" where
  "nontrivial moves = filter (\<lambda>one. to_place one \<noteq> from_place one) moves"

text \<open>\<open>None\<close> is the panic of the assertion, or a loop that never ends.\<close>

definition sequence :: "'a move list \<Rightarrow> 'a \<Rightarrow> 'a move list option" where
  "sequence moves scratch =
     (let pending = nontrivial moves
      in if distinct (map to_place pending) then sequence_loop pending [] scratch else None)"

section \<open>What moves do\<close>

definition exec_move :: "'a move \<Rightarrow> ('a \<Rightarrow> 'v) \<Rightarrow> 'a \<Rightarrow> 'v" where
  "exec_move m st = st(to_place m := st (from_place m))"

definition exec_moves :: "'a move list \<Rightarrow> ('a \<Rightarrow> 'v) \<Rightarrow> 'a \<Rightarrow> 'v" where
  "exec_moves ms st = foldl (\<lambda>st m. exec_move m st) st ms"

text \<open>All at once: every place written holds what its source held before.\<close>

definition parallel :: "'a move list \<Rightarrow> ('a \<Rightarrow> 'v) \<Rightarrow> 'a \<Rightarrow> 'v" where
  "parallel ms st p =
     (case find (\<lambda>m. to_place m = p) ms of Some m \<Rightarrow> st (from_place m) | None \<Rightarrow> st p)"

lemma exec_moves_snoc [simp]: "exec_moves (ms @ [m]) st = exec_move m (exec_moves ms st)"
  by (simp add: exec_moves_def)

lemma exec_moves_Nil [simp]: "exec_moves [] st = st"
  by (simp add: exec_moves_def)

section \<open>The loop\<close>

lemma position_SomeD: "position P xs = Some i \<Longrightarrow> i < length xs \<and> P (xs ! i)"
  by (induction P xs arbitrary: i rule: position.induct) (auto split: if_splits)

lemma position_NoneD: "position P xs = None \<Longrightarrow> x \<in> set xs \<Longrightarrow> \<not> P x"
  by (induction P xs rule: position.induct) (auto split: if_splits)

lemma remove_at_props:
  assumes "i < length xs"
  shows "length (remove_at i xs) < length xs" "set xs = insert (xs ! i) (set (remove_at i xs))"
    "distinct (map f xs) \<Longrightarrow> distinct (map f (remove_at i xs)) \<and> f (xs ! i) \<notin> f ` set (remove_at i xs)"
proof -
  have xs: "xs = take i xs @ xs ! i # drop (Suc i) xs" using assms by (rule id_take_nth_drop)
  show "length (remove_at i xs) < length xs" using assms by (simp add: remove_at_def)
  show "set xs = insert (xs ! i) (set (remove_at i xs))"
    by (subst xs) (simp add: remove_at_def)
  assume "distinct (map f xs)"
  then have "distinct (map f (take i xs @ xs ! i # drop (Suc i) xs))" using xs by simp
  then show "distinct (map f (remove_at i xs)) \<and> f (xs ! i) \<notin> f ` set (remove_at i xs)"
    by (auto simp: remove_at_def)
qed

lemma parallel_in:
  assumes "distinct (map to_place ms)" "m \<in> set ms"
  shows "parallel ms st (to_place m) = st (from_place m)"
proof -
  have "find (\<lambda>n. to_place n = to_place m) ms = Some m"
    using assms by (induction ms) (auto simp: image_iff)
  then show ?thesis by (simp add: parallel_def)
qed

lemma parallel_out: "p \<notin> to_place ` set ms \<Longrightarrow> parallel ms st p = st p"
proof -
  assume "p \<notin> to_place ` set ms"
  then have "find (\<lambda>m. to_place m = p) ms = None" by (auto simp: find_None_iff)
  then show ?thesis by (simp add: parallel_def)
qed

text \<open>What holds of the moves still to be made: destinations are apart, none is the scratch.\<close>

definition pending_ok :: "'a move list \<Rightarrow> 'a \<Rightarrow> bool" where
  "pending_ok ms scratch \<longleftrightarrow>
     distinct (map to_place ms) \<and> scratch \<notin> to_place ` set ms \<and> (\<forall>m \<in> set ms. to_place m \<noteq> from_place m)"

lemma ready_iff:
  assumes "distinct (map to_place ms)" "m \<in> set ms" "\<forall>m \<in> set ms. to_place m \<noteq> from_place m"
  shows "ready ms m \<longleftrightarrow> to_place m \<notin> from_place ` set ms"
  using assms by (auto simp: ready_def list_ex_iff image_iff)

text \<open>With no move ready the sources are the destinations.\<close>

lemma stuck_sources:
  assumes ok: "pending_ok ms scratch" and stuck: "position (ready ms) ms = None"
  shows "from_place ` set ms = to_place ` set ms"
proof -
  have "to_place ` set ms \<subseteq> from_place ` set ms"
    using position_NoneD [OF stuck] ok ready_iff [of ms] unfolding pending_ok_def by blast
  moreover have "card (from_place ` set ms) \<le> card (to_place ` set ms)"
  proof -
    have "card (from_place ` set ms) \<le> length ms"
      using card_image_le [of "set ms" from_place] card_length [of ms] by simp
    also have "length ms = card (to_place ` set ms)"
      using ok distinct_card [of "map to_place ms"] by (simp add: pending_ok_def)
    finally show ?thesis .
  qed
  ultimately show ?thesis by (intro card_seteq [symmetric]) simp_all
qed

lemma step_ready:
  assumes ok: "pending_ok ms scratch" and i: "i < length ms" "ready ms (ms ! i)"
  shows "pending_ok (remove_at i ms) scratch"
    "parallel (remove_at i ms) (exec_move (ms ! i) st) = parallel ms st"
proof -
  let ?m = "ms ! i" and ?r = "remove_at i ms"
  have d: "distinct (map to_place ms)" using ok by (simp add: pending_ok_def)
  note r = remove_at_props(2) [OF i(1)] remove_at_props(3) [OF i(1) d]
  show "pending_ok ?r scratch" using ok r by (auto simp: pending_ok_def)
  have src: "to_place ?m \<notin> from_place ` set ms"
    using ready_iff [OF d, of ?m] i ok by (simp add: pending_ok_def)
  show "parallel ?r (exec_move ?m st) = parallel ms st"
  proof
    fix p
    show "parallel ?r (exec_move ?m st) p = parallel ms st p"
    proof (cases "p \<in> to_place ` set ?r")
      case True
      then obtain m where m: "m \<in> set ?r" "p = to_place m" by blast
      then have "from_place m \<noteq> to_place ?m" using src r(1) by (metis image_eqI insertI2)
      then show ?thesis
        using m r parallel_in [OF d, of m st] parallel_in [of ?r m "exec_move ?m st"]
        by (simp add: exec_move_def)
    next
      case False
      show ?thesis
      proof (cases "p = to_place ?m")
        case True
        then show ?thesis
          using False parallel_in [OF d, of ?m st] i(1) parallel_out [of p ?r "exec_move ?m st"]
          by (simp add: exec_move_def)
      next
        case no: False
        then have "p \<notin> to_place ` set ms" using False r(1) by auto
        then show ?thesis using False no parallel_out by (simp add: exec_move_def parallel_out)
      qed
    qed
  qed
qed

lemma step_break:
  assumes ok: "pending_ok ms scratch" and ne: "ms \<noteq> []" and stuck: "position (ready ms) ms = None"
    and b: "break_cycle ms order scratch = (ms', order')"
  shows "pending_ok ms' scratch" "map to_place ms' = map to_place ms"
    "order' = order @ [move_new scratch (from_place (hd ms))]"
    "p \<noteq> scratch \<Longrightarrow>
       parallel ms' (exec_move (move_new scratch (from_place (hd ms))) st) p = parallel ms st p"
    "position (ready ms') ms' \<noteq> None"
proof -
  let ?s = "from_place (hd ms)"
  let ?g = "\<lambda>one. if from_place one = ?s then one\<lparr>from_place := scratch\<rparr> else one"
  have ms': "ms' = map ?g ms" and o': "order' = order @ [move_new scratch ?s]"
    using b by (auto simp: break_cycle_def Let_def)
  show "order' = order @ [move_new scratch ?s]" by (rule o')
  have src: "from_place ` set ms = to_place ` set ms" using stuck_sources [OF ok stuck] .
  have ns: "scratch \<notin> from_place ` set ms" using ok src by (simp add: pending_ok_def)
  have tg: "to_place (?g m) = to_place m" for m by simp
  show to': "map to_place ms' = map to_place ms" unfolding ms' by simp
  show ok': "pending_ok ms' scratch"
    unfolding pending_ok_def
  proof (intro conjI ballI)
    have "to_place ` set ms' = to_place ` set ms" using arg_cong [OF to', of set] by simp
    then show "distinct (map to_place ms')" "scratch \<notin> to_place ` set ms'"
      using ok to' by (simp_all add: pending_ok_def)
    fix n
    assume "n \<in> set ms'"
    then obtain m where m: "m \<in> set ms" "n = ?g m" by (auto simp: ms')
    have "to_place m \<noteq> scratch" using ok m(1) by (auto simp: pending_ok_def)
    then show "to_place n \<noteq> from_place n" using ok m by (auto simp: pending_ok_def)
  qed
  show "parallel ms' (exec_move (move_new scratch ?s) st) p = parallel ms st p" if p: "p \<noteq> scratch"
  proof (cases "p \<in> to_place ` set ms")
    case True
    then obtain m where m: "m \<in> set ms" "p = to_place m" by blast
    have "?g m \<in> set ms'" using m(1) by (auto simp: ms')
    moreover have "distinct (map to_place ms')" using ok' by (simp only: pending_ok_def)
    ultimately have pin: "parallel ms' (exec_move (move_new scratch ?s) st) (to_place (?g m))
        = exec_move (move_new scratch ?s) st (from_place (?g m))" by (intro parallel_in)
    have "parallel ms' (exec_move (move_new scratch ?s) st) p
        = exec_move (move_new scratch ?s) st (from_place (?g m))"
      using pin unfolding tg m(2) .
    also have "\<dots> = st (from_place m)"
      using m(1) ns by (auto simp: exec_move_def move_new_def)
    finally show ?thesis using parallel_in [of ms m st] ok m by (simp add: pending_ok_def)
  next
    case False
    moreover have "p \<notin> to_place ` set ms'" using False arg_cong [OF to', of set] by simp
    ultimately show ?thesis using p by (simp add: parallel_out exec_move_def move_new_def)
  qed
  have hs: "?s \<in> from_place ` set ms" using ne by (intro imageI) simp
  have "?s \<in> to_place ` set ms" using hs by (simp only: src)
  then obtain m where m: "m \<in> set ms" "to_place m = ?s" by (rule imageE) simp
  have "?s \<noteq> scratch" using ns hs by auto
  then have "?s \<notin> from_place ` set ms'" by (auto simp: ms')
  moreover have gm: "?g m \<in> set ms'" using m(1) by (auto simp: ms')
  ultimately have "ready ms' (?g m)"
    using ready_iff [of ms' "?g m"] ok' m(2) tg by (simp add: pending_ok_def)
  then show "position (ready ms') ms' \<noteq> None" using position_NoneD gm by metis
qed

text \<open>
  A set of the moves whose places are all read by the set: no order of the moves alone can make
  it, since the first of them to go destroys what another wants.
\<close>

definition stuck_on :: "'a move list \<Rightarrow> bool" where
  "stuck_on ms \<longleftrightarrow> (\<exists>c. c \<noteq> {} \<and> c \<subseteq> set ms \<and> from_place ` c = to_place ` c)"

definition does :: "'a move list \<Rightarrow> 'a \<Rightarrow> 'a move list \<Rightarrow> ('a \<Rightarrow> 'v) \<Rightarrow> bool" where
  "does ms scratch res st \<longleftrightarrow>
     to_place ` set ms \<subseteq> to_place ` set res \<and> to_place ` set res \<subseteq> insert scratch (to_place ` set ms) \<and>
     (\<forall>p. p \<noteq> scratch \<longrightarrow> exec_moves res st p = parallel ms st p) \<and>
     (scratch \<in> to_place ` set res \<longrightarrow> stuck_on ms)"

lemma exec_moves_Cons [simp]: "exec_moves (m # ms) st = exec_moves ms (exec_move m st)"
  by (simp add: exec_moves_def)

lemma does_ready:
  assumes ok: "pending_ok ms scratch" and i: "i < length ms" "ready ms (ms ! i)"
    and d: "does (remove_at i ms) scratch res (exec_move (ms ! i) st)"
  shows "does ms scratch (ms ! i # res) st"
proof -
  have set: "set ms = insert (ms ! i) (set (remove_at i ms))" by (rule remove_at_props(2) [OF i(1)])
  have "scratch \<noteq> to_place (ms ! i)" using ok set by (auto simp: pending_ok_def)
  moreover have "stuck_on (remove_at i ms) \<Longrightarrow> stuck_on ms" unfolding stuck_on_def set by blast
  ultimately show ?thesis
    using d step_ready(2) [OF ok i, of st] unfolding does_def set by auto
qed

lemma does_break:
  assumes ok: "pending_ok ms scratch" and ne: "ms \<noteq> []" and stuck: "position (ready ms) ms = None"
    and b: "break_cycle ms order scratch = (ms', order')"
    and d: "does ms' scratch res (exec_move (move_new scratch (from_place (hd ms))) st)"
  shows "does ms scratch (move_new scratch (from_place (hd ms)) # res) st"
proof -
  note s = step_break [OF ok ne stuck b]
  have "to_place ` set ms' = to_place ` set ms" using arg_cong [OF s(2), of set] by simp
  moreover have "stuck_on ms" unfolding stuck_on_def
    by (rule exI [of _ "set ms"]) (use ne stuck_sources [OF ok stuck] in simp)
  ultimately show ?thesis
    using d s(4) unfolding does_def by (auto simp: move_new_def)
qed

lemma loop_ready:
  assumes ok: "pending_ok ms scratch" and i: "position (ready ms) ms = Some i"
    and IH: "\<And>(ms' :: 'a move list) order' (st' :: 'a \<Rightarrow> 'v). length ms' < length ms \<Longrightarrow> pending_ok ms' scratch \<Longrightarrow>
      \<exists>res. sequence_loop ms' order' scratch = Some (order' @ res) \<and> does ms' scratch res st'"
  shows "\<exists>res. sequence_loop ms order scratch = Some (order @ res) \<and> does ms scratch res (st :: 'a \<Rightarrow> 'v)"
proof -
  note p = position_SomeD [OF i]
  obtain res where res: "sequence_loop (remove_at i ms) (order @ [ms ! i]) scratch = Some ((order @ [ms ! i]) @ res)"
    "does (remove_at i ms) scratch res (exec_move (ms ! i) st)"
    using IH [of "remove_at i ms" "order @ [ms ! i]" "exec_move (ms ! i) st"] remove_at_props(1) step_ready(1) [OF ok] p
    by blast
  have "ms \<noteq> []" using p by auto
  then have "sequence_loop ms order scratch = Some (order @ ms ! i # res)"
    using res(1) i by (subst sequence_loop.simps) simp
  then show ?thesis using does_ready [OF ok _ _ res(2)] p by blast
qed

lemma loop_correct:
  "pending_ok ms scratch \<Longrightarrow>
    \<exists>res. sequence_loop ms order scratch = Some (order @ res) \<and> does ms scratch res (st :: 'a \<Rightarrow> 'v)"
proof (induction "length ms" arbitrary: ms order st rule: less_induct)
  case less
  note ok = less.prems
  show ?case
  proof (cases "ms = []")
    case True
    then show ?thesis by (subst sequence_loop.simps) (simp add: does_def parallel_def)
  next
    case ne: False
    show ?thesis
    proof (cases "position (ready ms) ms")
      case (Some i)
      then show ?thesis using loop_ready [OF ok Some] less.hyps by blast
    next
      case None
      obtain ms' order' where b: "break_cycle ms order scratch = (ms', order')" by fastforce
      note s = step_break [OF ok ne None b]
      obtain j where j: "position (ready ms') ms' = Some j" using s(5) by blast
      have len: "length ms' = length ms" using arg_cong [OF s(2), of length] by simp
      obtain res where res: "sequence_loop ms' order' scratch = Some (order' @ res)"
        "does ms' scratch res (exec_move (move_new scratch (from_place (hd ms))) st)"
        using loop_ready [OF s(1) j] less.hyps unfolding len by blast
      have "sequence_loop ms order scratch = Some (order @ move_new scratch (from_place (hd ms)) # res)"
        using ne None b res(1) s(3) by (subst sequence_loop.simps) simp
      then show ?thesis using does_break [OF ok ne None b res(2)] by blast
    qed
  qed
qed

section \<open>Properties\<close>

lemma exec_other: "p \<notin> to_place ` set ms \<Longrightarrow> exec_moves ms st p = st p"
  by (induction ms arbitrary: st) (simp_all add: exec_move_def)



text \<open>Moves into a closed set of places only move its values about.\<close>

lemma exec_closed:
  assumes "\<forall>m \<in> set ms. to_place m \<in> c \<longrightarrow> from_place m \<in> c"
  shows "exec_moves ms st ` c \<subseteq> st ` c"
  using assms
proof (induction ms arbitrary: st)
  case (Cons m ms)
  have "exec_moves ms (exec_move m st) ` c \<subseteq> exec_move m st ` c" using Cons by simp
  also have "\<dots> \<subseteq> st ` c" using Cons.prems by (auto simp: exec_move_def)
  finally show ?case by simp
qed simp

lemma stuck_no_order:
  assumes d: "distinct (map to_place ms)" "\<forall>m \<in> set ms. to_place m \<noteq> from_place m" and s: "stuck_on ms"
    and o: "set order \<subseteq> set ms"
  shows "exec_moves order id \<noteq> parallel ms (id :: 'a \<Rightarrow> 'a)"
proof
  assume e: "exec_moves order id = parallel ms (id :: 'a \<Rightarrow> 'a)"
  obtain c where c: "c \<noteq> {}" "c \<subseteq> set ms" "from_place ` c = to_place ` c" using s unfolding stuck_on_def by blast
  let ?P = "to_place ` c"
  have inc: "m \<in> c" if "m \<in> set ms" and p: "to_place m \<in> ?P" for m
  proof -
    obtain n where n: "n \<in> c" "to_place n = to_place m" using p by (metis imageE)
    then have "n = m" using d(1) \<open>m \<in> set ms\<close> c(2) by (auto simp: distinct_map dest: inj_onD)
    then show ?thesis using n(1) by simp
  qed
  have closed: "\<forall>m \<in> set ms. to_place m \<in> ?P \<longrightarrow> from_place m \<in> ?P" using inc c(3) by blast
  have fin: "finite ?P" using c(2) finite_subset by blast
  have moved: "parallel ms id (to_place m) = from_place m" if "m \<in> c" for m
    using parallel_in [OF d(1), of m id] that c(2) by auto
  have full: "parallel ms id ` ?P = ?P" unfolding image_image using moved c(3) by (metis (no_types, lifting) image_cong)
  obtain m0 where m0: "m0 \<in> c" using c(1) by blast
  have "exec_moves order id (to_place m0) \<noteq> to_place m0"
    unfolding e moved [OF m0] using d(2) m0 c(2) by (metis subsetD)
  then have "to_place m0 \<in> to_place ` set order" using exec_other [of "to_place m0" order id] by auto
  then obtain w0 where w0: "w0 \<in> set order" "to_place m0 = to_place w0" by (rule imageE) simp
  have "to_place w0 \<in> ?P" unfolding w0(2) [symmetric] using m0 by (rule imageI)
  then have ex: "\<exists>m \<in> set order. to_place m \<in> ?P" using w0(1) by (rule bexI)
  obtain pre m post where w: "order = pre @ m # post" "to_place m \<in> ?P" "\<forall>n \<in> set pre. to_place n \<notin> ?P"
    using split_list_first_prop [OF ex] by (elim exE conjE)
  let ?s = "exec_move m (exec_moves pre id)"
  have keep: "exec_moves pre id p = p" if "p \<in> ?P" for p proof -
    have "p \<notin> to_place ` set pre" using w(3) that by blast
    then show ?thesis using exec_other [of p pre id] by simp
  qed
  have mm: "m \<in> set ms" "from_place m \<in> ?P" "from_place m \<noteq> to_place m"
    using o w(1,2) closed d(2) by (auto dest: bspec)
  have "?P = exec_moves order id ` ?P" using full e by simp
  also have "exec_moves order id = exec_moves post ?s" by (simp add: w(1) exec_moves_def)
  also have "exec_moves post ?s ` ?P \<subseteq> ?s ` ?P" using o w(1) closed by (intro exec_closed) auto
  also have "?s ` ?P \<subseteq> ?P - {to_place m}" using keep mm(2,3) by (auto simp: exec_move_def)
  finally show False using w(2) by blast
qed

text \<open>
  C25: The scratch is written only when it has to be: if the order names it, no list of the moves
  alone, in any order and with any repetition, does what the moves say at once.
\<close>

theorem scratch_only_for_cycles:
  assumes "distinct (map to_place (nontrivial moves))" "scratch \<notin> to_place ` set (nontrivial moves)"
    and "sequence moves scratch = Some order" "scratch \<in> to_place ` set order"
  shows "set alone \<subseteq> set (nontrivial moves) \<longrightarrow> exec_moves alone id \<noteq> parallel (nontrivial moves) id"
proof -
  have "pending_ok (nontrivial moves) scratch" using assms(1,2) by (auto simp: pending_ok_def nontrivial_def)
  from loop_correct [OF this, of "[]" id] assms have "stuck_on (nontrivial moves)"
    by (auto simp: sequence_def does_def)
  from stuck_no_order [OF assms(1) _ this] show ?thesis by (simp add: nontrivial_def)
qed

lemma swap_sequence:
  "sequence [move_new (0::nat) 1, move_new 1 0] 2 = Some [move_new 2 1, move_new 1 0, move_new 0 2]"
  by (simp add: sequence_def nontrivial_def move_new_def sequence_loop.simps ready_def break_cycle_def remove_at_def)

lemma scratch_only_for_cycles_witness:
  "exec_moves [move_new (0::nat) 1, move_new 1 0] id \<noteq> parallel [move_new 0 1, move_new 1 0] id"
proof -
  let ?m = "[move_new (0::nat) 1, move_new 1 0]"
  have n: "nontrivial ?m = ?m" by (simp add: nontrivial_def move_new_def)
  have "set ?m \<subseteq> set (nontrivial ?m) \<longrightarrow> exec_moves ?m id \<noteq> parallel (nontrivial ?m) id"
    by (rule scratch_only_for_cycles [OF _ _ swap_sequence]) (simp_all add: nontrivial_def move_new_def)
  then show ?thesis unfolding n by simp
qed

text \<open>
  The check for two moves that write the same place is made after the moves from a place to
  itself are dropped, so such a move beside another one to its place is not refused: the
  other one is made. The documentation says two moves that write the same place panic.
\<close>

theorem self_move_hides_clash:
  "sequence [move_new (0::nat) 0, move_new 0 1] 2 = Some [move_new 0 1] \<and>
   sequence [move_new (0::nat) 1, move_new 0 3] 2 = None"
  by (simp add: sequence_def nontrivial_def move_new_def sequence_loop.simps ready_def remove_at_def)

end
