(* ===== verification/Cond.thy ===== *)
theory Cond
  imports Main "HOL-Library.Word" "HOL-Library.Monad_Syntax" "HOL-Library.Signed_Division"
begin

text \<open>
  The \<open>#if\<close> expression evaluator, \<open>crates/rucc-pp/src/cond.rs\<close>, over the punctuators and token kinds
  of \<open>crates/rucc-lex/src/token.rs\<close>: values of 64 bits with a signedness, the integer and character
  constants, precedence climbing, and the flag that says whether what is being read counts.

  A text is a string of characters below 256. A diagnostic is its code and the token it is
  reported at, \<open>None\<close> standing for the directive line; its words are left out. The mutual recursion of the
  parser takes fuel, and \<open>None\<close> is running out of it.
\<close>

unbundle bit_operations_syntax

section \<open>Tokens\<close>

datatype punct =
    LBracket | RBracket | LParen | RParen | LBrace | RBrace | Dot | Ellipsis | Arrow | PlusPlus | MinusMinus
  | Amp | Star | Plus | Minus | Tilde | Bang | Slash | Percent | Shl | Shr | Lt | Gt | Le | Ge | EqEq | Ne
  | Caret | Pipe | AmpAmp | PipePipe | Question | Colon | ColonColon | Semi | Eq | StarEq | SlashEq
  | PercentEq | PlusEq | MinusEq | ShlEq | ShrEq | AmpEq | CaretEq | PipeEq | Comma | Hash | HashHash

datatype pp_token_kind = Ident | Number | CharConst | StringLit | HeaderName | Punct punct | Other | Eof

text \<open>The fields of a token the evaluator reads, the interned spelling resolved.\<close>

record tok =
  tok_kind :: pp_token_kind
  tok_value :: "string option"
  placemarker :: bool

definition tok_punct :: "tok \<Rightarrow> punct option" where
  "tok_punct t = (case tok_kind t of Punct p \<Rightarrow> if \<not> placemarker t then Some p else None | _ \<Rightarrow> None)"

section \<open>Values\<close>

record val =
  bits :: "64 word"
  unsgn :: bool

definition ZERO :: val where "ZERO = \<lparr>bits = 0, unsgn = False\<rparr>"

definition signed_val :: "64 word \<Rightarrow> val" where "signed_val v = \<lparr>bits = v, unsgn = False\<rparr>"

definition boolean :: "bool \<Rightarrow> val" where "boolean b = signed_val (of_bool b)"

definition as_signed :: "val \<Rightarrow> int" where "as_signed v = sint (bits v)"

definition is_true :: "val \<Rightarrow> bool" where "is_true v \<longleftrightarrow> bits v \<noteq> 0"

record chars =
  char_signed :: bool
  wide_signed :: bool
  wide_width :: nat

definition chars_default :: chars where
  "chars_default = \<lparr>char_signed = True, wide_signed = True, wide_width = 32\<rparr>"

section \<open>Integer constants\<close>

text \<open>What is wrong with a constant, one for each message.\<close>

datatype bad_const = NotInteger | Floating | TooWide | NotChar | EmptyChar | IncompleteEscape | UnknownEscape char
  | NoHexDigits | IncompleteName

fun strip_prefix :: "string \<Rightarrow> string \<Rightarrow> string option" where
  "strip_prefix [] s = Some s"
| "strip_prefix (p # ps) [] = None"
| "strip_prefix (p # ps) (c # s) = (if p = c then strip_prefix ps s else None)"

lemma strip_prefix_Some: "strip_prefix p s = Some r \<longleftrightarrow> s = p @ r"
  by (induction p s rule: strip_prefix.induct) auto

definition code :: "char \<Rightarrow> nat" where "code c = of_char c"

definition ascii_lower :: "char \<Rightarrow> char" where
  "ascii_lower c = (if 65 \<le> code c \<and> code c \<le> 90 then char_of (code c + 32) else c)"

definition to_digit :: "nat \<Rightarrow> char \<Rightarrow> nat option" where
  "to_digit radix c =
     (let d = (if 48 \<le> code c \<and> code c \<le> 57 then Some (code c - 48)
               else if 97 \<le> code c \<and> code c \<le> 122 then Some (code c - 87)
               else if 65 \<le> code c \<and> code c \<le> 90 then Some (code c - 55) else None)
      in case d of Some v \<Rightarrow> if v < radix then Some v else None | None \<Rightarrow> None)"

definition is_digit :: "nat \<Rightarrow> char \<Rightarrow> bool" where "is_digit radix c \<longleftrightarrow> to_digit radix c \<noteq> None"

text \<open>\<open>u64::from_str_radix\<close> of digits, before the check that it fits.\<close>

definition digits_value :: "nat \<Rightarrow> string \<Rightarrow> nat" where
  "digits_value radix s = foldl (\<lambda>v c. v * radix + the (to_digit radix c)) 0 s"

text \<open>The loop over the suffix: how many \<open>l\<close> so far, and whether there was a \<open>u\<close>.\<close>

function suffix_loop :: "string \<Rightarrow> nat \<Rightarrow> bool \<Rightarrow> bad_const + bool" where
  "suffix_loop rest longs seen_u =
     (if rest = [] then Inr seen_u
      else case strip_prefix ''ll'' rest of
        Some next \<Rightarrow> if longs + 2 > 2 then Inl NotInteger else suffix_loop next (longs + 2) seen_u
      | None \<Rightarrow> (case strip_prefix ''l'' rest of
          Some next \<Rightarrow> if longs + 1 > 2 then Inl NotInteger else suffix_loop next (longs + 1) seen_u
        | None \<Rightarrow> (case strip_prefix ''u'' rest of
            Some next \<Rightarrow> if seen_u then Inl NotInteger
                         else if longs > 2 then Inl NotInteger else suffix_loop next longs True
          | None \<Rightarrow> (case strip_prefix ''wb'' rest of
              Some next \<Rightarrow> if longs > 2 then Inl NotInteger else suffix_loop next longs seen_u
            | None \<Rightarrow> (case strip_prefix ''z'' rest of
                Some next \<Rightarrow> if longs > 2 then Inl NotInteger else suffix_loop next longs seen_u
              | None \<Rightarrow> if hd rest = CHR ''.'' \<or> hd rest = CHR ''e'' \<or> hd rest = CHR ''p'' then Inl Floating
                       else Inl NotInteger)))))"
  by pat_completeness auto
termination by (relation "measure (\<lambda>(rest, _). length rest)") (auto simp: strip_prefix_Some)

declare suffix_loop.simps [simp del]

definition radix_of :: "string \<Rightarrow> nat \<times> string" where
  "radix_of lower =
     (case strip_prefix ''0x'' lower of Some rest \<Rightarrow> (16, rest)
      | None \<Rightarrow> (case strip_prefix ''0b'' lower of Some rest \<Rightarrow> (2, rest)
        | None \<Rightarrow> if strip_prefix ''0'' lower \<noteq> None \<and> 1 < length lower \<and> is_digit 10 (lower ! 1) then (8, tl lower)
                 else (10, lower)))"

definition parse_integer :: "string \<Rightarrow> bad_const + val" where
  "parse_integer text =
     (let cleaned = filter (\<lambda>c. c \<noteq> CHR 0x27) text;
          lower = map ascii_lower cleaned;
          (radix, digits) = radix_of lower;
          body = takeWhile (is_digit radix) digits;
          suffix = dropWhile (is_digit radix) digits
      in if body = [] then Inl NotInteger
         else case suffix_loop suffix 0 False of
           Inl e \<Rightarrow> Inl e
         | Inr seen_u \<Rightarrow>
             let v = digits_value radix body
             in if 2 ^ 64 \<le> v then Inl TooWide
                else Inr \<lparr>bits = of_nat v, unsgn = seen_u \<or> v > 2 ^ 63 - 1\<rparr>)"

section \<open>Character constants\<close>

text \<open>The loop over hexadecimal digits, and how many were read.\<close>

fun hex_loop :: "string \<Rightarrow> 64 word \<Rightarrow> bool \<Rightarrow> 64 word \<times> bool \<times> string" where
  "hex_loop [] value any = (value, any, [])"
| "hex_loop (d # rest) value any =
     (case to_digit 16 d of None \<Rightarrow> (value, any, d # rest)
      | Some digit \<Rightarrow> hex_loop rest (value * 16 + of_nat digit) True)"

primrec ucn_loop :: "nat \<Rightarrow> string \<Rightarrow> 64 word \<Rightarrow> bad_const + 64 word \<times> string" where
  "ucn_loop 0 rest value = Inr (value, rest)"
| "ucn_loop (Suc n) rest value =
     (case rest of [] \<Rightarrow> Inl IncompleteName
      | d # rest \<Rightarrow> (case to_digit 16 d of None \<Rightarrow> Inl IncompleteName
          | Some digit \<Rightarrow> ucn_loop n rest (value * 16 + of_nat digit)))"

primrec octal_loop :: "nat \<Rightarrow> string \<Rightarrow> 64 word \<Rightarrow> 64 word \<times> string" where
  "octal_loop 0 rest value = (value, rest)"
| "octal_loop (Suc n) rest value =
     (case rest of [] \<Rightarrow> (value, rest)
      | d # rest' \<Rightarrow> (case to_digit 8 d of None \<Rightarrow> (value, rest)
          | Some digit \<Rightarrow> octal_loop n rest' (value * 8 + of_nat digit)))"

text \<open>The byte of an escape that stands for one, \<open>None\<close> when the escape has digits.\<close>

definition simple_escape :: "char \<Rightarrow> (bad_const + nat option)" where
  "simple_escape c =
     (if c = CHR ''n'' then Inr (Some 10) else if c = CHR ''t'' then Inr (Some 9)
      else if c = CHR ''r'' then Inr (Some 13) else if 48 \<le> code c \<and> code c \<le> 55 then Inr None
      else if c = CHR ''a'' then Inr (Some 7) else if c = CHR ''b'' then Inr (Some 8)
      else if c = CHR ''f'' then Inr (Some 12) else if c = CHR ''v'' then Inr (Some 11)
      else if c = CHR ''e'' then Inr (Some 27)
      else if c \<in> {CHR 0x5C, CHR 0x27, CHR 0x22, CHR ''?''} then Inr (Some (code c))
      else if c \<in> {CHR ''('', CHR ''['', CHR ''{'', CHR ''%''} then Inr (Some (code c))
      else if c \<in> {CHR ''x'', CHR ''u'', CHR ''U''} then Inr None
      else Inl (UnknownEscape c))"

definition escape :: "string \<Rightarrow> bad_const + 64 word \<times> string" where
  "escape rest =
     (case rest of [] \<Rightarrow> Inl IncompleteEscape
      | c # rest \<Rightarrow> (case simple_escape c of
          Inl e \<Rightarrow> Inl e
        | Inr (Some byte) \<Rightarrow> Inr (of_nat byte, rest)
        | Inr None \<Rightarrow>
            if c = CHR ''x'' then
              (let (value, any, rest) = hex_loop rest 0 False in if any then Inr (value, rest) else Inl NoHexDigits)
            else if c = CHR ''u'' \<or> c = CHR ''U'' then ucn_loop (if c = CHR ''u'' then 4 else 8) rest 0
            else Inr (octal_loop 2 rest (of_nat (case to_digit 8 c of Some d \<Rightarrow> d | None \<Rightarrow> 0)))))"

lemma hex_loop_length: "hex_loop s v a = (v', a', r) \<Longrightarrow> length r \<le> length s"
  by (induction s v a rule: hex_loop.induct) (auto split: option.splits)

lemma ucn_loop_length: "ucn_loop n s v = Inr (v', r) \<Longrightarrow> length r \<le> length s"
  by (induction n arbitrary: s v) (fastforce split: list.splits option.splits)+

lemma octal_loop_length: "octal_loop n s v = (v', r) \<Longrightarrow> length r \<le> length s"
  by (induction n arbitrary: s v) (fastforce split: list.splits option.splits)+

lemma escape_length: "escape s = Inr (v, r) \<Longrightarrow> length r < length s"
  by (auto simp: escape_def Let_def less_Suc_eq_le split: list.splits sum.splits option.splits prod.splits if_splits
      dest: hex_loop_length ucn_loop_length octal_loop_length)

text \<open>The loop over the characters of a constant: its value so far and how many there were.\<close>

function char_loop :: "string \<Rightarrow> 64 word \<Rightarrow> nat \<Rightarrow> bad_const + 64 word \<times> nat" where
  "char_loop rest value count =
     (case rest of [] \<Rightarrow> Inr (value, count)
      | c # rest' \<Rightarrow>
          (case (if c = CHR 0x5C then escape rest' else Inr (of_nat (code c), rest')) of
             Inl e \<Rightarrow> Inl e
           | Inr (scalar, rest'') \<Rightarrow>
               char_loop rest'' (if count = 0 then scalar else push_bit 8 value OR (scalar AND 0xff)) (count + 1)))"
  by pat_completeness auto
termination
  by (relation "measure (\<lambda>(rest, _). length rest)") (auto split: if_splits dest: escape_length)

declare char_loop.simps [simp del]

definition strip_suffix :: "char \<Rightarrow> string \<Rightarrow> string option" where
  "strip_suffix c s = (if s \<noteq> [] \<and> last s = c then Some (butlast s) else None)"

definition wide_bits :: "64 word \<Rightarrow> chars \<Rightarrow> 64 word" where
  "wide_bits value cs =
     (let width = min 64 (max 8 (wide_width cs));
          low = (if width = 64 then value else value AND (push_bit width 1 - 1));
          negative = wide_signed cs \<and> width < 64 \<and> (drop_bit (width - 1) low) AND 1 = 1
      in if negative then low OR NOT (push_bit width 1 - 1) else low)"

definition parse_char :: "string \<Rightarrow> chars \<Rightarrow> bad_const + val" where
  "parse_char text cs =
     (case Option.bind (strip_prefix [CHR 0x27] (dropWhile (\<lambda>c. c \<in> {CHR ''L'', CHR ''u'', CHR ''U'', CHR ''8''}) text))
             (strip_suffix (CHR 0x27)) of
        None \<Rightarrow> Inl NotChar
      | Some body \<Rightarrow>
          (case char_loop body 0 0 of
             Inl e \<Rightarrow> Inl e
           | Inr (value, count) \<Rightarrow>
               if count = 0 then Inl EmptyChar
               else if text \<noteq> [] \<and> hd text = CHR ''L'' then Inr \<lparr>bits = wide_bits value cs, unsgn = False\<rparr>
               else if \<not> (text \<noteq> [] \<and> hd text = CHR 0x27) then Inr \<lparr>bits = value, unsgn = False\<rparr>
               else if count = 1 then
                 Inr (signed_val (if char_signed cs then scast (ucast value :: 8 word) else ucast (ucast value :: 8 word)))
               else Inr (signed_val (scast (ucast value :: 32 word)))))"

section \<open>The evaluator's state\<close>

type_synonym diag = "string \<times> nat option"

record eval =
  tokens :: "tok list"
  pos :: nat
  diagnostics :: "diag list"
  eval_chars :: chars

definition peek :: "eval \<Rightarrow> tok option" where
  "peek s = (if pos s < length (tokens s) then Some (tokens s ! pos s) else None)"

definition peek_punct :: "eval \<Rightarrow> punct option" where
  "peek_punct s = Option.bind (peek s) tok_punct"

definition advance :: "eval \<Rightarrow> eval" where "advance s = s\<lparr>pos := pos s + 1\<rparr>"

definition eat :: "punct \<Rightarrow> eval \<Rightarrow> bool \<times> eval" where
  "eat p s = (if peek_punct s = Some p then (True, advance s) else (False, s))"

definition report :: "string \<Rightarrow> nat option \<Rightarrow> eval \<Rightarrow> eval" where
  "report c at s = s\<lparr>diagnostics := diagnostics s @ [(c, at)]\<rparr>"

definition span_of :: "eval \<Rightarrow> nat option" where
  "span_of s = (if pos s < length (tokens s) then Some (pos s) else None)"

definition eval_error :: "string \<Rightarrow> bool \<Rightarrow> eval \<Rightarrow> eval" where
  "eval_error c live s = (if live then report c (span_of s) s else s)"

section \<open>Operators\<close>

definition binary_op :: "punct \<Rightarrow> nat option" where
  "binary_op p = (case p of
      Comma \<Rightarrow> Some 1 | PipePipe \<Rightarrow> Some 2 | AmpAmp \<Rightarrow> Some 3 | Pipe \<Rightarrow> Some 4 | Caret \<Rightarrow> Some 5 | Amp \<Rightarrow> Some 6
    | EqEq \<Rightarrow> Some 7 | Ne \<Rightarrow> Some 7 | Lt \<Rightarrow> Some 8 | Gt \<Rightarrow> Some 8 | Le \<Rightarrow> Some 8 | Ge \<Rightarrow> Some 8
    | Shl \<Rightarrow> Some 9 | Shr \<Rightarrow> Some 9 | Plus \<Rightarrow> Some 10 | Minus \<Rightarrow> Some 10
    | Star \<Rightarrow> Some 11 | Slash \<Rightarrow> Some 11 | Percent \<Rightarrow> Some 11 | _ \<Rightarrow> None)"

definition shift_val :: "punct \<Rightarrow> val \<Rightarrow> val \<Rightarrow> val" where
  "shift_val op lhs rhs =
     (if \<not> (unsgn rhs \<or> as_signed rhs \<ge> 0) then ZERO
      else let count = unat (bits rhs)
        in \<lparr>bits = (if count \<ge> 64 then (if op = Shl \<or> unsgn lhs \<or> as_signed lhs \<ge> 0 then 0 else - 1)
                   else if op = Shl then push_bit count (bits lhs)
                   else if unsgn lhs then drop_bit count (bits lhs)
                   else signed_drop_bit count (bits lhs)), unsgn = unsgn lhs\<rparr>)"

definition divide_val :: "punct \<Rightarrow> val \<Rightarrow> val \<Rightarrow> val" where
  "divide_val op lhs rhs =
     (let u = unsgn lhs \<or> unsgn rhs; a = bits lhs; b = bits rhs
      in \<lparr>bits = (if op = Slash then (if u then a div b else word_of_int (as_signed lhs sdiv as_signed rhs))
                 else if u then a mod b else word_of_int (as_signed lhs smod as_signed rhs)), unsgn = u\<rparr>)"

text \<open>\<open>apply\<close> of \<open>cond.rs\<close>.\<close>

definition apply_op :: "punct \<Rightarrow> val \<Rightarrow> val \<Rightarrow> bool \<Rightarrow> eval \<Rightarrow> val \<times> eval" where
  "apply_op op lhs rhs live s =
     (let u = unsgn lhs \<or> unsgn rhs; a = bits lhs; b = bits rhs; sa = as_signed lhs; sb = as_signed rhs;
          arith = (\<lambda>w. \<lparr>bits = w, unsgn = u\<rparr>)
      in case op of
        Star \<Rightarrow> (arith (a * b), s)
      | Slash \<Rightarrow> if b = 0 then (ZERO, eval_error ''E0326'' live s) else (divide_val op lhs rhs, s)
      | Percent \<Rightarrow> if b = 0 then (ZERO, eval_error ''E0326'' live s) else (divide_val op lhs rhs, s)
      | Plus \<Rightarrow> (arith (a + b), s)
      | Minus \<Rightarrow> (arith (a - b), s)
      | Shl \<Rightarrow> (shift_val op lhs rhs, s)
      | Shr \<Rightarrow> (shift_val op lhs rhs, s)
      | Lt \<Rightarrow> (boolean (if u then a < b else sa < sb), s)
      | Gt \<Rightarrow> (boolean (if u then a > b else sa > sb), s)
      | Le \<Rightarrow> (boolean (if u then a \<le> b else sa \<le> sb), s)
      | Ge \<Rightarrow> (boolean (if u then a \<ge> b else sa \<ge> sb), s)
      | EqEq \<Rightarrow> (boolean (a = b), s)
      | Ne \<Rightarrow> (boolean (a \<noteq> b), s)
      | Amp \<Rightarrow> (arith (a AND b), s)
      | Caret \<Rightarrow> (arith (a XOR b), s)
      | Pipe \<Rightarrow> (arith (a OR b), s)
      | AmpAmp \<Rightarrow> (boolean (is_true lhs \<and> is_true rhs), s)
      | PipePipe \<Rightarrow> (boolean (is_true lhs \<or> is_true rhs), s)
      | Comma \<Rightarrow> (rhs, s)
      | _ \<Rightarrow> (ZERO, s))"

section \<open>The parser\<close>

text \<open>A constant that was read, or the report of what is wrong with it at the token it is.\<close>

definition constant_of :: "bad_const + val \<Rightarrow> string \<Rightarrow> nat \<Rightarrow> bool \<Rightarrow> eval \<Rightarrow> val \<times> eval" where
  "constant_of r c at live s =
     (case r of Inr v \<Rightarrow> (v, s) | Inl _ \<Rightarrow> (ZERO, if live then report c (Some at) s else s))"

definition spelling :: "tok \<Rightarrow> string" where
  "spelling t = (case tok_value t of Some s \<Rightarrow> s | None \<Rightarrow> [])"

text \<open>\<open>number\<close> and \<open>char_const\<close>, for the token at \<open>at\<close>.\<close>

definition number :: "tok \<Rightarrow> nat \<Rightarrow> bool \<Rightarrow> eval \<Rightarrow> val \<times> eval" where
  "number t at live s = constant_of (parse_integer (spelling t)) ''E0324'' at live s"

definition char_const :: "tok \<Rightarrow> nat \<Rightarrow> bool \<Rightarrow> eval \<Rightarrow> val \<times> eval" where
  "char_const t at live s = constant_of (parse_char (spelling t) (eval_chars s)) ''E0325'' at live s"

text \<open>The end of \<open>unary\<close>: a token that is no operator.\<close>

definition primary :: "tok \<Rightarrow> bool \<Rightarrow> eval \<Rightarrow> val \<times> eval" where
  "primary t live s =
     (case tok_kind t of
        Number \<Rightarrow> number t (pos s) live (advance s)
      | CharConst \<Rightarrow> char_const t (pos s) live (advance s)
      | Ident \<Rightarrow> (if spelling t = ''true'' then signed_val 1 else ZERO, advance s)
      | _ \<Rightarrow> (ZERO, advance (eval_error ''E0323'' live s)))"

fun conditional :: "nat \<Rightarrow> bool \<Rightarrow> eval \<Rightarrow> (val \<times> eval) option"
  and binary :: "nat \<Rightarrow> nat \<Rightarrow> bool \<Rightarrow> eval \<Rightarrow> (val \<times> eval) option"
  and binary_loop :: "nat \<Rightarrow> nat \<Rightarrow> bool \<Rightarrow> val \<Rightarrow> eval \<Rightarrow> (val \<times> eval) option"
  and unary :: "nat \<Rightarrow> bool \<Rightarrow> eval \<Rightarrow> (val \<times> eval) option" where
  "conditional 0 live s = None"
| "conditional (Suc n) live s =
     do {
       (cond, s) \<leftarrow> binary n 0 live s;
       let (eaten, s) = eat Question s;
       if \<not> eaten then Some (cond, s)
       else do {
         (then_val, s) \<leftarrow> conditional n (live \<and> is_true cond) s;
         let (eaten, s) = eat Colon s;
         if \<not> eaten then Some (ZERO, eval_error ''E0322'' live s)
         else do {
           (else_val, s) \<leftarrow> conditional n (live \<and> \<not> is_true cond) s;
           Some ((if is_true cond then then_val else else_val)\<lparr>unsgn := unsgn then_val \<or> unsgn else_val\<rparr>, s)
         }
       }
     }"
| "binary 0 m live s = None"
| "binary (Suc n) m live s = do { (lhs, s) \<leftarrow> unary n live s; binary_loop n m live lhs s }"
| "binary_loop 0 m live lhs s = None"
| "binary_loop (Suc n) m live lhs s =
     (case Option.bind (peek_punct s) (\<lambda>p. Option.bind (binary_op p) (\<lambda>prec. Some (p, prec))) of
        None \<Rightarrow> Some (lhs, s)
      | Some (p, prec) \<Rightarrow>
          if prec < m then Some (lhs, s)
          else do {
            let right_live = (if p = AmpAmp then live \<and> is_true lhs else if p = PipePipe then live \<and> \<not> is_true lhs else live);
            (rhs, s) \<leftarrow> binary n (prec + 1) right_live (advance s);
            let (lhs, s) = apply_op p lhs rhs live s;
            binary_loop n m live lhs s
          })"
| "unary 0 live s = None"
| "unary (Suc n) live s =
     (case peek s of
        None \<Rightarrow> Some (ZERO, eval_error ''E0323'' live s)
      | Some t \<Rightarrow>
          let p = tok_punct t
          in if p = Some Plus then unary n live (advance s)
             else if p = Some Minus then do { (v, s) \<leftarrow> unary n live (advance s); Some (v\<lparr>bits := - bits v\<rparr>, s) }
             else if p = Some Tilde then do { (v, s) \<leftarrow> unary n live (advance s); Some (v\<lparr>bits := NOT (bits v)\<rparr>, s) }
             else if p = Some Bang then do { (v, s) \<leftarrow> unary n live (advance s); Some (boolean (\<not> is_true v), s) }
             else if p = Some LParen then do {
               (v, s) \<leftarrow> conditional n live (advance s);
               let (eaten, s) = eat RParen s;
               Some (v, if eaten then s else eval_error ''E0322'' live s)
             }
             else Some (primary t live s))"

text \<open>Enough for any line: see \<open>evaluation_returns\<close>.\<close>

definition fuel_for :: "tok list \<Rightarrow> nat" where "fuel_for ts = 4 * length ts + 4"

definition run :: "tok list \<Rightarrow> diag list \<Rightarrow> chars \<Rightarrow> (val option \<times> diag list) option" where
  "run ts ds cs =
     (if ts = [] then Some (None, ds @ [(''E0320'', None)])
      else do {
        (v, s) \<leftarrow> conditional (fuel_for ts) True \<lparr>tokens = ts, pos = 0, diagnostics = ds, eval_chars = cs\<rparr>;
        let s = (if pos s < length (tokens s) then report ''E0321'' (Some (pos s)) s else s);
        Some (Some v, diagnostics s)
      })"

definition evaluate :: "tok list \<Rightarrow> diag list \<Rightarrow> chars \<Rightarrow> (bool \<times> diag list) option" where
  "evaluate ts ds cs = do { (v, ds) \<leftarrow> run ts ds cs; Some (case v of Some v \<Rightarrow> is_true v | None \<Rightarrow> False, ds) }"

definition limit_value :: "tok list \<Rightarrow> diag list \<Rightarrow> chars \<Rightarrow> (int option \<times> diag list) option" where
  "limit_value ts ds cs =
     do {
       (v, ds') \<leftarrow> run ts ds cs;
       Some (case v of None \<Rightarrow> None | Some v \<Rightarrow> if length ds' \<noteq> length ds then None else Some (as_signed v), ds')
     }"

end
