(* ===== verification/CondArith.thy ===== *)
theory CondArith
  imports Cond
begin

text \<open>
  What C says about the operators of a \<open>#if\<close> expression, over integers, and that \<open>apply\<close> of
  \<open>cond.rs\<close> computes it on 64-bit words. A C value is its signedness and its integer.
\<close>

section \<open>C values\<close>

type_synonym cval = "bool \<times> int"

definition wrap_to :: "bool \<Rightarrow> int \<Rightarrow> int" where
  "wrap_to u x = (if u then x mod 2 ^ 64 else signed_take_bit 63 x)"

definition meaning :: "val \<Rightarrow> cval" where
  "meaning v = (unsgn v, if unsgn v then uint (bits v) else sint (bits v))"

definition c_bool :: "bool \<Rightarrow> cval" where "c_bool b = (False, of_bool b)"

text \<open>
  The usual arithmetic conversions make both operands unsigned when one is. A shift takes its
  type from the left operand. Division by zero and a shift by a negative count, which C does not define, are zero.
\<close>

definition c_binop :: "punct \<Rightarrow> cval \<Rightarrow> cval \<Rightarrow> cval" where
  "c_binop p l r =
     (let u = fst l \<or> fst r; a = wrap_to u (snd l); b = wrap_to u (snd r)
      in case p of
        Star \<Rightarrow> (u, wrap_to u (a * b))
      | Slash \<Rightarrow> if b = 0 then (False, 0) else (u, wrap_to u (a sdiv b))
      | Percent \<Rightarrow> if b = 0 then (False, 0) else (u, wrap_to u (a smod b))
      | Plus \<Rightarrow> (u, wrap_to u (a + b))
      | Minus \<Rightarrow> (u, wrap_to u (a - b))
      | Shl \<Rightarrow> if snd r < 0 then (False, 0) else (fst l, wrap_to (fst l) (snd l * 2 ^ nat (snd r)))
      | Shr \<Rightarrow> if snd r < 0 then (False, 0) else (fst l, wrap_to (fst l) (snd l div 2 ^ nat (snd r)))
      | Lt \<Rightarrow> c_bool (a < b) | Gt \<Rightarrow> c_bool (a > b) | Le \<Rightarrow> c_bool (a \<le> b) | Ge \<Rightarrow> c_bool (a \<ge> b)
      | EqEq \<Rightarrow> c_bool (a = b) | Ne \<Rightarrow> c_bool (a \<noteq> b)
      | Amp \<Rightarrow> (u, wrap_to u (a AND b)) | Caret \<Rightarrow> (u, wrap_to u (a XOR b)) | Pipe \<Rightarrow> (u, wrap_to u (a OR b))
      | AmpAmp \<Rightarrow> c_bool (snd l \<noteq> 0 \<and> snd r \<noteq> 0) | PipePipe \<Rightarrow> c_bool (snd l \<noteq> 0 \<or> snd r \<noteq> 0)
      | Comma \<Rightarrow> r
      | _ \<Rightarrow> (False, 0))"

section \<open>Words read as C values\<close>

definition reading :: "bool \<Rightarrow> 64 word \<Rightarrow> int" where
  "reading u w = (if u then uint w else sint w)"

lemma reading_word: "word_of_int (reading u w) = w"
  by (simp add: reading_def)

lemma reading_of_int: "reading u (word_of_int x) = wrap_to u x"
  by (simp add: reading_def wrap_to_def unsigned_of_int signed_of_int take_bit_eq_mod)

lemma wrap_reading [simp]: "wrap_to u (reading v w) = reading u w"
  unfolding reading_of_int [symmetric] reading_word ..

lemma reading_inj: "reading u a = reading u b \<longleftrightarrow> a = b"
  by (metis reading_word)

lemma meaning_reading: "meaning v = (unsgn v, reading (unsgn v) (bits v))"
  by (simp add: meaning_def reading_def)

lemma meaning_bool: "meaning (boolean b) = c_bool b"
  by (simp add: meaning_def boolean_def signed_val_def c_bool_def)

lemma meaning_ZERO: "meaning ZERO = (False, 0)"
  by (simp add: meaning_def ZERO_def)

lemma reading_zero: "reading u w = 0 \<longleftrightarrow> w = 0"
proof -
  have "reading u 0 = 0" by (simp add: reading_def)
  then show ?thesis using reading_inj [of u w 0] by simp
qed

lemma reading_less: "reading u a < reading u b \<longleftrightarrow> (if u then a < b else sint a < sint b)"
  "reading u a \<le> reading u b \<longleftrightarrow> (if u then a \<le> b else sint a \<le> sint b)"
  by (simp_all add: reading_def word_less_def word_le_def)

lemma reading_arith:
  "reading u (a + b) = wrap_to u (reading u a + reading u b)"
  "reading u (a - b) = wrap_to u (reading u a - reading u b)"
  "reading u (a * b) = wrap_to u (reading u a * reading u b)"
  "reading u (- a) = wrap_to u (- reading u a)"
  unfolding reading_of_int [symmetric]
  by (simp_all only: of_int_add of_int_diff of_int_mult of_int_minus reading_word)

lemma reading_bits:
  "reading u (a AND b) = wrap_to u (reading u a AND reading u b)"
  "reading u (a OR b) = wrap_to u (reading u a OR reading u b)"
  "reading u (a XOR b) = wrap_to u (reading u a XOR reading u b)"
  "reading u (NOT a) = wrap_to u (NOT (reading u a))"
  unfolding reading_of_int [symmetric]
  by (simp_all only: of_int_and_eq of_int_or_eq of_int_xor_eq of_int_not_eq reading_word)

lemma reading_shl: "reading u (push_bit n a) = wrap_to u (reading v a * 2 ^ n)"
proof -
  have "word_of_int (reading v a * 2 ^ n) = a * 2 ^ n" by (simp only: of_int_mult of_int_power of_int_numeral reading_word)
  then show ?thesis unfolding reading_of_int [symmetric] by (simp add: push_bit_eq_mult)
qed

lemma reading_shr:
  "reading True (drop_bit n a) = wrap_to True (reading True a div 2 ^ n)"
  "reading False (signed_drop_bit n a) = wrap_to False (reading False a div 2 ^ n)"
proof -
  have "uint a < 2 ^ 64" using uint_lt2p [of a] by simp
  then have "take_bit 64 (uint a) = uint a" by (simp add: take_bit_int_eq_self)
  then have "uint (drop_bit n a) = drop_bit n (uint a)" by (simp add: unsigned_drop_bit_eq)
  then have "uint (drop_bit n a) = uint a div 2 ^ n" using drop_bit_eq_div [of n "uint a"] by simp
  then show "reading True (drop_bit n a) = wrap_to True (reading True a div 2 ^ n)"
    by (metis reading_def wrap_reading)
  have "sint (signed_drop_bit n a) = sint a div 2 ^ n" by (simp add: sint_signed_drop_bit_eq drop_bit_eq_div)
  then show "reading False (signed_drop_bit n a) = wrap_to False (reading False a div 2 ^ n)"
    by (metis reading_def wrap_reading)
qed

text \<open>A count at or past the width moves every bit out, whichever way.\<close>

lemma past_width:
  "64 \<le> n \<Longrightarrow> push_bit n (a :: 64 word) = 0" "64 \<le> n \<Longrightarrow> drop_bit n (a :: 64 word) = 0"
  "64 \<le> n \<Longrightarrow> signed_drop_bit n (a :: 64 word) = (if 0 \<le> sint a then 0 else - 1)"
proof -
  assume n: "64 \<le> n"
  show "push_bit n a = 0" using n by (intro bit_eqI) (simp add: bit_simps)
  show "drop_bit n a = 0" using n by (intro bit_eqI) (auto simp: bit_simps dest: bit_imp_le_length)
  have p: "(2::int) ^ 63 \<le> 2 ^ n" using n by (intro power_increasing) simp_all
  have b: "sint a < 2 ^ 63" "- (2 ^ 63) \<le> sint a" using sint_lt [of a] sint_ge [of a] by simp_all
  have "sint a div 2 ^ n = (if 0 \<le> sint a then 0 else - 1)"
  proof (cases "0 \<le> sint a")
    case True
    then show ?thesis using b p by (simp add: div_pos_pos_trivial)
  next
    case False
    then have "sint a div 2 ^ n = - 1" using b p by (intro int_div_pos_eq [of _ _ _ "sint a + 2 ^ n"]) simp_all
    then show ?thesis using False by simp
  qed
  then have "sint (signed_drop_bit n a) = (if 0 \<le> sint a then 0 else - 1)"
    by (simp add: sint_signed_drop_bit_eq drop_bit_eq_div)
  moreover have "word_of_int (sint (signed_drop_bit n a)) = signed_drop_bit n a"
    using reading_word [of False "signed_drop_bit n a"] by (simp only: reading_def if_False)
  ultimately show "signed_drop_bit n a = (if 0 \<le> sint a then 0 else - 1)" by (auto split: if_splits)
qed

section \<open>The operators\<close>

text \<open>What a shift gives on values that have a C meaning.\<close>

lemma sint_nonneg: "0 \<le> sint w \<Longrightarrow> sint w = uint w" for w :: "64 word"
proof -
  assume "0 \<le> sint w"
  moreover have "sint w < 2 ^ 63" using sint_lt [of w] by simp
  ultimately have "wrap_to True (sint w) = sint w" by (simp add: wrap_to_def)
  then show "sint w = uint w" using wrap_reading [of True False w] by (simp add: reading_def)
qed

lemma shift_meaning:
  assumes "p = Shl \<or> p = Shr"
  shows "meaning (shift_val p l r) = c_binop p (meaning l) (meaning r)"
proof (cases "unsgn r \<or> 0 \<le> as_signed r")
  case False
  then have "shift_val p l r = ZERO" "snd (meaning r) < 0" by (simp_all add: shift_val_def meaning_def as_signed_def)
  then show ?thesis using assms by (elim disjE) (simp_all add: c_binop_def meaning_ZERO Let_def)
next
  case True
  define n where "n = unat (bits r)"
  have r: "\<not> snd (meaning r) < 0" "nat (snd (meaning r)) = n"
    using True sint_nonneg [of "bits r"] by (auto simp: meaning_def as_signed_def n_def)
  let ?u = "unsgn l" and ?a = "bits l"
  have "meaning (shift_val p l r) = (?u, reading ?u (if p = Shl then push_bit n ?a
      else if ?u then drop_bit n ?a else signed_drop_bit n ?a))"
    using True past_width [of n ?a] assms
    by (auto simp: shift_val_def meaning_reading as_signed_def n_def Let_def)
  also have "\<dots> = c_binop p (meaning l) (meaning r)"
    using assms r reading_shl [of ?u n ?a ?u] reading_shr [of n ?a]
    by (auto simp: c_binop_def Let_def meaning_reading)
  finally show ?thesis .
qed

lemma sdiv_of_nonneg: "0 \<le> x \<Longrightarrow> 0 \<le> y \<Longrightarrow> x sdiv y = x div y" for x y :: int
  by (cases "x = 0"; cases "y = 0") (simp_all add: signed_divide_int_def)

lemma divide_meaning:
  assumes "p = Slash \<or> p = Percent" "bits r \<noteq> 0"
  shows "meaning (divide_val p l r) = c_binop p (meaning l) (meaning r)"
proof -
  let ?u = "unsgn l \<or> unsgn r"
  have u: "a div b = word_of_int (uint a sdiv uint b)" "a mod b = word_of_int (uint a smod uint b)" for a b :: "64 word"
  proof -
    show "a div b = word_of_int (uint a sdiv uint b)" by (simp add: sdiv_of_nonneg word_div_def)
    show "a mod b = word_of_int (uint a smod uint b)" by (simp add: smod_mod_positive word_mod_def)
  qed
  have "reading ?u (bits (divide_val p l r)) =
      wrap_to ?u (if p = Slash then reading ?u (bits l) sdiv reading ?u (bits r)
        else reading ?u (bits l) smod reading ?u (bits r))"
    unfolding reading_of_int [symmetric]
    by (auto simp: divide_val_def Let_def u reading_def as_signed_def)
  then show ?thesis
    using assms by (auto simp: c_binop_def Let_def meaning_reading reading_zero divide_val_def)
qed

text \<open>Every operator of the table, on values that need not be converted before.\<close>

lemma apply_meaning:
  assumes "binary_op p \<noteq> None"
  shows "meaning (fst (apply_op p l r live s)) = c_binop p (meaning l) (meaning r)"
proof -
  have cases: "p \<in> {Comma, PipePipe, AmpAmp, Pipe, Caret, Amp, EqEq, Ne, Lt, Gt, Le, Ge, Shl, Shr, Plus, Minus, Star,
    Slash, Percent}"
    using assms by (cases p) (simp_all add: binary_op_def)
  let ?u = "unsgn l \<or> unsgn r"
  consider "p = Shl \<or> p = Shr" | "p = Slash \<or> p = Percent" | "p = Lt \<or> p = Gt \<or> p = Le \<or> p = Ge \<or> p = EqEq \<or> p = Ne"
    | "p = Plus \<or> p = Minus \<or> p = Star \<or> p = Amp \<or> p = Caret \<or> p = Pipe" | "p = Comma \<or> p = AmpAmp \<or> p = PipePipe"
    using cases by blast
  then show ?thesis
  proof cases
    case 1
    then show ?thesis using shift_meaning [OF 1, of l r] by (auto simp: apply_op_def Let_def)
  next
    case 2
    show ?thesis
    proof (cases "bits r = 0")
      case True
      then have "reading ?u (bits r) = 0" by (simp add: reading_zero)
      then have "c_binop p (meaning l) (meaning r) = (False, 0)"
        using 2 by (elim disjE) (simp_all add: c_binop_def Let_def meaning_reading)
      moreover have "fst (apply_op p l r live s) = ZERO" using 2 True by (elim disjE) (simp_all add: apply_op_def)
      ultimately show ?thesis by (simp add: meaning_ZERO)
    next
      case False
      have "fst (apply_op p l r live s) = divide_val p l r"
        using 2 False by (elim disjE) (simp_all add: apply_op_def Let_def)
      then show ?thesis using divide_meaning [OF 2 False, of l] by simp
    qed
  next
    case 3
    then show ?thesis
      by (elim disjE, simp_all add: apply_op_def c_binop_def Let_def meaning_bool)
        (simp_all add: meaning_reading reading_less reading_inj as_signed_def)
  next
    case 4
    then show ?thesis
      by (elim disjE) (simp_all add: apply_op_def c_binop_def Let_def meaning_reading reading_arith reading_bits)
  next
    case 5
    then show ?thesis
      by (elim disjE, simp_all add: apply_op_def c_binop_def Let_def meaning_bool)
        (simp_all add: meaning_reading reading_zero is_true_def)
  qed
qed

text \<open>A right shift of a negative value by the whole width is not zero.\<close>

lemma shift_fills_sign: "meaning (shift_val Shr (signed_val (- 1)) (signed_val 64)) = (False, - 1)"
  by (simp add: shift_val_def signed_val_def as_signed_def meaning_def)

end
