(* ===== verification/CondRun.thy ===== *)
theory CondRun
  imports CondArith
begin

text \<open>
  How the parser of \<open>#if\<close> expressions runs: it moves forward over the same tokens, it returns on any
  line of tokens, the fuel it is given does not matter once there is enough, and a part that does
  not count is read the same way and reports nothing.
\<close>

section \<open>The state under the small operations\<close>

definition same_line :: "eval \<Rightarrow> eval \<Rightarrow> bool" where
  "same_line s s' \<longleftrightarrow> tokens s' = tokens s \<and> eval_chars s' = eval_chars s"

definition rest_of :: "eval \<Rightarrow> nat" where "rest_of s = length (tokens s) - pos s"

lemma same_line_refl [simp]: "same_line s s"
  by (simp add: same_line_def)

lemma small_simps [simp]:
  "pos (advance s) = Suc (pos s)" "tokens (advance s) = tokens s" "diagnostics (advance s) = diagnostics s"
  "eval_chars (advance s) = eval_chars s" "pos (eval_error c live s) = pos s" "tokens (eval_error c live s) = tokens s"
  "eval_chars (eval_error c live s) = eval_chars s" "pos (report c a s) = pos s" "tokens (report c a s) = tokens s"
  "eval_chars (report c a s) = eval_chars s"
  by (simp_all add: advance_def eval_error_def report_def)

lemma eat_cases: "eat p s = (False, s) \<or> eat p s = (True, advance s) \<and> pos s < length (tokens s)"
  by (auto simp: eat_def peek_punct_def peek_def bind_eq_Some_conv split: if_splits)

lemma peek_less: "peek_punct s = Some p \<Longrightarrow> pos s < length (tokens s)"
  by (auto simp: peek_punct_def peek_def bind_eq_Some_conv split: if_splits)

lemma primary_state:
  "primary t live s = (v, s') \<Longrightarrow> tokens s' = tokens s \<and> eval_chars s' = eval_chars s \<and> pos s' = Suc (pos s)"
  by (auto simp: primary_def number_def char_const_def constant_of_def split: pp_token_kind.splits sum.splits)

text \<open>What an operator answers, and what it reports, apart.\<close>

definition op_value :: "punct \<Rightarrow> val \<Rightarrow> val \<Rightarrow> val" where
  "op_value p l r = fst (apply_op p l r False \<lparr>tokens = [], pos = 0, diagnostics = [], eval_chars = chars_default\<rparr>)"

definition by_zero :: "punct \<Rightarrow> val \<Rightarrow> bool" where
  "by_zero p r \<longleftrightarrow> (p = Slash \<or> p = Percent) \<and> bits r = 0"

lemma apply_split:
  "apply_op p l r live s = (op_value p l r, if by_zero p r then eval_error ''E0326'' live s else s)"
  by (cases p) (simp_all add: apply_op_def op_value_def by_zero_def Let_def)

lemma op_value_meaning: "binary_op p \<noteq> None \<Longrightarrow> meaning (op_value p l r) = c_binop p (meaning l) (meaning r)"
  unfolding op_value_def by (rule apply_meaning)

section \<open>It returns\<close>

lemma moves_forward:
  "conditional n live s = Some (v, s') \<Longrightarrow> same_line s s' \<and> pos s \<le> pos s'"
  "binary n m live s = Some (v, s') \<Longrightarrow> same_line s s' \<and> pos s \<le> pos s'"
  "binary_loop n m live l s = Some (v, s') \<Longrightarrow> same_line s s' \<and> pos s \<le> pos s'"
  "unary n live s = Some (v, s') \<Longrightarrow> same_line s s' \<and> pos s \<le> pos s'"
proof (induction n arbitrary: live s v s' m l)
  case (Suc n)
  {
    case 1
    then show ?case
      by (auto simp: bind_eq_Some_conv Let_def eat_def same_line_def split: if_splits prod.splits dest!: Suc.IH)
  next
    case 2
    then show ?case
      by (auto simp: bind_eq_Some_conv same_line_def dest!: Suc.IH)
  next
    case 3
    then show ?case
      by (auto simp: bind_eq_Some_conv Let_def apply_split same_line_def split: if_splits option.splits dest!: Suc.IH)
  next
    case 4
    then show ?case
      by (auto simp: bind_eq_Some_conv Let_def eat_def same_line_def split: if_splits option.splits prod.splits
          dest!: Suc.IH primary_state)
  }
qed simp_all

lemma unary_moves: "unary n live s = Some (v, s') \<Longrightarrow> pos s < length (tokens s) \<Longrightarrow> pos s < pos s'"
  by (induction n arbitrary: v s s')
    (auto simp: bind_eq_Some_conv Let_def peek_def eat_def split: if_splits option.splits prod.splits
      dest!: primary_state moves_forward)

lemma fuel_enough:
  "4 * rest_of s + 3 \<le> n \<Longrightarrow> \<exists>v s'. conditional n live s = Some (v, s')"
  "4 * rest_of s + 2 \<le> n \<Longrightarrow> \<exists>v s'. binary n m live s = Some (v, s')"
  "4 * rest_of s + 1 \<le> n \<Longrightarrow> \<exists>v s'. binary_loop n m live l s = Some (v, s')"
  "4 * rest_of s + 1 \<le> n \<Longrightarrow> \<exists>v s'. unary n live s = Some (v, s')"
proof (induction n arbitrary: live s m l)
  case (Suc n)
  have later: "rest_of s2 \<le> rest_of s1" if "same_line s1 s2" "pos s1 \<le> pos s2" for s1 s2
    using that by (auto simp: rest_of_def same_line_def)
  have ate: "rest_of (advance s1) < rest_of s1" if "pos s1 < length (tokens s1)" for s1
    using that by (auto simp: rest_of_def)
  {
    case 1
    then obtain c s1 where b: "binary n 0 live s = Some (c, s1)" using Suc.IH(2) [of s 0 live] by auto
    then have r1: "rest_of s1 \<le> rest_of s" using later moves_forward(2) by blast
    show ?case
    proof (cases "fst (eat Question s1)")
      case False
      then show ?thesis using b by (auto simp: Let_def split: prod.splits)
    next
      case True
      then have q: "eat Question s1 = (True, advance s1)" "pos s1 < length (tokens s1)" using eat_cases [of Question s1] by auto
      then have r2: "rest_of (advance s1) < rest_of s" using ate r1 by (meson less_le_trans)
      then obtain t s2 where t: "conditional n (live \<and> is_true c) (advance s1) = Some (t, s2)"
        using Suc.IH(1) [of "advance s1" "live \<and> is_true c"] 1 by auto
      then have r3: "rest_of s2 < rest_of s" using later moves_forward(1) r2 by (meson le_less_trans)
      show ?thesis
      proof (cases "fst (eat Colon s2)")
        case False
        then show ?thesis using b q(1) t by (auto simp: Let_def split: prod.splits)
      next
        case True
        then have k: "eat Colon s2 = (True, advance s2)" "pos s2 < length (tokens s2)" using eat_cases [of Colon s2] by auto
        then have "rest_of (advance s2) < rest_of s" using ate r3 by (meson less_trans)
        then obtain e s3 where "conditional n (live \<and> \<not> is_true c) (advance s2) = Some (e, s3)"
          using Suc.IH(1) [of "advance s2" "live \<and> \<not> is_true c"] 1 by auto
        then show ?thesis using b q(1) t k(1) by simp
      qed
    qed
  next
    case 2
    then obtain l s1 where u: "unary n live s = Some (l, s1)" using Suc.IH(4) [of s live] by auto
    then have "rest_of s1 \<le> rest_of s" using later moves_forward(4) by blast
    then show ?case using u Suc.IH(3) [of s1 m live l] 2 by auto
  next
    case 3
    show ?case
    proof (cases "Option.bind (peek_punct s) (\<lambda>p. Option.bind (binary_op p) (\<lambda>prec. Some (p, prec)))")
      case None
      then show ?thesis by simp
    next
      case (Some pp)
      obtain p prec where pp: "pp = (p, prec)" by (cases pp)
      have "pos s < length (tokens s)" using Some peek_less by (auto simp: bind_eq_Some_conv)
      note r1 = ate [OF this]
      define rl where "rl = (if p = AmpAmp then live \<and> is_true l else if p = PipePipe then live \<and> \<not> is_true l else live)"
      obtain x s1 where x: "binary n (prec + 1) rl (advance s) = Some (x, s1)"
        using Suc.IH(2) [of "advance s" "prec + 1" rl] r1 3 by auto
      then have "rest_of s1 < rest_of s" using later moves_forward(2) r1 by (meson le_less_trans)
      moreover have "rest_of (snd (apply_op p l x live s1)) = rest_of s1" by (simp add: apply_split rest_of_def)
      ultimately show ?thesis
        using Some pp x Suc.IH(3) [of "snd (apply_op p l x live s1)" m live "fst (apply_op p l x live s1)"] 3
        by (auto simp: Let_def rl_def [symmetric] split: prod.splits)
    qed
  next
    case 4
    show ?case
    proof (cases "peek s")
      case None
      then show ?thesis by simp
    next
      case (Some t)
      then have "pos s < length (tokens s)" by (auto simp: peek_def split: if_splits)
      note r1 = ate [OF this]
      obtain v s1 where "unary n live (advance s) = Some (v, s1)" using Suc.IH(4) [of "advance s" live] r1 4 by auto
      moreover obtain w s2 where "conditional n live (advance s) = Some (w, s2)"
        using Suc.IH(1) [of "advance s" live] r1 4 by auto
      ultimately show ?thesis using Some by (auto simp: Let_def split: prod.splits)
    qed
  }
qed simp_all

section \<open>More fuel is the same\<close>

lemma more_fuel:
  "conditional n live s = Some r \<Longrightarrow> n \<le> n' \<Longrightarrow> conditional n' live s = Some r"
  "binary n m live s = Some r \<Longrightarrow> n \<le> n' \<Longrightarrow> binary n' m live s = Some r"
  "binary_loop n m live l s = Some r \<Longrightarrow> n \<le> n' \<Longrightarrow> binary_loop n' m live l s = Some r"
  "unary n live s = Some r \<Longrightarrow> n \<le> n' \<Longrightarrow> unary n' live s = Some r"
proof (induction n arbitrary: live s r m l n')
  case (Suc n)
  {
    case 1
    obtain k where k: "n' = Suc k" "n \<le> k" using 1 by (cases n') auto
    show ?case
      using 1(1) unfolding k(1)
      by (auto simp: Let_def split_beta split: Option.bind_split_asm if_split_asm dest!: Suc.IH [OF _ k(2)])
  next
    case 2
    obtain k where k: "n' = Suc k" "n \<le> k" using 2 by (cases n') auto
    show ?case
      using 2(1) unfolding k(1) by (auto simp: split_beta split: Option.bind_split_asm dest!: Suc.IH [OF _ k(2)])
  next
    case 3
    obtain k where k: "n' = Suc k" "n \<le> k" using 3 by (cases n') auto
    show ?case
      using 3(1) unfolding k(1)
      by (auto simp: Let_def split_beta split: Option.bind_split_asm if_split_asm option.split_asm dest!: Suc.IH [OF _ k(2)])
  next
    case 4
    obtain k where k: "n' = Suc k" "n \<le> k" using 4 by (cases n') auto
    show ?case
      using 4(1) unfolding k(1)
      by (auto simp: Let_def split_beta split: Option.bind_split_asm if_split_asm option.split_asm dest!: Suc.IH [OF _ k(2)])
  }
qed simp_all

section \<open>A part that does not count\<close>

definition muted :: "diag list \<Rightarrow> eval \<Rightarrow> eval" where "muted ds s = s\<lparr>diagnostics := ds\<rparr>"

lemma muted_simps [simp]:
  "peek (muted ds s) = peek s" "peek_punct (muted ds s) = peek_punct s" "pos (muted ds s) = pos s"
  "advance (muted ds s) = muted ds (advance s)" "fst (eat p (muted ds s)) = fst (eat p s)"
  "snd (eat p (muted ds s)) = muted ds (snd (eat p s))" "muted ds (eval_error c live s) = muted ds s"
  "eval_error c False s = s" "muted ds (report c a s) = muted ds s"
  by (simp_all add: muted_def peek_def peek_punct_def advance_def eat_def eval_error_def report_def)

lemma primary_muted: "primary t False (muted ds s) = (fst (primary t live s), muted ds (snd (primary t live s)))"
proof -
  have c: "constant_of x d a False (muted ds s) = (fst (constant_of x d a live s), muted ds (snd (constant_of x d a live s)))"
    for x d a s by (cases x) (simp_all add: constant_of_def)
  have k: "eval_chars (muted ds s) = eval_chars s" "muted ds (advance (eval_error d live s)) = muted ds (advance s)" for d s
    by (simp_all add: muted_def advance_def eval_error_def report_def)
  show ?thesis
    by (cases "tok_kind t") (simp_all add: primary_def number_def char_const_def c k)
qed

lemma dead_run:
  "conditional n live s = Some r \<Longrightarrow> conditional n False (muted ds s) = Some (fst r, muted ds (snd r))"
  "binary n m live s = Some r \<Longrightarrow> binary n m False (muted ds s) = Some (fst r, muted ds (snd r))"
  "binary_loop n m live l s = Some r \<Longrightarrow> binary_loop n m False l (muted ds s) = Some (fst r, muted ds (snd r))"
  "unary n live s = Some r \<Longrightarrow> unary n False (muted ds s) = Some (fst r, muted ds (snd r))"
proof (induction n arbitrary: live s r m l)
  case (Suc n)
  define C where "C s = conditional n False (muted ds s)" for s
  define B where "B m s = binary n m False (muted ds s)" for m s
  define L where "L m l s = binary_loop n m False l (muted ds s)" for m l s
  define U where "U s = unary n False (muted ds s)" for s
  note f = C_def [symmetric] B_def [symmetric] L_def [symmetric] U_def [symmetric]
  note IH = Suc.IH [unfolded f]
  have err: "L m l (eval_error c live s) = L m l s" for m l c live s by (simp add: L_def)
  {
    case 1
    then show ?case
      by (auto simp: Let_def split_beta f split: Option.bind_split_asm if_split_asm dest!: IH)
  next
    case 2
    then show ?case by (auto simp: split_beta f split: Option.bind_split_asm dest!: IH)
  next
    case 3
    then show ?case
      by (auto simp: Let_def split_beta apply_split f err split: Option.bind_split_asm if_split_asm option.split_asm dest!: IH)
  next
    case 4
    then show ?case
      by (auto simp: Let_def split_beta primary_muted [of _ _ _ live] f split: Option.bind_split_asm if_split_asm option.split_asm
          dest!: IH)
  }
qed simp_all

end
