(* ===== verification/CondSound.thy ===== *)
theory CondSound
  imports CondRun
begin

text \<open>
  The grammar and the meaning of \<open>#if\<close> expressions: a tree is written out with the parentheses the
  C precedences ask for, the evaluator reads it back, and what it answers is the C value of the
  tree, with one report for each constant that is wrong and each division by zero that is reached.
\<close>

section \<open>Expressions and their C values\<close>

datatype expr = Leaf tok | Unary punct expr | Binary punct expr expr | Choice expr expr expr

fun well_formed :: "expr \<Rightarrow> bool" where
  "well_formed (Leaf t) = (tok_kind t \<in> {Number, CharConst, Ident})"
| "well_formed (Unary p e) = (p \<in> {Plus, Minus, Tilde, Bang} \<and> well_formed e)"
| "well_formed (Binary p l r) = (binary_op p \<noteq> None \<and> well_formed l \<and> well_formed r)"
| "well_formed (Choice c a b) = (well_formed c \<and> well_formed a \<and> well_formed b)"

definition leaf_const :: "chars \<Rightarrow> tok \<Rightarrow> bad_const + val" where
  "leaf_const cs t = (case tok_kind t of Number \<Rightarrow> parse_integer (spelling t) | CharConst \<Rightarrow> parse_char (spelling t) cs
     | _ \<Rightarrow> Inr (if spelling t = ''true'' then signed_val 1 else ZERO))"

definition c_unop :: "punct \<Rightarrow> cval \<Rightarrow> cval" where
  "c_unop p v = (if p = Minus then (fst v, wrap_to (fst v) (- snd v))
     else if p = Tilde then (fst v, wrap_to (fst v) (NOT (snd v)))
     else if p = Bang then c_bool (snd v = 0) else v)"

fun c_value :: "chars \<Rightarrow> expr \<Rightarrow> cval" where
  "c_value cs (Leaf t) = (case leaf_const cs t of Inr v \<Rightarrow> meaning v | Inl _ \<Rightarrow> (False, 0))"
| "c_value cs (Unary p e) = c_unop p (c_value cs e)"
| "c_value cs (Binary p l r) = c_binop p (c_value cs l) (c_value cs r)"
| "c_value cs (Choice c a b) =
     (let u = fst (c_value cs a) \<or> fst (c_value cs b)
      in (u, wrap_to u (snd (if snd (c_value cs c) \<noteq> 0 then c_value cs a else c_value cs b))))"

text \<open>How many reports evaluating it makes: an operand that C does not evaluate makes none.\<close>

fun faults :: "chars \<Rightarrow> expr \<Rightarrow> nat" where
  "faults cs (Leaf t) = (case leaf_const cs t of Inr v \<Rightarrow> 0 | Inl _ \<Rightarrow> 1)"
| "faults cs (Unary p e) = faults cs e"
| "faults cs (Binary p l r) = faults cs l +
     (if p = AmpAmp \<and> snd (c_value cs l) = 0 \<or> p = PipePipe \<and> snd (c_value cs l) \<noteq> 0 then 0 else faults cs r) +
     (if (p = Slash \<or> p = Percent) \<and> snd (c_value cs r) = 0 then 1 else 0)"
| "faults cs (Choice c a b) = faults cs c + (if snd (c_value cs c) \<noteq> 0 then faults cs a else faults cs b)"

section \<open>Writing an expression out\<close>

definition punct_tok :: "punct \<Rightarrow> tok" where
  "punct_tok p = \<lparr>tok_kind = Punct p, tok_value = None, placemarker = False\<rparr>"

definition parens :: "bool \<Rightarrow> tok list \<Rightarrow> tok list" where
  "parens b ts = (if b then punct_tok LParen # ts @ [punct_tok RParen] else ts)"

text \<open>An expression where an operator that binds at least as tight as \<open>k\<close> is allowed.\<close>

fun written :: "nat \<Rightarrow> expr \<Rightarrow> tok list" where
  "written k (Leaf t) = [t]"
| "written k (Unary p e) = punct_tok p # written 12 e"
| "written k (Binary p l r) = (let prec = the (binary_op p)
     in parens (prec < k) (written prec l @ punct_tok p # written (prec + 1) r))"
| "written k (Choice c a b) = parens (0 < k)
     (written 1 c @ punct_tok Question # written 0 a @ punct_tok Colon # written 0 b)"

lemma tok_punct_tok [simp]: "tok_punct (punct_tok p) = Some p"
  by (simp add: punct_tok_def tok_punct_def)

section \<open>Running on the tokens ahead\<close>

definition ahead :: "eval \<Rightarrow> tok list \<Rightarrow> bool" where
  "ahead s ts \<longleftrightarrow> drop (pos s) (tokens s) = ts"

text \<open>\<open>s'\<close> is \<open>s\<close> after \<open>k\<close> tokens and \<open>f\<close> reports, if they count.\<close>

definition moved :: "nat \<Rightarrow> nat \<Rightarrow> bool \<Rightarrow> eval \<Rightarrow> eval \<Rightarrow> bool" where
  "moved k f live s s' \<longleftrightarrow> (\<exists>ds. s' = s\<lparr>pos := pos s + k, diagnostics := diagnostics s @ ds\<rparr> \<and>
     length ds = (if live then f else 0))"

definition returns :: "(nat \<Rightarrow> 'a option) \<Rightarrow> 'a \<Rightarrow> bool" where
  "returns F r \<longleftrightarrow> (\<exists>N. \<forall>n\<ge>N. F n = Some r)"

lemma returnsI: "(\<And>n. N \<le> n \<Longrightarrow> F (Suc n) = Some r) \<Longrightarrow> returns F r"
  unfolding returns_def by (metis Suc_le_D Suc_le_mono)

lemma ahead_peek: "ahead s (t # ts) \<Longrightarrow> peek s = Some t \<and> pos s < length (tokens s)"
  by (auto simp: ahead_def peek_def nth_via_drop) (metis drop_all linorder_not_less list.distinct(1))+

lemma ahead_peek_punct: "ahead s ts \<Longrightarrow> peek_punct s = (case ts of [] \<Rightarrow> None | t # _ \<Rightarrow> tok_punct t)"
  by (cases ts) (auto simp: peek_punct_def dest!: ahead_peek, auto simp: ahead_def peek_def)

lemma ahead_advance: "ahead s (t # ts) \<Longrightarrow> ahead (advance s) ts"
  by (auto simp: ahead_def advance_def) (metis drop_Suc list.sel(3) tl_drop)

lemma ahead_moved: "ahead s (us @ ts) \<Longrightarrow> moved (length us) f live s s' \<Longrightarrow> ahead s' ts"
  using drop_drop [of "length us" "pos s" "tokens s"] by (auto simp: ahead_def moved_def add.commute)

lemma eat_ahead: "ahead s (punct_tok p # ts) \<Longrightarrow> eat p s = (True, advance s)"
  by (simp add: eat_def ahead_peek_punct)

lemma moved_chars: "moved k f live s s' \<Longrightarrow> eval_chars s' = eval_chars s"
  by (auto simp: moved_def)

lemma moved_advance: "moved 1 0 live s (advance s)"
  by (simp add: moved_def advance_def)

lemma moved_trans:
  "moved k f live s s' \<Longrightarrow> moved k' f' live' s' s'' \<Longrightarrow> live' \<longrightarrow> live \<Longrightarrow>
    moved (k + k') (f + (if live' then f' else 0)) live s s''"
  by (auto simp: moved_def add.assoc)

lemma moved_refl: "moved 0 0 live s s"
  by (simp add: moved_def)

lemma moved_error: "moved 0 1 live s (eval_error c live s)"
  unfolding moved_def eval_error_def report_def
  by (rule exI [of _ "if live then [(c, span_of s)] else []"]) simp

lemma moved_cong: "moved k f live s s' \<Longrightarrow> (live \<Longrightarrow> f = f') \<Longrightarrow> moved k f' live s s'"
  by (cases live) (simp_all add: moved_def)

lemma is_true_meaning: "is_true v \<longleftrightarrow> snd (meaning v) \<noteq> 0"
  by (simp add: is_true_def meaning_reading reading_zero)

text \<open>No operator that binds tighter than \<open>k\<close> comes next.\<close>

definition follow :: "nat \<Rightarrow> tok list \<Rightarrow> bool" where
  "follow k ts = (case ts of [] \<Rightarrow> True | t # _ \<Rightarrow>
     (case Option.bind (tok_punct t) binary_op of None \<Rightarrow> True | Some prec \<Rightarrow> prec \<le> k))"

definition no_question :: "tok list \<Rightarrow> bool" where
  "no_question ts = (case ts of [] \<Rightarrow> True | t # _ \<Rightarrow> tok_punct t \<noteq> Some Question)"

lemma follow_mono: "follow k ts \<Longrightarrow> k \<le> k' \<Longrightarrow> follow k' ts"
  by (auto simp: follow_def split: list.splits option.splits)

lemma loop_stops:
  assumes "ahead s rest" "follow k rest" "k < m"
  shows "returns (\<lambda>n. binary_loop n m live v s) (v, s)"
proof (rule returnsI)
  show "binary_loop (Suc n) m live v s = Some (v, s)" for n
    using assms by (cases rest) (auto simp: ahead_peek_punct follow_def bind_eq_Some_conv split: option.splits)
qed

lemma loop_step:
  assumes "ahead s (punct_tok p # rest)" "binary_op p = Some prec" "m \<le> prec"
    and "returns (\<lambda>n. binary n (prec + 1) (if p = AmpAmp then live \<and> is_true l else if p = PipePipe then live \<and> \<not> is_true l
        else live) (advance s)) (x, s2)"
    and "returns (\<lambda>n. binary_loop n m live (op_value p l x) (if by_zero p x then eval_error ''E0326'' live s2 else s2)) r"
  shows "returns (\<lambda>n. binary_loop n m live l s) r"
proof -
  obtain N1 N2 where N: "\<And>n. N1 \<le> n \<Longrightarrow> binary n (prec + 1) (if p = AmpAmp then live \<and> is_true l else
        if p = PipePipe then live \<and> \<not> is_true l else live) (advance s) = Some (x, s2)"
    "\<And>n. N2 \<le> n \<Longrightarrow> binary_loop n m live (op_value p l x) (if by_zero p x then eval_error ''E0326'' live s2 else s2) = Some r"
    using assms(4,5) unfolding returns_def by blast
  show ?thesis
  proof (rule returnsI)
    show "binary_loop (Suc n) m live l s = Some r" if "max N1 N2 \<le> n" for n
      using that N assms(1-3) by (simp add: ahead_peek_punct apply_split Let_def)
  qed
qed

lemma binary_start:
  assumes "returns (\<lambda>n. unary n live s) (v, s1)" "returns (\<lambda>n. binary_loop n m live v s1) r"
  shows "returns (\<lambda>n. binary n m live s) r"
proof -
  obtain N1 N2 where N: "\<And>n. N1 \<le> n \<Longrightarrow> unary n live s = Some (v, s1)"
    "\<And>n. N2 \<le> n \<Longrightarrow> binary_loop n m live v s1 = Some r"
    using assms unfolding returns_def by blast
  show ?thesis by (rule returnsI [of "max N1 N2"]) (simp add: N)
qed

lemma conditional_plain:
  assumes "returns (\<lambda>n. binary n 0 live s) (v, s1)" "ahead s1 rest" "no_question rest"
  shows "returns (\<lambda>n. conditional n live s) (v, s1)"
proof -
  have "eat Question s1 = (False, s1)"
    using assms(2,3) by (cases rest) (auto simp: eat_def ahead_peek_punct no_question_def)
  moreover obtain N where "\<And>n. N \<le> n \<Longrightarrow> binary n 0 live s = Some (v, s1)" using assms(1) unfolding returns_def by blast
  ultimately show ?thesis by (intro returnsI [of N]) simp
qed

lemma conditional_choice:
  assumes "returns (\<lambda>n. binary n 0 live s) (c, s1)" "ahead s1 (punct_tok Question # r1)"
    and "returns (\<lambda>n. conditional n (live \<and> is_true c) (advance s1)) (a, s2)" "ahead s2 (punct_tok Colon # r2)"
    and "returns (\<lambda>n. conditional n (live \<and> \<not> is_true c) (advance s2)) (b, s3)"
  shows "returns (\<lambda>n. conditional n live s) ((if is_true c then a else b)\<lparr>unsgn := unsgn a \<or> unsgn b\<rparr>, s3)"
proof -
  obtain N1 N2 N3 where N: "\<And>n. N1 \<le> n \<Longrightarrow> binary n 0 live s = Some (c, s1)"
    "\<And>n. N2 \<le> n \<Longrightarrow> conditional n (live \<and> is_true c) (advance s1) = Some (a, s2)"
    "\<And>n. N3 \<le> n \<Longrightarrow> conditional n (live \<and> \<not> is_true c) (advance s2) = Some (b, s3)"
    using assms(1,3,5) unfolding returns_def by blast
  show ?thesis
    by (rule returnsI [of "max N1 (max N2 N3)"]) (simp add: N eat_ahead [OF assms(2)] eat_ahead [OF assms(4)])
qed

lemma unary_parens:
  assumes "ahead s (punct_tok LParen # ts)" "returns (\<lambda>n. conditional n live (advance s)) (v, s1)"
    and "ahead s1 (punct_tok RParen # rest)"
  shows "returns (\<lambda>n. unary n live s) (v, advance s1)"
proof -
  obtain N where N: "\<And>n. N \<le> n \<Longrightarrow> conditional n live (advance s) = Some (v, s1)"
    using assms(2) unfolding returns_def by blast
  show ?thesis
    by (rule returnsI [of N]) (simp add: N conjunct1 [OF ahead_peek [OF assms(1)]] eat_ahead [OF assms(3)])
qed

lemma unary_operator:
  assumes "ahead s (punct_tok p # ts)" "p \<in> {Plus, Minus, Tilde, Bang}" "returns (\<lambda>n. unary n live (advance s)) (v, s1)"
  shows "\<exists>w. returns (\<lambda>n. unary n live s) (w, s1) \<and> meaning w = c_unop p (meaning v)"
proof -
  obtain N where N: "\<And>n. N \<le> n \<Longrightarrow> unary n live (advance s) = Some (v, s1)"
    using assms(3) unfolding returns_def by blast
  define w where "w = (if p = Minus then v\<lparr>bits := - bits v\<rparr> else if p = Tilde then v\<lparr>bits := NOT (bits v)\<rparr>
     else if p = Bang then boolean (\<not> is_true v) else v)"
  have "returns (\<lambda>n. unary n live s) (w, s1)"
    using assms(2) by (intro returnsI [of N]) (auto simp: N w_def conjunct1 [OF ahead_peek [OF assms(1)]])
  moreover have "meaning w = c_unop p (meaning v)"
    using meaning_bool [of "\<not> is_true v"] by (simp add: w_def c_unop_def is_true_meaning) (simp add: meaning_reading reading_arith reading_bits)
  ultimately show ?thesis by blast
qed

lemma unary_leaf:
  assumes "ahead s (t # rest)" "well_formed (Leaf t)"
  shows "\<exists>v s1. returns (\<lambda>n. unary n live s) (v, s1) \<and> meaning v = c_value (eval_chars s) (Leaf t) \<and>
    moved 1 (faults (eval_chars s) (Leaf t)) live s s1"
proof -
  obtain v s1 where p: "primary t live s = (v, s1)" by fastforce
  have k: "tok_punct t = None" using assms(2) by (auto simp: tok_punct_def)
  have "returns (\<lambda>n. unary n live s) (v, s1)"
    by (rule returnsI [of 0]) (simp add: conjunct1 [OF ahead_peek [OF assms(1)]] k p)
  moreover have "meaning v = c_value (eval_chars s) (Leaf t) \<and> moved 1 (faults (eval_chars s) (Leaf t)) live s s1"
    using p assms(2)
    by (auto simp: primary_def number_def char_const_def constant_of_def leaf_const_def moved_def advance_def report_def
        meaning_ZERO split: sum.splits if_splits)
  ultimately show ?thesis by blast
qed

section \<open>What is written is read back\<close>

definition reads_unary :: "chars \<Rightarrow> expr \<Rightarrow> bool" where
  "reads_unary cs e \<longleftrightarrow> (\<forall>live s rest. eval_chars s = cs \<longrightarrow> ahead s (written 12 e @ rest) \<longrightarrow>
     (\<exists>v s1. returns (\<lambda>n. unary n live s) (v, s1) \<and> meaning v = c_value cs e \<and>
       moved (length (written 12 e)) (faults cs e) live s s1))"

text \<open>As an operand at level \<open>k\<close>: whatever the loop makes of it, the parser of operands does.\<close>

definition reads_operand :: "chars \<Rightarrow> expr \<Rightarrow> nat \<Rightarrow> bool" where
  "reads_operand cs e k \<longleftrightarrow> (\<forall>live s rest. eval_chars s = cs \<longrightarrow> ahead s (written k e @ rest) \<longrightarrow> follow k rest \<longrightarrow>
     (\<exists>v s1. meaning v = c_value cs e \<and> moved (length (written k e)) (faults cs e) live s s1 \<and>
       (\<forall>m r. m \<le> k \<longrightarrow> returns (\<lambda>n. binary_loop n m live v s1) r \<longrightarrow> returns (\<lambda>n. binary n m live s) r)))"

definition reads_whole :: "chars \<Rightarrow> expr \<Rightarrow> bool" where
  "reads_whole cs e \<longleftrightarrow> (\<forall>live s rest. eval_chars s = cs \<longrightarrow> ahead s (written 0 e @ rest) \<longrightarrow> follow 0 rest \<longrightarrow>
     no_question rest \<longrightarrow> (\<exists>v s1. returns (\<lambda>n. conditional n live s) (v, s1) \<and> meaning v = c_value cs e \<and>
       moved (length (written 0 e)) (faults cs e) live s s1))"

lemma reads_unaryE:
  assumes "reads_unary cs e" "eval_chars s = cs" "ahead s (written 12 e @ rest)"
  obtains v s1 where "returns (\<lambda>n. unary n live s) (v, s1)" "meaning v = c_value cs e"
    "moved (length (written 12 e)) (faults cs e) live s s1"
  using assms(1) [unfolded reads_unary_def, rule_format, OF assms(2,3), of live] by (elim exE conjE) (rule that)

lemma reads_operandE:
  assumes "reads_operand cs e k" "eval_chars s = cs" "ahead s (written k e @ rest)" "follow k rest"
  obtains v s1 where "meaning v = c_value cs e" "moved (length (written k e)) (faults cs e) live s s1"
    "\<forall>m r. m \<le> k \<longrightarrow> returns (\<lambda>n. binary_loop n m live v s1) r \<longrightarrow> returns (\<lambda>n. binary n m live s) r"
  using assms(1) [unfolded reads_operand_def, rule_format, OF assms(2-4), of live] 
  by (elim exE conjE) (rule that)

lemma reads_wholeE:
  assumes "reads_whole cs e" "eval_chars s = cs" "ahead s (written 0 e @ rest)" "follow 0 rest" "no_question rest"
  obtains v s1 where "returns (\<lambda>n. conditional n live s) (v, s1)" "meaning v = c_value cs e"
    "moved (length (written 0 e)) (faults cs e) live s s1"
  using assms(1) [unfolded reads_whole_def, rule_format, OF assms(2-5), of live] by (elim exE conjE) (rule that)

lemma operand_of_unary:
  assumes "reads_unary cs e" "written k e = written 12 e"
  shows "reads_operand cs e k"
  unfolding reads_operand_def assms(2)
proof (intro allI impI)
  fix live s rest
  assume "eval_chars s = cs" "ahead s (written 12 e @ rest)"
  then obtain v s1 where "returns (\<lambda>n. unary n live s) (v, s1)" "meaning v = c_value cs e"
    "moved (length (written 12 e)) (faults cs e) live s s1"
    by (rule reads_unaryE [OF assms(1), of s rest live])
  then show "\<exists>v s1. meaning v = c_value cs e \<and> moved (length (written 12 e)) (faults cs e) live s s1 \<and>
      (\<forall>m r. m \<le> k \<longrightarrow> returns (\<lambda>n. binary_loop n m live v s1) r \<longrightarrow> returns (\<lambda>n. binary n m live s) r)"
    by (intro exI conjI allI impI) (erule (1) binary_start | assumption)+
qed

lemma binary_op_pos: "binary_op p = Some k \<Longrightarrow> 0 < k \<and> k < 12"
  by (cases p) (auto simp: binary_op_def)

lemma follow_0: "follow 0 rest \<Longrightarrow> ahead s rest \<Longrightarrow> returns (\<lambda>n. binary_loop n 0 live v s) (v, s)"
proof (rule returnsI)
  assume a: "follow 0 rest" "ahead s rest"
  have "Option.bind (peek_punct s) binary_op = None"
  proof (cases rest)
    case Nil
    then show ?thesis using ahead_peek_punct [OF a(2)] by simp
  next
    case (Cons t ts)
    then have "peek_punct s = tok_punct t" using ahead_peek_punct [OF a(2)] by simp
    moreover have False if b: "Option.bind (tok_punct t) binary_op = Some q" for q
    proof -
      have "q \<le> 0" using a(1) b by (simp add: follow_def Cons)
      moreover obtain p where "binary_op p = Some q" using b unfolding bind_eq_Some_conv by blast
      ultimately show False using binary_op_pos by blast
    qed
    ultimately show ?thesis by (cases "Option.bind (tok_punct t) binary_op") auto
  qed
  then show "binary_loop (Suc n) 0 live v s = Some (v, s)" for n
    by (cases "peek_punct s") simp_all
qed

lemma whole_of_operand:
  assumes "reads_operand cs e 0"
  shows "reads_whole cs e"
  unfolding reads_whole_def
proof (intro allI impI)
  fix live s rest
  assume a: "eval_chars s = cs" "ahead s (written 0 e @ rest)" "follow 0 rest" "no_question rest"
  obtain v s1 where v: "meaning v = c_value cs e" "moved (length (written 0 e)) (faults cs e) live s s1"
    "\<forall>m r. m \<le> 0 \<longrightarrow> returns (\<lambda>n. binary_loop n m live v s1) r \<longrightarrow> returns (\<lambda>n. binary n m live s) r"
    by (rule reads_operandE [OF assms a(1-3), of live])
  have s1: "ahead s1 rest" using ahead_moved [OF a(2) v(2)] .
  have "returns (\<lambda>n. conditional n live s) (v, s1)"
    by (rule conditional_plain [OF v(3) [rule_format, OF le0 follow_0 [OF a(3) s1]] s1 a(4)])
  then show "\<exists>v s1. returns (\<lambda>n. conditional n live s) (v, s1) \<and> meaning v = c_value cs e \<and>
      moved (length (written 0 e)) (faults cs e) live s s1"
    using v by blast
qed

lemma unary_of_whole:
  assumes "reads_whole cs e" "written 12 e = punct_tok LParen # written 0 e @ [punct_tok RParen]"
  shows "reads_unary cs e"
  unfolding reads_unary_def
proof (intro allI impI)
  fix live s rest
  assume a: "eval_chars s = cs" "ahead s (written 12 e @ rest)"
  then have h: "ahead s (punct_tok LParen # (written 0 e @ punct_tok RParen # rest))" using assms(2) by simp
  have f: "follow 0 (punct_tok RParen # rest)" "no_question (punct_tok RParen # rest)"
    by (simp_all add: follow_def no_question_def binary_op_def)
  obtain v s1 where v: "returns (\<lambda>n. conditional n live (advance s)) (v, s1)" "meaning v = c_value cs e"
    "moved (length (written 0 e)) (faults cs e) live (advance s) s1"
    by (rule reads_wholeE [OF assms(1) _ _ f, of "advance s" live]) (use a(1) ahead_advance [OF h] in simp_all)
  have s1: "ahead s1 (punct_tok RParen # rest)" using ahead_moved [OF ahead_advance [OF h] v(3)] .
  have m: "moved (1 + length (written 0 e) + 1) (0 + (if live then faults cs e else 0) + (if live then 0 else 0)) live s (advance s1)"
    by (rule moved_trans [OF moved_trans [OF moved_advance v(3)] moved_advance]) simp_all
  have "length (written 12 e) = 1 + length (written 0 e) + 1" using assms(2) by simp
  then have "moved (length (written 12 e)) (faults cs e) live s (advance s1)"
    by (simp only:) (rule moved_cong [OF m], simp)
  then show "\<exists>v s1. returns (\<lambda>n. unary n live s) (v, s1) \<and> meaning v = c_value cs e \<and>
      moved (length (written 12 e)) (faults cs e) live s s1"
    using unary_parens [OF h v(1) s1] v(2) by blast
qed

lemma operand_binary:
  assumes l: "reads_operand cs l prec" and r: "reads_operand cs r (prec + 1)"
    and p: "binary_op p = Some prec" and k: "k \<le> prec"
  shows "reads_operand cs (Binary p l r) k"
  unfolding reads_operand_def
proof (intro allI impI)
  fix live s rest
  let ?e = "Binary p l r"
  assume a: "eval_chars s = cs" "ahead s (written k ?e @ rest)" "follow k rest"
  have w: "written k ?e = written prec l @ punct_tok p # written (prec + 1) r" using p k by (simp add: parens_def)
  have h: "ahead s (written prec l @ punct_tok p # (written (prec + 1) r @ rest))" using a(2) w by simp
  have f: "follow prec (punct_tok p # (written (prec + 1) r @ rest))" "follow prec rest"
    using follow_mono [OF a(3) k] p by (simp_all add: follow_def)
  obtain v1 s1 where v1: "meaning v1 = c_value cs l" "moved (length (written prec l)) (faults cs l) live s s1"
    "\<forall>m r. m \<le> prec \<longrightarrow> returns (\<lambda>n. binary_loop n m live v1 s1) r \<longrightarrow> returns (\<lambda>n. binary n m live s) r"
    by (rule reads_operandE [OF l a(1) h f(1), of live])
  have s1: "ahead s1 (punct_tok p # (written (prec + 1) r @ rest))" using ahead_moved [OF h v1(2)] .
  define rl where "rl = (if p = AmpAmp then live \<and> is_true v1 else if p = PipePipe then live \<and> \<not> is_true v1 else live)"
  have c1: "eval_chars (advance s1) = cs" using a(1) v1(2) by (simp add: moved_chars)
  obtain v2 s2 where v2: "meaning v2 = c_value cs r" "moved (length (written (prec + 1) r)) (faults cs r) rl (advance s1) s2"
    "\<forall>m r. m \<le> prec + 1 \<longrightarrow> returns (\<lambda>n. binary_loop n m rl v2 s2) r \<longrightarrow> returns (\<lambda>n. binary n m rl (advance s1)) r"
    by (rule reads_operandE [OF r c1 ahead_advance [OF s1] follow_mono [OF f(2)], of rl]) simp_all
  have s2: "ahead s2 rest" using ahead_moved [OF ahead_advance [OF s1] v2(2)] .
  have right: "returns (\<lambda>n. binary n (prec + 1) rl (advance s1)) (v2, s2)"
    by (rule v2(3) [rule_format, OF order_refl]) (simp add: loop_stops [OF s2 f(2)])
  let ?v = "op_value p v1 v2" and ?s = "if by_zero p v2 then eval_error ''E0326'' live s2 else s2"
  have z: "by_zero p v2 \<longleftrightarrow> (p = Slash \<or> p = Percent) \<and> snd (c_value cs r) = 0"
    using is_true_meaning [of v2] by (simp add: by_zero_def is_true_def v2(1))
  have err: "moved 0 (if by_zero p v2 then 1 else 0) live s2 ?s"
    using moved_error [of live s2 "''E0326''"] by (simp add: moved_refl)
  have rl: "rl \<longrightarrow> live" "live \<Longrightarrow> rl \<longleftrightarrow>
      \<not> (p = AmpAmp \<and> snd (c_value cs l) = 0 \<or> p = PipePipe \<and> snd (c_value cs l) \<noteq> 0)"
    using is_true_meaning [of v1] v1(1) by (auto simp: rl_def)
  have m: "moved (length (written prec l) + 1 + length (written (prec + 1) r) + 0)
      (faults cs l + (if live then 0 else 0) + (if rl then faults cs r else 0) + (if live then if by_zero p v2 then 1 else 0 else 0)) live s ?s"
    by (rule moved_trans [OF moved_trans [OF moved_trans [OF v1(2) moved_advance] v2(2)] err]) (simp_all add: rl(1))
  have "length (written k ?e) = length (written prec l) + 1 + length (written (prec + 1) r) + 0"
    unfolding w by simp
  then have "moved (length (written k ?e)) (faults cs ?e) live s ?s"
    by (simp only:) (rule moved_cong [OF m], use rl z in auto)
  moreover have "meaning ?v = c_value cs ?e" using p by (simp add: op_value_meaning v1(1) v2(1))
  moreover have "returns (\<lambda>n. binary n m live s) x" if "m \<le> k" "returns (\<lambda>n. binary_loop n m live ?v ?s) x" for m x
  proof -
    have mp: "m \<le> prec" using that(1) k by simp
    show ?thesis by (rule v1(3) [rule_format, OF mp loop_step [OF s1 p mp right [unfolded rl_def] that(2)]])
  qed
  ultimately show "\<exists>v s1. meaning v = c_value cs ?e \<and> moved (length (written k ?e)) (faults cs ?e) live s s1 \<and>
      (\<forall>m r. m \<le> k \<longrightarrow> returns (\<lambda>n. binary_loop n m live v s1) r \<longrightarrow> returns (\<lambda>n. binary n m live s) r)"
    by blast
qed

lemma whole_choice:
  assumes c: "reads_operand cs c 1" and a: "reads_whole cs a" and b: "reads_whole cs b"
  shows "reads_whole cs (Choice c a b)"
  unfolding reads_whole_def
proof (intro allI impI)
  fix live s rest
  let ?e = "Choice c a b"
  assume h: "eval_chars s = cs" "ahead s (written 0 ?e @ rest)" "follow 0 rest" "no_question rest"
  let ?A = "written 0 a @ punct_tok Colon # written 0 b @ rest"
  have h1: "ahead s (written 1 c @ punct_tok Question # ?A)" using h(2) by (simp add: parens_def)
  have f: "follow k (punct_tok Question # ts)" "follow k (punct_tok Colon # ts)" "no_question (punct_tok Colon # ts)" for k ts
    by (simp_all add: follow_def no_question_def binary_op_def)
  obtain v s1 where v: "meaning v = c_value cs c" "moved (length (written 1 c)) (faults cs c) live s s1"
    "\<forall>m r. m \<le> 1 \<longrightarrow> returns (\<lambda>n. binary_loop n m live v s1) r \<longrightarrow> returns (\<lambda>n. binary n m live s) r"
    by (rule reads_operandE [OF c h(1) h1 f(1), of live])
  have s1: "ahead s1 (punct_tok Question # ?A)" using ahead_moved [OF h1 v(2)] .
  have cond: "returns (\<lambda>n. binary n 0 live s) (v, s1)"
    by (rule v(3) [rule_format, OF _ follow_0 [OF f(1) s1]]) simp
  have cs1: "eval_chars (advance s1) = cs" using h(1) v(2) by (simp add: moved_chars)
  obtain x s2 where x: "returns (\<lambda>n. conditional n (live \<and> is_true v) (advance s1)) (x, s2)" "meaning x = c_value cs a"
    "moved (length (written 0 a)) (faults cs a) (live \<and> is_true v) (advance s1) s2"
    by (rule reads_wholeE [OF a cs1 ahead_advance [OF s1] f(2,3), of "live \<and> is_true v"])
  have s2: "ahead s2 (punct_tok Colon # written 0 b @ rest)" using ahead_moved [OF ahead_advance [OF s1] x(3)] .
  have cs2: "eval_chars (advance s2) = cs" using cs1 x(3) by (simp add: moved_chars)
  obtain y s3 where y: "returns (\<lambda>n. conditional n (live \<and> \<not> is_true v) (advance s2)) (y, s3)" "meaning y = c_value cs b"
    "moved (length (written 0 b)) (faults cs b) (live \<and> \<not> is_true v) (advance s2) s3"
    by (rule reads_wholeE [OF b cs2 ahead_advance [OF s2] h(3,4), of "live \<and> \<not> is_true v"])
  let ?r = "(if is_true v then x else y)\<lparr>unsgn := unsgn x \<or> unsgn y\<rparr>"
  have t: "is_true v \<longleftrightarrow> snd (c_value cs c) \<noteq> 0" using is_true_meaning [of v] v(1) by simp
  have "meaning (z\<lparr>unsgn := u\<rparr>) = (u, wrap_to u (snd (meaning z)))" for z u
    by (simp add: meaning_reading)
  then have "meaning ?r = c_value cs ?e"
    using t x(2) y(2) by (simp add: Let_def) (metis fst_conv meaning_reading)
  moreover have m: "moved (length (written 1 c) + 1 + length (written 0 a) + 1 + length (written 0 b))
      (faults cs c + (if live then 0 else 0) + (if live \<and> is_true v then faults cs a else 0) + (if live then 0 else 0) +
        (if live \<and> \<not> is_true v then faults cs b else 0)) live s s3"
    by (rule moved_trans [OF moved_trans [OF moved_trans [OF moved_trans [OF v(2) moved_advance] x(3)] moved_advance] y(3)])
      simp_all
  have "length (written 0 ?e) = length (written 1 c) + 1 + length (written 0 a) + 1 + length (written 0 b)"
    by (simp add: parens_def)
  then have "moved (length (written 0 ?e)) (faults cs ?e) live s s3"
    by (simp only:) (rule moved_cong [OF m], use t in simp)
  ultimately show "\<exists>v s1. returns (\<lambda>n. conditional n live s) (v, s1) \<and> meaning v = c_value cs ?e \<and>
      moved (length (written 0 ?e)) (faults cs ?e) live s s1"
    using conditional_choice [OF cond s1 x(1) s2 y(1)] by blast
qed

lemma reads_unary_operator:
  assumes "reads_unary cs e" "p \<in> {Plus, Minus, Tilde, Bang}"
  shows "reads_unary cs (Unary p e)"
  unfolding reads_unary_def
proof (intro allI impI)
  fix live s rest
  assume a: "eval_chars s = cs" "ahead s (written 12 (Unary p e) @ rest)"
  then have h: "ahead s (punct_tok p # (written 12 e @ rest))" by simp
  have c: "eval_chars (advance s) = cs" using a(1) by simp
  obtain v s1 where v: "returns (\<lambda>n. unary n live (advance s)) (v, s1)" "meaning v = c_value cs e"
    "moved (length (written 12 e)) (faults cs e) live (advance s) s1"
    by (rule reads_unaryE [OF assms(1) c ahead_advance [OF h], of live])
  have m: "moved (1 + length (written 12 e)) (0 + (if live then faults cs e else 0)) live s s1"
    by (rule moved_trans [OF moved_advance v(3)]) simp
  have "moved (length (written 12 (Unary p e))) (faults cs (Unary p e)) live s s1"
    using m by (cases live) (simp_all add: moved_def)
  moreover obtain w where "returns (\<lambda>n. unary n live s) (w, s1)" "meaning w = c_unop p (meaning v)"
    using unary_operator [OF h assms(2) v(1)] by blast
  ultimately show "\<exists>v s1. returns (\<lambda>n. unary n live s) (v, s1) \<and> meaning v = c_value cs (Unary p e) \<and>
      moved (length (written 12 (Unary p e))) (faults cs (Unary p e)) live s s1"
    using v(2) by (intro exI [of _ w] exI [of _ s1]) simp
qed

lemma reads_leaf: "well_formed (Leaf t) \<Longrightarrow> reads_unary cs (Leaf t)"
  unfolding reads_unary_def
proof (intro allI impI)
  fix live s rest
  assume a: "well_formed (Leaf t)" "eval_chars s = cs" "ahead s (written 12 (Leaf t) @ rest)"
  then have "ahead s (t # rest)" by simp
  from unary_leaf [OF this a(1), of live] a(2)
  show "\<exists>v s1. returns (\<lambda>n. unary n live s) (v, s1) \<and> meaning v = c_value cs (Leaf t) \<and>
      moved (length (written 12 (Leaf t))) (faults cs (Leaf t)) live s s1" by simp
qed

lemma reads_all:
  "well_formed e \<Longrightarrow> reads_unary cs e \<and> reads_whole cs e \<and> (\<forall>k. 0 < k \<longrightarrow> k \<le> 12 \<longrightarrow> reads_operand cs e k)"
proof (induction e)
  case (Leaf t)
  then have "reads_unary cs (Leaf t)" by (rule reads_leaf)
  moreover have "reads_operand cs (Leaf t) k" for k using calculation by (rule operand_of_unary) simp
  ultimately show ?case using whole_of_operand by blast
next
  case (Unary p e)
  then have "reads_unary cs (Unary p e)" by (intro reads_unary_operator) simp_all
  moreover have "reads_operand cs (Unary p e) k" for k using calculation by (rule operand_of_unary) simp
  ultimately show ?case using whole_of_operand by blast
next
  case (Binary p l r)
  then obtain prec where p: "binary_op p = Some prec" by auto
  note b = binary_op_pos [OF p]
  have o: "reads_operand cs (Binary p l r) k" if "k \<le> prec" for k
    using Binary p b that by (intro operand_binary [of cs l prec r p k]) simp_all
  then have w: "reads_whole cs (Binary p l r)" using whole_of_operand by blast
  then have u: "reads_unary cs (Binary p l r)" by (rule unary_of_whole) (use p b in \<open>simp add: parens_def\<close>)
  have "reads_operand cs (Binary p l r) k" if "\<not> k \<le> prec" "k \<le> 12" for k
    by (rule operand_of_unary [OF u]) (use p b that in \<open>simp add: parens_def\<close>)
  then show ?case using o w u by blast
next
  case (Choice c a b)
  then have w: "reads_whole cs (Choice c a b)" by (intro whole_choice) simp_all
  then have u: "reads_unary cs (Choice c a b)" by (rule unary_of_whole) (simp add: parens_def)
  have "reads_operand cs (Choice c a b) k" if "0 < k" for k
    by (rule operand_of_unary [OF u]) (use that in \<open>simp add: parens_def\<close>)
  then show ?case using w u by blast
qed

section \<open>Properties\<close>

lemma fuel_unique:
  assumes "returns (\<lambda>n. conditional n live s) r" "4 * rest_of s + 3 \<le> n"
  shows "conditional n live s = Some r"
proof -
  obtain v s' where c: "conditional n live s = Some (v, s')" using fuel_enough(1) [OF assms(2)] by blast
  obtain N where N: "\<And>k. N \<le> k \<Longrightarrow> conditional k live s = Some r" using assms(1) unfolding returns_def by blast
  have "conditional (max n N) live s = Some (v, s')" using more_fuel(1) [OF c, of "max n N"] by simp
  then show ?thesis using N [of "max n N"] c by simp
qed

lemma written_nonempty: "written k e \<noteq> []"
  by (cases e) (simp_all add: parens_def Let_def)


definition named :: "string \<Rightarrow> expr" where
  "named s = Leaf \<lparr>tok_kind = Ident, tok_value = Some s, placemarker = False\<rparr>"


text \<open>
  C27: The evaluator returns on every line of tokens, well-formed or not, with the fuel the model
  gives it, and more fuel changes nothing.
\<close>

theorem evaluation_returns:
  assumes "fuel_for ts \<le> n"
  shows "run ts ds cs \<noteq> None \<and>
    conditional n True \<lparr>tokens = ts, pos = 0, diagnostics = ds, eval_chars = cs\<rparr> =
    conditional (fuel_for ts) True \<lparr>tokens = ts, pos = 0, diagnostics = ds, eval_chars = cs\<rparr>"
proof -
  let ?s = "\<lparr>tokens = ts, pos = 0, diagnostics = ds, eval_chars = cs\<rparr>"
  obtain v s where c: "conditional (fuel_for ts) True ?s = Some (v, s)"
    using fuel_enough(1) [of ?s "fuel_for ts" True] by (auto simp: fuel_for_def rest_of_def)
  then have "run ts ds cs \<noteq> None" by (simp add: run_def)
  then show ?thesis using more_fuel(1) [OF c assms] c by simp
qed

theorem evaluation_returns_witness:
  "run [punct_tok LParen, punct_tok Minus] [] chars_default \<noteq> None \<and> fuel_for [punct_tok LParen, punct_tok Minus] \<le> 100"
  using evaluation_returns [of "[punct_tok LParen, punct_tok Minus]" 100 "[]" chars_default] by (simp add: fuel_for_def)

text \<open>
  C28: A part that does not count is read like one that does: the same tokens to the same place and the same value. It
  only says nothing, so short circuiting cannot hide or move a syntax error that comes after.
\<close>

theorem dead_part_is_silent:
  assumes "conditional n live s = Some (v, s')"
  shows "conditional n False s = Some (v, s'\<lparr>diagnostics := diagnostics s\<rparr>)"
  using dead_run(1) [OF assms, of "diagnostics s"] by (simp add: muted_def)

theorem dead_part_is_silent_witness:
  "conditional 9 False \<lparr>tokens = written 0 (Binary Slash (named ''true'') (named ''x'')), pos = 0, diagnostics = [],
      eval_chars = chars_default\<rparr> = Some (ZERO,
    \<lparr>tokens = written 0 (Binary Slash (named ''true'') (named ''x'')), pos = 3, diagnostics = [], eval_chars = chars_default\<rparr>)"
proof -
  let ?ts = "written 0 (Binary Slash (named ''true'') (named ''x''))"
  have "conditional 9 True \<lparr>tokens = ?ts, pos = 0, diagnostics = [], eval_chars = chars_default\<rparr> = Some (ZERO,
      \<lparr>tokens = ?ts, pos = 3, diagnostics = [(''E0326'', None)], eval_chars = chars_default\<rparr>)"
    by (simp add: eval_nat_numeral named_def binary_op_def parens_def punct_tok_def tok_punct_def peek_def peek_punct_def primary_def
        spelling_def advance_def apply_op_def eval_error_def report_def span_of_def eat_def ZERO_def signed_val_def)
  from dead_part_is_silent [OF this] show ?thesis by simp
qed

end
