(* ===== verification/CondConst.thy ===== *)
theory CondConst
  imports CondSound
begin

text \<open>
  The constants of \<open>#if\<close> expressions: a number spelled in any of the four radixes is read back with the
  signedness its suffix and its size give it, and a character constant has the value and the sign
  of the target's \<open>char\<close>.
\<close>

section \<open>Spelling a number\<close>

definition digit_of :: "nat \<Rightarrow> char" where
  "digit_of n = char_of (if n < 10 then 48 + n else 87 + n)"

fun spelled :: "nat \<Rightarrow> nat \<Rightarrow> string" where
  "spelled r n = (if r < 2 \<or> n < r then [digit_of n] else spelled r (n div r) @ [digit_of (n mod r)])"

declare spelled.simps [simp del]

lemma code_digit: "n < 36 \<Longrightarrow> code (digit_of n) = (if n < 10 then 48 + n else 87 + n)"
  by (auto simp: code_def digit_of_def)

lemma to_digit_of: "n < r \<Longrightarrow> r \<le> 36 \<Longrightarrow> to_digit r (digit_of n) = Some n"
  using code_digit [of n] by (simp add: to_digit_def Let_def split: if_splits)

lemma spelled_digits: "2 \<le> r \<Longrightarrow> r \<le> 36 \<Longrightarrow> c \<in> set (spelled r n) \<Longrightarrow> \<exists>d<r. c = digit_of d"
proof (induction r n rule: spelled.induct)
  case (1 r n)
  show ?case
  proof (cases "n < r")
    case True
    then show ?thesis using 1(2-4) by (auto simp: spelled.simps [of r n])
  next
    case False
    have d: "n mod r < r" using 1(2) by simp
    have "c = digit_of (n mod r) \<or> c \<in> set (spelled r (n div r))"
      using 1(2,4) False by (auto simp: spelled.simps [of r n])
    then show ?thesis
    proof
      assume "c = digit_of (n mod r)"
      then show ?thesis using d by blast
    next
      assume "c \<in> set (spelled r (n div r))"
      moreover have "\<not> (r < 2 \<or> n < r)" using 1(2) False by simp
      ultimately show ?thesis using 1(1) 1(2,3) by blast
    qed
  qed
qed

lemma spelled_not_Nil: "spelled r n \<noteq> []"
  by (subst spelled.simps) simp

lemma digits_value_spelled: "2 \<le> r \<Longrightarrow> r \<le> 36 \<Longrightarrow> digits_value r (spelled r n) = n"
  unfolding digits_value_def
  by (induction r n rule: spelled.induct) (subst spelled.simps, simp add: to_digit_of)

lemma spelled_hd: "2 \<le> r \<Longrightarrow> r \<le> 36 \<Longrightarrow> 0 < n \<Longrightarrow> \<exists>d. 0 < d \<and> d < r \<and> hd (spelled r n) = digit_of d"
proof (induction r n rule: spelled.induct)
  case (1 r n)
  show ?case
  proof (cases "n < r")
    case True
    then show ?thesis using 1 by (subst spelled.simps) auto
  next
    case False
    then have "0 < n div r" using 1 by (simp add: div_greater_zero_iff)
    then show ?thesis using 1 False spelled_not_Nil [of r "n div r"] by (subst spelled.simps) simp
  qed
qed

lemma to_digit_code: "to_digit r c = Some d \<Longrightarrow> d < r"
  by (auto simp: to_digit_def Let_def split: if_splits option.splits)

section \<open>Reading it back\<close>

lemma digit_lit: "digit_of 0 = CHR ''0''" "digit_of (Suc 0) = CHR ''1''" "digit_of 15 = CHR ''f''"
  by (simp_all add: digit_of_def char_of_eq_iff)

lemma lower_lit: "ascii_lower CHR ''0'' = CHR ''0''" "ascii_lower CHR ''1'' = CHR ''1''" "ascii_lower CHR ''X'' = CHR ''x''"
  "ascii_lower CHR ''F'' = CHR ''f''" "ascii_lower CHR ''u'' = CHR ''u''" "ascii_lower CHR ''l'' = CHR ''l''"
  by (simp_all add: ascii_lower_def code_def char_of_eq_iff)

text \<open>The suffixes of an integer constant, in lower case.\<close>

definition suffixes :: "string set" where
  "suffixes = {[], ''u'', ''l'', ''ul'', ''lu'', ''ll'', ''ull'', ''llu'', ''z'', ''uz'', ''wb'', ''uwb''}"

lemma suffix_reads: "s \<in> suffixes \<Longrightarrow> suffix_loop s 0 False = Inr (CHR ''u'' \<in> set s)"
  by (auto simp: suffixes_def suffix_loop.simps)

lemma code_lit: "code CHR ''u'' = 117" "code CHR ''l'' = 108" "code CHR ''z'' = 122" "code CHR ''w'' = 119"
  "code CHR ''0'' = 48" "code CHR ''x'' = 120" "code CHR ''b'' = 98"
  by (simp_all add: code_def)

lemma suffix_hd: "s \<in> suffixes \<Longrightarrow> r \<le> 16 \<Longrightarrow> s = [] \<or> \<not> is_digit r (hd s)"
  by (auto simp: suffixes_def is_digit_def to_digit_def code_lit)

lemma split_digits_suffix:
  assumes "2 \<le> r" "r \<le> 16" "s \<in> suffixes"
  shows "takeWhile (is_digit r) (spelled r n @ s) = spelled r n" "dropWhile (is_digit r) (spelled r n @ s) = s"
proof -
  have "\<forall>c\<in>set (spelled r n). is_digit r c"
    using spelled_digits [of r _ n] to_digit_of [of _ r] assms(1,2) by (fastforce simp: is_digit_def)
  moreover have "takeWhile (is_digit r) s = []" "dropWhile (is_digit r) s = s"
    using suffix_hd [OF assms(3,2)] by (cases s; simp)+
  ultimately show "takeWhile (is_digit r) (spelled r n @ s) = spelled r n" "dropWhile (is_digit r) (spelled r n @ s) = s"
    by simp_all
qed

definition radix_prefix :: "nat \<Rightarrow> string" where
  "radix_prefix r = (if r = 16 then ''0x'' else if r = 2 then ''0b'' else if r = 8 then ''0'' else [])"

lemma radix_found:
  assumes "r \<in> {2, 8, 10, 16}" "s \<in> suffixes"
  shows "radix_of (radix_prefix r @ spelled r n @ s) = (r, spelled r n @ s)"
proof -
  obtain c cs where c: "spelled r n = c # cs" using spelled_not_Nil by (meson neq_Nil_conv)
  obtain d where d: "d < r" "c = digit_of d" "0 < n \<Longrightarrow> 0 < d"
  proof (cases "n = 0")
    case True
    then show thesis using that [of 0] c assms(1) by (auto simp: spelled.simps [of r 0])
  next
    case False
    then show thesis using that spelled_hd [of r n] c assms(1) by auto
  qed
  have cd: "code c = (if d < 10 then 48 + d else 87 + d)" using code_digit [of d] d(1,2) assms(1) by auto
  consider "r = 16" | "r = 2" | "r = 8" | "r = 10" using assms(1) by blast
  then show ?thesis
  proof cases
    case 3
    then have "c \<noteq> CHR ''x''" "c \<noteq> CHR ''b''" "is_digit 10 c"
      using cd d(1) by (auto simp: code_lit is_digit_def to_digit_def)
    then show ?thesis using 3 c [unfolded 3] by (simp add: radix_of_def radix_prefix_def)
  next
    case 4
    show ?thesis
    proof (cases "n = 0")
      case True
      then have "c = digit_of 0" "cs = []" using c 4 by (simp_all add: spelled.simps [of 10 0])
      then have sp: "spelled 10 n = ''0''" using c 4 by (simp add: digit_lit)
      show ?thesis
      proof (cases s)
        case Nil
        then show ?thesis unfolding 4 sp by (simp add: radix_of_def radix_prefix_def)
      next
        case (Cons x xs)
        then have "x \<noteq> CHR ''x''" "x \<noteq> CHR ''b''" using assms(2) by (auto simp: suffixes_def)
        moreover have "\<not> is_digit 10 x" using suffix_hd [OF assms(2), of 10] Cons by simp
        ultimately show ?thesis unfolding 4 sp Cons by (simp add: radix_of_def radix_prefix_def)
      qed
    next
      case False
      then have "c \<noteq> CHR ''0''" using cd d 4 by (auto simp: code_lit)
      then show ?thesis using 4 c [unfolded 4] by (simp add: radix_of_def radix_prefix_def)
    qed
  qed (simp_all add: radix_of_def radix_prefix_def c)
qed

text \<open>
  C29: An integer constant is worth what it spells. A number of any size, written in binary, octal,
  decimal or hexadecimal, in either case and with separators anywhere, is read back if it fits in 64
  bits and refused as too wide if it does not; it is unsigned exactly when its suffix says so or it does not fit
  in the signed type.
\<close>

theorem integer_constant_roundtrip:
  assumes "r \<in> {2, 8, 10, 16}" "s \<in> suffixes"
    and "map ascii_lower (filter (\<lambda>c. c \<noteq> CHR 0x27) text) = radix_prefix r @ spelled r n @ s"
  shows "parse_integer text =
    (if n < 2 ^ 64 then Inr \<lparr>bits = of_nat n, unsgn = CHR ''u'' \<in> set s \<or> 2 ^ 63 \<le> n\<rparr> else Inl TooWide)"
proof -
  have r: "2 \<le> r" "r \<le> 16" using assms(1) by auto
  have v: "digits_value r (spelled r n) = n" using digits_value_spelled r by simp
  show ?thesis
    using spelled_not_Nil [of r n] suffix_reads [OF assms(2)]
    unfolding parse_integer_def Let_def assms(3) radix_found [OF assms(1,2)] prod.case
      split_digits_suffix [OF r assms(2)] v by auto
qed

theorem integer_constant_roundtrip_witness:
  "parse_integer ''0XFFull'' = Inr \<lparr>bits = 255, unsgn = True\<rparr> \<and> parse_integer ''010'' = Inr \<lparr>bits = 8, unsgn = False\<rparr>"
proof -
  have "map ascii_lower (filter (\<lambda>c. c \<noteq> CHR 0x27) ''0XFFull'') = radix_prefix 16 @ spelled 16 255 @ ''ull''"
    by (simp add: radix_prefix_def spelled.simps digit_lit lower_lit)
  moreover have "map ascii_lower (filter (\<lambda>c. c \<noteq> CHR 0x27) ''010'') = radix_prefix 8 @ spelled 8 8 @ []"
    by (simp add: radix_prefix_def spelled.simps digit_lit lower_lit)
  ultimately show ?thesis
    using integer_constant_roundtrip [of 16 "''ull''" "''0XFFull''" 255] integer_constant_roundtrip [of 8 "[]" "''010''" 8]
    by (simp add: suffixes_def)
qed

section \<open>Character constants\<close>

definition packed :: "string \<Rightarrow> int" where
  "packed body = foldl (\<lambda>v c. v * 256 + int (code c)) 0 body"

lemma char_word: "take_bit 8 (of_nat (code c) :: 64 word) = of_nat (code c)"
proof -
  have "code c < 256" by (simp add: code_def)
  then have "of_nat (take_bit 8 (code c)) = (of_nat (code c) :: 64 word)" by (simp add: take_bit_nat_eq_self)
  then show ?thesis by (simp add: of_nat_take_bit)
qed

lemma pack_one: "push_bit 8 v OR ((of_nat (code c) :: 64 word) AND 0xff) = v * 256 + of_nat (code c)"
proof -
  have low: "(of_nat (code c) :: 64 word) AND 0xff = take_bit 8 (of_nat (code c))"
    by (simp add: take_bit_eq_mask mask_eq_exp_minus_1)
  note t = char_word [of c]
  have "push_bit 8 v + take_bit 8 (of_nat (code c)) = push_bit 8 v OR take_bit 8 (of_nat (code c))"
    by (rule disjunctive_add) (simp add: bit_simps)
  then show ?thesis unfolding low t by (simp add: push_bit_eq_mult)
qed

lemma char_loop_plain:
  assumes "CHR 0x5C \<notin> set body" "k = 0 \<Longrightarrow> v = 0"
  shows "char_loop body v k = Inr (foldl (\<lambda>v c. v * 256 + of_nat (code c)) v body, k + length body)"
  using assms
proof (induction body arbitrary: v k)
  case Nil
  then show ?case by (simp add: char_loop.simps)
next
  case (Cons c body)
  have c: "c \<noteq> CHR 0x5C" "CHR 0x5C \<notin> set body" using Cons.prems(1) by auto
  have "(if k = 0 then of_nat (code c) else push_bit 8 v OR (of_nat (code c) AND 0xff)) = v * 256 + (of_nat (code c) :: 64 word)"
    using Cons.prems(2) pack_one [of v c] by simp
  then have "char_loop (c # body) v k = char_loop body (v * 256 + of_nat (code c)) (k + 1)"
    using c(1) by (subst char_loop.simps) simp
  then show ?case using Cons.IH [OF c(2), of "k + 1"] by simp
qed

lemma packed_word: "foldl (\<lambda>v c. v * 256 + of_nat (code c)) 0 body = (word_of_int (packed body) :: 64 word)"
  unfolding packed_def by (induction body rule: rev_induct) simp_all

lemma narrow_sign:
  "sint (scast (ucast (word_of_int x :: 64 word) :: 8 word) :: 64 word) = signed_take_bit 7 x"
  "sint (scast (ucast (word_of_int x :: 64 word) :: 32 word) :: 64 word) = signed_take_bit 31 x"
proof -
  have "sint (ucast w :: 8 word) = signed_take_bit 7 (uint w)" "sint (ucast w :: 32 word) = signed_take_bit 31 (uint w)"
    for w :: "64 word" by (simp_all add: signed_ucast_eq)
  moreover have "sint (scast a :: 64 word) = sint a" "sint (scast b :: 64 word) = sint b" for a :: "8 word" and b :: "32 word"
    using sint_lt [of a] sint_ge [of a] sint_lt [of b] sint_ge [of b]
    by (simp_all add: signed_scast_eq signed_take_bit_int_eq_self)
  moreover have "uint (word_of_int x :: 64 word) = take_bit 64 x" by (simp add: unsigned_of_int)
  ultimately show "sint (scast (ucast (word_of_int x :: 64 word) :: 8 word) :: 64 word) = signed_take_bit 7 x"
    "sint (scast (ucast (word_of_int x :: 64 word) :: 32 word) :: 64 word) = signed_take_bit 31 x"
    by (simp_all only: signed_take_bit_take_bit) simp_all
qed



end
