(* ===== verification/Inflate.thy ===== *)
theory Inflate
  imports Main "HOL-Library.Word"
begin

text \<open>
  The decompressor, \<open>crates/rucc-unpack/src/inflate.rs\<close>: a stream of bits, the three kinds of block,
  canonical Huffman codes and the copies out of what was produced before.

  Where the Rust code passes the reader and the output by mutable reference, a function here answers
  the new ones. The loops end because each round takes a bit, so nothing has fuel. The output that was
  produced before a stream turned out to be bad is not part of the answer. A code length is below 16, as every
  caller of \<open>Code::new\<close> has it; the array of counts is not indexed past its end then.
\<close>

unbundle bit_operations_syntax

section \<open>Errors\<close>

datatype bad = Truncated | BlockType | StoredLength | Lengths | Symbol | Reserved | TooFarBack

record inflate_error =
  err_at :: nat
  what :: bad

definition and_then :: "'e + 'a \<Rightarrow> ('a \<Rightarrow> 'e + 'b) \<Rightarrow> 'e + 'b" where
  "and_then r f = (case r of Inl e \<Rightarrow> Inl e | Inr x \<Rightarrow> f x)"

lemma and_then_simps [simp]: "and_then (Inl e) f = Inl e" "and_then (Inr x) f = f x"
  by (simp_all add: and_then_def)

lemma and_then_cong [fundef_cong]:
  "r = r' \<Longrightarrow> (\<And>x. r' = Inr x \<Longrightarrow> f x = f' x) \<Longrightarrow> and_then r f = and_then r' f'"
  by (cases r') simp_all

lemma and_then_Inr: "and_then r f = Inr y \<longleftrightarrow> (\<exists>x. r = Inr x \<and> f x = Inr y)"
  by (cases r) simp_all

section \<open>The stream of bits\<close>

record reader =
  bytes :: "8 word list"
  at :: nat
  held :: "32 word"
  count :: nat

definition fail :: "reader \<Rightarrow> bad \<Rightarrow> inflate_error + 'a" where
  "fail s w = Inl \<lparr>err_at = at s, what = w\<rparr>"

text \<open>The loop that takes bytes until there are enough bits.\<close>

function refill :: "nat \<Rightarrow> reader \<Rightarrow> inflate_error + reader" where
  "refill want s =
     (if count s < want then
        if at s < length (bytes s) then
          refill want (s\<lparr>at := at s + 1, held := held s OR push_bit (count s) (ucast (bytes s ! at s)), count := count s + 8\<rparr>)
        else fail s Truncated
      else Inr s)"
  by pat_completeness auto
termination by (relation "measure (\<lambda>(want, s). want - count s)") auto

declare refill.simps [simp del]

definition next_bits :: "nat \<Rightarrow> reader \<Rightarrow> inflate_error + nat \<times> reader" where
  "next_bits want s = and_then (refill want s) (\<lambda>s.
     Inr (unat (held s AND (push_bit want 1 - 1)), s\<lparr>held := drop_bit want (held s), count := count s - want\<rparr>))"

definition align :: "reader \<Rightarrow> reader" where
  "align s = s\<lparr>held := 0, count := 0\<rparr>"

section \<open>A block that was stored\<close>

definition stored :: "reader \<Rightarrow> 8 word list \<Rightarrow> inflate_error + reader \<times> 8 word list" where
  "stored s out =
     and_then (next_bits 16 (align s)) (\<lambda>(len, s).
     and_then (next_bits 16 s) (\<lambda>(no, s).
       if len \<noteq> unat (NOT (of_nat no :: 64 word) AND 0xffff) then fail s StoredLength
       else let to = at s + len
         in if to \<le> length (bytes s) then Inr (s\<lparr>at := to\<rparr>, out @ take len (drop (at s) (bytes s)))
            else fail s Truncated))"

section \<open>Canonical codes\<close>

record hcode =
  counts :: "nat list"
  symbols :: "nat list"

definition no_code :: hcode where "no_code = \<lparr>counts = replicate 16 0, symbols = []\<rparr>"

definition count_lengths :: "nat list \<Rightarrow> nat list" where
  "count_lengths lengths = foldl (\<lambda>cs l. cs[l := cs ! l + 1]) (replicate 16 0) lengths"

text \<open>Kraft's inequality, over the counts from length 1 on.\<close>

fun kraft :: "nat list \<Rightarrow> int \<Rightarrow> bool" where
  "kraft [] left = True"
| "kraft (c # cs) left = (let left = 2 * left - int c in if left < 0 then False else kraft cs left)"

definition offsets_of :: "nat list \<Rightarrow> nat list" where
  "offsets_of cs = foldl (\<lambda>os l. os[l + 1 := os ! l + cs ! l]) (replicate 16 0) [1..<15]"

text \<open>The loop that places the symbols: the symbol it has come to, the offsets and the list so far.\<close>

fun place :: "nat list \<Rightarrow> nat \<Rightarrow> nat list \<Rightarrow> nat list \<Rightarrow> nat list" where
  "place [] symbol os syms = syms"
| "place (l # ls) symbol os syms =
     (if l \<noteq> 0 then place ls (symbol + 1) (os[l := os ! l + 1]) (syms[os ! l := symbol])
      else place ls (symbol + 1) os syms)"

definition code_new :: "nat list \<Rightarrow> hcode option" where
  "code_new lengths =
     (let cs = count_lengths lengths
      in if cs ! 0 = length lengths then Some \<lparr>counts = cs, symbols = []\<rparr>
         else if \<not> kraft (tl cs) 1 then None
         else Some \<lparr>counts = cs, symbols = place lengths 0 (offsets_of cs) (replicate (length lengths) 0)\<rparr>)"

text \<open>The loop of \<open>read\<close> from a length on: the number read so far, the first code of this length, and the index of its symbol.\<close>

function read_from :: "nat \<Rightarrow> int \<Rightarrow> int \<Rightarrow> int \<Rightarrow> hcode \<Rightarrow> reader \<Rightarrow> inflate_error + nat \<times> reader" where
  "read_from l code first index c s =
     (if 16 \<le> l then fail s Symbol
      else and_then (next_bits 1 s) (\<lambda>(b, s).
        let code = code OR int b; n = int (counts c ! l)
        in if code - first < n then
             (let i = nat (index + (code - first)) in if i < length (symbols c) then Inr (symbols c ! i, s) else fail s Symbol)
           else read_from (l + 1) (push_bit 1 code) (push_bit 1 (first + n)) (index + n) c s))"
  by pat_completeness auto
termination by (relation "measure (\<lambda>(l, _). 16 - l)") auto

declare read_from.simps [simp del]

definition read_symbol :: "hcode \<Rightarrow> reader \<Rightarrow> inflate_error + nat \<times> reader" where
  "read_symbol c s = read_from 1 0 0 0 c s"

section \<open>The two codes of a block\<close>

definition LITERALS :: nat where "LITERALS = 288"

definition DISTANCES :: nat where "DISTANCES = 30"

definition WINDOW :: nat where "WINDOW = 32768"

definition fixed_lengths :: "nat list" where
  "fixed_lengths = map (\<lambda>symbol. if symbol \<le> 143 then 8 else if symbol \<le> 255 then 9 else if symbol \<le> 279 then 7 else 8)
     [0..<LITERALS]"

definition fixed :: "hcode \<times> hcode" where
  "fixed = (case code_new fixed_lengths of Some c \<Rightarrow> c | None \<Rightarrow> no_code,
            case code_new (replicate DISTANCES 5) of Some c \<Rightarrow> c | None \<Rightarrow> no_code)"

definition ORDER :: "nat list" where
  "ORDER = [16, 17, 18, 0, 8, 7, 9, 6, 10, 5, 11, 4, 12, 3, 13, 2, 14, 1, 15]"

definition LENGTH_BASE :: "nat list" where
  "LENGTH_BASE = [3, 4, 5, 6, 7, 8, 9, 10, 11, 13, 15, 17, 19, 23, 27, 31, 35, 43, 51, 59, 67, 83, 99, 115, 131,
    163, 195, 227, 258]"

definition LENGTH_EXTRA :: "nat list" where
  "LENGTH_EXTRA = [0, 0, 0, 0, 0, 0, 0, 0, 1, 1, 1, 1, 2, 2, 2, 2, 3, 3, 3, 3, 4, 4, 4, 4, 5, 5, 5, 5, 0]"

definition DISTANCE_BASE :: "nat list" where
  "DISTANCE_BASE = [1, 2, 3, 4, 5, 7, 9, 13, 17, 25, 33, 49, 65, 97, 129, 193, 257, 385, 513, 769, 1025, 1537,
    2049, 3073, 4097, 6145, 8193, 12289, 16385, 24577]"

definition DISTANCE_EXTRA :: "nat list" where
  "DISTANCE_EXTRA = [0, 0, 0, 0, 1, 1, 2, 2, 3, 3, 4, 4, 5, 5, 6, 6, 7, 7, 8, 8, 9, 9, 10, 10, 11, 11, 12, 12, 13, 13]"

text \<open>\<open>fill\<close>, which answers the list and where it got to, or nothing when the run does not fit.\<close>

definition fill :: "nat list \<Rightarrow> nat \<Rightarrow> nat \<Rightarrow> nat \<Rightarrow> (nat list \<times> nat) option" where
  "fill lengths p value n =
     (if p + n \<le> length lengths then Some (take p lengths @ replicate n value @ drop (p + n) lengths, p + n) else None)"

text \<open>The lengths of the code the lengths are written with.\<close>

fun meta_lengths :: "nat list \<Rightarrow> nat list \<Rightarrow> reader \<Rightarrow> inflate_error + nat list \<times> reader" where
  "meta_lengths [] meta s = Inr (meta, s)"
| "meta_lengths (p # ps) meta s = and_then (next_bits 3 s) (\<lambda>(n, s). meta_lengths ps (meta[p := n]) s)"

function run_lengths :: "hcode \<Rightarrow> nat list \<Rightarrow> nat \<Rightarrow> reader \<Rightarrow> inflate_error + nat list \<times> reader" where
  "run_lengths meta lengths p s =
     (if \<not> p < length lengths then Inr (lengths, s)
      else and_then (read_symbol meta s) (\<lambda>(symbol, s).
        if symbol \<le> 15 then run_lengths meta (lengths[p := symbol]) (p + 1) s
        else if symbol = 16 then
          if p = 0 then fail s Lengths
          else and_then (next_bits 2 s) (\<lambda>(n, s).
            case fill lengths p (lengths ! (p - 1)) (n + 3) of None \<Rightarrow> fail s Lengths
            | Some (lengths, p) \<Rightarrow> run_lengths meta lengths p s)
        else if symbol = 17 then
          and_then (next_bits 3 s) (\<lambda>(n, s).
            case fill lengths p 0 (n + 3) of None \<Rightarrow> fail s Lengths
            | Some (lengths, p) \<Rightarrow> run_lengths meta lengths p s)
        else if symbol = 18 then
          and_then (next_bits 7 s) (\<lambda>(n, s).
            case fill lengths p 0 (n + 11) of None \<Rightarrow> fail s Lengths
            | Some (lengths, p) \<Rightarrow> run_lengths meta lengths p s)
        else fail s Lengths))"
  by pat_completeness auto
termination
  by (relation "measure (\<lambda>(_, lengths, p, _). length lengths - p)") (auto simp: fill_def split: if_splits)

declare run_lengths.simps [simp del]

definition or_lengths :: "'a option \<Rightarrow> reader \<Rightarrow> inflate_error + 'a" where
  "or_lengths c s = (case c of Some x \<Rightarrow> Inr x | None \<Rightarrow> fail s Lengths)"

definition dynamic :: "reader \<Rightarrow> inflate_error + (hcode \<times> hcode) \<times> reader" where
  "dynamic s =
     and_then (next_bits 5 s) (\<lambda>(nlit, s).
     and_then (next_bits 5 s) (\<lambda>(ndist, s).
     and_then (next_bits 4 s) (\<lambda>(ncode, s).
       let nlit = nlit + 257; ndist = ndist + 1; ncode = ncode + 4
       in if nlit > LITERALS \<or> ndist > DISTANCES + 2 then fail s Lengths
          else and_then (meta_lengths (take ncode ORDER) (replicate 19 0) s) (\<lambda>(meta, s).
            and_then (or_lengths (code_new meta) s) (\<lambda>meta.
            and_then (run_lengths meta (replicate (nlit + ndist) 0) 0 s) (\<lambda>(lengths, s).
            and_then (or_lengths (code_new (take nlit lengths)) s) (\<lambda>lit.
            and_then (or_lengths (code_new (drop nlit lengths)) s) (\<lambda>dist. Inr ((lit, dist), s)))))))))"

section \<open>Literals and copies\<close>

primrec copy_bytes :: "nat \<Rightarrow> nat \<Rightarrow> 8 word list \<Rightarrow> 8 word list" where
  "copy_bytes 0 p out = out"
| "copy_bytes (Suc n) p out = copy_bytes n (p + 1) (out @ [out ! p])"

definition copy :: "reader \<Rightarrow> 8 word list \<Rightarrow> nat \<Rightarrow> nat \<Rightarrow> inflate_error + 8 word list" where
  "copy s out n distance =
     (if length out < distance then fail s TooFarBack
      else if distance > WINDOW then fail s TooFarBack
      else Inr (copy_bytes n (length out - distance) out))"

text \<open>The length and the distance of a copy, after the symbol that starts it.\<close>

definition copy_args :: "nat \<Rightarrow> hcode \<Rightarrow> reader \<Rightarrow> inflate_error + nat \<times> nat \<times> reader" where
  "copy_args symbol dist s =
     (let p = symbol - 257
      in and_then (next_bits (LENGTH_EXTRA ! p) s) (\<lambda>(extra, s).
         and_then (read_symbol dist s) (\<lambda>(d, s).
           if DISTANCES \<le> d then fail s Reserved
           else and_then (next_bits (DISTANCE_EXTRA ! d) s) (\<lambda>(more, s).
             Inr (LENGTH_BASE ! p + extra, DISTANCE_BASE ! d + more, s)))))"

text \<open>Every read takes bits, so a block ends.\<close>

definition remaining :: "reader \<Rightarrow> nat" where
  "remaining s = 8 * (length (bytes s) - at s) + count s"

lemma refill_remaining: "refill want s = Inr s' \<Longrightarrow> remaining s' = remaining s \<and> want \<le> count s' \<and> bytes s' = bytes s"
proof (induction want s rule: refill.induct)
  case (1 want s)
  show ?case
  proof (cases "count s < want")
    case True
    then show ?thesis using 1 by (subst (asm) (2) refill.simps) (auto simp: remaining_def fail_def split: if_splits)
  next
    case False
    then show ?thesis using 1(2) by (subst (asm) refill.simps) auto
  qed
qed

lemma next_bits_remaining:
  "next_bits want s = Inr (v, s') \<Longrightarrow> remaining s' + want = remaining s \<and> bytes s' = bytes s"
  by (auto simp: next_bits_def and_then_Inr dest!: refill_remaining) (auto simp: remaining_def)

lemma read_from_remaining:
  "read_from l code first index c s = Inr (v, s') \<Longrightarrow> remaining s' < remaining s \<and> bytes s' = bytes s"
proof (induction l code first index c s rule: read_from.induct)
  case (1 l code first index c s)
  obtain b s1 where b: "\<not> 16 \<le> l" "next_bits 1 s = Inr (b, s1)"
    using 1(2) unfolding read_from.simps [of l] by (auto simp: and_then_Inr fail_def split: if_splits)
  define n where "n = int (counts c ! l)"
  have s1: "remaining s1 < remaining s" "bytes s1 = bytes s" using next_bits_remaining [OF b(2)] by simp_all
  show ?case
  proof (cases "(code OR int b) - first < n")
    case True
    then show ?thesis
      using 1(2) b s1 unfolding read_from.simps [of l] by (auto simp: fail_def n_def Let_def split: if_splits)
  next
    case False
    then have "read_from (l + 1) (push_bit 1 (code OR int b)) (push_bit 1 (first + n)) (index + n) c s1 = Inr (v, s')"
      using 1(2) b unfolding read_from.simps [of l] by (simp add: n_def Let_def)
    from 1(1) [OF b(1) b(2) refl refl n_def False this] s1 show ?thesis by simp
  qed
qed

lemma read_symbol_remaining: "read_symbol c s = Inr (v, s') \<Longrightarrow> remaining s' < remaining s \<and> bytes s' = bytes s"
  unfolding read_symbol_def by (rule read_from_remaining)

lemma copy_args_remaining: "copy_args symbol dist s = Inr (n, d, s') \<Longrightarrow> remaining s' < remaining s \<and> bytes s' = bytes s"
  by (auto simp: copy_args_def and_then_Inr fail_def Let_def split: if_splits
      dest!: next_bits_remaining read_symbol_remaining)

function block :: "reader \<Rightarrow> 8 word list \<Rightarrow> hcode \<Rightarrow> hcode \<Rightarrow> inflate_error + reader \<times> 8 word list" where
  "block s out lit dist =
     and_then (read_symbol lit s) (\<lambda>(symbol, s).
       if symbol \<le> 255 then block s (out @ [of_nat symbol]) lit dist
       else if symbol = 256 then Inr (s, out)
       else if symbol \<le> 285 then
         and_then (copy_args symbol dist s) (\<lambda>(n, distance, s).
         and_then (copy s out n distance) (\<lambda>out. block s out lit dist))
       else fail s Reserved)"
  by pat_completeness auto
termination
  by (relation "measure (\<lambda>(s, _). remaining s)")
    (auto dest!: read_symbol_remaining copy_args_remaining)

declare block.simps [simp del]

section \<open>The whole stream\<close>

lemma block_remaining: "block s out lit dist = Inr (s', out') \<Longrightarrow> remaining s' < remaining s \<and> bytes s' = bytes s"
proof (induction "remaining s" arbitrary: s out rule: less_induct)
  case less
  obtain symbol s1 where b: "read_symbol lit s = Inr (symbol, s1)"
    using less(2) unfolding block.simps [of s] by (auto simp: and_then_Inr)
  note s1 = read_symbol_remaining [OF b]
  consider "symbol \<le> 255" | "symbol = 256" | "256 < symbol"
    by linarith
  then show ?case
  proof cases
    case 1
    then have "block s1 (out @ [of_nat symbol]) lit dist = Inr (s', out')"
      using less(2) b unfolding block.simps [of s] by simp
    then show ?thesis using less(1) [of s1] s1 by fastforce
  next
    case 2
    then show ?thesis using less(2) b s1 unfolding block.simps [of s] by auto
  next
    case 3
    then obtain n d s2 out2 where c: "copy_args symbol dist s1 = Inr (n, d, s2)" "block s2 out2 lit dist = Inr (s', out')"
      using less(2) b unfolding block.simps [of s] by (auto simp: and_then_Inr fail_def split: if_splits)
    show ?thesis using less(1) [of s2, OF _ c(2)] copy_args_remaining [OF c(1)] s1 by simp
  qed
qed

lemma stored_remaining:
  "stored s out = Inr (s', out') \<Longrightarrow> remaining s' \<le> remaining s \<and> bytes s' = bytes s"
  by (auto simp: stored_def and_then_Inr fail_def Let_def align_def split: if_splits dest!: next_bits_remaining)
    (auto simp: remaining_def)

lemma meta_remaining: "meta_lengths ps meta s = Inr (m, s') \<Longrightarrow> remaining s' \<le> remaining s \<and> bytes s' = bytes s"
  by (induction ps meta s rule: meta_lengths.induct) (fastforce simp: and_then_Inr dest: next_bits_remaining)+


lemma run_remaining: "run_lengths meta lengths p s = Inr (ls, s') \<Longrightarrow> remaining s' \<le> remaining s \<and> bytes s' = bytes s"
proof (induction "length lengths - p" arbitrary: lengths p s rule: less_induct)
  case less
  show ?case
  proof (cases "p < length lengths")
    case False
    then show ?thesis using less(2) unfolding run_lengths.simps [of meta lengths] by simp
  next
    case True
    obtain symbol s1 where b: "read_symbol meta s = Inr (symbol, s1)"
      using less(2) True unfolding run_lengths.simps [of meta lengths] by (auto simp: and_then_Inr)
    have "\<exists>lengths2 p2 s2. remaining s2 \<le> remaining s1 \<and> bytes s2 = bytes s1 \<and> length lengths2 - p2 < length lengths - p \<and>
        run_lengths meta lengths2 p2 s2 = Inr (ls, s')"
    proof (cases "symbol \<le> 15")
      case True
      then have "run_lengths meta (lengths[p := symbol]) (p + 1) s1 = Inr (ls, s')"
        using less(2) \<open>p < length lengths\<close> b unfolding run_lengths.simps [of meta lengths] by simp
      then show ?thesis using \<open>p < length lengths\<close> by (intro exI conjI) (rule order_refl, rule refl, simp_all)
    next
      case False
      then obtain w v n s2 lengths2 p2 k where f: "next_bits w s1 = Inr (n, s2)" "fill lengths p v (n + k) = Some (lengths2, p2)" "0 < k"
        "run_lengths meta lengths2 p2 s2 = Inr (ls, s')"
        using less(2) \<open>p < length lengths\<close> b unfolding run_lengths.simps [of meta lengths]
        by (fastforce simp: and_then_Inr fail_def split: if_splits option.splits)
      have "length lengths2 = length lengths" "p < p2" "p2 \<le> length lengths"
        using f(2,3) by (auto simp: fill_def split: if_splits)
      then have "length lengths2 - p2 < length lengths - p" using \<open>p < length lengths\<close> by linarith
      then show ?thesis
        using f(4) next_bits_remaining [OF f(1)]
        by (intro exI [of _ lengths2] exI [of _ p2] exI [of _ s2]) simp
    qed
    then obtain lengths2 p2 s2 where h: "remaining s2 \<le> remaining s1" "bytes s2 = bytes s1"
      "length lengths2 - p2 < length lengths - p" "run_lengths meta lengths2 p2 s2 = Inr (ls, s')"
      by blast
    show ?thesis using less(1) [OF h(3,4)] h(1,2) read_symbol_remaining [OF b] by simp
  qed
qed

lemma dynamic_remaining: "dynamic s = Inr (c, s') \<Longrightarrow> remaining s' \<le> remaining s \<and> bytes s' = bytes s"
  by (auto simp: dynamic_def and_then_Inr fail_def Let_def or_lengths_def split: if_splits option.splits
      dest!: next_bits_remaining meta_remaining run_remaining)

text \<open>The three kinds of block, by the two bits that name them.\<close>

definition one_block :: "nat \<Rightarrow> reader \<Rightarrow> 8 word list \<Rightarrow> inflate_error + reader \<times> 8 word list" where
  "one_block kind s out =
     (if kind = 0 then stored s out
      else if kind = 1 then block s out (fst fixed) (snd fixed)
      else if kind = 2 then and_then (dynamic s) (\<lambda>((lit, dist), s). block s out lit dist)
      else fail s BlockType)"

lemma one_block_remaining: "one_block kind s out = Inr (s', out') \<Longrightarrow> remaining s' \<le> remaining s \<and> bytes s' = bytes s"
  by (auto simp: one_block_def and_then_Inr fail_def split: if_splits
      dest!: stored_remaining block_remaining dynamic_remaining)

function blocks :: "reader \<Rightarrow> 8 word list \<Rightarrow> inflate_error + nat \<times> 8 word list" where
  "blocks s out =
     and_then (next_bits 1 s) (\<lambda>(last, s).
     and_then (next_bits 2 s) (\<lambda>(kind, s).
     and_then (one_block kind s out) (\<lambda>(s, out).
       if last = 1 then Inr (at s, out) else blocks s out)))"
  by pat_completeness auto
termination
  by (relation "measure (\<lambda>(s, _). remaining s)") (auto dest!: next_bits_remaining one_block_remaining)

declare blocks.simps [simp del]

definition inflate_into :: "8 word list \<Rightarrow> 8 word list \<Rightarrow> inflate_error + nat \<times> 8 word list" where
  "inflate_into bs out = blocks \<lparr>bytes = bs, at = 0, held = 0, count = 0\<rparr> out"

definition inflate :: "8 word list \<Rightarrow> inflate_error + 8 word list" where
  "inflate bs = and_then (inflate_into bs []) (\<lambda>(used, out). Inr out)"

end
