(* ===== verification/InflateBits.thy ===== *)
theory InflateBits
  imports Inflate
begin

text \<open>
  The reader as what it stands for, a list of bits: what is held, then the bytes not yet taken, each
  with its least significant bit first. Asking for bits takes them off the front of that list.
\<close>

definition byte_bits :: "8 word \<Rightarrow> bool list" where
  "byte_bits b = map (bit b) [0..<8]"

definition stream :: "reader \<Rightarrow> bool list" where
  "stream s = map (bit (held s)) [0..<count s] @ concat (map byte_bits (drop (at s) (bytes s)))"

text \<open>What always holds between two reads: less than a byte is held, and nothing above it.\<close>

definition clear_above :: "reader \<Rightarrow> bool" where
  "clear_above s \<longleftrightarrow> at s \<le> length (bytes s) \<and> (\<forall>i. count s \<le> i \<longrightarrow> \<not> bit (held s) i)"

definition reader_ok :: "reader \<Rightarrow> bool" where
  "reader_ok s \<longleftrightarrow> clear_above s \<and> count s < 8"

text \<open>The number a list of bits spells, the first one the least significant.\<close>

definition spelled_by :: "bool list \<Rightarrow> nat" where
  "spelled_by bs = horner_sum of_bool 2 bs"

lemma length_byte_bits [simp]: "length (byte_bits b) = 8"
  by (simp add: byte_bits_def)

lemma length_concat_bytes [simp]: "length (concat (map byte_bits bs)) = 8 * length bs"
  by (induction bs) simp_all

lemma length_stream: "length (stream s) = remaining s"
  by (simp add: stream_def remaining_def)

lemma take_byte:
  assumes "clear_above s" "at s < length (bytes s)" "count s < 16"
  defines "s' \<equiv> s\<lparr>at := at s + 1, held := held s OR push_bit (count s) (ucast (bytes s ! at s)), count := count s + 8\<rparr>"
  shows "clear_above s'" "stream s' = stream s"
proof -
  let ?b = "bytes s ! at s"
  have bit: "bit (held s') i \<longleftrightarrow> (if i < count s then bit (held s) i else i < 32 \<and> bit ?b (i - count s))" for i
    using assms(1) by (auto simp: s'_def bit_simps clear_above_def)
  show "clear_above s'"
    using assms(1,2) by (auto simp: clear_above_def bit) (auto simp: s'_def dest: bit_imp_le_length)
  have "map (bit (held s')) [0..<count s + 8] = map (bit (held s)) [0..<count s] @ byte_bits ?b"
    using assms(3) by (intro nth_equalityI) (auto simp: bit byte_bits_def nth_append)
  moreover have "drop (at s) (bytes s) = ?b # drop (at s + 1) (bytes s)"
    using Cons_nth_drop_Suc [OF assms(2)] by simp
  ultimately show "stream s' = stream s" by (simp add: stream_def) (simp add: s'_def)
qed

lemma refill_spec:
  assumes "clear_above s" "want \<le> 16"
  shows "(case refill want s of Inl e \<Rightarrow> length (stream s) < want \<and> e = \<lparr>err_at = length (bytes s), what = Truncated\<rparr>
    | Inr s' \<Rightarrow> want \<le> length (stream s) \<and> clear_above s' \<and> stream s' = stream s \<and> bytes s' = bytes s \<and> want \<le> count s' \<and>
        count s' < max (count s + 1) (want + 8))"
  using assms
proof (induction want s rule: refill.induct)
  case (1 want s)
  show ?case
  proof (cases "count s < want")
    case False
    then show ?thesis using 1(2) by (subst refill.simps) (simp add: stream_def)
  next
    case short: True
    show ?thesis
    proof (cases "at s < length (bytes s)")
      case False
      then have "at s = length (bytes s)" using 1(2) by (simp add: clear_above_def)
      then show ?thesis using short by (subst refill.simps) (simp add: stream_def fail_def)
    next
      case True
      let ?s = "s\<lparr>at := at s + 1, held := held s OR push_bit (count s) (ucast (bytes s ! at s)), count := count s + 8\<rparr>"
      have t: "clear_above ?s" "stream ?s = stream s" using take_byte [OF 1(2) True] short 1(3) by simp_all
      have "refill want s = refill want ?s" using short True by (subst refill.simps) simp
      then show ?thesis using 1(1) [OF short True t(1) 1(3)] t(2) short by (auto split: sum.splits)
    qed
  qed
qed

lemma spelled_held: "w \<le> count s \<Longrightarrow> w \<le> 16 \<Longrightarrow> unat (held s AND (push_bit w 1 - 1)) = spelled_by (take w (stream s))"
proof -
  assume w: "w \<le> count s" "w \<le> 16"
  have t: "take w (stream s) = map (bit (unat (held s))) [0..<w]"
    using w by (auto simp: stream_def take_map bit_unsigned_iff intro!: nth_equalityI)
  have "held s AND (push_bit w 1 - 1) = take_bit w (held s)" by (simp add: take_bit_eq_mask mask_eq_exp_minus_1 push_bit_eq_mult)
  then show ?thesis
    unfolding t spelled_by_def horner_sum_bit_eq_take_bit
    using w by (simp add: unsigned_take_bit_eq)
qed

lemma drop_held:
  assumes "clear_above s" "w \<le> count s"
  shows "clear_above (s\<lparr>held := drop_bit w (held s), count := count s - w\<rparr>)"
    "stream (s\<lparr>held := drop_bit w (held s), count := count s - w\<rparr>) = drop w (stream s)"
proof -
  show "clear_above (s\<lparr>held := drop_bit w (held s), count := count s - w\<rparr>)"
    using assms by (auto simp: clear_above_def bit_simps)
  show "stream (s\<lparr>held := drop_bit w (held s), count := count s - w\<rparr>) = drop w (stream s)"
    using assms(2) by (auto simp: stream_def bit_simps intro!: nth_equalityI)
qed

lemma next_bits_spec:
  assumes "reader_ok s" "want \<le> 16"
  shows "case next_bits want s of
      Inl e \<Rightarrow> length (stream s) < want \<and> e = \<lparr>err_at = length (bytes s), what = Truncated\<rparr>
    | Inr (v, s') \<Rightarrow> want \<le> length (stream s) \<and> v = spelled_by (take want (stream s)) \<and> reader_ok s' \<and>
        stream s' = drop want (stream s) \<and> bytes s' = bytes s"
proof (cases "refill want s")
  case (Inl e)
  then show ?thesis using refill_spec [of s want] assms by (simp add: next_bits_def reader_ok_def)
next
  case (Inr s1)
  have s1: "want \<le> length (stream s)" "clear_above s1" "stream s1 = stream s" "bytes s1 = bytes s" "want \<le> count s1"
    "count s1 < max (count s + 1) (want + 8)"
    using refill_spec [of s want] assms Inr by (simp_all add: reader_ok_def)
  then show ?thesis
    using drop_held [OF s1(2,5)] spelled_held [OF s1(5) assms(2)] assms Inr
    by (auto simp: next_bits_def reader_ok_def less_max_iff_disj)
qed

lemma next_bits_take:
  assumes "reader_ok s" "length bs \<le> 16" "stream s = bs @ rest"
  obtains s' where "next_bits (length bs) s = Inr (spelled_by bs, s')" "reader_ok s'" "stream s' = rest" "bytes s' = bytes s"
  using next_bits_spec [OF assms(1,2)] assms(3) by (auto split: sum.splits prod.splits)

end
