(* ===== verification/InflateCodes.thy ===== *)
theory InflateCodes
  imports InflateBits
begin

text \<open>
  Canonical Huffman codes as RFC 1951 section 3.2.2 gives them, and that \<open>Code::new\<close> and \<open>Code::read\<close>
  decode them: the code of a symbol, sent with its most significant bit first, is read as that symbol.
\<close>

section \<open>The code a list of lengths describes\<close>

text \<open>The number of symbols of a length; none has length 0.\<close>

definition of_length :: "nat list \<Rightarrow> nat \<Rightarrow> nat" where
  "of_length ls l = (if l = 0 then 0 else count_list ls l)"

primrec first_code :: "nat list \<Rightarrow> nat \<Rightarrow> nat" where
  "first_code ls 0 = 0"
| "first_code ls (Suc l) = 2 * (first_code ls l + of_length ls l)"

definition codeword :: "nat list \<Rightarrow> nat \<Rightarrow> nat" where
  "codeword ls j = first_code ls (ls ! j) + count_list (take j ls) (ls ! j)"

definition code_bits :: "nat list \<Rightarrow> nat \<Rightarrow> bool list" where
  "code_bits ls j = map (\<lambda>i. bit (codeword ls j) (ls ! j - 1 - i)) [0..<ls ! j]"

definition lengths_ok :: "nat list \<Rightarrow> bool" where
  "lengths_ok ls \<longleftrightarrow> (\<forall>l\<in>set ls. l < 16)"

section \<open>Counts and offsets\<close>

primrec offs :: "nat list \<Rightarrow> nat \<Rightarrow> nat" where
  "offs ls 0 = 0"
| "offs ls (Suc l) = offs ls l + of_length ls l"

lemma offs_filter: "offs ls n = length (filter (\<lambda>x. 0 < x \<and> x < n) ls)"
proof (induction n)
  case (Suc n)
  have "length (filter (\<lambda>x. 0 < x \<and> x < Suc n) ls) = length (filter (\<lambda>x. 0 < x \<and> x < n) ls) + of_length ls n" for ls
    by (induction ls) (auto simp: of_length_def less_Suc_eq)
  then show ?case using Suc by simp
qed simp

lemma offs_mono: "a \<le> b \<Longrightarrow> offs ls a \<le> offs ls b"
  by (induction b) (auto simp: le_Suc_eq)

lemma offs_le_length: "offs ls n \<le> length ls"
  by (simp add: offs_filter)

lemma count_foldl:
  "\<forall>l\<in>set ls. l < length cs \<Longrightarrow> length (foldl (\<lambda>cs l. cs[l := cs ! l + 1]) cs ls) = length cs \<and>
    (\<forall>l<length cs. foldl (\<lambda>cs l. cs[l := cs ! l + 1]) cs ls ! l = cs ! l + count_list ls l)"
  by (induction ls arbitrary: cs) (auto simp: nth_list_update)

lemma count_lengths_nth: "lengths_ok ls \<Longrightarrow> l < 16 \<Longrightarrow> count_lengths ls ! l = count_list ls l"
  "lengths_ok ls \<Longrightarrow> length (count_lengths ls) = 16"
  using count_foldl [of ls "replicate 16 0"] by (simp_all add: count_lengths_def lengths_ok_def)

lemma offsets_nth:
  assumes "lengths_ok ls" "l < 16"
  shows "offsets_of (count_lengths ls) ! l = offs ls l"
proof -
  let ?f = "\<lambda>os l. os[l + 1 := os ! l + count_lengths ls ! l]"
  have "n < 16 \<Longrightarrow> length (foldl ?f (replicate 16 0) [1..<n]) = 16 \<and>
      (\<forall>j\<le>n. foldl ?f (replicate 16 0) [1..<n] ! j = offs ls j)" for n
  proof (induction n)
    case (Suc n)
    show ?case
    proof (cases "n = 0")
      case True
      then show ?thesis by (auto simp: le_Suc_eq of_length_def)
    next
      case False
      have fl: "length (foldl ?f (replicate 16 0) [1..<n]) = 16" "\<forall>j\<le>n. foldl ?f (replicate 16 0) [1..<n] ! j = offs ls j"
        using Suc by simp_all
      have "count_lengths ls ! n = of_length ls n"
        using count_lengths_nth(1) [OF assms(1), of n] Suc.prems False by (simp add: of_length_def)
      then show ?thesis using fl False Suc.prems by (auto simp: nth_list_update le_Suc_eq)
    qed
  qed simp
  from this [of 15] show ?thesis using assms(2) by (simp add: offsets_of_def)
qed

lemma offsets_length: "length (offsets_of cs) = 16"
proof -
  have "length (foldl (\<lambda>os l. os[l + 1 := os ! l + cs ! l]) os xs) = length os" for os xs
    by (induction xs arbitrary: os) simp_all
  then show ?thesis by (simp add: offsets_of_def)
qed

section \<open>The list of symbols\<close>

definition place_of :: "nat list \<Rightarrow> nat \<Rightarrow> nat" where
  "place_of ls j = offs ls (ls ! j) + count_list (take j ls) (ls ! j)"

lemma rank_less: "j < length ls \<Longrightarrow> count_list (take j ls) (ls ! j) < count_list ls (ls ! j)"
proof -
  assume j: "j < length ls"
  define x where "x = ls ! j"
  have "count_list ls x = count_list (take j ls @ x # drop (Suc j) ls) x"
    unfolding x_def id_take_nth_drop [OF j, symmetric] ..
  then show "count_list (take j ls) (ls ! j) < count_list ls (ls ! j)" by (simp add: x_def [symmetric])
qed

lemma place_less: "j < length ls \<Longrightarrow> 0 < ls ! j \<Longrightarrow> place_of ls j < offs ls (Suc (ls ! j))"
  using rank_less [of j ls] by (simp add: place_of_def of_length_def)

lemma place_inj:
  assumes "a < b" "b < length ls" "0 < ls ! a" "0 < ls ! b"
  shows "place_of ls a \<noteq> place_of ls b"
proof -
  consider "ls ! a = ls ! b" | "ls ! a < ls ! b" | "ls ! b < ls ! a" by linarith
  then show ?thesis
  proof cases
    case 1
    have "count_list (take a (take b ls)) (take b ls ! a) < count_list (take b ls) (take b ls ! a)"
      using assms by (intro rank_less) simp
    then show ?thesis using 1 assms(1) by (simp add: place_of_def min_def)
  next
    case 2
    have "offs ls (Suc (ls ! a)) \<le> offs ls (ls ! b)" using 2 by (intro offs_mono) simp
    then show ?thesis using place_less [of a ls] assms by (simp add: place_of_def)
  next
    case 3
    have "offs ls (Suc (ls ! b)) \<le> offs ls (ls ! a)" using 3 by (intro offs_mono) simp
    then show ?thesis using place_less [of b ls] assms by (simp add: place_of_def)
  qed
qed

lemma count_take_Suc:
  "j < length ls \<Longrightarrow> count_list (take (Suc j) ls) l = count_list (take j ls) l + (if ls ! j = l then 1 else 0)"
  by (simp add: take_Suc_conv_app_nth)

lemma place_keeps:
  assumes "\<And>l. 0 < l \<Longrightarrow> l < 16 \<Longrightarrow> os ! l = offs ls l + count_list (take j ls) l" "length os = 16" "lengths_ok ls"
    "\<And>k. j \<le> k \<Longrightarrow> k < length ls \<Longrightarrow> 0 < ls ! k \<Longrightarrow> place_of ls k \<noteq> i"
  shows "place (drop j ls) j os syms ! i = syms ! i"
  using assms(1,2,4)
proof (induction "length ls - j" arbitrary: j os syms)
  case 0
  then show ?case by simp
next
  case (Suc n)
  then have j: "j < length ls" by simp
  have d: "drop j ls = ls ! j # drop (Suc j) ls" by (rule Cons_nth_drop_Suc [OF j, symmetric])
  show ?case
  proof (cases "ls ! j = 0")
    case True
    then show ?thesis using Suc.hyps(1) [of "Suc j" os syms] Suc.hyps(2) Suc.prems by (simp add: d count_take_Suc)
  next
    case False
    have l: "ls ! j < 16" using assms(3) j by (simp add: lengths_ok_def)
    then have o: "os ! (ls ! j) = place_of ls j" using Suc.prems(1) [of "ls ! j"] False by (simp add: place_of_def)
    have "place (drop (Suc j) ls) (Suc j) (os[ls ! j := os ! (ls ! j) + 1]) (syms[os ! (ls ! j) := j]) ! i
        = syms[os ! (ls ! j) := j] ! i"
      using Suc.hyps(2) Suc.prems l by (intro Suc.hyps(1)) (auto simp: count_take_Suc nth_list_update)
    moreover have "os ! (ls ! j) \<noteq> i" using Suc.prems(3) [of j] j False o by simp
    ultimately show ?thesis using False by (simp add: d)
  qed
qed

lemma place_finds:
  assumes "lengths_ok ls" "length syms = length ls" "k < length ls" "0 < ls ! k"
    "\<And>l. 0 < l \<Longrightarrow> l < 16 \<Longrightarrow> os ! l = offs ls l + count_list (take j ls) l" "length os = 16" "j \<le> k"
  shows "place (drop j ls) j os syms ! place_of ls k = k"
  using assms(2,5-7)
proof (induction "k - j" arbitrary: j os syms)
  case 0
  then have jk: "j = k" by simp
  have d: "drop j ls = ls ! j # drop (Suc j) ls" using Cons_nth_drop_Suc [of j ls] assms(3) jk by simp
  have l: "ls ! j < 16" "0 < ls ! j" using assms(1,3,4) jk by (simp_all add: lengths_ok_def)
  then have o: "os ! (ls ! j) = place_of ls j" using 0(3) [of "ls ! j"] by (simp add: place_of_def)
  have "place_of ls k < length syms"
    using place_less [OF assms(3,4)] offs_le_length [of ls "Suc (ls ! k)"] 0(2) by simp
  moreover have "place_of ls b \<noteq> place_of ls k" if "k < b" "b < length ls" "0 < ls ! b" for b
    using place_inj [OF that(1,2) assms(4) that(3)] by simp
  then have "place (drop (Suc j) ls) (Suc j) (os[ls ! j := os ! (ls ! j) + 1]) (syms[os ! (ls ! j) := j]) ! place_of ls k
      = syms[os ! (ls ! j) := j] ! place_of ls k"
    using 0(3,4) l jk assms
    by (intro place_keeps [OF _ _ assms(1)]) (auto simp: count_take_Suc nth_list_update Suc_le_eq)
  ultimately show ?case using l o jk by (simp add: d [unfolded jk])
next
  case (Suc n)
  then have j: "j < length ls" "j < k" using assms(3) by simp_all
  have d: "drop j ls = ls ! j # drop (Suc j) ls" by (rule Cons_nth_drop_Suc [OF j(1), symmetric])
  have l: "ls ! j < 16" using assms(1) j by (simp add: lengths_ok_def)
  show ?case
  proof (cases "ls ! j = 0")
    case True
    then show ?thesis using Suc.hyps(1) [of "Suc j" syms os] Suc.hyps(2) Suc.prems j by (simp add: d count_take_Suc)
  next
    case False
    have "place (drop (Suc j) ls) (Suc j) (os[ls ! j := os ! (ls ! j) + 1]) (syms[os ! (ls ! j) := j]) ! place_of ls k = k"
      using Suc.hyps(2) Suc.prems l j by (intro Suc.hyps(1)) (auto simp: count_take_Suc nth_list_update)
    then show ?thesis using False by (simp add: d)
  qed
qed

section \<open>Kraft's inequality\<close>

lemma kraft_bound:
  assumes "kraft (map (count_list ls) [Suc l..<16]) (2 ^ l - int (first_code ls l + of_length ls l))" "l < k" "k < 16"
  shows "first_code ls k + of_length ls k \<le> 2 ^ k"
  using assms
proof (induction "16 - l" arbitrary: l)
  case (Suc n)
  let ?left = "2 ^ Suc l - int (first_code ls (Suc l) + of_length ls (Suc l))"
  have u: "[Suc l..<16] = Suc l # [Suc (Suc l)..<16]" using Suc.prems(2,3) by (simp add: upt_conv_Cons)
  have e: "2 * (2 ^ l - int (first_code ls l + of_length ls l)) - int (count_list ls (Suc l)) = ?left"
    by (simp add: of_length_def)
  have step: "0 \<le> ?left" "kraft (map (count_list ls) [Suc (Suc l)..<16]) ?left"
    using Suc.prems(1) unfolding u by (simp_all only: list.map kraft.simps Let_def e split: if_splits)
  show ?case
  proof (cases "k = Suc l")
    case True
    have "int (first_code ls k + of_length ls k) \<le> 2 ^ k" using step(1) unfolding True by (simp only: diff_ge_0_iff_ge)
    also have "(2::int) ^ k = int (2 ^ k)" by simp
    finally show ?thesis by linarith
  next
    case False
    then show ?thesis using Suc.hyps(1) [of "Suc l"] Suc.hyps(2) step(2) Suc.prems by simp
  qed
qed simp

lemma counts_list: "lengths_ok ls \<Longrightarrow> tl (count_lengths ls) = map (count_list ls) [1..<16]"
  using count_lengths_nth [of ls] by (intro nth_equalityI) (simp_all add: nth_tl)

lemma count_all: "count_list xs x = length xs \<Longrightarrow> y \<in> set xs \<Longrightarrow> y = x"
proof (induction xs)
  case (Cons a xs)
  then show ?case using count_le_length [of xs x] by (auto split: if_splits)
qed simp

lemma code_new_facts:
  assumes "code_new ls = Some c" "lengths_ok ls" "j < length ls" "0 < ls ! j"
  shows "l < 16 \<Longrightarrow> counts c ! l = count_list ls l" "symbols c ! place_of ls j = j" "length (symbols c) = length ls"
    "0 < k \<Longrightarrow> k < 16 \<Longrightarrow> first_code ls k + of_length ls k \<le> 2 ^ k"
proof -
  have n: "count_list ls 0 \<noteq> length ls"
    using count_all [of ls 0 "ls ! j"] nth_mem [OF assms(3)] assms(4) by auto
  then have z: "count_lengths ls ! 0 \<noteq> length ls" using count_lengths_nth(1) [OF assms(2), of 0] by simp
  then have k: "kraft (tl (count_lengths ls)) 1" using assms(1) unfolding code_new_def Let_def by (simp split: if_splits)
  have c: "c = \<lparr>counts = count_lengths ls, symbols = place ls 0 (offsets_of (count_lengths ls)) (replicate (length ls) 0)\<rparr>"
    using assms(1) z k unfolding code_new_def Let_def by simp
  show "l < 16 \<Longrightarrow> counts c ! l = count_list ls l" by (simp add: c count_lengths_nth(1) [OF assms(2)])
  show "symbols c ! place_of ls j = j"
    using place_finds [OF assms(2) _ assms(3,4), of "replicate (length ls) 0" "offsets_of (count_lengths ls)" 0]
      offsets_nth [OF assms(2)] offsets_length by (simp add: c)
  have "length (place xs i os syms) = length syms" for xs i os syms
    by (induction xs i os syms rule: place.induct) simp_all
  then show "length (symbols c) = length ls" by (simp add: c)
  show "0 < k \<Longrightarrow> k < 16 \<Longrightarrow> first_code ls k + of_length ls k \<le> 2 ^ k"
    using kraft_bound [of ls 0 k] k unfolding counts_list [OF assms(2)] by (simp add: of_length_def)
qed

section \<open>Reading a symbol\<close>

lemma codeword_bounds:
  assumes "j < length ls" "0 < ls ! j"
  shows "first_code ls (ls ! j) \<le> codeword ls j" "codeword ls j < first_code ls (ls ! j) + of_length ls (ls ! j)"
  using rank_less [OF assms(1)] assms(2) by (simp_all add: codeword_def of_length_def)

text \<open>The top \<open>k\<close> bits of a longer code are past every code of \<open>k\<close> bits.\<close>

lemma prefix_past:
  "k < l \<Longrightarrow> (first_code ls k + of_length ls k) * 2 ^ (l - k) \<le> first_code ls l"
proof (induction l)
  case (Suc l)
  show ?case
  proof (cases "k = l")
    case True
    then show ?thesis by simp
  next
    case False
    then have "(first_code ls k + of_length ls k) * 2 ^ (l - k) \<le> first_code ls l" "Suc l - k = Suc (l - k)"
      using Suc by simp_all
    then show ?thesis by simp
  qed
qed simp

lemma next_bit:
  assumes "reader_ok s" "stream s = b # rest"
  obtains s' where "next_bits 1 s = Inr (of_bool b, s')" "reader_ok s'" "stream s' = rest" "bytes s' = bytes s"
  using next_bits_take [OF assms(1), of "[b]" rest] assms(2) by (auto simp: spelled_by_def)

lemma one_more_bit: "push_bit 1 (int (w div 2 ^ Suc d)) OR int (of_bool (bit w d)) = int (w div 2 ^ d)" for w :: nat
proof -
  have "w div 2 ^ Suc d = (w div 2 ^ d) div 2" by (simp only: power_Suc2 div_mult2_eq)
  moreover have "bit w d \<longleftrightarrow> odd (w div 2 ^ d)" by (rule bit_iff_odd)
  ultimately show ?thesis
    by (cases "even (w div 2 ^ d)") (auto simp: push_bit_eq_mult or_one_eq elim!: evenE oddE)
qed

lemma read_from_code:
  assumes c: "code_new ls = Some c" and ok: "lengths_ok ls" and j: "j < length ls" "0 < ls ! j"
    and k: "0 < k" "k \<le> ls ! j" and s: "reader_ok s"
    and st: "stream s = map (\<lambda>i. bit (codeword ls j) (ls ! j - 1 - i)) [k - 1..<ls ! j] @ rest"
  shows "\<exists>s'. read_from k (push_bit 1 (int (codeword ls j div 2 ^ (ls ! j - k + 1)))) (int (first_code ls k)) (int (offs ls k)) c s
      = Inr (j, s') \<and> reader_ok s' \<and> stream s' = rest \<and> bytes s' = bytes s"
  using k s st
proof (induction "ls ! j - k" arbitrary: k s)
  case (0 k s)
  let ?w = "codeword ls j"
  have kl: "k = ls ! j" using 0 by simp
  have l16: "ls ! j < 16" using ok j(1) by (simp add: lengths_ok_def)
  have b: "stream s = bit ?w 0 # rest" using 0(5) kl k(1) j(2) by (simp add: upt_conv_Cons)
  obtain s' where s': "next_bits 1 s = Inr (of_bool (bit ?w 0), s')" "reader_ok s'" "stream s' = rest" "bytes s' = bytes s"
    using next_bit [OF 0(4) b] by blast
  have code: "push_bit 1 (int (?w div 2 ^ (ls ! j - k + 1))) OR int (of_bool (bit ?w 0)) = int ?w"
    using one_more_bit [of ?w 0] kl by simp
  have bd: "first_code ls k \<le> ?w" "?w < first_code ls k + of_length ls k" using codeword_bounds [OF j] kl by simp_all
  have n: "counts c ! k = of_length ls k"
    using code_new_facts(1) [OF c ok j, of k] l16 kl j(2) by (simp add: of_length_def)
  have i: "nat (int (offs ls k) + (int ?w - int (first_code ls k))) = place_of ls j"
    using kl by (simp add: codeword_def place_of_def)
  have "place_of ls j < length (symbols c)"
    using place_less [OF j] offs_le_length [of ls "Suc (ls ! j)"] code_new_facts(3) [OF c ok j] by simp
  then have "read_from k (push_bit 1 (int (?w div 2 ^ (ls ! j - k + 1)))) (int (first_code ls k)) (int (offs ls k)) c s = Inr (j, s')"
    unfolding read_from.simps [of k] s'(1) and_then_simps prod.case Let_def code n i
    using kl l16 bd code_new_facts(2) [OF c ok j] by simp
  then show ?case using s' by blast
next
  case (Suc d k s)
  let ?w = "codeword ls j"
  have kl: "k < ls ! j" using Suc by simp
  have l16: "ls ! j < 16" using ok j(1) by (simp add: lengths_ok_def)
  have dk: "ls ! j - k = Suc d" using Suc(2) by simp
  have up: "[k - 1..<ls ! j] = (k - 1) # [k..<ls ! j]" using Suc(3) kl by (simp add: upt_conv_Cons)
  have b: "stream s = bit ?w (Suc d) # (map (\<lambda>i. bit ?w (ls ! j - 1 - i)) [k..<ls ! j] @ rest)"
    using Suc(6) dk Suc(3) unfolding up by simp
  obtain s' where s': "next_bits 1 s = Inr (of_bool (bit ?w (Suc d)), s')" "reader_ok s'"
    "stream s' = map (\<lambda>i. bit ?w (ls ! j - 1 - i)) [k..<ls ! j] @ rest" "bytes s' = bytes s"
    using next_bit [OF Suc(5) b] by blast
  have code: "push_bit 1 (int (?w div 2 ^ (ls ! j - k + 1))) OR int (of_bool (bit ?w (Suc d))) = int (?w div 2 ^ Suc d)"
    using one_more_bit [of ?w "Suc d"] dk by simp
  have "(first_code ls k + of_length ls k) * 2 ^ Suc d \<le> ?w"
    using prefix_past [OF kl, of ls] codeword_bounds(1) [OF j] unfolding dk by linarith
  then have past: "first_code ls k + of_length ls k \<le> ?w div 2 ^ Suc d" by (simp add: less_eq_div_iff_mult_less_eq)
  have n: "counts c ! k = of_length ls k"
    using code_new_facts(1) [OF c ok j, of k] l16 kl Suc(3) by (simp add: of_length_def)
  have fc: "push_bit 1 (int (first_code ls k) + int (of_length ls k)) = int (first_code ls (Suc k))" by simp
  have oc: "int (offs ls k) + int (of_length ls k) = int (offs ls (Suc k))" by simp
  have "read_from k (push_bit 1 (int (?w div 2 ^ (ls ! j - k + 1)))) (int (first_code ls k)) (int (offs ls k)) c s =
      read_from (Suc k) (push_bit 1 (int (?w div 2 ^ Suc d))) (int (first_code ls (Suc k))) (int (offs ls (Suc k))) c s'"
    unfolding read_from.simps [of k] s'(1) and_then_simps prod.case Let_def code n fc oc
    using past l16 kl by simp
  moreover have "\<exists>s2. read_from (Suc k) (push_bit 1 (int (?w div 2 ^ (ls ! j - Suc k + 1)))) (int (first_code ls (Suc k)))
      (int (offs ls (Suc k))) c s' = Inr (j, s2) \<and> reader_ok s2 \<and> stream s2 = rest \<and> bytes s2 = bytes s'"
    using kl dk s' by (intro Suc(1)) simp_all
  moreover have "ls ! j - Suc k + 1 = Suc d" using dk by simp
  ultimately show ?case using s'(4) by simp
qed

lemma read_symbol_code:
  assumes "code_new ls = Some c" "lengths_ok ls" "j < length ls" "0 < ls ! j" "reader_ok s" "stream s = code_bits ls j @ rest"
  obtains s' where "read_symbol c s = Inr (j, s')" "reader_ok s'" "stream s' = rest" "bytes s' = bytes s"
proof -
  have l: "ls ! j < 16" using assms(2,3) by (simp add: lengths_ok_def)
  have "codeword ls j < 2 ^ (ls ! j)"
    using codeword_bounds(2) [OF assms(3,4)] code_new_facts(4) [OF assms(1-4) assms(4) l] by linarith
  then have "codeword ls j div 2 ^ (ls ! j - 1 + 1) = 0" using assms(4) by simp
  then show thesis
    using read_from_code [OF assms(1-4), of 1 s rest] assms(4-6) that
    by (auto simp: read_symbol_def code_bits_def of_length_def)
qed

end
