(* ===== verification/InflateSpec.thy ===== *)
theory InflateSpec
  imports InflateCodes
begin

text \<open>
  What a deflate stream is, from RFC 1951: literals and copies, the three kinds of block as lists of bits, and
  the streams of blocks. Nothing here is a reader; \<open>deflated out bits out' rest\<close> says that the bits begin with a stream that
  turns the history \<open>out\<close> into \<open>out'\<close> and that \<open>rest\<close> comes after it.
\<close>

definition low_bits :: "nat \<Rightarrow> nat \<Rightarrow> bool list" where
  "low_bits v n = map (bit v) [0..<n]"

lemma length_low_bits [simp]: "length (low_bits v n) = n"
  by (simp add: low_bits_def)

lemma spelled_low_bits: "v < 2 ^ n \<Longrightarrow> spelled_by (low_bits v n) = v"
  unfolding spelled_by_def low_bits_def horner_sum_bit_eq_take_bit by (simp add: take_bit_nat_eq_self)

section \<open>Literals and copies\<close>

text \<open>A copy is the index of its length symbol and its extra bits, and the distance symbol and its extra bits.\<close>

datatype op = Lit "8 word" | Copy nat nat nat nat

definition copy_length :: "nat \<Rightarrow> nat \<Rightarrow> nat" where "copy_length p e = LENGTH_BASE ! p + e"

definition copy_distance :: "nat \<Rightarrow> nat \<Rightarrow> nat" where "copy_distance q f = DISTANCE_BASE ! q + f"

definition symbol_ok :: "nat list \<Rightarrow> nat \<Rightarrow> bool" where
  "symbol_ok ls j \<longleftrightarrow> j < length ls \<and> 0 < ls ! j"

fun op_ok :: "nat list \<Rightarrow> nat list \<Rightarrow> 8 word list \<Rightarrow> op \<Rightarrow> bool" where
  "op_ok ls ds out (Lit b) = symbol_ok ls (unat b)"
| "op_ok ls ds out (Copy p e q f) = (p < 29 \<and> e < 2 ^ (LENGTH_EXTRA ! p) \<and> symbol_ok ls (257 + p) \<and>
     q < 30 \<and> f < 2 ^ (DISTANCE_EXTRA ! q) \<and> symbol_ok ds q \<and> copy_distance q f \<le> length out)"

fun op_bits :: "nat list \<Rightarrow> nat list \<Rightarrow> op \<Rightarrow> bool list" where
  "op_bits ls ds (Lit b) = code_bits ls (unat b)"
| "op_bits ls ds (Copy p e q f) = code_bits ls (257 + p) @ low_bits e (LENGTH_EXTRA ! p) @
     code_bits ds q @ low_bits f (DISTANCE_EXTRA ! q)"

text \<open>A copy that is longer than its distance repeats what it copies.\<close>

definition copied :: "8 word list \<Rightarrow> nat \<Rightarrow> nat \<Rightarrow> 8 word list" where
  "copied out n d = map (\<lambda>i. out ! (length out - d + i mod d)) [0..<n]"

fun expand :: "8 word list \<Rightarrow> op \<Rightarrow> 8 word list" where
  "expand out (Lit b) = out @ [b]"
| "expand out (Copy p e q f) = out @ copied out (copy_length p e) (copy_distance q f)"

primrec ops_ok :: "nat list \<Rightarrow> nat list \<Rightarrow> op list \<Rightarrow> 8 word list \<Rightarrow> bool" where
  "ops_ok ls ds [] out = True"
| "ops_ok ls ds (x # xs) out = (op_ok ls ds out x \<and> ops_ok ls ds xs (expand out x))"

text \<open>The data of a block with the two codes, its end of block included.\<close>

definition data_bits :: "nat list \<Rightarrow> nat list \<Rightarrow> op list \<Rightarrow> bool list" where
  "data_bits ls ds xs = concat (map (op_bits ls ds) xs) @ code_bits ls 256"

definition codes_ok :: "nat list \<Rightarrow> nat list \<Rightarrow> bool" where
  "codes_ok ls ds \<longleftrightarrow> lengths_ok ls \<and> lengths_ok ds \<and> code_new ls \<noteq> None \<and> code_new ds \<noteq> None \<and> symbol_ok ls 256"

section \<open>The header of a dynamic block\<close>

datatype len_op = Len nat | Again nat | Zeros nat | ManyZeros nat

fun len_op_ok :: "nat list \<Rightarrow> nat list \<Rightarrow> len_op \<Rightarrow> bool" where
  "len_op_ok ms acc (Len l) = (l \<le> 15 \<and> symbol_ok ms l)"
| "len_op_ok ms acc (Again n) = (n < 4 \<and> symbol_ok ms 16 \<and> acc \<noteq> [])"
| "len_op_ok ms acc (Zeros n) = (n < 8 \<and> symbol_ok ms 17)"
| "len_op_ok ms acc (ManyZeros n) = (n < 128 \<and> symbol_ok ms 18)"

fun len_op_bits :: "nat list \<Rightarrow> len_op \<Rightarrow> bool list" where
  "len_op_bits ms (Len l) = code_bits ms l"
| "len_op_bits ms (Again n) = code_bits ms 16 @ low_bits n 2"
| "len_op_bits ms (Zeros n) = code_bits ms 17 @ low_bits n 3"
| "len_op_bits ms (ManyZeros n) = code_bits ms 18 @ low_bits n 7"

fun len_expand :: "nat list \<Rightarrow> len_op \<Rightarrow> nat list" where
  "len_expand acc (Len l) = acc @ [l]"
| "len_expand acc (Again n) = acc @ replicate (n + 3) (last acc)"
| "len_expand acc (Zeros n) = acc @ replicate (n + 3) 0"
| "len_expand acc (ManyZeros n) = acc @ replicate (n + 11) 0"

primrec len_ops :: "nat list \<Rightarrow> nat list \<Rightarrow> len_op list \<Rightarrow> nat list \<Rightarrow> bool" where
  "len_ops ms acc [] ls \<longleftrightarrow> ls = acc"
| "len_ops ms acc (x # xs) ls \<longleftrightarrow> len_op_ok ms acc x \<and> len_ops ms (len_expand acc x) xs ls"

text \<open>The lengths of the code for the lengths, \<open>ms\<close>, are sent for the first \<open>k\<close> symbols of the order; the others are 0.\<close>

definition header_bits :: "nat list \<Rightarrow> nat list \<Rightarrow> nat list \<Rightarrow> nat \<Rightarrow> len_op list \<Rightarrow> bool list" where
  "header_bits ls ds ms k xs = low_bits (length ls - 257) 5 @ low_bits (length ds - 1) 5 @ low_bits (k - 4) 4 @
     concat (map (\<lambda>p. low_bits (ms ! p) 3) (take k ORDER)) @ concat (map (len_op_bits ms) xs)"

definition header_ok :: "nat list \<Rightarrow> nat list \<Rightarrow> nat list \<Rightarrow> nat \<Rightarrow> len_op list \<Rightarrow> bool" where
  "header_ok ls ds ms k xs \<longleftrightarrow> 257 \<le> length ls \<and> length ls \<le> 288 \<and> 1 \<le> length ds \<and> length ds \<le> 32 \<and>
     4 \<le> k \<and> k \<le> 19 \<and> length ms = 19 \<and> (\<forall>m\<in>set ms. m < 8) \<and> (\<forall>i<19. i \<notin> set (take k ORDER) \<longrightarrow> ms ! i = 0) \<and>
     code_new ms \<noteq> None \<and> len_ops ms [] xs (ls @ ds)"

section \<open>Blocks and streams\<close>

text \<open>
  The bits of a block after the bit that says whether it is the last. A stored block begins at a byte, so what
  comes after its padding is a whole number of bytes.
\<close>

inductive block_bits :: "8 word list \<Rightarrow> bool list \<Rightarrow> 8 word list \<Rightarrow> bool list \<Rightarrow> bool" where
  Stored: "length pad < 8 \<Longrightarrow> length rest mod 8 = 0 \<Longrightarrow> length data < 65536 \<Longrightarrow>
    block_bits out ([False, False] @ pad @ low_bits (length data) 16 @ low_bits (65535 - length data) 16 @
      concat (map byte_bits data) @ rest) (out @ data) rest"
| Fixed: "ops_ok fixed_lengths (replicate 30 5) xs out \<Longrightarrow>
    block_bits out ([True, False] @ data_bits fixed_lengths (replicate 30 5) xs @ rest) (foldl expand out xs) rest"
| Dynamic: "header_ok ls ds ms k hs \<Longrightarrow> codes_ok ls ds \<Longrightarrow> ops_ok ls ds xs out \<Longrightarrow>
    block_bits out ([False, True] @ header_bits ls ds ms k hs @ data_bits ls ds xs @ rest) (foldl expand out xs) rest"

inductive deflated :: "8 word list \<Rightarrow> bool list \<Rightarrow> 8 word list \<Rightarrow> bool list \<Rightarrow> bool" where
  Last: "block_bits out bits out' rest \<Longrightarrow> deflated out (True # bits) out' rest"
| More: "block_bits out bits out1 bits1 \<Longrightarrow> deflated out1 bits1 out' rest \<Longrightarrow> deflated out (False # bits) out' rest"

end
