(* ===== verification/InflateSound.thy ===== *)
theory InflateSound
  imports InflateSpec
begin

text \<open>
  The decompressor decodes deflate: every block of every kind, and with them every stream, gives
  the output RFC 1951 gives it, leaving the reader where the stream ends.
\<close>

section \<open>Reading what was written\<close>

text \<open>The reader is in order and stands before the bits \<open>bs\<close> of the input \<open>xs\<close>.\<close>

definition stands :: "8 word list \<Rightarrow> bool list \<Rightarrow> reader \<Rightarrow> bool" where
  "stands xs bs s \<longleftrightarrow> reader_ok s \<and> stream s = bs \<and> bytes s = xs"

lemma reads_low_bits:
  assumes "stands xs (low_bits v n @ rest) s" "n \<le> 16" "v < 2 ^ n"
  shows "\<exists>s'. next_bits n s = Inr (v, s') \<and> stands xs rest s'"
  using next_bits_take [of s "low_bits v n" rest] assms spelled_low_bits [OF assms(3)] by (auto simp: stands_def)

lemma reads_code:
  assumes "stands xs (code_bits ls j @ rest) s" "code_new ls = Some c" "lengths_ok ls" "symbol_ok ls j"
  shows "\<exists>s'. read_symbol c s = Inr (j, s') \<and> stands xs rest s'"
  using read_symbol_code [of ls c j s rest] assms by (auto simp: stands_def symbol_ok_def)

section \<open>A stored block\<close>

lemma same_rest: "c + 8 * k = p + r \<Longrightarrow> c < 8 \<Longrightarrow> p < 8 \<Longrightarrow> r mod 8 = 0 \<Longrightarrow> c = p" for c k p r :: nat
proof -
  assume a: "c + 8 * k = p + r" "c < 8" "p < 8" "r mod 8 = 0"
  obtain j where "r = 8 * j" using a(4) by (auto simp: mod_eq_0_iff_dvd elim: dvdE)
  then show ?thesis using a(1-3) by presburger
qed

lemma align_stands:
  assumes "stands xs (pad @ rest) s" "length pad < 8" "length rest mod 8 = 0"
  shows "stands xs rest (align s) \<and> drop (at s) xs = drop (at (align s)) xs"
proof -
  let ?ys = "drop (at s) (bytes s)"
  have "length (pad @ rest) = count s + 8 * length ?ys"
    using assms(1) length_stream [of s] unfolding stands_def remaining_def by auto
  moreover have "count s < 8" using assms(1) by (simp add: stands_def reader_ok_def)
  ultimately have "count s = length pad"
    using same_rest [of "count s" "length ?ys" "length pad" "length rest"] assms(2,3) by simp
  then have "concat (map byte_bits ?ys) = rest" using assms(1) by (auto simp: stands_def stream_def)
  then show ?thesis using assms(1) by (auto simp: stands_def stream_def reader_ok_def clear_above_def align_def)
qed

lemma byte_bits_inj: "byte_bits a = byte_bits b \<Longrightarrow> a = b"
  by (rule bit_word_eqI) (auto simp: byte_bits_def)

lemma bytes_prefix:
  "concat (map byte_bits ys) = concat (map byte_bits data) @ rest \<Longrightarrow>
    \<exists>zs. ys = data @ zs \<and> concat (map byte_bits zs) = rest"
proof (induction data arbitrary: ys)
  case (Cons d data)
  then obtain y ys' where y: "ys = y # ys'" by (cases ys) (auto dest: arg_cong [of _ _ length])
  then have "byte_bits y = byte_bits d" "concat (map byte_bits ys') = concat (map byte_bits data) @ rest"
    using Cons.prems by auto
  then show ?case using Cons.IH [of ys'] byte_bits_inj y by auto
qed simp

lemma complement_16: "n < 65536 \<Longrightarrow> unat (NOT (of_nat (65535 - n) :: 64 word) AND 0xffff) = n"
proof -
  assume n: "n < 65536"
  define m where "m = 65535 - n"
  have m: "m < 2 ^ 16" by (simp add: m_def)
  have "take_bit 16 (of_nat m :: 64 word) = of_nat (take_bit 16 m)" by (simp add: of_nat_take_bit)
  then have t: "take_bit 16 (of_nat m :: 64 word) = of_nat m" using m by (simp add: take_bit_nat_eq_self)
  have "NOT (of_nat m :: 64 word) AND 0xffff = mask 16 - take_bit 16 (of_nat m)"
    using take_bit_not_eq_mask_diff [of 16 "of_nat m :: 64 word"] by (simp add: take_bit_eq_mask mask_eq_exp_minus_1)
  also have "\<dots> = of_nat n" using n unfolding t by (simp add: mask_eq_exp_minus_1 m_def of_nat_diff)
  finally show ?thesis using n by (simp add: m_def [symmetric] unsigned_of_nat take_bit_nat_eq_self)
qed

lemma stored_decodes:
  assumes "stands xs (pad @ low_bits (length data) 16 @ low_bits (65535 - length data) 16 @ concat (map byte_bits data) @ rest) s"
    "length pad < 8" "length rest mod 8 = 0" "length data < 65536"
  shows "\<exists>s'. stored s out = Inr (s', out @ data) \<and> stands xs rest s'"
proof -
  have "stands xs (low_bits (length data) 16 @ low_bits (65535 - length data) 16 @ concat (map byte_bits data) @ rest) (align s)"
  proof -
    have "(32 + (8 * a + r)) mod 8 = 0" if "r mod 8 = 0" for a r :: nat using that by presburger
    then show ?thesis using align_stands [OF assms(1,2)] assms(3) by simp
  qed
  then obtain s1 where s1: "next_bits 16 (align s) = Inr (length data, s1)"
    "stands xs (low_bits (65535 - length data) 16 @ concat (map byte_bits data) @ rest) s1"
    using reads_low_bits assms(4) by fastforce
  then obtain s2 where s2: "next_bits 16 s1 = Inr (65535 - length data, s2)" "stands xs (concat (map byte_bits data) @ rest) s2"
    using reads_low_bits [OF s1(2)] by fastforce
  have c0: "count s2 = 0" "concat (map byte_bits (drop (at s2) xs)) = concat (map byte_bits data) @ rest"
  proof -
    have a: "stands xs ([] @ (concat (map byte_bits data) @ rest)) s2" using s2(2) by simp
    have l: "count s2 + 8 * length (drop (at s2) (bytes s2)) = 0 + (8 * length data + length rest)"
      using s2(2) length_stream [of s2] length_concat_bytes [of data]
      unfolding stands_def remaining_def by (metis add_0 add.commute length_append length_drop)
    have "count s2 < 8" using s2(2) by (simp add: stands_def reader_ok_def)
    moreover have "(8 * length data + length rest) mod 8 = 0" using assms(3) by (simp add: mod_add_eq)
    ultimately show "count s2 = 0" using same_rest [OF l] by simp
    then show "concat (map byte_bits (drop (at s2) xs)) = concat (map byte_bits data) @ rest"
      using s2(2) by (auto simp: stands_def stream_def)
  qed
  then obtain zs where zs: "drop (at s2) xs = data @ zs" "concat (map byte_bits zs) = rest" using bytes_prefix by blast
  let ?s = "s2\<lparr>at := at s2 + length data\<rparr>"
  have le: "at s2 + length data \<le> length xs"
    using arg_cong [OF zs(1), of length] s2(2) by (auto simp: stands_def reader_ok_def clear_above_def)
  have "drop (at s2 + length data) xs = zs" using zs(1) by (metis append_eq_conv_conj drop_drop add.commute)
  then have "stands xs rest ?s" using s2(2) c0(1) zs(2) le by (auto simp: stands_def stream_def reader_ok_def clear_above_def)
  moreover have "stored s out = Inr (?s, out @ data)"
    using s2(2) zs(1) le complement_16 [OF assms(4)] by (simp add: stored_def s1(1) s2(1) Let_def stands_def)
  ultimately show ?thesis by blast
qed

section \<open>Literals and copies\<close>

lemma copy_bytes_spec:
  assumes "p < length out" "d = length out - p"
  shows "copy_bytes m (p + k) (out @ map (\<lambda>i. out ! (p + i mod d)) [0..<k]) = out @ map (\<lambda>i. out ! (p + i mod d)) [0..<k + m]"
proof (induction m arbitrary: k)
  case (Suc m)
  let ?f = "\<lambda>i. out ! (p + i mod d)"
  have "(out @ map ?f [0..<k]) ! (p + k) = ?f k"
  proof (cases "k < d")
    case True
    then have "p + k < length out" using assms by linarith
    then show ?thesis using True by (simp add: nth_append)
  next
    case False
    then have "\<not> p + k < length out" "p + k - length out = k - d" "k - d < k" using assms by linarith+
    then have "(out @ map ?f [0..<k]) ! (p + k) = ?f (k - d)" by (simp add: nth_append)
    also have "(k - d) mod d = k mod d" using False by (simp add: le_mod_geq)
    then have "?f (k - d) = ?f k" by simp
    finally show ?thesis .
  qed
  then show ?case using Suc [of "Suc k"] by simp
qed simp

text \<open>The distances of the tables are at least one and within the window.\<close>

lemma distance_table: "list_all2 (\<lambda>b e. 0 < b \<and> b + 2 ^ e \<le> 32769 \<and> e \<le> 13) DISTANCE_BASE DISTANCE_EXTRA"
  by (simp add: DISTANCE_BASE_def DISTANCE_EXTRA_def)

lemma length_table: "list_all (\<lambda>e. e \<le> 5) LENGTH_EXTRA"
  by (simp add: LENGTH_EXTRA_def)

lemma table_lengths: "length DISTANCE_BASE = 30" "length DISTANCE_EXTRA = 30" "length LENGTH_EXTRA = 29"
  by (simp_all add: DISTANCE_BASE_def DISTANCE_EXTRA_def LENGTH_EXTRA_def)

lemma distance_bounds: "q < 30 \<Longrightarrow> f < 2 ^ (DISTANCE_EXTRA ! q) \<Longrightarrow> 0 < copy_distance q f \<and> copy_distance q f \<le> WINDOW"
  using list_all2_nthD [OF distance_table, of q] by (simp add: table_lengths copy_distance_def WINDOW_def)

lemma extra_bits: "p < 29 \<Longrightarrow> LENGTH_EXTRA ! p \<le> 5" "q < 30 \<Longrightarrow> DISTANCE_EXTRA ! q \<le> 13"
  using list_all2_nthD [OF distance_table, of q] length_table by (simp_all add: table_lengths list_all_length)

lemma copy_copies: "0 < d \<Longrightarrow> d \<le> length out \<Longrightarrow> d \<le> WINDOW \<Longrightarrow> copy s out n d = Inr (out @ copied out n d)"
  using copy_bytes_spec [of "length out - d" out d n 0] by (simp add: copy_def copied_def)

lemma args_read:
  assumes "stands xs (low_bits e (LENGTH_EXTRA ! p) @ code_bits ds q @ low_bits f (DISTANCE_EXTRA ! q) @ rest) s"
    "code_new ds = Some dist" "lengths_ok ds" "op_ok ls ds out (Copy p e q f)"
  shows "\<exists>s'. copy_args (257 + p) dist s = Inr (copy_length p e, copy_distance q f, s') \<and> stands xs rest s'"
proof -
  obtain s1 where s1: "next_bits (LENGTH_EXTRA ! p) s = Inr (e, s1)"
    "stands xs (code_bits ds q @ low_bits f (DISTANCE_EXTRA ! q) @ rest) s1"
    using reads_low_bits [OF assms(1)] assms(4) extra_bits(1) [of p] by auto
  obtain s2 where s2: "read_symbol dist s1 = Inr (q, s2)" "stands xs (low_bits f (DISTANCE_EXTRA ! q) @ rest) s2"
    using reads_code [OF s1(2) assms(2,3)] assms(4) by auto
  obtain s3 where s3: "next_bits (DISTANCE_EXTRA ! q) s2 = Inr (f, s3)" "stands xs rest s3"
    using reads_low_bits [OF s2(2)] assms(4) extra_bits(2) [of q] by auto
  show ?thesis
    using s1(1) s2(1) s3 assms(4) by (simp add: copy_args_def Let_def DISTANCES_def copy_length_def copy_distance_def)
qed

lemma block_decodes:
  assumes c: "code_new ls = Some lit" "code_new ds = Some dist" "lengths_ok ls" "lengths_ok ds" "symbol_ok ls 256"
  shows "ops_ok ls ds xs out \<Longrightarrow> stands bs (data_bits ls ds xs @ rest) s \<Longrightarrow>
    \<exists>s'. block s out lit dist = Inr (s', foldl expand out xs) \<and> stands bs rest s'"
proof (induction xs arbitrary: out s)
  case Nil
  then have "stands bs (code_bits ls 256 @ rest) s" by (simp add: data_bits_def)
  from reads_code [OF this c(1,3,5)] show ?case by (auto simp: block.simps [of s])
next
  case (Cons x xs)
  have st: "stands bs (op_bits ls ds x @ (data_bits ls ds xs @ rest)) s" using Cons.prems(2) by (simp add: data_bits_def)
  have ok: "op_ok ls ds out x" "ops_ok ls ds xs (expand out x)" using Cons.prems(1) by simp_all
  show ?case
  proof (cases x)
    case (Lit b)
    obtain s1 where s1: "read_symbol lit s = Inr (unat b, s1)" "stands bs (data_bits ls ds xs @ rest) s1"
      using reads_code [of bs ls "unat b" _ s, OF _ c(1,3)] st ok(1) Lit by auto
    have "unat b < 2 ^ LENGTH(8)" by (rule unsigned_less)
    then have "unat b \<le> 255" by simp
    then have "block s out lit dist = block s1 (expand out x) lit dist"
      using s1(1) Lit by (subst block.simps) simp
    then show ?thesis using Cons.IH [OF ok(2) s1(2)] by simp
  next
    case (Copy p e q f)
    have st': "stands bs (code_bits ls (257 + p) @ (low_bits e (LENGTH_EXTRA ! p) @ code_bits ds q @
        low_bits f (DISTANCE_EXTRA ! q) @ (data_bits ls ds xs @ rest))) s" using st Copy by simp
    obtain s1 where s1: "read_symbol lit s = Inr (257 + p, s1)"
      "stands bs (low_bits e (LENGTH_EXTRA ! p) @ code_bits ds q @ low_bits f (DISTANCE_EXTRA ! q) @ (data_bits ls ds xs @ rest)) s1"
      using reads_code [OF st' c(1,3)] ok(1) Copy by auto
    obtain s2 where s2: "copy_args (257 + p) dist s1 = Inr (copy_length p e, copy_distance q f, s2)"
      "stands bs (data_bits ls ds xs @ rest) s2"
      using args_read [OF s1(2) c(2,4)] ok(1) Copy by blast
    have "copy s2 out (copy_length p e) (copy_distance q f) = Inr (expand out x)"
      using copy_copies [of "copy_distance q f" out s2] distance_bounds [of q f] ok(1) Copy by simp
    then have "block s out lit dist = block s2 (expand out x) lit dist"
      using s1(1) s2(1) ok(1) Copy by (subst block.simps) simp
    then show ?thesis using Cons.IH [OF ok(2) s2(2)] by simp
  qed
qed

end
