(* ===== verification/InflateStream.thy ===== *)
theory InflateStream
  imports InflateSound
begin

text \<open>
  The header of a dynamic block, the fixed codes, and the whole stream: what RFC 1951 calls a deflate stream is
  decoded to what it stands for, and the bytes it took are counted to the end of its last byte.
\<close>

section \<open>The lengths of the code for the lengths\<close>

lemma meta_decodes:
  "stands xs (concat (map (\<lambda>p. low_bits (ms ! p) 3) ps) @ rest) s \<Longrightarrow> \<forall>p\<in>set ps. ms ! p < 8 \<Longrightarrow>
    \<exists>s'. meta_lengths ps meta s = Inr (foldl (\<lambda>m p. m[p := ms ! p]) meta ps, s') \<and> stands xs rest s'"
proof (induction ps arbitrary: meta s)
  case (Cons p ps)
  have "stands xs (low_bits (ms ! p) 3 @ (concat (map (\<lambda>p. low_bits (ms ! p) 3) ps) @ rest)) s" using Cons.prems(1) by simp
  then obtain s1 where s1: "next_bits 3 s = Inr (ms ! p, s1)" "stands xs (concat (map (\<lambda>p. low_bits (ms ! p) 3) ps) @ rest) s1"
    using reads_low_bits [of xs "ms ! p" 3 _ s] Cons.prems(2) by auto
  then show ?case using Cons.IH [OF s1(2), of "meta[p := ms ! p]"] Cons.prems(2) by simp
qed simp

lemma foldl_updates:
  "length (foldl (\<lambda>m p. m[p := ms ! p]) meta ps) = length meta"
  "i < length meta \<Longrightarrow> foldl (\<lambda>m p. m[p := ms ! p]) meta ps ! i = (if i \<in> set ps then ms ! i else meta ! i)"
  by (induction ps arbitrary: meta) (auto simp: nth_list_update)

lemma meta_of_order:
  "length ms = 19 \<Longrightarrow> \<forall>i<19. i \<notin> set (take k ORDER) \<longrightarrow> ms ! i = 0 \<Longrightarrow>
    foldl (\<lambda>m p. m[p := ms ! p]) (replicate 19 0) (take k ORDER) = ms"
  by (rule nth_equalityI) (simp_all add: foldl_updates)

lemma order_bound: "p \<in> set (take k ORDER) \<Longrightarrow> p < 19"
proof -
  have "\<forall>p\<in>set ORDER. p < 19" by (simp add: ORDER_def)
  then show "p \<in> set (take k ORDER) \<Longrightarrow> p < 19" by (meson in_set_takeD)
qed

section \<open>The lengths of the two codes\<close>

lemma len_ops_length: "len_ops ms acc xs ls \<Longrightarrow> length acc \<le> length ls"
proof (induction xs arbitrary: acc)
  case (Cons x xs)
  then have "length (len_expand acc x) \<le> length ls" by simp
  moreover have "length acc \<le> length (len_expand acc x)" by (cases x) simp_all
  ultimately show ?case by simp
qed simp

abbreviation padded :: "nat list \<Rightarrow> nat \<Rightarrow> nat list" where
  "padded acc n \<equiv> acc @ replicate (n - length acc) 0"

lemma fill_padded:
  "length acc + m \<le> n \<Longrightarrow> fill (padded acc n) (length acc) v m = Some (padded (acc @ replicate m v) n, length acc + m)"
  by (simp add: fill_def)

lemma set_padded: "length acc < n \<Longrightarrow> (padded acc n)[length acc := v] = padded (acc @ [v]) n"
proof -
  assume "length acc < n"
  then have "n - length acc = Suc (n - Suc (length acc))" by simp
  then show ?thesis by (simp add: list_update_append)
qed

text \<open>One step of the loop, by what it reads.\<close>

lemma run_step:
  assumes "stands bs (len_op_bits ms x @ rest) s" "code_new ms = Some meta" "lengths_ok ms" "len_op_ok ms acc x"
    "length (len_expand acc x) \<le> n"
  shows "\<exists>s'. run_lengths meta (padded acc n) (length acc) s = run_lengths meta (padded (len_expand acc x) n) (length (len_expand acc x)) s'
    \<and> stands bs rest s'"
proof (cases x)
  case (Len l)
  obtain s1 where s1: "read_symbol meta s = Inr (l, s1)" "stands bs rest s1"
    using reads_code [of bs ms l rest s, OF _ assms(2,3)] assms(1,4) Len by auto
  then show ?thesis
    using assms(4,5) Len set_padded [of acc n l] by (subst run_lengths.simps) (auto intro!: exI [of _ s1])
next
  case (Again m)
  obtain s1 where s1: "read_symbol meta s = Inr (16, s1)" "stands bs (low_bits m 2 @ rest) s1"
    using reads_code [of bs ms 16 "low_bits m 2 @ rest" s, OF _ assms(2,3)] assms(1,4) Again by auto
  obtain s2 where s2: "next_bits 2 s1 = Inr (m, s2)" "stands bs rest s2"
    using reads_low_bits [OF s1(2)] assms(4) Again by auto
  have "(padded acc n) ! (length acc - 1) = last acc" using assms(4) Again by (simp add: nth_append last_conv_nth)
  then show ?thesis
    using assms(4,5) Again fill_padded [of acc "m + 3" n "last acc"] s1(1) s2
    by (subst run_lengths.simps) (auto intro!: exI [of _ s2])
next
  case (Zeros m)
  obtain s1 where s1: "read_symbol meta s = Inr (17, s1)" "stands bs (low_bits m 3 @ rest) s1"
    using reads_code [of bs ms 17 "low_bits m 3 @ rest" s, OF _ assms(2,3)] assms(1,4) Zeros by auto
  obtain s2 where s2: "next_bits 3 s1 = Inr (m, s2)" "stands bs rest s2"
    using reads_low_bits [OF s1(2)] assms(4) Zeros by auto
  show ?thesis
    using assms(4,5) Zeros fill_padded [of acc "m + 3" n 0] s1(1) s2
    by (subst run_lengths.simps) (auto intro!: exI [of _ s2])
next
  case (ManyZeros m)
  obtain s1 where s1: "read_symbol meta s = Inr (18, s1)" "stands bs (low_bits m 7 @ rest) s1"
    using reads_code [of bs ms 18 "low_bits m 7 @ rest" s, OF _ assms(2,3)] assms(1,4) ManyZeros by auto
  obtain s2 where s2: "next_bits 7 s1 = Inr (m, s2)" "stands bs rest s2"
    using reads_low_bits [OF s1(2)] assms(4) ManyZeros by auto
  show ?thesis
    using assms(4,5) ManyZeros fill_padded [of acc "m + 11" n 0] s1(1) s2
    by (subst run_lengths.simps) (auto intro!: exI [of _ s2])
qed

lemma run_decodes:
  assumes "code_new ms = Some meta" "lengths_ok ms"
  shows "len_ops ms acc xs ls \<Longrightarrow> stands bs (concat (map (len_op_bits ms) xs) @ rest) s \<Longrightarrow>
    \<exists>s'. run_lengths meta (padded acc (length ls)) (length acc) s = Inr (ls, s') \<and> stands bs rest s'"
proof (induction xs arbitrary: acc s)
  case Nil
  then show ?case by (subst run_lengths.simps) simp
next
  case (Cons x xs)
  have st: "stands bs (len_op_bits ms x @ (concat (map (len_op_bits ms) xs) @ rest)) s" using Cons.prems(2) by simp
  have ok: "len_op_ok ms acc x" "len_ops ms (len_expand acc x) xs ls" using Cons.prems(1) by simp_all
  obtain s1 where s1: "run_lengths meta (padded acc (length ls)) (length acc) s =
      run_lengths meta (padded (len_expand acc x) (length ls)) (length (len_expand acc x)) s1"
    "stands bs (concat (map (len_op_bits ms) xs) @ rest) s1"
    using run_step [OF st assms ok(1) len_ops_length [OF ok(2)]] by blast
  show ?case using Cons.IH [OF ok(2) s1(2)] s1(1) by simp
qed

lemma dynamic_decodes:
  assumes "header_ok ls ds ms k hs" "codes_ok ls ds" "stands bs (header_bits ls ds ms k hs @ rest) s"
  shows "\<exists>lit dist s'. dynamic s = Inr ((lit, dist), s') \<and> code_new ls = Some lit \<and> code_new ds = Some dist \<and> stands bs rest s'"
proof -
  have h: "257 \<le> length ls" "length ls \<le> 288" "1 \<le> length ds" "length ds \<le> 32" "4 \<le> k" "k \<le> 19" "length ms = 19"
    "\<forall>m\<in>set ms. m < 8" "\<forall>i<19. i \<notin> set (take k ORDER) \<longrightarrow> ms ! i = 0" "len_ops ms [] hs (ls @ ds)"
    using assms(1) by (simp_all add: header_ok_def)
  obtain meta where meta: "code_new ms = Some meta" using assms(1) by (auto simp: header_ok_def)
  obtain lit dist where codes: "code_new ls = Some lit" "code_new ds = Some dist" using assms(2) by (auto simp: codes_ok_def)
  have ok: "lengths_ok ms" using h(8) by (fastforce simp: lengths_ok_def)
  let ?b4 = "concat (map (len_op_bits ms) hs) @ rest"
  let ?b3 = "concat (map (\<lambda>p. low_bits (ms ! p) 3) (take k ORDER)) @ ?b4"
  let ?b2 = "low_bits (k - 4) 4 @ ?b3"
  let ?b1 = "low_bits (length ds - 1) 5 @ ?b2"
  have st: "stands bs (low_bits (length ls - 257) 5 @ ?b1) s" using assms(3) by (simp add: header_bits_def)
  obtain s1 where s1: "next_bits 5 s = Inr (length ls - 257, s1)" "stands bs ?b1 s1"
    using reads_low_bits [OF st] h(2) by fastforce
  obtain s2 where s2: "next_bits 5 s1 = Inr (length ds - 1, s2)" "stands bs ?b2 s2"
    using reads_low_bits [OF s1(2)] h(4) by fastforce
  obtain s3 where s3: "next_bits 4 s2 = Inr (k - 4, s3)" "stands bs ?b3 s3"
    using reads_low_bits [OF s2(2)] h(6) by fastforce
  have "\<forall>p\<in>set (take k ORDER). ms ! p < 8" using order_bound h(7,8) by (metis nth_mem)
  then obtain s4 where s4: "meta_lengths (take k ORDER) (replicate 19 0) s3 = Inr (ms, s4)" "stands bs ?b4 s4"
    using meta_decodes [OF s3(2), of "replicate 19 0"] meta_of_order [OF h(7,9)] by auto
  obtain s5 where s5: "run_lengths meta (replicate (length ls + length ds) 0) 0 s4 = Inr (ls @ ds, s5)" "stands bs rest s5"
    using run_decodes [OF meta ok h(10) s4(2)] by auto
  have n: "length ls - 257 + 257 = length ls" "length ds - 1 + 1 = length ds" "k - 4 + 4 = k" using h(1,3,5) by simp_all
  have "dynamic s = Inr ((lit, dist), s5)"
    unfolding dynamic_def s1(1) s2(1) s3(1) and_then_simps prod.case Let_def n
    using h(2,4) s4(1) s5(1) meta codes by (simp add: LITERALS_def DISTANCES_def or_lengths_def)
  then show ?thesis using codes s5(2) by blast
qed

section \<open>The fixed codes\<close>

lemma count_list_replicate: "count_list (replicate n x) y = (if x = y then n else 0)"
  by (cases "x = y", hypsubst, induction n) (simp_all add: count_notin)

lemma fixed_runs: "fixed_lengths = replicate 144 8 @ replicate 112 9 @ replicate 24 7 @ replicate 8 8"
  by (rule nth_equalityI) (auto simp: fixed_lengths_def LITERALS_def nth_append)

lemma from_1_to_15: "[1..<16] = [1, 2, 3, 4, 5, 6, 7, 8, 9, 10, 11, 12, 13, 14, 15]"
  by (simp add: upt_conv_Cons eval_nat_numeral)

lemma fixed_ok: "codes_ok fixed_lengths (replicate 30 5)"
proof -
  have ok: "lengths_ok fixed_lengths" "lengths_ok (replicate 30 5)" by (simp_all add: lengths_ok_def fixed_runs)
  have tl: "tl (count_lengths fixed_lengths) = [0, 0, 0, 0, 0, 0, 24, 152, 112, 0, 0, 0, 0, 0, 0]"
    "tl (count_lengths (replicate 30 5)) = [0, 0, 0, 0, 30, 0, 0, 0, 0, 0, 0, 0, 0, 0, 0]"
    unfolding counts_list [OF ok(1)] counts_list [OF ok(2)] from_1_to_15
    unfolding fixed_runs by (simp_all add: count_list_replicate)
  have "code_new fixed_lengths \<noteq> None" "code_new (replicate 30 5) \<noteq> None"
    unfolding code_new_def Let_def tl by simp_all
  then show ?thesis using ok by (simp add: codes_ok_def symbol_ok_def fixed_runs nth_append)
qed

lemma fixed_codes: "code_new fixed_lengths = Some (fst fixed)" "code_new (replicate 30 5) = Some (snd fixed)"
  using fixed_ok by (auto simp: codes_ok_def fixed_def DISTANCES_def)

section \<open>Blocks and streams\<close>

lemma two_bits: "[False, False] = low_bits 0 2" "[True, False] = low_bits 1 2" "[False, True] = low_bits 2 2"
  by (simp_all add: low_bits_def upt_conv_Cons numeral_2_eq_2 bit_iff_odd)

lemma kind_read: "stands xs (low_bits v 2 @ rest) s \<Longrightarrow> v < 4 \<Longrightarrow> \<exists>s'. next_bits 2 s = Inr (v, s') \<and> stands xs rest s'"
  using reads_low_bits [of xs v 2 rest s] by simp

lemma one_block_decodes:
  assumes "block_bits out bits out' rest" "stands bs bits s"
  shows "\<exists>kind s1 s'. next_bits 2 s = Inr (kind, s1) \<and> one_block kind s1 out = Inr (s', out') \<and> stands bs rest s'"
  using assms
proof (induction rule: block_bits.induct)
  case (Stored pad rest data out)
  then obtain s1 where s1: "next_bits 2 s = Inr (0, s1)"
    "stands bs (pad @ low_bits (length data) 16 @ low_bits (65535 - length data) 16 @ concat (map byte_bits data) @ rest) s1"
    using kind_read unfolding two_bits by fastforce
  then show ?case using stored_decodes [OF s1(2) Stored(1-3)] by (fastforce simp: one_block_def)
next
  case (Fixed xs out rest)
  then obtain s1 where s1: "next_bits 2 s = Inr (1, s1)" "stands bs (data_bits fixed_lengths (replicate 30 5) xs @ rest) s1"
    using kind_read unfolding two_bits by fastforce
  have ok: "lengths_ok fixed_lengths" "lengths_ok (replicate 30 5)" "symbol_ok fixed_lengths 256"
    using fixed_ok by (simp_all add: codes_ok_def)
  show ?case using block_decodes [OF fixed_codes ok Fixed(1) s1(2)] s1(1) by (auto simp: one_block_def)
next
  case (Dynamic ls ds ms k hs xs out rest)
  then obtain s1 where s1: "next_bits 2 s = Inr (2, s1)" "stands bs (header_bits ls ds ms k hs @ (data_bits ls ds xs @ rest)) s1"
    using kind_read unfolding two_bits by fastforce
  obtain lit dist s2 where s2: "dynamic s1 = Inr ((lit, dist), s2)" "code_new ls = Some lit" "code_new ds = Some dist"
    "stands bs (data_bits ls ds xs @ rest) s2"
    using dynamic_decodes [OF Dynamic(1,2) s1(2)] by blast
  have ok: "lengths_ok ls" "lengths_ok ds" "symbol_ok ls 256" using Dynamic(2) by (simp_all add: codes_ok_def)
  show ?case using block_decodes [OF s2(2,3) ok Dynamic(3) s2(4)] s1(1) s2(1) by (auto simp: one_block_def)
qed

lemma bit_read: "stands xs (b # rest) s \<Longrightarrow> \<exists>s'. next_bits 1 s = Inr (of_bool b, s') \<and> stands xs rest s'"
  using reads_low_bits [of xs "of_bool b" 1 rest s] by (cases b) (simp_all add: low_bits_def bit_0)

lemma stands_at: "stands xs rest s \<Longrightarrow> at s = length xs - length rest div 8"
proof -
  assume s: "stands xs rest s"
  then have "length rest = 8 * (length xs - at s) + count s" "count s < 8" "at s \<le> length xs"
    using length_stream [of s] by (auto simp: stands_def remaining_def reader_ok_def clear_above_def)
  then show ?thesis by simp
qed

lemma blocks_decodes:
  assumes "deflated out bits out' rest" "stands bs bits s"
  shows "blocks s out = Inr (length bs - length rest div 8, out')"
  using assms
proof (induction arbitrary: s rule: deflated.induct)
  case (Last out bits out' rest)
  obtain s1 where s1: "next_bits 1 s = Inr (1, s1)" "stands bs bits s1" using bit_read [OF Last(2)] by auto
  obtain kind s2 s3 where s2: "next_bits 2 s1 = Inr (kind, s2)" "one_block kind s2 out = Inr (s3, out')" "stands bs rest s3"
    using one_block_decodes [OF Last(1) s1(2)] by blast
  show ?case unfolding blocks.simps [of s] s1(1) by (simp add: s2(1,2) stands_at [OF s2(3)])
next
  case (More out bits out1 bits1 out' rest)
  obtain s1 where s1: "next_bits 1 s = Inr (0, s1)" "stands bs bits s1" using bit_read [OF More(4)] by auto
  obtain kind s2 s3 where s2: "next_bits 2 s1 = Inr (kind, s2)" "one_block kind s2 out = Inr (s3, out1)" "stands bs bits1 s3"
    using one_block_decodes [OF More(1) s1(2)] by blast
  have "blocks s out = blocks s3 out1" unfolding blocks.simps [of s] s1(1) by (simp add: s2(1,2))
  then show ?case using More(3) [OF s2(3)] by simp
qed

lemma inflates:
  assumes "deflated out (concat (map byte_bits bs)) out' rest"
  shows "inflate_into bs out = Inr (length bs - length rest div 8, out')"
  unfolding inflate_into_def
  by (rule blocks_decodes [OF assms]) (simp add: stands_def reader_ok_def clear_above_def stream_def)

section \<open>When lengths are a code\<close>

text \<open>What is left after the last length, in units of its codes.\<close>

primrec weight :: "nat list \<Rightarrow> nat" where
  "weight [] = 0"
| "weight (c # cs) = c * 2 ^ length cs + weight cs"

lemma kraft_weight: "0 \<le> left \<Longrightarrow> kraft cs left \<longleftrightarrow> int (weight cs) \<le> left * 2 ^ length cs"
proof (induction cs arbitrary: left)
  case (Cons c cs)
  let ?left = "2 * left - int c"
  have e: "int (weight (c # cs)) \<le> left * 2 ^ length (c # cs) \<longleftrightarrow> int (weight cs) \<le> ?left * 2 ^ length cs"
    by (simp add: algebra_simps)
  show ?case
  proof (cases "?left < 0")
    case True
    then have "?left * 2 ^ length cs < 0" by (rule mult_neg_pos) simp
    then show ?thesis using True unfolding e by (simp add: Let_def)
  next
    case False
    then show ?thesis using Cons.IH [of ?left] unfolding e by (simp add: Let_def)
  qed
qed simp

lemma weight_sum: "k \<le> 16 \<Longrightarrow> weight (map f [k..<16]) = (\<Sum>i = k..<16. f i * 2 ^ (15 - i))"
proof (induction "16 - k" arbitrary: k)
  case (Suc n)
  then have "[k..<16] = k # [Suc k..<16]" "{k..<16} = insert k {Suc k..<16}" by (auto simp: upt_conv_Cons)
  then show ?case using Suc by simp
qed simp

lemma code_weight: "lengths_ok ls \<Longrightarrow>
    (\<Sum>i = 1..<16. count_list ls i * 2 ^ (15 - i)) = (\<Sum>l\<leftarrow>filter ((<) 0) ls. 2 ^ (15 - l))"
proof (induction ls)
  case (Cons a ls)
  have ok: "lengths_ok ls" "a < 16" using Cons.prems by (simp_all add: lengths_ok_def)
  have "(\<Sum>i = 1..<16. count_list (a # ls) i * 2 ^ (15 - i)) =
      (\<Sum>i = 1..<16. count_list ls i * 2 ^ (15 - i) + (if i = a then 2 ^ (15 - i) else 0))"
    by (rule sum.cong) auto
  also have "\<dots> = (\<Sum>i = 1..<16. count_list ls i * 2 ^ (15 - i)) + (if 0 < a then 2 ^ (15 - a) else 0)"
    using ok(2) by (auto simp: sum.distrib sum.delta)
  finally show ?case using Cons.IH [OF ok(1)] by simp
qed simp

section \<open>What the decompressor promises\<close>

lemma upto_8: "[0..<8] = [0, 1, 2, 3, 4, 5, 6, 7]"
  by (simp add: upt_conv_Cons)

lemma upto_16: "[0..<16] = [0, 1, 2, 3, 4, 5, 6, 7, 8, 9, 10, 11, 12, 13, 14, 15]"
  by (simp add: upt_conv_Cons)

lemma replicate_5: "replicate 5 x = [x, x, x, x, x]"
  by (simp add: eval_nat_numeral)

text \<open>Asking for up to 16 bits takes them off the front of the list of bits the reader stands for, the first the least
  significant; it fails only where there are not that many, and then says where the input ends.\<close>

theorem bits_read_the_stream:
  assumes "reader_ok s" "want \<le> 16"
  shows "case next_bits want s of
      Inl e \<Rightarrow> length (stream s) < want \<and> e = \<lparr>err_at = length (bytes s), what = Truncated\<rparr>
    | Inr (v, s') \<Rightarrow> want \<le> length (stream s) \<and> v = spelled_by (take want (stream s)) \<and> reader_ok s' \<and>
        stream s' = drop want (stream s) \<and> bytes s' = bytes s"
  by (rule next_bits_spec [OF assms])

lemma bits_read_the_stream_witness:
  "case next_bits 3 \<lparr>bytes = [13, 1], at = 0, held = 0, count = 0\<rparr> of
      Inl e \<Rightarrow> False | Inr (v, s') \<Rightarrow> v = 5 \<and> stream s' = [True, False, False, False, False] @ byte_bits 1"
proof -
  let ?s = "\<lparr>bytes = [13, 1], at = 0, held = 0, count = 0\<rparr>"
  have "reader_ok ?s" by (simp add: reader_ok_def clear_above_def)
  moreover have "stream ?s = [True, False, True, True, False, False, False, False] @ byte_bits 1"
    by (simp add: stream_def byte_bits_def upto_8 bit_0)
  ultimately show ?thesis
    using bits_read_the_stream [of ?s 3] by (auto simp: spelled_by_def numeral_3_eq_3 split: sum.splits)
qed

text \<open>A canonical code is decoded: the code word RFC 1951 gives a symbol, sent with its first bit first, is read as that
  symbol, and no bit beyond it is taken.\<close>

theorem canonical_code_decodes:
  assumes "code_new ls = Some c" "\<forall>l\<in>set ls. l < 16" "j < length ls" "0 < ls ! j" "reader_ok s" "stream s = code_bits ls j @ rest"
  shows "\<exists>s'. read_symbol c s = Inr (j, s') \<and> reader_ok s' \<and> stream s' = rest \<and> bytes s' = bytes s"
  using read_symbol_code [OF assms(1) _ assms(3-6)] assms(2) by (auto simp: lengths_ok_def)

lemma canonical_code_decodes_witness:
  "\<exists>c s'. code_new [2, 1, 2] = Some c \<and> read_symbol c \<lparr>bytes = [3], at = 0, held = 0, count = 0\<rparr> = Inr (2, s') \<and>
    stream s' = replicate 6 False"
proof -
  let ?s = "\<lparr>bytes = [3], at = 0, held = 0, count = 0\<rparr>"
  obtain c where c: "code_new [2, 1, 2] = Some c" by (simp add: code_new_def count_lengths_def Let_def eval_nat_numeral)
  have s: "reader_ok ?s" by (simp add: reader_ok_def clear_above_def)
  have "codeword [2, 1, 2] 2 = 3" by (simp add: codeword_def of_length_def numeral_2_eq_2)
  moreover have "[0..<2] = [0, 1]" "replicate 6 False = [False, False, False, False, False, False]"
    by (simp_all add: eval_nat_numeral)
  ultimately have "stream ?s = code_bits [2, 1, 2] 2 @ replicate 6 False"
    by (simp add: stream_def byte_bits_def code_bits_def upto_8 bit_0)
  then show ?thesis using canonical_code_decodes [OF c _ _ _ s, of 2 "replicate 6 False"] c by auto
qed

text \<open>C31: Decompression is the inverse of compression: whatever stream of stored, fixed and dynamic blocks the input begins
  with, it is decoded onto the history to what the stream stands for, and the answer says how many bytes it took.\<close>

theorem inflate_decodes:
  assumes "deflated out (concat (map byte_bits bs)) out' rest"
  shows "inflate_into bs out = Inr (length bs - length rest div 8, out')"
  by (rule inflates [OF assms])

lemma inflate_decodes_witness: "inflate_into [1, 2, 0, 253, 255, 65, 66, 7] [9] = Inr (7, [9, 65, 66])"
proof -
  have bits: "concat (map byte_bits [1, 2, 0, 253, 255, 65, 66, 7]) = True # ([False, False] @ replicate 5 False @
      low_bits (length [65, 66 :: 8 word]) 16 @ low_bits (65535 - length [65, 66 :: 8 word]) 16 @
      concat (map byte_bits [65, 66]) @ byte_bits 7)"
    by (simp add: byte_bits_def low_bits_def upto_8 upto_16 bit_0 replicate_5 numeral_2_eq_2 [symmetric])
  have "deflated [9] (concat (map byte_bits [1, 2, 0, 253, 255, 65, 66, 7])) ([9] @ [65, 66]) (byte_bits 7)"
    unfolding bits by (intro deflated.Last block_bits.Stored) simp_all
  from inflate_decodes [OF this] show ?thesis by simp
qed



end
