(* ===== verification/Gzip.thy ===== *)
theory Gzip
  imports InflateStream
begin

text \<open>
  Gzip files, \<open>crates/rucc-unpack/src/gzip.rs\<close>, and the checksum of \<open>zip.rs\<close> they end in. A file is one member
  after another; a member is a header with optional fields, a deflate stream and the checksum and length of what the
  stream gives.
\<close>

section \<open>The checksum\<close>

type_synonym crc = "32 word"

text \<open>One bit of the polynomial division, the body of the loop the table is built with.\<close>

definition crc_bit :: "crc \<Rightarrow> crc" where
  "crc_bit c = (if c AND 1 \<noteq> 0 then drop_bit 1 c XOR 0xedb88320 else drop_bit 1 c)"

definition CRC_TABLE :: "crc list" where
  "CRC_TABLE = map (\<lambda>i. (crc_bit ^^ 8) (of_nat i)) [0..<256]"

definition crc_byte :: "crc \<Rightarrow> 8 word \<Rightarrow> crc" where
  "crc_byte c b = drop_bit 8 c XOR (CRC_TABLE ! unat (ucast (c XOR ucast b) :: 8 word))"

definition crc32 :: "8 word list \<Rightarrow> crc" where
  "crc32 bs = foldl crc_byte 0xffffffff bs XOR 0xffffffff"

section \<open>Members\<close>

definition MAGIC :: "8 word list" where "MAGIC = [0x1f, 0x8b]"

definition DEFLATE :: "8 word" where "DEFLATE = 8"

definition FHCRC :: "8 word" where "FHCRC = 2"

definition FEXTRA :: "8 word" where "FEXTRA = 4"

definition FNAME :: "8 word" where "FNAME = 8"

definition FCOMMENT :: "8 word" where "FCOMMENT = 16"

datatype gzip_error = NotGzip | CutShort | BadStream inflate_error | Corrupt

definition ok_or :: "'a option \<Rightarrow> 'e \<Rightarrow> 'e + 'a" where
  "ok_or r e = (case r of None \<Rightarrow> Inl e | Some x \<Rightarrow> Inr x)"

lemma ok_or_simps [simp]: "ok_or None e = Inl e" "ok_or (Some x) e = Inr x"
  by (simp_all add: ok_or_def)

lemma ok_or_Inr: "ok_or r e = Inr x \<longleftrightarrow> r = Some x"
  by (cases r) simp_all

definition map_err :: "('e \<Rightarrow> 'f) \<Rightarrow> 'e + 'a \<Rightarrow> 'f + 'a" where
  "map_err f r = (case r of Inl e \<Rightarrow> Inl (f e) | Inr x \<Rightarrow> Inr x)"

lemma map_err_Inr: "map_err f r = Inr x \<longleftrightarrow> r = Inr x"
  by (cases r) (simp_all add: map_err_def)

text \<open>\<open>get\<close> of a range and of all from an offset on, and \<open>from_le_bytes\<close>.\<close>

definition get_slice :: "8 word list \<Rightarrow> nat \<Rightarrow> nat \<Rightarrow> 8 word list option" where
  "get_slice bs a b = (if a \<le> b \<and> b \<le> length bs then Some (take (b - a) (drop a bs)) else None)"

definition get_from :: "8 word list \<Rightarrow> nat \<Rightarrow> 8 word list option" where
  "get_from bs a = (if a \<le> length bs then Some (drop a bs) else None)"

definition le_value :: "8 word list \<Rightarrow> nat" where
  "le_value bs = foldr (\<lambda>b v. unat b + 256 * v) bs 0"

definition skip_extra :: "8 word list \<Rightarrow> 8 word \<Rightarrow> nat \<Rightarrow> gzip_error + nat" where
  "skip_extra bs flags pos =
     (if flags AND FEXTRA \<noteq> 0 then
        and_then (ok_or (get_slice bs pos (pos + 2)) CutShort) (\<lambda>len. Inr (pos + (2 + le_value len)))
      else Inr pos)"

text \<open>The name or the comment, up to its zero byte.\<close>

definition skip_text :: "8 word list \<Rightarrow> 8 word \<Rightarrow> 8 word \<Rightarrow> nat \<Rightarrow> gzip_error + nat" where
  "skip_text bs flags flag pos =
     (if flags AND flag \<noteq> 0 then
        and_then (ok_or (get_from bs pos) CutShort) (\<lambda>rest.
          let n = length (takeWhile (\<lambda>b. b \<noteq> 0) rest)
          in if n < length rest then Inr (pos + n + 1) else Inl CutShort)
      else Inr pos)"

definition member_header :: "8 word list \<Rightarrow> nat \<Rightarrow> gzip_error + nat" where
  "member_header bs pos =
     and_then (ok_or (get_slice bs pos (pos + 10)) CutShort) (\<lambda>header.
       if take 2 header \<noteq> MAGIC \<or> header ! 2 \<noteq> DEFLATE then Inl NotGzip
       else let flags = header ! 3
         in and_then (skip_extra bs flags (pos + 10)) (\<lambda>pos.
            and_then (skip_text bs flags FNAME pos) (\<lambda>pos.
            and_then (skip_text bs flags FCOMMENT pos) (\<lambda>pos.
              Inr (if flags AND FHCRC \<noteq> 0 then pos + 2 else pos)))))"

text \<open>\<open>member\<close> answers the offset after the member and what it appends.\<close>

definition gz_member :: "8 word list \<Rightarrow> nat \<Rightarrow> gzip_error + nat \<times> 8 word list" where
  "gz_member bs pos =
     and_then (member_header bs pos) (\<lambda>pos.
     and_then (ok_or (get_from bs pos) CutShort) (\<lambda>stream.
     and_then (map_err BadStream (inflate_into stream [])) (\<lambda>(used, data).
         let pos = pos + used
         in and_then (ok_or (get_slice bs pos (pos + 8)) CutShort) (\<lambda>trailer.
              if unat (crc32 data) \<noteq> le_value (take 4 trailer) \<or> length data mod 2 ^ 32 \<noteq> le_value (drop 4 trailer) then Inl Corrupt
              else Inr (pos + 8, data)))))"

lemma skip_extra_grows: "skip_extra bs flags pos = Inr pos' \<Longrightarrow> pos \<le> pos'"
  by (auto simp: skip_extra_def and_then_Inr ok_or_Inr split: if_splits)

lemma skip_text_grows: "skip_text bs flags flag pos = Inr pos' \<Longrightarrow> pos \<le> pos'"
  by (auto simp: skip_text_def and_then_Inr ok_or_Inr Let_def split: if_splits)

lemma member_header_grows: "member_header bs pos = Inr pos' \<Longrightarrow> pos + 10 \<le> pos'"
  by (auto simp: member_header_def and_then_Inr ok_or_Inr Let_def split: if_splits
      dest!: skip_extra_grows skip_text_grows)

lemma gz_memberE:
  assumes "gz_member bs pos = Inr (pos', data)"
  obtains start used where "member_header bs pos = Inr start" "start \<le> length bs" "inflate_into (drop start bs) [] = Inr (used, data)"
    "start + used + 8 \<le> length bs" "pos' = start + used + 8"
    "unat (crc32 data) = le_value (take 4 (drop (start + used) bs))"
    "length data mod 2 ^ 32 = le_value (take 4 (drop (start + used + 4) bs))"
proof -
  obtain start stream where a: "member_header bs pos = Inr start" "get_from bs start = Some stream"
    using assms by (auto simp: gz_member_def and_then_Inr ok_or_Inr)
  obtain used data' where b: "inflate_into stream [] = Inr (used, data')"
    using assms a by (auto simp: gz_member_def and_then_Inr map_err_Inr)
  obtain t where t: "get_slice bs (start + used) (start + used + 8) = Some t"
    using assms a b by (auto simp: gz_member_def and_then_Inr map_err_def ok_or_Inr Let_def)
  have c: "unat (crc32 data') = le_value (take 4 t)" "length data' mod 2 ^ 32 = le_value (drop 4 t)" "pos' = start + used + 8" "data = data'"
    using assms a b t by (simp_all add: gz_member_def map_err_def Let_def split: if_splits)
  have s: "start \<le> length bs" "stream = drop start bs" using a(2) by (auto simp: get_from_def split: if_splits)
  have u: "start + used + 8 \<le> length bs" "t = take 8 (drop (start + used) bs)" using t by (auto simp: get_slice_def split: if_splits)
  have "take 4 t = take 4 (drop (start + used) bs)" "drop 4 t = take 4 (drop (start + used + 4) bs)"
    by (simp_all add: u(2) min_def drop_take add.commute add.left_commute)
  then show thesis using that [OF a(1) s(1)] b s u(1) c by simp
qed

lemma gz_member_grows: "gz_member bs pos = Inr (pos', data) \<Longrightarrow> pos < pos' \<and> pos' \<le> length bs"
  by (erule gz_memberE) (auto dest: member_header_grows)

text \<open>The loop of \<open>gunzip\<close>, at an offset and with what there is.\<close>

function members_from :: "8 word list \<Rightarrow> nat \<Rightarrow> 8 word list \<Rightarrow> gzip_error + 8 word list" where
  "members_from bs pos out =
     and_then (gz_member bs pos) (\<lambda>(pos, data).
       if pos = length bs then Inr (out @ data) else members_from bs pos (out @ data))"
  by pat_completeness auto
termination
  by (relation "measure (\<lambda>(bs, pos, _). length bs - pos)") (auto dest!: gz_member_grows)

declare members_from.simps [simp del]

definition gunzip :: "8 word list \<Rightarrow> gzip_error + 8 word list" where
  "gunzip bs = members_from bs 0 []"

end
