(* ===== verification/GzipSound.thy ===== *)
theory GzipSound
  imports Prelude Gzip
begin

text \<open>
  What the checksum detects, and that gzip files are read: a file of any members, with any of the optional
  fields, gives their data, and whatever is answered has the checksum and the length its trailers say.
\<close>

section \<open>What the checksum detects\<close>

text \<open>A bit is linear and loses nothing, and a byte is eight of them.\<close>

lemma low_bit: "c AND 1 \<noteq> 0 \<longleftrightarrow> bit c 0" for c :: crc
  by (simp add: and_one_eq bit_0 even_iff_mod_2_eq_zero)

lemma crc_bit_xor: "crc_bit (a XOR b) = crc_bit a XOR crc_bit b"
proof -
  note odd = low_bit
  show ?thesis
    unfolding crc_bit_def odd by (intro bit_word_eqI) (auto simp: bit_simps)
qed

lemma crc_bits_xor: "(crc_bit ^^ n) (a XOR b) = (crc_bit ^^ n) a XOR (crc_bit ^^ n) b"
  by (induction n arbitrary: a b) (simp_all add: crc_bit_xor funpow_Suc_right del: funpow.simps)

lemma crc_bit_top: "bit (crc_bit c) 31 \<longleftrightarrow> bit c 0"
proof -
  have "bit (0xedb88320 :: crc) 31" by simp
  then show ?thesis unfolding crc_bit_def low_bit by (auto simp: bit_simps dest: bit_imp_le_length)
qed

lemma crc_bit_0: "crc_bit c = 0 \<Longrightarrow> c = 0"
proof -
  assume z: "crc_bit c = 0"
  then have b: "\<not> bit c 0" using crc_bit_top [of c] by simp
  then have d: "drop_bit 1 c = 0" using z by (simp only: crc_bit_def low_bit if_False)
  have "\<not> bit c n" for n
  proof (cases n)
    case (Suc k)
    have "bit (drop_bit 1 c) k = bit (0 :: crc) k" unfolding d ..
    then show ?thesis by (simp add: Suc bit_drop_bit_eq)
  qed (use b in simp)
  then show ?thesis by (simp add: bit_eq_iff)
qed

lemma crc_bits_0: "(crc_bit ^^ n) c = 0 \<Longrightarrow> c = 0"
  by (induction n) (auto dest: crc_bit_0)

lemma crc_bits_inj: "(crc_bit ^^ n) a = (crc_bit ^^ n) b \<Longrightarrow> a = b"
  using crc_bits_0 [of n "a XOR b"] by (simp add: crc_bits_xor xor_eq_0_iff_eq)

text \<open>Bits that are zero are only shifted out.\<close>

lemma crc_bits_shift: "(\<And>i. i < n \<Longrightarrow> \<not> bit c i) \<Longrightarrow> (crc_bit ^^ n) c = drop_bit n c"
proof (induction n arbitrary: c)
  case (Suc n)
  have "\<not> bit c 0" using Suc.prems [of 0] by simp
  then have "crc_bit c = drop_bit 1 c" by (simp only: crc_bit_def low_bit if_False)
  moreover have "(crc_bit ^^ n) (drop_bit 1 c) = drop_bit n (drop_bit 1 c)"
    using Suc.prems by (intro Suc.IH) (simp add: bit_drop_bit_eq)
  ultimately show ?case by (simp add: funpow_Suc_right drop_bit_drop_bit del: funpow.simps)
qed simp

text \<open>A byte by the table is a byte bit by bit.\<close>

lemma crc_byte_bits: "crc_byte c b = (crc_bit ^^ 8) (c XOR ucast b)"
proof -
  let ?x = "c XOR ucast b"
  let ?lo = "ucast ?x :: 8 word"
  define hi where "hi = ?x AND NOT (mask 8)"
  have split: "?x = hi XOR ucast ?lo"
    unfolding hi_def by (rule bit_word_eqI) (auto simp: bit_simps)
  have "(crc_bit ^^ 8) hi = drop_bit 8 hi"
    by (rule crc_bits_shift) (auto simp: hi_def bit_simps)
  also have "drop_bit 8 hi = drop_bit 8 c"
    unfolding hi_def by (rule bit_word_eqI) (auto simp: bit_simps dest: bit_imp_le_length)
  finally have h: "(crc_bit ^^ 8) hi = drop_bit 8 c" .
  have "unat ?lo < 256" using unsigned_less [of ?lo] by simp
  then have "CRC_TABLE ! unat ?lo = (crc_bit ^^ 8) (of_nat (unat ?lo))" unfolding CRC_TABLE_def by (subst nth_map) simp_all
  also have "(of_nat (unat ?lo) :: crc) = ucast ?lo" by (simp add: unsigned_of_nat)
  finally have "crc_byte c b = drop_bit 8 c XOR (crc_bit ^^ 8) (ucast ?lo)" by (simp only: crc_byte_def)
  moreover have "(crc_bit ^^ 8) ?x = (crc_bit ^^ 8) hi XOR (crc_bit ^^ 8) (ucast ?lo)"
    using arg_cong [OF split, of "crc_bit ^^ 8"] crc_bits_xor [of 8 hi "ucast ?lo"] by (rule trans)
  ultimately show ?thesis by (simp only: h)
qed

text \<open>A few bytes at a time: they are one word, taken in with the bits so far.\<close>

definition le_word :: "8 word list \<Rightarrow> crc" where
  "le_word bs = foldr (\<lambda>b w. ucast b XOR push_bit 8 w) bs 0"

lemma le_word_simps [simp]: "le_word [] = 0" "le_word (b # bs) = ucast b XOR push_bit 8 (le_word bs)"
  by (simp_all add: le_word_def)

lemma bit_le_word: "bit (le_word bs) i \<longleftrightarrow> i < 32 \<and> i < 8 * length bs \<and> bit (bs ! (i div 8)) (i mod 8)"
proof (induction bs arbitrary: i)
  case (Cons b bs)
  show ?case
  proof (cases "i < 8")
    case True
    then show ?thesis by (simp add: bit_simps)
  next
    case False
    then have "i div 8 = Suc ((i - 8) div 8)" "(i - 8) mod 8 = i mod 8" by (simp_all add: le_div_geq le_mod_geq)
    then show ?thesis using False Cons [of "i - 8"] by (auto simp: bit_simps dest: bit_imp_le_length)
  qed
qed simp

lemma le_word_inj: "length a = length b \<Longrightarrow> length a \<le> 4 \<Longrightarrow> le_word a = le_word b \<Longrightarrow> a = b"
proof (rule nth_equalityI)
  fix k assume a: "length a = length b" "length a \<le> 4" "le_word a = le_word b" "k < length a"
  show "a ! k = b ! k"
  proof (rule bit_word_eqI)
    fix j assume "j < LENGTH(8)"
    then have j: "8 * k + j < 32" "8 * k + j < 8 * length a" "(8 * k + j) div 8 = k" "(8 * k + j) mod 8 = j" using a by simp_all
    have "bit (le_word a) (8 * k + j) \<longleftrightarrow> bit (le_word b) (8 * k + j)" by (simp only: a(3))
    then show "bit (a ! k) j \<longleftrightarrow> bit (b ! k) j" using j a(1) by (simp add: bit_le_word)
  qed
qed

lemma crc_bytes_word: "length bs \<le> 4 \<Longrightarrow> foldl crc_byte c bs = (crc_bit ^^ (8 * length bs)) (c XOR le_word bs)"
proof (induction bs arbitrary: c)
  case (Cons b bs)
  have "(crc_bit ^^ 8) (push_bit 8 (le_word bs)) = drop_bit 8 (push_bit 8 (le_word bs))"
    by (rule crc_bits_shift) (simp add: bit_push_bit_iff)
  also have "\<dots> = le_word bs"
    using Cons.prems by (intro bit_word_eqI) (auto simp: bit_simps bit_le_word)
  finally have "crc_byte c b XOR le_word bs = (crc_bit ^^ 8) (c XOR le_word (b # bs))"
    by (simp add: crc_byte_bits crc_bits_xor xor.assoc)
  then have "foldl crc_byte c (b # bs) = (crc_bit ^^ (8 * length bs)) ((crc_bit ^^ 8) (c XOR le_word (b # bs)))"
    using Cons by simp
  also have "\<dots> = (crc_bit ^^ (8 * length bs + 8)) (c XOR le_word (b # bs))" by (simp only: funpow_add comp_def)
  also have "8 * length bs + 8 = 8 * length (b # bs)" by simp
  finally show ?case .
qed simp

lemma xor_cancel: "a XOR c = b XOR c \<Longrightarrow> a = b" "c XOR a = c XOR b \<Longrightarrow> a = b" for a b c :: crc
  by (simp_all add: bit_eq_iff bit_xor_iff) blast+

lemma crc_byte_inj: "crc_byte c b = crc_byte d b \<Longrightarrow> c = d"
  unfolding crc_byte_bits by (drule crc_bits_inj) (rule xor_cancel(1))

lemma crc_bytes_inj: "foldl crc_byte c bs = foldl crc_byte d bs \<Longrightarrow> c = d"
  by (induction bs arbitrary: c d) (auto dest: crc_byte_inj)

text \<open>C35: The checksum detects every change of up to four bytes in a row, wherever it is and whatever it is.\<close>

theorem crc32_detects_bursts:
  assumes "length a = length b" "length a \<le> 4" "a \<noteq> b"
  shows "crc32 (before @ a @ after) \<noteq> crc32 (before @ b @ after)"
proof
  assume "crc32 (before @ a @ after) = crc32 (before @ b @ after)"
  then have "foldl crc_byte (foldl crc_byte (foldl crc_byte 0xffffffff before) a) after =
      foldl crc_byte (foldl crc_byte (foldl crc_byte 0xffffffff before) b) after"
    unfolding crc32_def foldl_append by (rule xor_cancel(1))
  then have "foldl crc_byte (foldl crc_byte 0xffffffff before) a = foldl crc_byte (foldl crc_byte 0xffffffff before) b"
    by (rule crc_bytes_inj)
  then have "foldl crc_byte 0xffffffff before XOR le_word a = foldl crc_byte 0xffffffff before XOR le_word b"
    using crc_bits_inj assms(1,2) by (simp add: crc_bytes_word)
  then have "le_word a = le_word b" by (rule xor_cancel(2))
  then show False using le_word_inj assms by blast
qed

lemma crc32_detects_bursts_witness: "crc32 ([0x31, 0x32] @ [0x33] @ [0x34]) \<noteq> crc32 ([0x31, 0x32] @ [0xb3] @ [0x34])"
  using crc32_detects_bursts [of "[0x33]" "[0xb3]" "[0x31, 0x32]" "[0x34]"] by simp

section \<open>Files of members\<close>

definition le_bytes :: "nat \<Rightarrow> nat \<Rightarrow> 8 word list" where
  "le_bytes n v = map (\<lambda>i. of_nat (v div 256 ^ i)) [0..<n]"

lemma length_le_bytes [simp]: "length (le_bytes n v) = n"
  by (simp add: le_bytes_def)

lemma le_bytes_Suc: "le_bytes (Suc n) v = of_nat v # le_bytes n (v div 256)"
  unfolding le_bytes_def map_upt_Suc by (simp add: div_mult2_eq)

lemma le_value_bytes: "le_value (le_bytes n v) = v mod 256 ^ n"
proof (induction n arbitrary: v)
  case (Suc n)
  have "unat (of_nat v :: 8 word) = v mod 256" by (simp add: unsigned_of_nat take_bit_eq_mod)
  then show ?case using Suc [of "v div 256"] by (simp add: le_bytes_Suc le_value_def mod_mult2_eq)
qed (simp add: le_bytes_def le_value_def)

text \<open>The optional fields of a header, and the bytes that spell them.\<close>

record gz_fields =
  gz_flags :: "8 word"
  gz_times :: "8 word list"
  gz_extra :: "8 word list option"
  gz_name :: "8 word list option"
  gz_comment :: "8 word list option"
  gz_hcrc :: "8 word list option"

definition opt_bytes :: "('a \<Rightarrow> 8 word list) \<Rightarrow> 'a option \<Rightarrow> 8 word list" where
  "opt_bytes f x = (case x of None \<Rightarrow> [] | Some y \<Rightarrow> f y)"

lemma opt_bytes_simps [simp]: "opt_bytes f None = []" "opt_bytes f (Some y) = f y"
  by (simp_all add: opt_bytes_def)

definition gz_header :: "gz_fields \<Rightarrow> 8 word list" where
  "gz_header h = MAGIC @ [DEFLATE, gz_flags h] @ gz_times h @
     opt_bytes (\<lambda>e. le_bytes 2 (length e) @ e) (gz_extra h) @
     opt_bytes (\<lambda>t. t @ [0]) (gz_name h) @ opt_bytes (\<lambda>t. t @ [0]) (gz_comment h) @ opt_bytes id (gz_hcrc h)"

definition fields_ok :: "gz_fields \<Rightarrow> bool" where
  "fields_ok h \<longleftrightarrow> length (gz_times h) = 6 \<and>
     (gz_flags h AND FEXTRA \<noteq> 0 \<longleftrightarrow> gz_extra h \<noteq> None) \<and> (gz_flags h AND FNAME \<noteq> 0 \<longleftrightarrow> gz_name h \<noteq> None) \<and>
     (gz_flags h AND FCOMMENT \<noteq> 0 \<longleftrightarrow> gz_comment h \<noteq> None) \<and> (gz_flags h AND FHCRC \<noteq> 0 \<longleftrightarrow> gz_hcrc h \<noteq> None) \<and>
     (\<forall>e. gz_extra h = Some e \<longrightarrow> length e < 65536) \<and> (\<forall>t. gz_name h = Some t \<longrightarrow> 0 \<notin> set t) \<and>
     (\<forall>t. gz_comment h = Some t \<longrightarrow> 0 \<notin> set t) \<and> (\<forall>c. gz_hcrc h = Some c \<longrightarrow> length c = 2)"

text \<open>A deflate stream of whole bytes, whatever comes after them.\<close>

definition is_stream :: "8 word list \<Rightarrow> 8 word list \<Rightarrow> bool" where
  "is_stream st data \<longleftrightarrow> (\<forall>after. \<exists>pad. length pad < 8 \<and>
     deflated [] (concat (map byte_bits (st @ after))) data (pad @ concat (map byte_bits after)))"

inductive gz_file :: "8 word list \<Rightarrow> 8 word list \<Rightarrow> bool" where
  One: "fields_ok h \<Longrightarrow> is_stream st data \<Longrightarrow>
    gz_file (gz_header h @ st @ le_bytes 4 (unat (crc32 data)) @ le_bytes 4 (length data)) data"
| Join: "gz_file a x \<Longrightarrow> gz_file b y \<Longrightarrow> gz_file (a @ b) (x @ y)"

section \<open>Reading a member\<close>

lemma get_slice_append: "get_slice (p @ x @ q) (length p) (length p + length x) = Some x"
  by (simp add: get_slice_def)

lemma skip_extra_reads:
  assumes "bs = p @ opt_bytes (\<lambda>e. le_bytes 2 (length e) @ e) ex @ q" "flags AND FEXTRA \<noteq> 0 \<longleftrightarrow> ex \<noteq> None"
    "\<forall>e. ex = Some e \<longrightarrow> length e < 65536"
  shows "skip_extra bs flags (length p) = Inr (length (p @ opt_bytes (\<lambda>e. le_bytes 2 (length e) @ e) ex))"
proof (cases ex)
  case None
  then show ?thesis using assms(2) by (simp add: skip_extra_def)
next
  case (Some e)
  have "get_slice bs (length p) (length p + 2) = Some (le_bytes 2 (length e))"
    using get_slice_append [of p "le_bytes 2 (length e)" "e @ q"] assms(1) Some by simp
  moreover have "length e < 65536" "flags AND FEXTRA \<noteq> 0" using assms(2,3) Some by simp_all
  ultimately show ?thesis using Some by (simp add: skip_extra_def le_value_bytes)
qed

lemma skip_text_reads:
  assumes "bs = p @ opt_bytes (\<lambda>t. t @ [0]) tx @ q" "flags AND flag \<noteq> 0 \<longleftrightarrow> tx \<noteq> None" "\<forall>t. tx = Some t \<longrightarrow> 0 \<notin> set t"
  shows "skip_text bs flags flag (length p) = Inr (length (p @ opt_bytes (\<lambda>t. t @ [0]) tx))"
proof (cases tx)
  case None
  then show ?thesis using assms(2) by (simp add: skip_text_def)
next
  case (Some t)
  have "takeWhile (\<lambda>b. b \<noteq> 0) (t @ 0 # q) = t"
    using assms(3) Some by (subst takeWhile_append2) auto
  moreover have "get_from bs (length p) = Some (t @ 0 # q)" using assms(1) Some by (simp add: get_from_def)
  moreover have "flags AND flag \<noteq> 0" using assms(2) Some by simp
  ultimately show ?thesis using Some by (simp add: skip_text_def Let_def)
qed

lemma header_reads:
  assumes "fields_ok h"
  shows "member_header (p @ gz_header h @ q) (length p) = Inr (length (p @ gz_header h))"
proof -
  let ?bs = "p @ gz_header h @ q"
  define a where "a = MAGIC @ [DEFLATE, gz_flags h] @ gz_times h"
  define x where "x = opt_bytes (\<lambda>e. le_bytes 2 (length e) @ e) (gz_extra h)"
  define n where "n = opt_bytes (\<lambda>t. t @ [0]) (gz_name h)"
  define c where "c = opt_bytes (\<lambda>t. t @ [0]) (gz_comment h)"
  define k where "k = opt_bytes id (gz_hcrc h)"
  have g: "gz_header h = a @ x @ n @ c @ k" by (simp add: gz_header_def a_def x_def n_def c_def k_def)
  have la: "length a = 10" using assms by (simp add: a_def MAGIC_def fields_ok_def)
  have ha: "take 2 a = MAGIC" "a ! 2 = DEFLATE" "a ! 3 = gz_flags h" by (simp_all add: a_def MAGIC_def)
  have s: "get_slice ?bs (length p) (length p + 10) = Some a"
    using get_slice_append [of p a "x @ n @ c @ k @ q"] la by (simp add: g)
  have ok: "gz_flags h AND FEXTRA \<noteq> 0 \<longleftrightarrow> gz_extra h \<noteq> None" "gz_flags h AND FNAME \<noteq> 0 \<longleftrightarrow> gz_name h \<noteq> None"
    "gz_flags h AND FCOMMENT \<noteq> 0 \<longleftrightarrow> gz_comment h \<noteq> None" "gz_flags h AND FHCRC \<noteq> 0 \<longleftrightarrow> gz_hcrc h \<noteq> None"
    "\<forall>e. gz_extra h = Some e \<longrightarrow> length e < 65536" "\<forall>t. gz_name h = Some t \<longrightarrow> 0 \<notin> set t"
    "\<forall>t. gz_comment h = Some t \<longrightarrow> 0 \<notin> set t" "\<forall>c. gz_hcrc h = Some c \<longrightarrow> length c = 2"
    using assms by (simp_all add: fields_ok_def)
  have s1: "skip_extra ?bs (gz_flags h) (length p + 10) = Inr (length (p @ a @ x))"
    using skip_extra_reads [of ?bs "p @ a" "gz_extra h" "n @ c @ k @ q", OF _ ok(1,5)] la by (simp add: g x_def)
  have s2: "skip_text ?bs (gz_flags h) FNAME (length (p @ a @ x)) = Inr (length (p @ a @ x @ n))"
    using skip_text_reads [of ?bs "p @ a @ x" "gz_name h" "c @ k @ q", OF _ ok(2,6)] by (simp add: g n_def)
  have s3: "skip_text ?bs (gz_flags h) FCOMMENT (length (p @ a @ x @ n)) = Inr (length (p @ a @ x @ n @ c))"
    using skip_text_reads [of ?bs "p @ a @ x @ n" "gz_comment h" "k @ q", OF _ ok(3,7)] by (simp add: g c_def)
  have s4: "length k = (if gz_flags h AND FHCRC \<noteq> 0 then 2 else 0)"
    using ok(4,8) by (cases "gz_hcrc h") (auto simp: k_def)
  show ?thesis
    unfolding member_header_def s ok_or_simps and_then_simps ha Let_def s1 s2 s3 using s4 by (simp add: g)
qed

lemma stream_reads:
  assumes "is_stream st data"
  shows "inflate_into (st @ q) [] = Inr (length st, data)"
proof -
  obtain pad where pad: "length pad < 8" "deflated [] (concat (map byte_bits (st @ q))) data (pad @ concat (map byte_bits q))"
    using assms unfolding is_stream_def by blast
  have "(length pad + 8 * length q) div 8 = length q" using pad(1) by simp
  then show ?thesis using inflates [OF pad(2)] by simp
qed

lemma member_reads:
  assumes "fields_ok h" "is_stream st data"
  shows "gz_member (p @ (gz_header h @ st @ le_bytes 4 (unat (crc32 data)) @ le_bytes 4 (length data)) @ q) (length p) =
    Inr (length p + length (gz_header h @ st @ le_bytes 4 (unat (crc32 data)) @ le_bytes 4 (length data)), data)"
proof -
  let ?t = "le_bytes 4 (unat (crc32 data)) @ le_bytes 4 (length data)"
  let ?bs = "p @ (gz_header h @ st @ ?t) @ q"
  have h: "member_header ?bs (length p) = Inr (length (p @ gz_header h))"
    using header_reads [OF assms(1), of p "st @ ?t @ q"] by simp
  have f: "get_from ?bs (length (p @ gz_header h)) = Some (st @ ?t @ q)" by (simp add: get_from_def)
  have t: "get_slice ?bs (length (p @ gz_header h) + length st) (length (p @ gz_header h) + length st + 8) = Some ?t"
    using get_slice_append [of "p @ gz_header h @ st" ?t q] by (simp add: add.assoc)
  have "unat (crc32 data) < 2 ^ LENGTH(32)" by (rule unsigned_less)
  then have c: "unat (crc32 data) = le_value (take 4 ?t)" "length data mod 2 ^ 32 = le_value (drop 4 ?t)"
    by (simp_all add: le_value_bytes)
  show ?thesis
    unfolding gz_member_def h f ok_or_simps and_then_simps stream_reads [OF assms(2)] map_err_def sum.case prod.case Let_def t
    using c by simp
qed

lemma header_not_empty: "gz_header h \<noteq> []"
  by (simp add: gz_header_def MAGIC_def)

lemma file_not_empty: "gz_file bs out \<Longrightarrow> bs \<noteq> []"
  by (induction rule: gz_file.induct) (simp_all add: header_not_empty)

lemma file_reads: "gz_file bs out \<Longrightarrow>
    members_from (p @ bs @ q) (length p) acc =
      (if q = [] then Inr (acc @ out) else members_from (p @ bs @ q) (length (p @ bs)) (acc @ out))"
proof (induction arbitrary: p q acc rule: gz_file.induct)
  case (One h st data)
  show ?case
    unfolding members_from.simps [of "p @ _ @ q" "length p"] member_reads [OF One] and_then_simps prod.case by simp
next
  case (Join a x b y)
  have "b \<noteq> []" using Join(2) by (rule file_not_empty)
  then show ?case using Join.IH(1) [of p "b @ q" acc] Join.IH(2) [of "p @ a" q "acc @ x"] by simp
qed

text \<open>Members one after the other from an offset to the end, each with where its stream starts, how much of it there is and
  what it gives.\<close>

primrec members_at :: "8 word list \<Rightarrow> nat \<Rightarrow> (nat \<times> nat \<times> 8 word list) list \<Rightarrow> bool" where
  "members_at bs pos [] \<longleftrightarrow> pos = length bs"
| "members_at bs pos (m # ms) \<longleftrightarrow> (case m of (start, used, data) \<Rightarrow>
     pos + 10 \<le> start \<and> inflate_into (drop start bs) [] = Inr (used, data) \<and>
     le_value (take 4 (drop (start + used) bs)) = unat (crc32 data) \<and>
     le_value (take 4 (drop (start + used + 4) bs)) = length data mod 2 ^ 32 \<and> members_at bs (start + used + 8) ms)"

abbreviation member_data :: "(nat \<times> nat \<times> 8 word list) list \<Rightarrow> 8 word list" where
  "member_data ms \<equiv> concat (map (\<lambda>(_, _, data). data) ms)"

lemma members_checked: "members_from bs pos acc = Inr out \<Longrightarrow>
    \<exists>ms. ms \<noteq> [] \<and> members_at bs pos ms \<and> out = acc @ member_data ms"
proof (induction bs pos acc rule: members_from.induct)
  case (1 bs pos acc)
  obtain next_pos data where m: "gz_member bs pos = Inr (next_pos, data)"
    using 1(2) by (auto simp: members_from.simps [of bs pos] and_then_Inr)
  obtain start used where s: "member_header bs pos = Inr start" "inflate_into (drop start bs) [] = Inr (used, data)"
    "next_pos = start + used + 8" "unat (crc32 data) = le_value (take 4 (drop (start + used) bs))"
    "length data mod 2 ^ 32 = le_value (take 4 (drop (start + used + 4) bs))"
    using m by (rule gz_memberE)
  have start: "pos + 10 \<le> start" using s(1) by (rule member_header_grows)
  have first: "members_at bs pos ((start, used, data) # ms) \<longleftrightarrow> members_at bs next_pos ms" for ms
    using start s by simp
  show ?case
  proof (cases "next_pos = length bs")
    case True
    then have "out = acc @ data" using 1(2) m by (simp add: members_from.simps [of bs pos])
    then show ?thesis using first [of "[]"] True by (intro exI [of _ "[(start, used, data)]"]) simp
  next
    case False
    then have "members_from bs next_pos (acc @ data) = Inr out" using 1(2) m by (simp add: members_from.simps [of bs pos])
    then obtain ms where "members_at bs next_pos ms" "out = (acc @ data) @ member_data ms" using 1(1) [OF m] False by auto
    then show ?thesis using first by (intro exI [of _ "(start, used, data) # ms"]) simp
  qed
qed

section \<open>What the reader promises\<close>

text \<open>C33: Gzip files are read: one or more members, each with whichever optional fields its flags name, a deflate stream and
  the checksum and length of what the stream stands for, give what the streams stand for, one after the other.\<close>

theorem gunzip_decodes:
  assumes "gz_file bs out"
  shows "gunzip bs = Inr out"
  using file_reads [OF assms, of "[]" "[]" "[]"] by (simp add: gunzip_def)

lemma stored_stream: "is_stream [1, 2, 0, 253, 255, 65, 66] [65, 66]"
  unfolding is_stream_def
proof (intro allI exI [of _ "[]"] conjI)
  fix after :: "8 word list"
  let ?q = "concat (map byte_bits after)"
  have bits: "concat (map byte_bits ([1, 2, 0, 253, 255, 65, 66] @ after)) = True # ([False, False] @ replicate 5 False @
      low_bits (length [65, 66 :: 8 word]) 16 @ low_bits (65535 - length [65, 66 :: 8 word]) 16 @ concat (map byte_bits [65, 66]) @ ?q)"
    by (simp add: byte_bits_def low_bits_def upto_8 upto_16 bit_0 replicate_5 numeral_2_eq_2 [symmetric])
  have "deflated [] (concat (map byte_bits ([1, 2, 0, 253, 255, 65, 66] @ after))) ([] @ [65, 66]) ?q"
    unfolding bits by (intro deflated.Last block_bits.Stored) simp_all
  then show "deflated [] (concat (map byte_bits ([1, 2, 0, 253, 255, 65, 66] @ after))) [65, 66] ([] @ ?q)" by simp
qed simp

lemma gunzip_decodes_witness:
  "\<exists>bs. take 12 bs = [0x1f, 0x8b, 8, 8, 0, 0, 0, 0, 0, 3, 97, 0] \<and> gunzip bs = Inr [65, 66]"
proof -
  let ?h = "\<lparr>gz_flags = 8, gz_times = [0, 0, 0, 0, 0, 3], gz_extra = None, gz_name = Some [97], gz_comment = None, gz_hcrc = None\<rparr>"
  have ok: "fields_ok ?h" by (simp add: fields_ok_def FEXTRA_def FNAME_def FCOMMENT_def FHCRC_def)
  show ?thesis
    using gunzip_decodes [OF gz_file.One [OF ok stored_stream]]
    by (intro exI [of _ "gz_header ?h @ _"] conjI) (simp_all add: gz_header_def MAGIC_def DEFLATE_def)
qed

text \<open>C34: Nothing is answered that was not checked: the file is covered by members to its end, the answer is what their
  streams decompress to, and each member's trailer has the checksum and the length of its data.\<close>

theorem gunzip_checks:
  assumes "gunzip bs = Inr out"
  shows "\<exists>ms. ms \<noteq> [] \<and> members_at bs 0 ms \<and> out = member_data ms"
  using members_checked assms by (fastforce simp: gunzip_def)

lemma gunzip_checks_witness:
  "\<exists>bs ms. ms \<noteq> [] \<and> members_at bs 0 ms \<and> member_data ms = [65, 66]"
proof -
  let ?h = "\<lparr>gz_flags = 0, gz_times = [0, 0, 0, 0, 0, 3], gz_extra = None, gz_name = None, gz_comment = None, gz_hcrc = None\<rparr>"
  have ok: "fields_ok ?h" by (simp add: fields_ok_def)
  let ?bs = "gz_header ?h @ [1, 2, 0, 253, 255, 65, 66] @ le_bytes 4 (unat (crc32 [65, 66])) @ le_bytes 4 (length [65, 66 :: 8 word])"
  have "members_from ?bs 0 [] = Inr [65, 66]"
    using file_reads [OF gz_file.One [OF ok stored_stream], of "[]" "[]" "[]"] by simp
  then have "gunzip ?bs = Inr [65, 66]" by (simp only: gunzip_def)
  from gunzip_checks [OF this] show ?thesis by metis
qed

end
