(* ===== verification/Fold.thy ===== *)
theory Fold
  imports RangeCompare IrType "HOL-Library.Signed_Division"
begin

text \<open>
  Constant folding, the integer half of \<open>crates/rucc-opt/src/fold.rs\<close>, over the immediates of
  \<open>crates/rucc-ir/src/inst.rs\<close>. Every function answers an option twice: the outer \<open>None\<close> is a panic, of the
  assertions of \<open>Imm::int\<close> and \<open>Imm::signed\<close> or of a shift by more than the width, the inner one is
  the source's \<open>None\<close>, an instruction left as it is.

  A function of the intermediate representation is what \<open>evaluated\<close> reads of it: for each value the instruction
  that makes it, or nothing for a parameter of a block, and its type. An immediate is in the
  instruction, not in a table beside it. The opcodes are those this part of the pass tells apart and
  their neighbours in the list of the source.
\<close>

section \<open>Immediates\<close>

type_synonym imm = u128

text \<open>The width of a type as a number.\<close>

abbreviation width :: "irtype \<Rightarrow> nat" where "width ty \<equiv> unat (type_bits ty)"

definition imm_mask :: "nat \<Rightarrow> u128" where
  "imm_mask bits = (if bits \<ge> 128 then - 1 else push_bit bits 1 - 1)"

definition imm_int :: "int \<Rightarrow> irtype \<Rightarrow> imm option" where
  "imm_int value ty = (if is_int ty then Some (word_of_int value AND imm_mask (width ty)) else None)"

definition imm_signed :: "imm \<Rightarrow> irtype \<Rightarrow> int option" where
  "imm_signed i ty =
     (if is_int ty \<and> width ty \<le> 128 then let spare = 128 - width ty in Some (sint (signed_drop_bit spare (push_bit spare i)))
      else None)"

section \<open>Instructions\<close>

datatype opcode = IConstOp
  | AddOp | SubOp | MulOp | SDivOp | UDivOp | SRemOp | URemOp | UMulHighOp | SMulHighOp | AndOp | OrOp | XorOp
  | ShlOp | LShrOp | AShrOp | FAddOp | FSubOp | FMulOp | FDivOp | FRemOp | FNegOp | FmaOp | ICmpOp | FCmpOp | SelectOp
  | TruncOp | SExtOp | ZExtOp | CtlzOp | CttzOp | CtpopOp | BswapOp | BitreverseOp
  | SAddOverflowOp | UAddOverflowOp | SSubOverflowOp | USubOverflowOp | SMulOverflowOp | UMulOverflowOp

datatype extra = NoExtra | PredExtra int_pred | ImmExtra imm

record 'v inst_data =
  iop :: opcode
  iflags :: flags
  iextra :: extra
  iargs :: "'v list"
  iresults :: nat

record 'v func =
  defined_by :: "'v \<Rightarrow> 'v inst_data option"
  type_of_value :: "'v \<Rightarrow> irtype"

text \<open>The two options, and \<open>?\<close> on both.\<close>

type_synonym 'a folded = "'a option option"

definition and_try :: "'a folded \<Rightarrow> ('a \<Rightarrow> 'b folded) \<Rightarrow> 'b folded" where
  "and_try r f = (case r of None \<Rightarrow> None | Some None \<Rightarrow> Some None | Some (Some x) \<Rightarrow> f x)"

lemma and_try_simps [simp]: "and_try None f = None" "and_try (Some None) f = Some None" "and_try (Some (Some x)) f = f x"
  by (simp_all add: and_try_def)

lemma and_try_Some: "and_try r f = Some (Some y) \<longleftrightarrow> (\<exists>x. r = Some (Some x) \<and> f x = Some (Some y))"
  by (auto simp: and_try_def split: option.splits)

definition arg_at :: "'v list \<Rightarrow> nat \<Rightarrow> 'v option" where
  "arg_at xs n = (if n < length xs then Some (xs ! n) else None)"

definition constant_of :: "'v func \<Rightarrow> 'v \<Rightarrow> (imm \<times> irtype) option" where
  "constant_of f v =
     (case defined_by f v of None \<Rightarrow> None
      | Some inst \<Rightarrow>
        if iop inst \<noteq> IConstOp then None
        else case iextra inst of
               ImmExtra i \<Rightarrow> let ty = type_of_value f v in if is_int ty then Some (i, ty) else None
             | _ \<Rightarrow> None)"

section \<open>The arithmetic\<close>

definition convert :: "opcode \<Rightarrow> imm \<Rightarrow> irtype \<Rightarrow> irtype \<Rightarrow> imm option" where
  "convert op value from to =
     (if op = TruncOp \<or> op = SExtOp then do { s \<leftarrow> imm_signed value from; imm_int s to }
      else imm_int (sint value) to)"

definition overflowed :: "int \<Rightarrow> irtype \<Rightarrow> flags \<Rightarrow> bool option" where
  "overflowed exact to f =
     do {
       stored \<leftarrow> imm_int exact to;
       wrong \<leftarrow> (if flags_contains f NSW then do { s \<leftarrow> imm_signed stored to; Some (s \<noteq> exact) } else Some False);
       Some (wrong \<or> flags_contains f NUW \<and> (exact < 0 \<or> stored \<noteq> word_of_int exact))
     }"

text \<open>The exact result; a shift of an \<open>i128\<close> by 128 or more is \<open>None\<close> where it is checked and a panic where it is not.\<close>

definition exact_shift :: "opcode \<Rightarrow> imm \<Rightarrow> irtype \<Rightarrow> nat \<Rightarrow> int folded" where
  "exact_shift op value from amount =
     (if op = ShlOp then do { s \<leftarrow> imm_signed value from; Some (if amount < 128 then Some (wrap_i128 (s * 2 ^ amount)) else None) }
      else if amount \<ge> 128 then None
      else if op = LShrOp then Some (Some (sint (drop_bit amount value)))
      else do { s \<leftarrow> imm_signed value from; Some (Some (s div 2 ^ amount)) })"

definition fold_shift :: "opcode \<Rightarrow> imm \<Rightarrow> irtype \<Rightarrow> imm \<Rightarrow> irtype \<Rightarrow> irtype \<Rightarrow> flags \<Rightarrow> imm folded" where
  "fold_shift op value from count count_ty to f =
     (let amount = unat count
      in if amount \<ge> width to then Some None
         else do {
           c \<leftarrow> imm_signed count count_ty;
           if c < 0 then Some None
           else do {
             exact \<leftarrow> exact_shift op value from amount;
             case exact of None \<Rightarrow> Some None
             | Some exact \<Rightarrow> do {
                 bad \<leftarrow> (if op = ShlOp then overflowed exact to f else Some False);
                 if bad then Some None else do { i \<leftarrow> imm_int exact to; Some (Some i) }
               }
           }
         })"

text \<open>The exact result, where the checked operations of \<open>i128\<close> have one.\<close>

definition exact_binary :: "opcode \<Rightarrow> int \<Rightarrow> int \<Rightarrow> int option" where
  "exact_binary op a b =
     (if op = AndOp then Some (a AND b) else if op = OrOp then Some (a OR b) else if op = XorOp then Some (a XOR b)
      else if op = AddOp then checked_i128 (a + b) else if op = SubOp then checked_i128 (a - b)
      else checked_i128 (a * b))"

definition fold_binary :: "opcode \<Rightarrow> imm \<Rightarrow> imm \<Rightarrow> irtype \<Rightarrow> irtype \<Rightarrow> flags \<Rightarrow> imm folded" where
  "fold_binary op lhs rhs from to f =
     do {
       a \<leftarrow> imm_signed lhs from;
       b \<leftarrow> imm_signed rhs from;
       case exact_binary op a b of None \<Rightarrow> Some None
       | Some exact \<Rightarrow> do {
           bad \<leftarrow> overflowed exact to f;
           if bad then Some None else do { i \<leftarrow> imm_int exact to; Some (Some i) }
         }
     }"

definition fold_divide :: "opcode \<Rightarrow> imm \<Rightarrow> imm \<Rightarrow> irtype \<Rightarrow> irtype \<Rightarrow> imm folded" where
  "fold_divide op lhs rhs from to =
     (if rhs = 0 then Some None
      else if op = UDivOp then do { i \<leftarrow> imm_int (sint (lhs div rhs)) to; Some (Some i) }
      else if op = URemOp then do { i \<leftarrow> imm_int (sint (lhs mod rhs)) to; Some (Some i) }
      else do {
        a \<leftarrow> imm_signed lhs from;
        b \<leftarrow> imm_signed rhs from;
        let least = (if width from \<ge> 128 then i128_min else - (2 ^ (width from - 1)));
        if b = -1 \<and> a = least then Some None
        else do { i \<leftarrow> imm_int (if op = SDivOp then a sdiv b else a smod b) to; Some (Some i) }
      })"

definition fold_compare :: "int_pred \<Rightarrow> imm \<Rightarrow> imm \<Rightarrow> irtype \<Rightarrow> bool option" where
  "fold_compare pred lhs rhs ty =
     (let signed_by = (\<lambda>r. do { a \<leftarrow> imm_signed lhs ty; b \<leftarrow> imm_signed rhs ty; Some (r a b) })
      in case pred of
           Eq \<Rightarrow> Some (lhs = rhs) | Ne \<Rightarrow> Some (lhs \<noteq> rhs)
         | Slt \<Rightarrow> signed_by (<) | Sle \<Rightarrow> signed_by (\<le>) | Sgt \<Rightarrow> signed_by (>) | Sge \<Rightarrow> signed_by (\<ge>)
         | Ult \<Rightarrow> Some (lhs < rhs) | Ule \<Rightarrow> Some (lhs \<le> rhs) | Ugt \<Rightarrow> Some (lhs > rhs) | Uge \<Rightarrow> Some (lhs \<ge> rhs))"

text \<open>A word from its bits, and with it \<open>u128::swap_bytes\<close> and \<open>u128::reverse_bits\<close>.\<close>

definition from_bits :: "(nat \<Rightarrow> bool) \<Rightarrow> u128" where
  "from_bits b = horner_sum of_bool 2 (map b [0..<128])"

definition swap_bytes :: "u128 \<Rightarrow> u128" where
  "swap_bytes x = from_bits (\<lambda>i. bit x (8 * (15 - i div 8) + i mod 8))"

definition reverse_bits :: "u128 \<Rightarrow> u128" where
  "reverse_bits x = from_bits (\<lambda>i. bit x (127 - i))"

definition fold_count :: "opcode \<Rightarrow> imm \<Rightarrow> irtype \<Rightarrow> irtype \<Rightarrow> imm folded" where
  "fold_count op value from to =
     (let w = width from
      in if w = 0 \<or> w > 128 then Some None
         else let spare = 128 - w
           in do {
             answer \<leftarrow>
               (if op = CtpopOp then Some (Some (int (count_ones value)))
                else if op = CtlzOp then
                  if spare \<le> leading_zeros value then Some (Some (int (leading_zeros value - spare))) else None
                else if op = CttzOp then Some (Some (int (min (trailing_zeros value) w)))
                else if op = BswapOp \<and> w mod 8 = 0 then Some (Some (sint (drop_bit spare (swap_bytes value))))
                else if op = BitreverseOp then Some (Some (sint (drop_bit spare (reverse_bits value))))
                else Some None);
             case answer of None \<Rightarrow> Some None | Some answer \<Rightarrow> do { i \<leftarrow> imm_int answer to; Some (Some i) }
           })"

text \<open>The operations that answer whether they overflow, as one of the three operations and a sign.\<close>

definition overflow_op :: "opcode \<Rightarrow> (checked \<times> bool) option" where
  "overflow_op op =
     (if op = SAddOverflowOp then Some (CheckAdd, True) else if op = SSubOverflowOp then Some (CheckSub, True)
      else if op = SMulOverflowOp then Some (CheckMul, True) else if op = UAddOverflowOp then Some (CheckAdd, False)
      else if op = USubOverflowOp then Some (CheckSub, False) else if op = UMulOverflowOp then Some (CheckMul, False)
      else None)"

definition overflowing :: "opcode \<Rightarrow> imm \<Rightarrow> imm \<Rightarrow> irtype \<Rightarrow> (imm \<times> bool) folded" where
  "overflowing op a b ty =
     (case overflow_op op of None \<Rightarrow> Some None
      | Some (kind, is_signed) \<Rightarrow>
        if \<not> is_int ty \<or> is_vector ty then Some None
        else do {
          fits \<leftarrow>
            (if is_signed then do {
               x \<leftarrow> imm_signed a ty;
               y \<leftarrow> imm_signed b ty;
               case checked_i128 (case kind of CheckAdd \<Rightarrow> x + y | CheckSub \<Rightarrow> x - y | CheckMul \<Rightarrow> x * y) of
                 None \<Rightarrow> Some False
               | Some exact \<Rightarrow> do { i \<leftarrow> imm_int exact ty; s \<leftarrow> imm_signed i ty; Some (s = exact) }
             }
             else Some (case (case kind of CheckAdd \<Rightarrow> checked_add a b | CheckSub \<Rightarrow> checked_sub a b
                                | CheckMul \<Rightarrow> checked_mul a b) of
                          None \<Rightarrow> False
                        | Some exact \<Rightarrow> width ty \<ge> 128 \<or> drop_bit (width ty) exact = 0));
          ones \<leftarrow> imm_int (- 1) ty;
          Some (Some ((case kind of CheckAdd \<Rightarrow> a + b | CheckSub \<Rightarrow> a - b | CheckMul \<Rightarrow> a * b) AND ones, \<not> fits))
        })"

section \<open>Instructions over constants\<close>

text \<open>\<open>arithmetic\<close>, with the way to read an operand as a constant given by the caller.\<close>

definition arithmetic :: "'v inst_data \<Rightarrow> irtype \<Rightarrow> ('v \<Rightarrow> (imm \<times> irtype) folded) \<Rightarrow> imm folded" where
  "arithmetic inst ty operand =
     (let op = iop inst;
          at = (\<lambda>n. case arg_at (iargs inst) n of None \<Rightarrow> Some None | Some v \<Rightarrow> operand v)
      in if op \<in> {TruncOp, SExtOp, ZExtOp} then
           and_try (at 0) (\<lambda>(value, from). map_option Some (convert op value from ty))
         else if op \<in> {ShlOp, LShrOp, AShrOp} then
           and_try (at 0) (\<lambda>(value, from). and_try (at 1) (\<lambda>(count, count_ty).
             fold_shift op value from count count_ty ty (iflags inst)))
         else if op \<in> {AddOp, SubOp, MulOp, AndOp, OrOp, XorOp} then
           and_try (at 0) (\<lambda>(lhs, lhs_ty). and_try (at 1) (\<lambda>(rhs, _). fold_binary op lhs rhs lhs_ty ty (iflags inst)))
         else if op \<in> {SDivOp, UDivOp, SRemOp, URemOp} then
           and_try (at 0) (\<lambda>(lhs, from). and_try (at 1) (\<lambda>(rhs, _). fold_divide op lhs rhs from ty))
         else if op \<in> {CtlzOp, CttzOp, CtpopOp, BswapOp, BitreverseOp} then
           and_try (at 0) (\<lambda>(value, from). fold_count op value from ty)
         else if op = ICmpOp then
           (case iextra inst of
              PredExtra pred \<Rightarrow>
                and_try (at 0) (\<lambda>(lhs, from). and_try (at 1) (\<lambda>(rhs, _).
                  do { b \<leftarrow> fold_compare pred lhs rhs from; i \<leftarrow> imm_int (of_bool b) ty; Some (Some i) }))
            | _ \<Rightarrow> Some None)
         else if op = SelectOp then
           and_try (at 1) (\<lambda>(yes, _). and_try (at 2) (\<lambda>(no, _).
             do { a \<leftarrow> imm_signed yes ty; b \<leftarrow> imm_signed no ty; Some (if a = b then Some yes else None) }))
         else Some None)"

text \<open>\<open>evaluated\<close>, which looks through instructions to a depth.\<close>

primrec evaluated :: "nat \<Rightarrow> 'v func \<Rightarrow> 'v \<Rightarrow> (imm \<times> irtype) folded" where
  "evaluated 0 f v = Some (constant_of f v)"
| "evaluated (Suc depth) f v =
     (case constant_of f v of Some found \<Rightarrow> Some (Some found)
      | None \<Rightarrow>
        case defined_by f v of None \<Rightarrow> Some None
        | Some inst \<Rightarrow>
          let ty = type_of_value f v
          in if iresults inst \<noteq> 1 \<or> \<not> is_int ty \<or> \<not> is_scalar ty then Some None
             else and_try (arithmetic inst ty (evaluated depth f)) (\<lambda>found. Some (Some (found, ty))))"

end
