(* ===== verification/FoldSound.thy ===== *)
theory FoldSound
  imports Fold
begin

text \<open>
  What the operations of the intermediate representation mean at a width, and that constant folding answers it: the
  arithmetic, the conversions, the counts, and whole expressions of them.
\<close>

section \<open>Immediates\<close>

definition int_ty :: "irtype \<Rightarrow> bool" where
  "int_ty ty \<longleftrightarrow> is_int ty \<and> 0 < width ty \<and> width ty \<le> 128"

lemma imm_mask_eq: "imm_mask w = maskw w"
  by (simp add: imm_mask_def maskw_def MAX_BITS_def)

lemma imm_int_eq: "int_ty ty \<Longrightarrow> imm_int e ty = Some (word_of_int e AND maskw (width ty))"
  by (simp add: imm_int_def int_ty_def imm_mask_eq)

lemma imm_signed_eq: "int_ty ty \<Longrightarrow> imm_signed x ty = Some (signed_at x (width ty))"
  by (simp add: imm_signed_def int_ty_def signed_at_def MAX_BITS_def Let_def)

lemma uint_wrapped: "w \<le> 128 \<Longrightarrow> uint (word_of_int e AND maskw w) = e mod 2 ^ w"
  by (simp add: word_red uint_word_of_int mod_2_128)

lemma wrapped_eqI: "w \<le> 128 \<Longrightarrow> a mod 2 ^ w = b mod 2 ^ w \<Longrightarrow> word_of_int a AND maskw w = word_of_int b AND maskw w"
  by (rule word_uint_eqI) (simp add: uint_wrapped)

lemma wrapped_uint: "x \<le> maskw w \<Longrightarrow> w \<le> 128 \<Longrightarrow> word_of_int (uint x) AND maskw w = x"
  by (simp add: le_maskw_mask_iff)

lemma wrapped_signed: "0 < w \<Longrightarrow> w \<le> 128 \<Longrightarrow> x \<le> maskw w \<Longrightarrow> word_of_int (signed_at x w) AND maskw w = x"
  using wrapped_eqI [OF _ signed_at_mod] wrapped_uint by metis

section \<open>What the operations mean\<close>

text \<open>
  A meaning is over values of the widths of the operands, and is \<open>None\<close> where the language leaves the operation
  undefined: a promise of the flags that is broken, a count that is not below the width, a
  division by zero or one that overflows.
\<close>

definition shift_meaning :: "opcode \<Rightarrow> flags \<Rightarrow> nat \<Rightarrow> u128 \<Rightarrow> u128 \<Rightarrow> u128 option" where
  "shift_meaning op f w x k =
     (if uint k \<ge> int w then None
      else if op = ShlOp then
        if promised f w (signed_at x w * 2 ^ unat k) (uint x * 2 ^ unat k) then Some (push_bit (unat k) x AND maskw w) else None
      else if op = LShrOp then Some (drop_bit (unat k) x)
      else Some (word_of_int (signed_at x w div 2 ^ unat k) AND maskw w))"

definition binary_meaning :: "opcode \<Rightarrow> flags \<Rightarrow> nat \<Rightarrow> u128 \<Rightarrow> u128 \<Rightarrow> u128 option" where
  "binary_meaning op f w x y =
     (if op = AndOp then Some (x AND y) else if op = OrOp then Some (x OR y) else if op = XorOp then Some (x XOR y)
      else if op = AddOp then add_conc f w x y else if op = SubOp then sub_conc f w x y else mul_conc f w x y)"

definition divide_meaning :: "opcode \<Rightarrow> nat \<Rightarrow> u128 \<Rightarrow> u128 \<Rightarrow> u128 option" where
  "divide_meaning op w x y =
     (if y = 0 then None
      else if op = UDivOp then Some (x div y) else if op = URemOp then Some (x mod y)
      else if signed_at x w = - (2 ^ (w - 1)) \<and> signed_at y w = -1 then None
      else if op = SDivOp then Some (word_of_int (signed_at x w sdiv signed_at y w) AND maskw w)
      else Some (word_of_int (signed_at x w smod signed_at y w) AND maskw w))"

text \<open>The counts and the reversals, by the bits of the value that are in its type.\<close>

definition count_meaning :: "opcode \<Rightarrow> nat \<Rightarrow> u128 \<Rightarrow> u128 option" where
  "count_meaning op w x =
     (if op = CtpopOp then Some (of_nat (card {i. i < w \<and> bit x i}))
      else if op = CtlzOp then Some (of_nat (if x = 0 then w else w - 1 - Max {i. i < w \<and> bit x i}))
      else if op = CttzOp then Some (of_nat (if x = 0 then w else Min {i. i < w \<and> bit x i}))
      else if op = BswapOp then
        if w mod 8 = 0 then Some (from_bits (\<lambda>i. i < w \<and> bit x (w - 8 - 8 * (i div 8) + i mod 8))) else None
      else Some (from_bits (\<lambda>i. i < w \<and> bit x (w - 1 - i))))"

section \<open>The operations\<close>

lemma convert_eq:
  assumes "int_ty from" "int_ty to" "x \<le> maskw (width from)"
  shows "convert op x from to =
    Some ((if op = SExtOp then word_of_int (signed_at x (width from)) else x) AND maskw (width to)) \<or>
    op = TruncOp \<and> width from < width to"
proof -
  have w: "0 < width from" "width from \<le> 128" "width to \<le> 128" using assms by (simp_all add: int_ty_def)
  have t: "word_of_int (signed_at x (width from)) AND maskw (width to) = x AND maskw (width to)" if "width to \<le> width from"
  proof -
    have "signed_at x (width from) mod 2 ^ width from mod 2 ^ width to = uint x mod 2 ^ width from mod 2 ^ width to"
      using signed_at_mod [OF w(1,2)] by simp
    moreover have "(2 :: int) ^ width to dvd 2 ^ width from" using that by (rule le_imp_power_dvd)
    ultimately have "signed_at x (width from) mod 2 ^ width to = uint x mod 2 ^ width to"
      by (simp add: mod_mod_cancel)
    then show ?thesis using wrapped_eqI [OF w(3)] by fastforce
  qed
  show ?thesis
    using assms(1,2) t by (cases "op = SExtOp"; cases "op = TruncOp") (auto simp: convert_def imm_int_eq imm_signed_eq not_less)
qed

text \<open>What flags make of an exact result: folding is refused when it is not representable under a promise.\<close>

lemma overflowed_eq:
  assumes "int_ty to"
  shows "overflowed e to f = Some (flags_contains f NSW \<and> signed_at (word_of_int e AND maskw (width to)) (width to) \<noteq> e \<or>
    flags_contains f NUW \<and> (e < 0 \<or> word_of_int e AND maskw (width to) \<noteq> word_of_int e))"
  using assms by (simp add: overflowed_def imm_int_eq imm_signed_eq)

lemma exact_binary_meaning:
  assumes "0 < w" "w \<le> 128" "x \<le> maskw w" "y \<le> maskw w" "op \<in> {AddOp, SubOp, MulOp, AndOp, OrOp, XorOp}"
    and "exact_binary op (signed_at x w) (signed_at y w) = Some e" "binary_meaning op f w x y = Some v"
  shows "word_of_int e AND maskw w = v"
proof -
  have m: "signed_at x w mod 2 ^ w = uint x mod 2 ^ w" "signed_at y w mod 2 ^ w = uint y mod 2 ^ w"
    using signed_at_mod [OF assms(1,2)] by simp_all
  then have t: "take_bit w (signed_at x w) = take_bit w (uint x)" "take_bit w (signed_at y w) = take_bit w (uint y)"
    by (simp_all add: take_bit_eq_mod)
  have le: "x AND maskw w = x" "y AND maskw w = y" using assms(2-4) le_maskw_mask_iff by blast+
  have b: "word_of_int e AND maskw w = word_of_int u AND maskw w" if "take_bit w e = take_bit w u" for u
    using that wrapped_eqI [OF assms(2), of e u] by (simp add: take_bit_eq_mod)
  consider "op = AddOp" | "op = SubOp" | "op = MulOp" | "op = AndOp" | "op = OrOp" | "op = XorOp" using assms(5) by blast
  then show ?thesis
  proof cases
    case 1
    then have "e = signed_at x w + signed_at y w" "v = (x + y) AND maskw w"
      using assms(6,7) by (auto simp: exact_binary_def binary_meaning_def add_conc_def checked_i128_def split: if_splits)
    then show ?thesis using wrapped_eqI [OF assms(2) mod_add_cong [OF m]] by simp
  next
    case 2
    then have "e = signed_at x w - signed_at y w" "v = (x - y) AND maskw w"
      using assms(6,7) by (auto simp: exact_binary_def binary_meaning_def sub_conc_def checked_i128_def split: if_splits)
    then show ?thesis using wrapped_eqI [OF assms(2) mod_diff_cong [OF m]] by simp
  next
    case 3
    then have "e = signed_at x w * signed_at y w" "v = (x * y) AND maskw w"
      using assms(6,7) by (auto simp: exact_binary_def binary_meaning_def mul_conc_def checked_i128_def split: if_splits)
    then show ?thesis using wrapped_eqI [OF assms(2) mod_mult_cong [OF m]] by simp
  next
    case 4
    then have "e = signed_at x w AND signed_at y w" "v = x AND y" using assms(6,7) by (auto simp: exact_binary_def binary_meaning_def)
    moreover have "word_of_int (uint x AND uint y) = x AND y" by (simp add: uint_and [symmetric])
    moreover have "(x AND y) AND maskw w = x AND y" using le(2) by (simp add: and.assoc)
    ultimately show ?thesis using b [of "uint x AND uint y"] t by (simp add: take_bit_and)
  next
    case 5
    then have "e = signed_at x w OR signed_at y w" "v = x OR y" using assms(6,7) by (auto simp: exact_binary_def binary_meaning_def)
    moreover have "word_of_int (uint x OR uint y) = x OR y" by (simp add: uint_or [symmetric])
    moreover have "(x OR y) AND maskw w = x OR y" using le by (simp add: bit.conj_disj_distrib2)
    ultimately show ?thesis using b [of "uint x OR uint y"] t by (simp add: take_bit_or)
  next
    case 6
    then have "e = signed_at x w XOR signed_at y w" "v = x XOR y" using assms(6,7) by (auto simp: exact_binary_def binary_meaning_def)
    moreover have "word_of_int (uint x XOR uint y) = x XOR y" by (simp add: uint_xor [symmetric])
    moreover have "(x XOR y) AND maskw w = x XOR y" using le by (simp add: bit.conj_xor_distrib2)
    ultimately show ?thesis using b [of "uint x XOR uint y"] t by (simp add: take_bit_xor)
  qed
qed

lemma exact_binary_total:
  assumes "0 < w" "w < 128" "x \<le> maskw w" "y \<le> maskw w" "op \<in> {AddOp, SubOp, AndOp, OrOp, XorOp}"
  shows "exact_binary op (signed_at x w) (signed_at y w) \<noteq> None"
proof -
  have p: "(2 :: int) ^ (w - 1) \<le> 2 ^ 126" using assms(2) by (intro power_increasing) simp_all
  have b: "- (2 ^ 126) \<le> signed_at v w \<and> signed_at v w < 2 ^ 126" if "v \<le> maskw w" for v
    using signed_at_limits [OF assms(1) _ that] assms(2) p by force
  show ?thesis
    using b [OF assms(3)] b [OF assms(4)] assms(5)
    by (auto simp: exact_binary_def checked_i128_def in_i128_def i128_min_def i128_max_def)
qed

lemma binary_sound:
  assumes "int_ty ty" "x \<le> maskw (width ty)" "y \<le> maskw (width ty)" "op \<in> {AddOp, SubOp, MulOp, AndOp, OrOp, XorOp}"
  shows "\<exists>r. fold_binary op x y ty ty f = Some r \<and>
    (\<forall>c v. r = Some c \<longrightarrow> binary_meaning op f (width ty) x y = Some v \<longrightarrow> c = v)"
proof -
  have w: "0 < width ty" "width ty \<le> 128" using assms(1) by (simp_all add: int_ty_def)
  show ?thesis
  proof (cases "exact_binary op (signed_at x (width ty)) (signed_at y (width ty))")
    case None
    then show ?thesis using assms(1) by (simp add: fold_binary_def imm_signed_eq)
  next
    case (Some e)
    then show ?thesis
      using exact_binary_meaning [OF w assms(2-4) Some] assms(1)
      by (auto simp: fold_binary_def imm_signed_eq overflowed_eq imm_int_eq)
  qed
qed

lemma wrap_mod:
  assumes "w \<le> 128"
  shows "wrap_i128 e mod 2 ^ w = e mod 2 ^ w"
proof -
  have "take_bit 128 (wrap_i128 e) = uint (word_of_int (wrap_i128 e) :: u128)" by (simp add: uint_word_of_int_eq)
  also have "(word_of_int (wrap_i128 e) :: u128) = word_of_int e" by (simp add: wrap_i128_def)
  also have "uint (word_of_int e :: u128) = take_bit 128 e" by (simp add: uint_word_of_int_eq)
  finally have "wrap_i128 e mod 2 ^ 128 = e mod 2 ^ 128" by (simp only: take_bit_eq_mod)
  then have "wrap_i128 e mod 2 ^ 128 mod 2 ^ w = e mod 2 ^ 128 mod 2 ^ w" by simp
  moreover have "(2 :: int) ^ w dvd 2 ^ 128" using assms by (rule le_imp_power_dvd)
  ultimately show ?thesis by (simp only: mod_mod_cancel)
qed

lemma word_of_sint: "word_of_int (sint x) = x"
  by simp

lemma fold_shift_sound:
  assumes "int_ty ty" "int_ty kt" "x \<le> maskw (width ty)" "op \<in> {ShlOp, LShrOp, AShrOp}"
  shows "\<exists>r. fold_shift op x ty k kt ty f = Some r \<and>
    (\<forall>c v. r = Some c \<longrightarrow> shift_meaning op f (width ty) x k = Some v \<longrightarrow> c = v)"
proof -
  let ?w = "width ty"
  have w: "0 < ?w" "?w \<le> 128" using assms(1) by (simp_all add: int_ty_def)
  show ?thesis
  proof (cases "unat k \<ge> ?w \<or> signed_at k (width kt) < 0")
    case True
    then show ?thesis using assms(2) by (auto simp: fold_shift_def Let_def imm_signed_eq)
  next
    case False
    then have k: "unat k < ?w" "unat k < 128" "\<not> signed_at k (width kt) < 0" using w by simp_all
    define e where "e = (if op = ShlOp then wrap_i128 (signed_at x ?w * 2 ^ unat k)
      else if op = LShrOp then sint (drop_bit (unat k) x) else signed_at x ?w div 2 ^ unat k)"
    have ex: "exact_shift op x ty (unat k) = Some (Some e)"
      using k assms(1) by (simp add: exact_shift_def imm_signed_eq e_def)
    have "word_of_int e AND maskw ?w = v" if v: "shift_meaning op f ?w x k = Some v" for v
    proof -
      consider "op = ShlOp" | "op = LShrOp" | "op = AShrOp" using assms(4) by blast
      then show ?thesis
      proof cases
        case 1
        then have v': "v = push_bit (unat k) x AND maskw ?w" using v by (simp add: shift_meaning_def split: if_splits)
        have "e mod 2 ^ ?w = (signed_at x ?w * 2 ^ unat k) mod 2 ^ ?w" using 1 wrap_mod [OF w(2)] by (simp add: e_def)
        also have "\<dots> = (uint x * 2 ^ unat k) mod 2 ^ ?w" by (rule mod_mult_cong [OF signed_at_mod [OF w] refl])
        finally have "word_of_int e AND maskw ?w = word_of_int (uint x * 2 ^ unat k) AND maskw ?w" by (rule wrapped_eqI [OF w(2)])
        also have "word_of_int (uint x * 2 ^ unat k) = push_bit (unat k) x" by (simp add: push_bit_eq_mult)
        finally show ?thesis by (simp add: v')
      next
        case 2
        then have v': "v = drop_bit (unat k) x" using v by (simp add: shift_meaning_def split: if_splits)
        have "drop_bit (unat k) x \<le> maskw ?w"
          using w(2) le_maskw_bitD [OF assms(3) w(2)] by (intro le_maskwI) (force simp: bit_drop_bit_eq)+
        then show ?thesis using 2 w(2) by (simp add: e_def v' word_of_sint le_maskw_mask_iff)
      next
        case 3
        then show ?thesis using v by (simp add: shift_meaning_def e_def split: if_splits)
      qed
    qed
    then show ?thesis
      using k ex assms(1,2) by (auto simp: fold_shift_def Let_def imm_signed_eq overflowed_eq imm_int_eq)
  qed
qed

lemma least_eq: "w \<le> 128 \<Longrightarrow> (if w \<ge> 128 then i128_min else - (2 ^ (w - 1))) = - (2 ^ (w - 1))"
  by (cases "w = 128") (simp_all add: i128_min_def)

lemma divide_sound:
  assumes "int_ty ty" "x \<le> maskw (width ty)" "y \<le> maskw (width ty)" "op \<in> {SDivOp, UDivOp, SRemOp, URemOp}"
  shows "fold_divide op x y ty ty = Some (divide_meaning op (width ty) x y)"
proof -
  have w: "0 < width ty" "width ty \<le> 128" using assms(1) by (simp_all add: int_ty_def)
  have m: "(x div y) AND maskw (width ty) = x div y" "(x mod y) AND maskw (width ty) = x mod y"
  proof -
    have "x div y \<le> x" "x mod y \<le> x" by (simp_all add: word_le_nat_alt unat_div unat_mod)
    then show "(x div y) AND maskw (width ty) = x div y" "(x mod y) AND maskw (width ty) = x mod y"
      using assms(2) le_maskw_mask_iff [OF w(2)] order_trans by blast+
  qed
  have least: "(if width ty \<ge> 128 then i128_min else - (2 ^ (width ty - 1))) = - (2 ^ (width ty - 1))"
    by (rule least_eq [OF w(2)])
  show ?thesis
    unfolding fold_divide_def divide_meaning_def least imm_int_eq [OF assms(1)] imm_signed_eq [OF assms(1)] Let_def word_of_sint m
    using assms(4) by auto
qed

lemma compare_eq: "int_ty ty \<Longrightarrow> fold_compare p x y ty = Some (pred_holds p (width ty) x y)"
  by (cases p) (simp_all add: fold_compare_def imm_signed_eq)

section \<open>Counts and reversals\<close>

lemma bit_from_bits: "bit (from_bits b) i \<longleftrightarrow> i < 128 \<and> b i"
  by (auto simp: from_bits_def bit_horner_sum_bit_word_iff)

lemma bits_in_width: "x \<le> maskw w \<Longrightarrow> w \<le> 128 \<Longrightarrow> {i. i < w \<and> bit x i} = {i. bit x i}"
  using le_maskw_bitD by blast

lemma count_ones_card: "x \<le> maskw w \<Longrightarrow> w \<le> 128 \<Longrightarrow> count_ones x = card {i. i < w \<and> bit x i}" for x :: u128
proof -
  assume x: "x \<le> maskw w" "w \<le> 128"
  have "set (filter (bit x) [0..<LENGTH(128)]) = {i. bit x i}" by (auto dest: bit_imp_le_length)
  then have "card {i. bit x i} = length (filter (bit x) [0..<LENGTH(128)])"
    using distinct_card [of "filter (bit x) [0..<LENGTH(128)]"] by simp
  then show ?thesis unfolding bits_in_width [OF x] count_ones_def by (rule sym)
qed

lemma leading_zeros_Max:
  fixes x :: u128
  assumes "x \<le> maskw w" "w \<le> 128" "x \<noteq> 0" "0 < w"
  shows "128 - w \<le> leading_zeros x \<and> leading_zeros x - (128 - w) = w - 1 - Max {i. i < w \<and> bit x i}"
proof -
  let ?l = "leading_zeros x"
  have lz: "?l < 128"
  proof (rule ccontr)
    assume "\<not> ?l < 128"
    then have "\<not> bit x i" for i using leading_zeros_above [of x i] by simp
    then show False using assms(3) by (auto simp: bit_eq_iff)
  qed
  then have top: "bit x (127 - ?l)" "?l < 128" using leading_zeros_at [of x] by simp_all
  have above: "\<not> bit x i" if "127 - ?l < i" for i using leading_zeros_above [of x i] that top(2) by simp
  have lt: "127 - ?l < w" using le_maskw_bitD [OF assms(1,2) top(1)] .
  have "Max {i. i < w \<and> bit x i} = 127 - ?l"
  proof (rule Max_eqI)
    show "finite {i. i < w \<and> bit x i}" by simp
    show "i \<le> 127 - ?l" if "i \<in> {i. i < w \<and> bit x i}" for i using that above [of i] not_le by blast
  qed (use lt top(1) in simp)
  then show ?thesis using lt top(2) assms(2,4) by linarith
qed

lemma trailing_zeros_Min:
  fixes x :: u128
  assumes "x \<le> maskw w" "w \<le> 128"
  shows "min (trailing_zeros x) w = (if x = 0 then w else Min {i. i < w \<and> bit x i})"
proof (cases "x = 0")
  case True
  then show ?thesis using assms(2) by (simp add: trailing_zeros_def takeWhile_eq_all_conv [THEN iffD2])
next
  case False
  then obtain n where n: "bit x n" by (auto simp: bit_eq_iff)
  then have "trailing_zeros x \<le> n" using trailing_zeros_below [of n x] not_le by blast
  then have at: "bit x (trailing_zeros x)" using trailing_zeros_at [of x] bit_imp_le_length [OF n] by simp
  then have lt: "trailing_zeros x < w" using le_maskw_bitD [OF assms] by blast
  have "Min {i. i < w \<and> bit x i} = trailing_zeros x"
  proof (rule Min_eqI)
    show "finite {i. i < w \<and> bit x i}" by simp
    show "trailing_zeros x \<le> i" if "i \<in> {i. i < w \<and> bit x i}" for i using that trailing_zeros_below [of i x] not_le by blast
  qed (use lt at in simp)
  then show ?thesis using False lt by simp
qed

lemma swap_bytes_width:
  assumes "w mod 8 = 0" "0 < w" "w \<le> 128"
  shows "drop_bit (128 - w) (swap_bytes x) = from_bits (\<lambda>i. i < w \<and> bit x (w - 8 - 8 * (i div 8) + i mod 8))"
proof (rule bit_word_eqI)
  fix i assume "i < LENGTH(128)"
  obtain k where k: "w = 8 * k" using assms(1) by (auto simp: mod_eq_0_iff_dvd elim: dvdE)
  have idx: "8 * (15 - (128 - w + i) div 8) + (128 - w + i) mod 8 = w - 8 - 8 * (i div 8) + i mod 8" if "i < w"
  proof -
    have "128 - w + i = 8 * (16 - k) + i" using k assms(3) by simp
    then have "(128 - w + i) div 8 = 16 - k + i div 8" "(128 - w + i) mod 8 = i mod 8" by simp_all
    then show ?thesis using k that assms(3) by (simp add: diff_mult_distrib2)
  qed
  have c: "128 - w + i < 128 \<longleftrightarrow> i < w" "i < w \<Longrightarrow> i < 128" using assms(2,3) by linarith+
  show "bit (drop_bit (128 - w) (swap_bytes x)) i \<longleftrightarrow>
      bit (from_bits (\<lambda>i. i < w \<and> bit x (w - 8 - 8 * (i div 8) + i mod 8))) i"
    unfolding bit_drop_bit_eq comp_def swap_bytes_def bit_from_bits
  proof (cases "i < w")
    case True
    show "(128 - w + i < 128 \<and> bit x (8 * (15 - (128 - w + i) div 8) + (128 - w + i) mod 8)) =
        (i < 128 \<and> i < w \<and> bit x (w - 8 - 8 * (i div 8) + i mod 8))"
      unfolding idx [OF True] using c True by blast
  qed (use c in blast)
qed

lemma reverse_bits_width:
  assumes "0 < w" "w \<le> 128"
  shows "drop_bit (128 - w) (reverse_bits x) = from_bits (\<lambda>i. i < w \<and> bit x (w - 1 - i))"
proof (rule bit_word_eqI)
  fix i assume "i < LENGTH(128)"
  have "127 - (128 - w + i) = w - 1 - i" using assms by linarith
  then show "bit (drop_bit (128 - w) (reverse_bits x)) i \<longleftrightarrow> bit (from_bits (\<lambda>i. i < w \<and> bit x (w - 1 - i))) i"
    using assms by (auto simp: bit_drop_bit_eq reverse_bits_def bit_from_bits)
qed

lemma count_sound:
  assumes "int_ty from" "int_ty to" "x \<le> maskw (width from)" "op \<in> {CtlzOp, CttzOp, CtpopOp, BswapOp, BitreverseOp}"
  shows "fold_count op x from to = Some (map_option (\<lambda>v. v AND maskw (width to)) (count_meaning op (width from) x))"
proof -
  define w where "w = width from"
  have w: "0 < w" "w \<le> 128" "x \<le> maskw w" using assms(1,3) by (simp_all add: int_ty_def w_def)
  note facts = imm_int_eq [OF assms(2)] w_def [symmetric] fold_count_def count_meaning_def Let_def
  consider "op = CtlzOp" | "op = CttzOp" | "op = CtpopOp" | "op = BswapOp" | "op = BitreverseOp" using assms(4) by blast
  then show ?thesis
  proof cases
    case 1
    have "leading_zeros (0 :: u128) = 128" by (simp add: leading_zeros_def takeWhile_eq_all_conv [THEN iffD2])
    then show ?thesis using 1 w leading_zeros_Max [OF w(3,2) _ w(1)] by (cases "x = 0") (simp_all add: facts)
  next
    case 2
    then show ?thesis using w trailing_zeros_Min [OF w(3,2)] by (simp add: facts)
  next
    case 3
    then show ?thesis using w count_ones_card [OF w(3,2)] by (simp add: facts)
  next
    case 4
    then show ?thesis using w swap_bytes_width [of w x] by (simp add: facts word_of_sint)
  next
    case 5
    then show ?thesis using w reverse_bits_width [of w x] by (simp add: facts word_of_sint)
  qed
qed

section \<open>Operations that answer whether they overflow\<close>

text \<open>A result fits the type just when reading its stored form back gives it.\<close>

lemma reads_back:
  assumes "0 < w" "w \<le> 128"
  shows "signed_at (word_of_int e AND maskw w) w = e \<longleftrightarrow> - (2 ^ (w - 1)) \<le> e \<and> e < 2 ^ (w - 1)"
proof
  assume "signed_at (word_of_int e AND maskw w) w = e"
  then show "- (2 ^ (w - 1)) \<le> e \<and> e < 2 ^ (w - 1)"
    using signed_at_limits [OF assms and_maskw_le [OF assms(2)], of "word_of_int e"] by simp
next
  assume "- (2 ^ (w - 1)) \<le> e \<and> e < 2 ^ (w - 1)"
  then show "signed_at (word_of_int e AND maskw w) w = e"
    using uint_wrapped [OF assms(2), of e] by (intro signed_at_unique [OF assms]) simp_all
qed

lemma below_width:
  fixes x :: u128
  assumes "w \<le> 128"
  shows "w \<ge> 128 \<or> drop_bit w x = 0 \<longleftrightarrow> uint x < 2 ^ w"
proof (cases "w = 128")
  case True
  then show ?thesis using uint_lt2p [of x] by simp
next
  case False
  have "drop_bit w x = 0 \<longleftrightarrow> uint x div 2 ^ w = 0" by (simp add: word_uint_eq_iff word_red)
  also have "\<dots> \<longleftrightarrow> uint x < 2 ^ w"
    using pos_imp_zdiv_nonneg_iff [of "2 ^ w" "uint x"] by (auto simp: div_pos_pos_trivial zdiv_eq_0_iff)
  finally show ?thesis using False assms by simp
qed

lemma unsigned_fits:
  assumes "w \<le> 128"
  shows "(case (case kind of CheckAdd \<Rightarrow> checked_add a b | CheckSub \<Rightarrow> checked_sub a b | CheckMul \<Rightarrow> checked_mul a b) of
      None \<Rightarrow> False | Some exact \<Rightarrow> w \<ge> 128 \<or> drop_bit w exact = 0) \<longleftrightarrow> \<not> leaves_type kind False w a b"
proof -
  have p: "(2 :: int) ^ w \<le> 2 ^ 128" using assms by (intro power_increasing) simp_all
  show ?thesis
    unfolding below_width [OF assms]
  proof (cases kind)
    case CheckAdd
    then show "(case (case kind of CheckAdd \<Rightarrow> checked_add a b | CheckSub \<Rightarrow> checked_sub a b | CheckMul \<Rightarrow> checked_mul a b) of
        None \<Rightarrow> False | Some exact \<Rightarrow> uint exact < 2 ^ w) \<longleftrightarrow> \<not> leaves_type kind False w a b"
      using p uint_add_small [of a b] add_nonneg_nonneg [OF uint_ge_0 [of a] uint_ge_0 [of b]]
      by (auto simp: checked_add_def leaves_type_def Let_def not_le leD)
  next
    case CheckSub
    then show "(case (case kind of CheckAdd \<Rightarrow> checked_add a b | CheckSub \<Rightarrow> checked_sub a b | CheckMul \<Rightarrow> checked_mul a b) of
        None \<Rightarrow> False | Some exact \<Rightarrow> uint exact < 2 ^ w) \<longleftrightarrow> \<not> leaves_type kind False w a b"
      using uint_sub_small [of b a] by (auto simp: checked_sub_def leaves_type_def Let_def word_le_def not_le leD)
  next
    case CheckMul
    then show "(case (case kind of CheckAdd \<Rightarrow> checked_add a b | CheckSub \<Rightarrow> checked_sub a b | CheckMul \<Rightarrow> checked_mul a b) of
        None \<Rightarrow> False | Some exact \<Rightarrow> uint exact < 2 ^ w) \<longleftrightarrow> \<not> leaves_type kind False w a b"
      using p uint_mult_small [of a b] mult_nonneg_nonneg [of "uint a" "uint b"]
      by (auto simp: checked_mul_def leaves_type_def Let_def not_le leD)
  qed
qed

lemma signed_fits:
  assumes "int_ty ty"
  shows "(case checked_i128 (checked_exact kind (signed_at a (width ty)) (signed_at b (width ty))) of None \<Rightarrow> Some False
      | Some exact \<Rightarrow> do { i \<leftarrow> imm_int exact ty; s \<leftarrow> imm_signed i ty; Some (s = exact) }) =
    Some (\<not> leaves_type kind True (width ty) a b)"
proof -
  define e where "e = checked_exact kind (signed_at a (width ty)) (signed_at b (width ty))"
  have w: "0 < width ty" "width ty \<le> 128" using assms by (simp_all add: int_ty_def)
  have l: "leaves_type kind True (width ty) a b \<longleftrightarrow> \<not> (- (2 ^ (width ty - 1)) \<le> e \<and> e < 2 ^ (width ty - 1))"
    by (auto simp: leaves_type_def Let_def e_def)
  show ?thesis
    unfolding e_def [symmetric] l
    using limits_in_i128 [OF w(2), of e] reads_back [OF w, of e] assms
    by (auto simp: checked_i128_def imm_int_eq imm_signed_eq)
qed

lemma overflowing_eq:
  assumes "int_ty ty" "\<not> is_vector ty" "overflow_op op = Some (kind, is_signed)"
  shows "overflowing op a b ty =
    Some (Some ((case kind of CheckAdd \<Rightarrow> a + b | CheckSub \<Rightarrow> a - b | CheckMul \<Rightarrow> a * b) AND maskw (width ty),
      leaves_type kind is_signed (width ty) a b))"
proof -
  have w: "width ty \<le> 128" using assms(1) by (simp add: int_ty_def)
  have i: "is_int ty" using assms(1) by (simp add: int_ty_def)
  have ones: "imm_int (- 1) ty = Some (maskw (width ty))" using assms(1) by (simp add: imm_int_eq)
  have e: "(case kind of CheckAdd \<Rightarrow> x + y | CheckSub \<Rightarrow> x - y | CheckMul \<Rightarrow> x * y) = checked_exact kind x y" for x y
    by (cases kind) simp_all
  show ?thesis
  proof (cases is_signed)
    case True
    then show ?thesis
      unfolding overflowing_def assms(3) option.case prod.case e
      by (simp add: i assms(2) ones imm_signed_eq [OF assms(1)] signed_fits [OF assms(1)])
  next
    case False
    then show ?thesis
      unfolding overflowing_def assms(3) option.case prod.case unsigned_fits [OF w]
      by (simp add: i assms(2) ones)
  qed
qed

end
