(* ===== verification/FoldRun.thy ===== *)
theory FoldRun
  imports FoldSound
begin

text \<open>
  Folding against a run of the function: an assignment of values that is what every instruction means. Whatever
  constant folding answers for a value, through however many instructions it looked, is the
  value it has in the run; and the answer is in every range the range analysis answers for it.
\<close>

section \<open>A run\<close>

abbreviation conversions :: "opcode set" where "conversions \<equiv> {TruncOp, SExtOp, ZExtOp}"
abbreviation shifts :: "opcode set" where "shifts \<equiv> {ShlOp, LShrOp, AShrOp}"
abbreviation binaries :: "opcode set" where "binaries \<equiv> {AddOp, SubOp, MulOp, AndOp, OrOp, XorOp}"
abbreviation divisions :: "opcode set" where "divisions \<equiv> {SDivOp, UDivOp, SRemOp, URemOp}"
abbreviation bit_counts :: "opcode set" where "bit_counts \<equiv> {CtlzOp, CttzOp, CtpopOp, BswapOp, BitreverseOp}"

definition folds :: "opcode set" where
  "folds = conversions \<union> shifts \<union> binaries \<union> divisions \<union> bit_counts \<union> {ICmpOp, SelectOp}"

text \<open>What the verifier asks of the types of an instruction.\<close>

definition typed_inst :: "('v \<Rightarrow> irtype) \<Rightarrow> 'v inst_data \<Rightarrow> irtype \<Rightarrow> bool" where
  "typed_inst T inst ty \<longleftrightarrow>
     (let op = iop inst; a = iargs inst in int_ty ty \<and>
       (op \<in> conversions \<union> bit_counts \<longrightarrow> length a = 1 \<and> int_ty (T (a ! 0))) \<and>
       (op = TruncOp \<longrightarrow> width ty \<le> width (T (a ! 0))) \<and>
       (op \<in> binaries \<union> divisions \<longrightarrow> length a = 2 \<and> T (a ! 0) = ty \<and> T (a ! 1) = ty) \<and>
       (op \<in> shifts \<longrightarrow> length a = 2 \<and> T (a ! 0) = ty \<and> int_ty (T (a ! 1))) \<and>
       (op = ICmpOp \<longrightarrow> length a = 2 \<and> int_ty (T (a ! 0)) \<and> T (a ! 1) = T (a ! 0)) \<and>
       (op = SelectOp \<longrightarrow> length a = 3 \<and> T (a ! 1) = ty \<and> T (a ! 2) = ty))"

definition meaning :: "('v \<Rightarrow> irtype) \<Rightarrow> ('v \<Rightarrow> imm) \<Rightarrow> 'v inst_data \<Rightarrow> irtype \<Rightarrow> imm option" where
  "meaning T env inst ty =
     (let op = iop inst; a = iargs inst; x = env (a ! 0); y = env (a ! 1); w = width (T (a ! 0)) in
      if op \<in> conversions then Some ((if op = SExtOp then word_of_int (signed_at x w) else x) AND maskw (width ty))
      else if op \<in> shifts then shift_meaning op (iflags inst) w x y
      else if op \<in> binaries then binary_meaning op (iflags inst) w x y
      else if op \<in> divisions then divide_meaning op w x y
      else if op \<in> bit_counts then map_option (\<lambda>v. v AND maskw (width ty)) (count_meaning op w x)
      else if op = ICmpOp then
        (case iextra inst of PredExtra p \<Rightarrow> Some (of_bool (pred_holds p w x y)) | _ \<Rightarrow> None)
      else if op = SelectOp then Some (if x = 0 then env (a ! 2) else y)
      else None)"

definition runs :: "'v func \<Rightarrow> ('v \<Rightarrow> imm) \<Rightarrow> bool" where
  "runs f env \<longleftrightarrow>
     (\<forall>v. int_ty (type_of_value f v) \<longrightarrow> env v \<le> maskw (width (type_of_value f v))) \<and>
     (\<forall>v inst. defined_by f v = Some inst \<longrightarrow>
        (\<forall>i. iop inst = IConstOp \<longrightarrow> iextra inst = ImmExtra i \<longrightarrow> env v = i) \<and>
        (iop inst \<in> folds \<longrightarrow> typed_inst (type_of_value f) inst (type_of_value f v) \<and>
           meaning (type_of_value f) env inst (type_of_value f v) = Some (env v)))"

section \<open>One instruction\<close>

text \<open>An operand is read as what it is in the run, or not at all.\<close>

definition reads_run :: "('v \<Rightarrow> irtype) \<Rightarrow> ('v \<Rightarrow> imm) \<Rightarrow> ('v \<Rightarrow> (imm \<times> irtype) folded) \<Rightarrow> bool" where
  "reads_run T env operand \<longleftrightarrow> (\<forall>v. operand v = Some None \<or> operand v = Some (Some (env v, T v)))"

text \<open>An answer that is right when there is one, and never a panic.\<close>

definition right :: "imm \<Rightarrow> imm folded \<Rightarrow> bool" where
  "right v r \<longleftrightarrow> r = Some None \<or> r = Some (Some v)"

lemma right_try:
  assumes "reads_run T env operand" "n < length a" "right v (g (env (a ! n), T (a ! n)))"
  shows "right v (and_try (case arg_at a n of None \<Rightarrow> Some None | Some x \<Rightarrow> operand x) g)"
  using assms by (auto simp: reads_run_def arg_at_def right_def dest: spec [of _ "a ! n"])

lemma rightI: "(\<exists>r. q = Some r \<and> (\<forall>c v'. r = Some c \<longrightarrow> m = Some v' \<longrightarrow> c = v')) \<Longrightarrow> m = Some v \<Longrightarrow> right v q"
proof -
  assume a: "\<exists>r. q = Some r \<and> (\<forall>c v'. r = Some c \<longrightarrow> m = Some v' \<longrightarrow> c = v')" "m = Some v"
  then obtain r where "q = Some r" "\<And>c. r = Some c \<Longrightarrow> c = v" by blast
  then show ?thesis by (cases r) (simp_all add: right_def)
qed

text \<open>Each group of operations on its own: what folding does with it, and what the types are.\<close>

lemma arithmetic_conversion:
  "iop inst \<in> conversions \<Longrightarrow> arithmetic inst ty operand =
    and_try (case arg_at (iargs inst) 0 of None \<Rightarrow> Some None | Some x \<Rightarrow> operand x)
      (\<lambda>(value, from). map_option Some (convert (iop inst) value from ty))"
  unfolding arithmetic_def Let_def by (simp only: if_True)

lemma arithmetic_shift:
  "iop inst \<in> shifts \<Longrightarrow> arithmetic inst ty operand =
    and_try (case arg_at (iargs inst) 0 of None \<Rightarrow> Some None | Some x \<Rightarrow> operand x) (\<lambda>(value, from).
      and_try (case arg_at (iargs inst) 1 of None \<Rightarrow> Some None | Some x \<Rightarrow> operand x) (\<lambda>(count, count_ty).
        fold_shift (iop inst) value from count count_ty ty (iflags inst)))"
  unfolding arithmetic_def Let_def by (elim insertE emptyE) simp_all

lemma arithmetic_binary:
  "iop inst \<in> binaries \<Longrightarrow> arithmetic inst ty operand =
    and_try (case arg_at (iargs inst) 0 of None \<Rightarrow> Some None | Some x \<Rightarrow> operand x) (\<lambda>(lhs, lhs_ty).
      and_try (case arg_at (iargs inst) 1 of None \<Rightarrow> Some None | Some x \<Rightarrow> operand x) (\<lambda>(rhs, _).
        fold_binary (iop inst) lhs rhs lhs_ty ty (iflags inst)))"
  unfolding arithmetic_def Let_def by (elim insertE emptyE) simp_all

lemma arithmetic_division:
  "iop inst \<in> divisions \<Longrightarrow> arithmetic inst ty operand =
    and_try (case arg_at (iargs inst) 0 of None \<Rightarrow> Some None | Some x \<Rightarrow> operand x) (\<lambda>(lhs, from).
      and_try (case arg_at (iargs inst) 1 of None \<Rightarrow> Some None | Some x \<Rightarrow> operand x) (\<lambda>(rhs, _).
        fold_divide (iop inst) lhs rhs from ty))"
  unfolding arithmetic_def Let_def by (elim insertE emptyE) simp_all

lemma arithmetic_count:
  "iop inst \<in> bit_counts \<Longrightarrow> arithmetic inst ty operand =
    and_try (case arg_at (iargs inst) 0 of None \<Rightarrow> Some None | Some x \<Rightarrow> operand x)
      (\<lambda>(value, from). fold_count (iop inst) value from ty)"
  unfolding arithmetic_def Let_def by (elim insertE emptyE) simp_all

lemma arithmetic_compare:
  "iop inst = ICmpOp \<Longrightarrow> iextra inst = PredExtra p \<Longrightarrow> arithmetic inst ty operand =
    and_try (case arg_at (iargs inst) 0 of None \<Rightarrow> Some None | Some x \<Rightarrow> operand x) (\<lambda>(lhs, from).
      and_try (case arg_at (iargs inst) 1 of None \<Rightarrow> Some None | Some x \<Rightarrow> operand x) (\<lambda>(rhs, _).
        do { b \<leftarrow> fold_compare p lhs rhs from; i \<leftarrow> imm_int (of_bool b) ty; Some (Some i) }))"
  unfolding arithmetic_def Let_def by simp

lemma arithmetic_select:
  "iop inst = SelectOp \<Longrightarrow> arithmetic inst ty operand =
    and_try (case arg_at (iargs inst) 1 of None \<Rightarrow> Some None | Some x \<Rightarrow> operand x) (\<lambda>(yes, _).
      and_try (case arg_at (iargs inst) 2 of None \<Rightarrow> Some None | Some x \<Rightarrow> operand x) (\<lambda>(no, _).
        do { a \<leftarrow> imm_signed yes ty; b \<leftarrow> imm_signed no ty; Some (if a = b then Some yes else None) }))"
  unfolding arithmetic_def Let_def by simp

lemma typed_result: "typed_inst T inst ty \<Longrightarrow> int_ty ty"
  by (simp add: typed_inst_def Let_def)

lemma typed_one:
  "typed_inst T inst ty \<Longrightarrow> iop inst \<in> conversions \<or> iop inst \<in> bit_counts \<Longrightarrow> length (iargs inst) = 1 \<and> int_ty (T (iargs inst ! 0))"
  unfolding typed_inst_def Let_def by blast

lemma typed_trunc: "typed_inst T inst ty \<Longrightarrow> iop inst = TruncOp \<Longrightarrow> width ty \<le> width (T (iargs inst ! 0))"
  unfolding typed_inst_def Let_def by blast

lemma typed_two:
  "typed_inst T inst ty \<Longrightarrow> iop inst \<in> binaries \<or> iop inst \<in> divisions \<Longrightarrow>
    length (iargs inst) = 2 \<and> T (iargs inst ! 0) = ty \<and> T (iargs inst ! 1) = ty"
  unfolding typed_inst_def Let_def by blast

lemma typed_shift:
  "typed_inst T inst ty \<Longrightarrow> iop inst \<in> shifts \<Longrightarrow> length (iargs inst) = 2 \<and> T (iargs inst ! 0) = ty \<and> int_ty (T (iargs inst ! 1))"
  unfolding typed_inst_def Let_def by blast

lemma typed_compare:
  "typed_inst T inst ty \<Longrightarrow> iop inst = ICmpOp \<Longrightarrow>
    length (iargs inst) = 2 \<and> int_ty (T (iargs inst ! 0)) \<and> T (iargs inst ! 1) = T (iargs inst ! 0)"
  unfolding typed_inst_def Let_def by blast

lemma typed_select:
  "typed_inst T inst ty \<Longrightarrow> iop inst = SelectOp \<Longrightarrow> length (iargs inst) = 3 \<and> T (iargs inst ! 1) = ty \<and> T (iargs inst ! 2) = ty"
  unfolding typed_inst_def Let_def by blast

lemma meaning_groups:
  "iop inst \<in> shifts \<Longrightarrow> meaning T env inst ty =
    shift_meaning (iop inst) (iflags inst) (width (T (iargs inst ! 0))) (env (iargs inst ! 0)) (env (iargs inst ! 1))"
  "iop inst \<in> binaries \<Longrightarrow> meaning T env inst ty =
    binary_meaning (iop inst) (iflags inst) (width (T (iargs inst ! 0))) (env (iargs inst ! 0)) (env (iargs inst ! 1))"
  "iop inst \<in> divisions \<Longrightarrow> meaning T env inst ty =
    divide_meaning (iop inst) (width (T (iargs inst ! 0))) (env (iargs inst ! 0)) (env (iargs inst ! 1))"
  "iop inst \<in> bit_counts \<Longrightarrow> meaning T env inst ty =
    map_option (\<lambda>v. v AND maskw (width ty)) (count_meaning (iop inst) (width (T (iargs inst ! 0))) (env (iargs inst ! 0)))"
  unfolding meaning_def Let_def by (elim insertE emptyE; simp)+

lemma right_two:
  assumes "reads_run T env operand" "n < length a" "k < length a" "right v (g (env (a ! n)) (T (a ! n)) (env (a ! k)) (T (a ! k)))"
  shows "right v (and_try (case arg_at a n of None \<Rightarrow> Some None | Some x \<Rightarrow> operand x) (\<lambda>(x, t).
    and_try (case arg_at a k of None \<Rightarrow> Some None | Some x \<Rightarrow> operand x) (\<lambda>(y, u). g x t y u)))"
  by (rule right_try [OF assms(1,2)], unfold prod.case, rule right_try [OF assms(1,3)], unfold prod.case, rule assms(4))

lemma right_conversion:
  assumes t: "typed_inst T inst ty" and run: "reads_run T env operand" and m: "meaning T env inst ty = Some v"
    and fits: "\<And>x. int_ty (T x) \<Longrightarrow> env x \<le> maskw (width (T x))"
    and op: "iop inst \<in> conversions"
  shows "right v (arithmetic inst ty operand)"
proof -
  let ?x = "iargs inst ! 0"
  have a: "0 < length (iargs inst)" "int_ty (T ?x)" using typed_one [OF t] op by auto
  have "v = (if iop inst = SExtOp then word_of_int (signed_at (env ?x) (width (T ?x))) else env ?x) AND maskw (width ty)"
    using m unfolding meaning_def Let_def by (simp only: op if_True option.inject)
  then have "convert (iop inst) (env ?x) (T ?x) ty = Some v"
    using convert_eq [OF a(2) typed_result [OF t] fits [OF a(2)], of "iop inst"] typed_trunc [OF t] by auto
  then show ?thesis
    unfolding arithmetic_conversion [OF op] by (intro right_try [OF run a(1)]) (simp add: right_def)
qed

lemma right_shift:
  assumes t: "typed_inst T inst ty" and run: "reads_run T env operand" and m: "meaning T env inst ty = Some v"
    and fits: "\<And>x. int_ty (T x) \<Longrightarrow> env x \<le> maskw (width (T x))"
    and op: "iop inst \<in> shifts"
  shows "right v (arithmetic inst ty operand)"
proof -
  have a: "0 < length (iargs inst)" "1 < length (iargs inst)" "T (iargs inst ! 0) = ty" "int_ty (T (iargs inst ! 1))"
    using typed_shift [OF t op] by auto
  note ty = typed_result [OF t]
  have "env (iargs inst ! 0) \<le> maskw (width ty)" using fits [of "iargs inst ! 0"] a(3) ty by simp
  from rightI [OF fold_shift_sound [OF ty a(4) this op] m [unfolded meaning_groups(1) [OF op] a(3)]]
  show ?thesis unfolding arithmetic_shift [OF op] by (intro right_two [OF run a(1,2)]) (simp only: a(3))
qed

lemma right_binary:
  assumes t: "typed_inst T inst ty" and run: "reads_run T env operand" and m: "meaning T env inst ty = Some v"
    and fits: "\<And>x. int_ty (T x) \<Longrightarrow> env x \<le> maskw (width (T x))"
    and op: "iop inst \<in> binaries"
  shows "right v (arithmetic inst ty operand)"
proof -
  have a: "0 < length (iargs inst)" "1 < length (iargs inst)" "T (iargs inst ! 0) = ty" "T (iargs inst ! 1) = ty"
    using typed_two [OF t] op by auto
  note ty = typed_result [OF t]
  have le: "env (iargs inst ! 0) \<le> maskw (width ty)" "env (iargs inst ! 1) \<le> maskw (width ty)"
    using fits [of "iargs inst ! 0"] fits [of "iargs inst ! 1"] a(3,4) ty by simp_all
  from rightI [OF binary_sound [OF ty le op] m [unfolded meaning_groups(2) [OF op] a(3)]]
  show ?thesis unfolding arithmetic_binary [OF op] by (intro right_two [OF run a(1,2)]) (simp only: a(3))
qed

lemma right_division:
  assumes t: "typed_inst T inst ty" and run: "reads_run T env operand" and m: "meaning T env inst ty = Some v"
    and fits: "\<And>x. int_ty (T x) \<Longrightarrow> env x \<le> maskw (width (T x))"
    and op: "iop inst \<in> divisions"
  shows "right v (arithmetic inst ty operand)"
proof -
  have a: "0 < length (iargs inst)" "1 < length (iargs inst)" "T (iargs inst ! 0) = ty" "T (iargs inst ! 1) = ty"
    using typed_two [OF t] op by auto
  note ty = typed_result [OF t]
  have le: "env (iargs inst ! 0) \<le> maskw (width ty)" "env (iargs inst ! 1) \<le> maskw (width ty)"
    using fits [of "iargs inst ! 0"] fits [of "iargs inst ! 1"] a(3,4) ty by simp_all
  from divide_sound [OF ty le op] m [unfolded meaning_groups(3) [OF op] a(3)]
  have "right v (fold_divide (iop inst) (env (iargs inst ! 0)) (env (iargs inst ! 1)) ty ty)" by (simp add: right_def)
  then   show ?thesis unfolding arithmetic_division [OF op] by (intro right_two [OF run a(1,2)]) (simp only: a(3))
qed

lemma right_count:
  assumes t: "typed_inst T inst ty" and run: "reads_run T env operand" and m: "meaning T env inst ty = Some v"
    and fits: "\<And>x. int_ty (T x) \<Longrightarrow> env x \<le> maskw (width (T x))"
    and op: "iop inst \<in> bit_counts"
  shows "right v (arithmetic inst ty operand)"
proof -
  have a: "0 < length (iargs inst)" "int_ty (T (iargs inst ! 0))" using typed_one [OF t] op by auto
  have "right v (fold_count (iop inst) (env (iargs inst ! 0)) (T (iargs inst ! 0)) ty)"
    using count_sound [OF a(2) typed_result [OF t] fits [OF a(2)] op] m unfolding meaning_groups(4) [OF op] by (simp add: right_def)
  then show ?thesis unfolding arithmetic_count [OF op] by (intro right_try [OF run a(1)]) (simp only: prod.case)
qed

lemma right_compare:
  assumes t: "typed_inst T inst ty" and run: "reads_run T env operand" and m: "meaning T env inst ty = Some v"
    and fits: "\<And>x. int_ty (T x) \<Longrightarrow> env x \<le> maskw (width (T x))"
    and op: "iop inst = ICmpOp"
  shows "right v (arithmetic inst ty operand)"
proof -
  let ?x = "iargs inst ! 0" and ?y = "iargs inst ! 1"
  have a: "0 < length (iargs inst)" "1 < length (iargs inst)" "int_ty (T ?x)" using typed_compare [OF t op] by auto
  obtain p where p: "iextra inst = PredExtra p" "v = of_bool (pred_holds p (width (T ?x)) (env ?x) (env ?y))"
    using m op by (auto simp: meaning_def Let_def split: extra.splits)
  have "maskw (width ty) AND 1 = (1 :: u128)"
    using typed_result [OF t] by (intro bit_word_eqI) (auto simp: int_ty_def bit_simps)
  then have "imm_int (of_bool b) ty = Some (of_bool b)" for b
    using imm_int_eq [OF typed_result [OF t], of "of_bool b"] by (cases b) (simp_all add: and.commute)
  then show ?thesis
    unfolding arithmetic_compare [OF op p(1)] by (intro right_two [OF run a(1,2)]) (simp add: compare_eq [OF a(3)] right_def p(2))
qed

lemma right_select:
  assumes t: "typed_inst T inst ty" and run: "reads_run T env operand" and m: "meaning T env inst ty = Some v"
    and fits: "\<And>x. int_ty (T x) \<Longrightarrow> env x \<le> maskw (width (T x))"
    and op: "iop inst = SelectOp"
  shows "right v (arithmetic inst ty operand)"
proof -
  let ?x = "iargs inst ! 1" and ?y = "iargs inst ! 2"
  have a: "1 < length (iargs inst)" "2 < length (iargs inst)" "T ?x = ty" "T ?y = ty" using typed_select [OF t op] by auto
  note ty = typed_result [OF t]
  have v: "v = (if env (iargs inst ! 0) = 0 then env ?y else env ?x)" using m op by (auto simp: meaning_def Let_def)
  have le: "env ?x \<le> maskw (width ty)" "env ?y \<le> maskw (width ty)" using fits [of ?x] fits [of ?y] a(3,4) ty by simp_all
  have w: "0 < width ty" "width ty \<le> 128" using ty by (simp_all add: int_ty_def)
  have "env ?x = env ?y" if "signed_at (env ?x) (width ty) = signed_at (env ?y) (width ty)"
    by (rule trans [OF wrapped_signed [OF w le(1), symmetric, unfolded that] wrapped_signed [OF w le(2)]])
  then have "right v (do { x \<leftarrow> imm_signed (env ?x) ty; y \<leftarrow> imm_signed (env ?y) ty; Some (if x = y then Some (env ?x) else None) })"
    unfolding v imm_signed_eq [OF ty] by (cases "signed_at (env ?x) (width ty) = signed_at (env ?y) (width ty)") (simp_all add: right_def)
  then show ?thesis unfolding arithmetic_select [OF op] by (intro right_two [OF run a(1,2)])
qed

lemma arithmetic_right:
  assumes t: "typed_inst T inst ty" and run: "reads_run T env operand" and m: "meaning T env inst ty = Some v"
    and fits: "\<And>x. int_ty (T x) \<Longrightarrow> env x \<le> maskw (width (T x))"
    and op: "iop inst \<in> folds"
  shows "right v (arithmetic inst ty operand)"
  using op right_conversion [OF t run m fits] right_shift [OF t run m fits] right_binary [OF t run m fits]
    right_division [OF t run m fits] right_count [OF t run m fits] right_compare [OF t run m fits] right_select [OF t run m fits]
  unfolding folds_def by blast

section \<open>Whole expressions\<close>

lemma runsD:
  assumes "runs f env"
  shows "int_ty (type_of_value f v) \<Longrightarrow> env v \<le> maskw (width (type_of_value f v))"
    and "defined_by f v = Some inst \<Longrightarrow> iop inst = IConstOp \<Longrightarrow> iextra inst = ImmExtra i \<Longrightarrow> env v = i"
    and "defined_by f v = Some inst \<Longrightarrow> iop inst \<in> folds \<Longrightarrow> typed_inst (type_of_value f) inst (type_of_value f v)"
    and "defined_by f v = Some inst \<Longrightarrow> iop inst \<in> folds \<Longrightarrow> meaning (type_of_value f) env inst (type_of_value f v) = Some (env v)"
  using assms unfolding runs_def by blast+

lemma constant_of_run: "runs f env \<Longrightarrow> constant_of f v = Some (c, ty) \<Longrightarrow> c = env v \<and> ty = type_of_value f v"
  using runsD(2) [of f env v] by (auto simp: constant_of_def Let_def split: option.splits extra.splits if_splits)

lemma arithmetic_other: "iop inst \<notin> folds \<Longrightarrow> arithmetic inst ty operand = Some None"
  by (simp add: arithmetic_def folds_def)

lemma evaluated_run: "runs f env \<Longrightarrow> reads_run (type_of_value f) env (evaluated depth f)"
proof (induction depth)
  case 0
  have "constant_of f v = None \<or> constant_of f v = Some (env v, type_of_value f v)" for v
    using constant_of_run [OF 0, of v] by (cases "constant_of f v") force+
  then show ?case by (simp add: reads_run_def)
next
  case (Suc depth)
  have "evaluated (Suc depth) f v = Some None \<or> evaluated (Suc depth) f v = Some (Some (env v, type_of_value f v))" for v
  proof (cases "constant_of f v")
    case (Some found)
    then show ?thesis using constant_of_run [OF Suc(2), of v] by (cases found) simp
  next
    case none: None
    show ?thesis
    proof (cases "defined_by f v")
      case None
      then show ?thesis using none by simp
    next
      case (Some inst)
      have "right (env v) (arithmetic inst (type_of_value f v) (evaluated depth f))"
      proof (cases "iop inst \<in> folds")
        case True
        note run = runsD(3,4) [OF Suc(2) Some True]
        show ?thesis by (rule arithmetic_right [OF run(1) Suc(1) [OF Suc(2)] run(2) runsD(1) [OF Suc(2)] True])
      next
        case False
        then show ?thesis by (simp add: arithmetic_other right_def)
      qed
      then show ?thesis using none Some by (auto simp: Let_def right_def)
    qed
  qed
  then show ?case by (simp add: reads_run_def)
qed


lemma int_ty_8: "int_ty (pack KInt 8 1)" "width (pack KInt 8 1) = 8" "is_int (pack KInt 8 1)" "is_scalar (pack KInt 8 1)"
  using unpack [of 8] by (simp_all add: int_ty_def is_int_def type_bits_def is_scalar_def)

text \<open>A constant 200, a constant 100 and their sum, at eight bits.\<close>

abbreviation sum_of_two :: "nat func" where
  "sum_of_two \<equiv> \<lparr>defined_by = [0 \<mapsto> \<lparr>iop = IConstOp, iflags = NONE, iextra = ImmExtra 200, iargs = [], iresults = 1\<rparr>,
      1 \<mapsto> \<lparr>iop = IConstOp, iflags = NONE, iextra = ImmExtra 100, iargs = [], iresults = 1\<rparr>,
      2 \<mapsto> \<lparr>iop = AddOp, iflags = NONE, iextra = NoExtra, iargs = [0, 1], iresults = 1\<rparr>],
    type_of_value = \<lambda>_. pack KInt 8 1\<rparr>"


text \<open>C37: An overflow checking operation on two constants of a scalar type folds to the wrapped result and to whether the exact
  one leaves the type, at every width up to 128 and for both signednesses.\<close>

theorem overflowing_exact:
  assumes "type_int n = Some ty" "n \<le> 128" "overflow_op op = Some (kind, is_signed)"
  shows "overflowing op a b ty =
    Some (Some ((case kind of CheckAdd \<Rightarrow> a + b | CheckSub \<Rightarrow> a - b | CheckMul \<Rightarrow> a * b) AND maskw (unat n),
      leaves_type kind is_signed (unat n) a b))"
proof -
  have t: "is_int ty" "type_bits ty = n" "type_lanes ty = 1" "0 < n"
    using type_int_SomeD [OF assms(1)] unpack [of n] by (auto simp: is_int_def type_bits_def)
  then have "int_ty ty" using assms(2) by (simp add: int_ty_def word_le_nat_alt word_less_nat_alt)
  moreover have "\<not> is_vector ty" using t(3) by (simp add: is_vector_def)
  ultimately show ?thesis using overflowing_eq [OF _ _ assms(3)] t(2) by simp
qed

lemma overflowing_exact_witness:
  "\<exists>ty. type_int 8 = Some ty \<and> overflowing UAddOverflowOp 200 100 ty = Some (Some (44, True))"
proof -
  obtain ty where ty: "type_int 8 = Some ty" by (simp add: type_int_def MAX_TYPE_BITS_def BITS_MASK_def)
  have "overflow_op UAddOverflowOp = Some (CheckAdd, False)" by (simp add: overflow_op_def)
  from overflowing_exact [OF ty _ this, of 200 100] ty show ?thesis
    by (simp add: maskw_def MAX_BITS_def leaves_type_def)
qed

text \<open>C38: Folding and the range analysis agree: where the operation is defined, the constant folded from two values is in the range
  the analysis answers for any ranges that hold them, so a range of one value is that constant.\<close>

theorem fold_within_ranges:
  assumes "int_ty ty" "op \<in> binaries" "range_ok a" "range_ok b" "rwidth a = width ty" "rwidth b = width ty"
    and "x \<in> gamma a" "y \<in> gamma b" "binary_meaning op f (width ty) x y \<noteq> None" "fold_binary op x y ty ty f = Some (Some c)"
  shows "\<exists>q. (if op = AddOp then ops_add a b f else if op = SubOp then ops_sub a b f else if op = MulOp then ops_mul a b f
      else if op = AndOp then ops_and a b else if op = OrOp then ops_or a b else ops_xor a b) = Some q \<and>
    c \<in> gamma q \<and> (\<forall>k. singleton q = Some k \<longrightarrow> k = c)"
proof -
  have le: "x \<le> maskw (width ty)" "y \<le> maskw (width ty)"
    using gamma_le_width [OF assms(3,7)] gamma_le_width [OF assms(4,8)] assms(5,6) by simp_all
  obtain v where v: "binary_meaning op f (width ty) x y = Some v" using assms(9) by blast
  then have c: "v = c" using binary_sound [OF assms(1) le assms(2), of f] assms(10) by auto
  have w: "rwidth a = rwidth b" using assms(5,6) by simp
  have one: "\<forall>k. singleton q = Some k \<longrightarrow> k = c" if "range_ok q" "c \<in> gamma q" for q
    using singleton_sound [OF that(1)] that(2) by blast
  have fin: "\<exists>q. F = Some q \<and> c \<in> gamma q \<and> (\<forall>k. singleton q = Some k \<longrightarrow> k = c)"
    if t: "\<exists>r. F = Some r \<and> range_ok r \<and> rwidth r = rwidth a \<and>
        (\<forall>x \<in> gamma a. \<forall>y \<in> gamma b. \<forall>v. conc (rwidth a) x y = Some v \<longrightarrow> v \<in> gamma r)"
      and m: "conc (width ty) x y = Some v" for F and conc :: concrete
  proof -
    obtain q where "F = Some q" "range_ok q" "c \<in> gamma q" using t m c assms(5,7,8) by auto
    then show ?thesis using one by blast
  qed
  note t = radd.transfer [OF assms(3,4) w, of f] rsub.transfer [OF assms(3,4) w, of f] rmul.transfer [OF assms(3,4) w, of f]
    rand.transfer [OF assms(3,4) w] ror.transfer [OF assms(3,4) w] rxor.transfer [OF assms(3,4) w]
  consider "op = AddOp" | "op = SubOp" | "op = MulOp" | "op = AndOp" | "op = OrOp" | "op = XorOp" using assms(2) by blast
  then show ?thesis
  proof cases
    case 1
    then show ?thesis using fin [of "ops_add a b f" "add_conc f", OF t(1)] v by (simp add: binary_meaning_def)
  next
    case 2
    then show ?thesis using fin [of "ops_sub a b f" "sub_conc f", OF t(2)] v by (simp add: binary_meaning_def)
  next
    case 3
    then show ?thesis using fin [of "ops_mul a b f" "mul_conc f", OF t(3)] v by (simp add: binary_meaning_def)
  next
    case 4
    then show ?thesis using fin [of "ops_and a b" "and_conc", OF t(4)] v by (simp add: binary_meaning_def and_conc_def)
  next
    case 5
    then show ?thesis using fin [of "ops_or a b" "or_conc", OF t(5)] v by (simp add: binary_meaning_def or_conc_def)
  next
    case 6
    then show ?thesis using fin [of "ops_xor a b" "xor_conc", OF t(6)] v by (simp add: binary_meaning_def xor_conc_def)
  qed
qed

lemma fold_within_ranges_witness:
  "\<exists>q. ops_and (range_exactly 12 8) (range_full 8) = Some q \<and> 8 \<in> gamma q"
proof -
  have m: "maskw 8 = (255 :: u128)" by (simp add: maskw_def MAX_BITS_def)
  have s: "signed_at 12 8 = 12" "signed_at 10 8 = 10" by (simp_all add: signed_at_value m)
  have f: "fold_binary AndOp 12 10 (pack KInt 8 1) (pack KInt 8 1) NONE = Some (Some 8)"
    by (simp add: fold_binary_def imm_signed_eq [OF int_ty_8(1)] int_ty_8(2) s exact_binary_def overflowed_eq [OF int_ty_8(1)]
        m imm_int_eq [OF int_ty_8(1)])
  have "12 \<in> gamma (range_exactly 12 8)" "10 \<in> gamma (range_full 8)" by (simp_all add: gamma_exactly m)
  from fold_within_ranges [OF int_ty_8(1) _ _ _ _ _ this _ f] show ?thesis
    by (auto simp: int_ty_8 binary_meaning_def)
qed

text \<open>The check of an unsigned promise reads the operands as signed, so it misses an unsigned overflow whose signed sum is small:
  the addition has no meaning, and is folded.\<close>

lemma nuw_overflow_folded:
  "binary_meaning AddOp NUW 8 255 2 = None" "fold_binary AddOp 255 2 (pack KInt 8 1) (pack KInt 8 1) NUW = Some (Some 1)"
proof -
  have m: "maskw 8 = (255 :: u128)" by (simp add: maskw_def MAX_BITS_def)
  have s: "signed_at 255 8 = -1" "signed_at 2 8 = 2" by (simp_all add: signed_at_value m)
  show "binary_meaning AddOp NUW 8 255 2 = None"
    by (simp add: binary_meaning_def add_conc_def promised_def flags_contains_def NSW_def NUW_def)
  show "fold_binary AddOp 255 2 (pack KInt 8 1) (pack KInt 8 1) NUW = Some (Some 1)"
    by (simp add: fold_binary_def imm_signed_eq [OF int_ty_8(1)] int_ty_8(2) s exact_binary_def checked_i128_def in_i128_def
        i128_min_def i128_max_def overflowed_eq [OF int_ty_8(1)] m imm_int_eq [OF int_ty_8(1)] flags_contains_def NSW_def NUW_def)
qed

end
