(* ===== verification/SwitchCode.thy ===== *)
theory SwitchCode
  imports FoldRun
begin

text \<open>
  The part of a function of the intermediate representation a pass that writes branches uses, \<open>crates/rucc-ir/src/func.rs\<close>: its
  blocks with the instructions in them, the blocks that are in the layout, and the types of its values; and the builder
  that appends instructions. A list of values or of targets is in the instruction that has it, not in a pool beside it.
  An operation on a block or a value the function does not have is a panic, \<open>None\<close>.

  The second half is what code does when it is run, with the meaning of the instructions that folding has.
\<close>

section \<open>Targets and instructions\<close>

record block_call =
  to_block :: nat
  passed :: "nat list"
  hint :: "nat option"

definition HINT_SCALE :: nat where "HINT_SCALE = 10000"

definition hint_parts :: "nat \<Rightarrow> nat option" where
  "hint_parts parts = Some (min parts HINT_SCALE)"

text \<open>The outer option is the panic of a hint of more than the scale.\<close>

definition hint_complement :: "nat option \<Rightarrow> nat option option" where
  "hint_complement h =
     (case h of None \<Rightarrow> Some None | Some parts \<Rightarrow> if parts \<le> HINT_SCALE then Some (hint_parts (HINT_SCALE - parts)) else None)"

definition block_call_new :: "nat \<Rightarrow> nat list \<Rightarrow> block_call" where
  "block_call_new b args = \<lparr>to_block = b, passed = args, hint = None\<rparr>"

lemma block_call_new_simps [simp]: "to_block (block_call_new b args) = b" "passed (block_call_new b args) = args"
  by (simp_all add: block_call_new_def)

text \<open>An instruction with one result, the branches, and those nothing here reads.\<close>

datatype 'x placed =
    Plain "nat inst_data" nat
  | Jump block_call
  | BrIf nat block_call block_call
  | SwitchOn nat "block_call list" "imm list"
  | Other 'x

record 'x code =
  blocks :: "'x placed list list"
  layout :: "nat list"
  value_types :: "irtype list"

section \<open>The operations of a function\<close>

definition create_block :: "'x code \<Rightarrow> nat \<times> 'x code" where
  "create_block c = (let b = length (blocks c) in (b, c\<lparr>blocks := blocks c @ [[]], layout := layout c @ [b]\<rparr>))"

definition remove_block :: "nat \<Rightarrow> 'x code \<Rightarrow> 'x code option" where
  "remove_block b c =
     (if b < length (blocks c) \<and> (layout c = [] \<or> hd (layout c) \<noteq> b)
      then Some (c\<lparr>blocks := (blocks c)[b := []], layout := removeAll b (layout c)\<rparr>) else None)"

definition append_inst :: "nat \<Rightarrow> 'x placed \<Rightarrow> 'x code \<Rightarrow> 'x code option" where
  "append_inst b i c =
     (if b < length (blocks c) then Some (c\<lparr>blocks := (blocks c)[b := blocks c ! b @ [i]]\<rparr>) else None)"

definition value_type :: "'x code \<Rightarrow> nat \<Rightarrow> irtype option" where
  "value_type c v = (if v < length (value_types c) then Some (value_types c ! v) else None)"

section \<open>The builder\<close>

text \<open>Each operation is given the block the builder stands at.\<close>

definition build_value :: "nat \<Rightarrow> nat inst_data \<Rightarrow> irtype \<Rightarrow> 'x code \<Rightarrow> (nat \<times> 'x code) option" where
  "build_value b data ty c =
     (let v = length (value_types c)
      in do { c \<leftarrow> append_inst b (Plain data v) (c\<lparr>value_types := value_types c @ [ty]\<rparr>); Some (v, c) })"

definition inst_new :: "opcode \<Rightarrow> nat list \<Rightarrow> extra \<Rightarrow> flags \<Rightarrow> nat inst_data" where
  "inst_new op args ex fl = \<lparr>iop = op, iflags = fl, iextra = ex, iargs = args, iresults = 1\<rparr>"

lemma inst_new_simps [simp]:
  "iop (inst_new op args ex fl) = op" "iargs (inst_new op args ex fl) = args" "iextra (inst_new op args ex fl) = ex"
  "iflags (inst_new op args ex fl) = fl"
  by (simp_all add: inst_new_def)

definition iconst :: "nat \<Rightarrow> irtype \<Rightarrow> int \<Rightarrow> 'x code \<Rightarrow> (nat \<times> 'x code) option" where
  "iconst b ty value c =
     do { imm \<leftarrow> imm_int value (type_lane ty); build_value b (inst_new IConstOp [] (ImmExtra imm) NONE) ty c }"

definition build_binary :: "nat \<Rightarrow> opcode \<Rightarrow> nat \<Rightarrow> nat \<Rightarrow> flags \<Rightarrow> 'x code \<Rightarrow> (nat \<times> 'x code) option" where
  "build_binary b op lhs rhs fl c =
     do { ty \<leftarrow> value_type c lhs; build_value b (inst_new op [lhs, rhs] NoExtra fl) ty c }"

definition build_unary :: "nat \<Rightarrow> opcode \<Rightarrow> nat \<Rightarrow> irtype \<Rightarrow> 'x code \<Rightarrow> (nat \<times> 'x code) option" where
  "build_unary b op arg ty c = build_value b (inst_new op [arg] NoExtra NONE) ty c"

definition icmp :: "nat \<Rightarrow> int_pred \<Rightarrow> nat \<Rightarrow> nat \<Rightarrow> 'x code \<Rightarrow> (nat \<times> 'x code) option" where
  "icmp b pred lhs rhs c =
     do { ty \<leftarrow> value_type c lhs; bit_ty \<leftarrow> with_lane ty I1;
          build_value b (inst_new ICmpOp [lhs, rhs] (PredExtra pred) NONE) bit_ty c }"

definition build_jump :: "nat \<Rightarrow> nat \<Rightarrow> nat list \<Rightarrow> 'x code \<Rightarrow> 'x code option" where
  "build_jump b target args c = append_inst b (Jump (block_call_new target args)) c"

definition br_if :: "nat \<Rightarrow> nat \<Rightarrow> nat \<Rightarrow> nat list \<Rightarrow> nat \<Rightarrow> nat list \<Rightarrow> 'x code \<Rightarrow> 'x code option" where
  "br_if b cond then_block then_args else_block else_args c =
     append_inst b (BrIf cond (block_call_new then_block then_args) (block_call_new else_block else_args)) c"

fun case_imms :: "irtype \<Rightarrow> (int \<times> nat) list \<Rightarrow> imm list option" where
  "case_imms ty [] = Some []"
| "case_imms ty ((value, b) # rest) = do { i \<leftarrow> imm_int value ty; is \<leftarrow> case_imms ty rest; Some (i # is) }"

definition build_switch :: "nat \<Rightarrow> nat \<Rightarrow> nat \<Rightarrow> (int \<times> nat) list \<Rightarrow> 'x code \<Rightarrow> 'x code option" where
  "build_switch b value otherwise cases c =
     do { ty \<leftarrow> value_type c value; imms \<leftarrow> case_imms (type_lane ty) cases;
          append_inst b (SwitchOn value (map (\<lambda>t. block_call_new t []) (otherwise # map snd cases)) imms) c }"

section \<open>Running code\<close>

text \<open>An edge is taken to a block with the values passed. A \<open>switch\<close> takes the edge of the case its operand is.\<close>

type_synonym edge = "nat \<times> imm list"
type_synonym env = "nat \<Rightarrow> imm"

definition edge :: "env \<Rightarrow> block_call \<Rightarrow> edge" where
  "edge env k = (to_block k, map env (passed k))"

definition picked :: "block_call \<Rightarrow> block_call list \<Rightarrow> imm list \<Rightarrow> imm \<Rightarrow> block_call" where
  "picked otherwise arms cases x = (case find (\<lambda>(i, _). i = x) (zip cases arms) of None \<Rightarrow> otherwise | Some (_, k) \<Rightarrow> k)"

text \<open>What a block does from an instruction on; \<open>None\<close> where the meaning of an instruction is undefined.\<close>

fun run_block :: "(nat \<Rightarrow> irtype) \<Rightarrow> 'x placed list \<Rightarrow> env \<Rightarrow> (edge \<times> env) option" where
  "run_block T [] env = None"
| "run_block T (Plain data r # is) env =
     (if iop data = IConstOp then (case iextra data of ImmExtra i \<Rightarrow> run_block T is (env(r := i)) | _ \<Rightarrow> None)
      else case meaning T env data (T r) of None \<Rightarrow> None | Some v \<Rightarrow> run_block T is (env(r := v)))"
| "run_block T (Jump k # is) env = Some (edge env k, env)"
| "run_block T (BrIf cond a b # is) env = Some (edge env (if env cond = 1 then a else b), env)"
| "run_block T (SwitchOn v calls cases # is) env =
     (case calls of [] \<Rightarrow> None | otherwise # arms \<Rightarrow> Some (edge env (picked otherwise arms cases (env v)), env))"
| "run_block T (Other x # is) env = None"

text \<open>Control goes through blocks from a number on, which are in the layout and are passed nothing, and leaves by an edge.\<close>

inductive reaches :: "'x code \<Rightarrow> nat \<Rightarrow> 'x placed list \<Rightarrow> env \<Rightarrow> edge \<Rightarrow> env \<Rightarrow> bool" for F :: "'x code" and n :: nat where
  Take: "run_block (nth (value_types F)) is env = Some (e, env') \<Longrightarrow> reaches F n is env e env'"
| Go: "run_block (nth (value_types F)) is env = Some ((b, []), env1) \<Longrightarrow> n \<le> b \<Longrightarrow> b \<in> set (layout F) \<Longrightarrow>
    reaches F n (blocks F ! b) env1 e env2 \<Longrightarrow> reaches F n is env e env2"

definition leaves :: "'x code \<Rightarrow> nat \<Rightarrow> 'x placed list \<Rightarrow> env \<Rightarrow> edge \<Rightarrow> env \<Rightarrow> bool" where
  "leaves F n is env e env' \<longleftrightarrow> reaches F n is env e env' \<and> fst e < n"

lemma reaches_trans:
  "reaches F n is env (b, []) env1 \<Longrightarrow> n \<le> b \<Longrightarrow> b \<in> set (layout F) \<Longrightarrow> reaches F n (blocks F ! b) env1 e env2 \<Longrightarrow>
    reaches F n is env e env2"
proof (induction "is" env "(b, [] :: imm list)" env1 rule: reaches.induct)
  case (Take "is" env env')
  then show ?case by (blast intro: reaches.Go)
next
  case (Go "is" env b' env1 env2')
  then show ?case by (blast intro: reaches.Go)
qed

inductive_cases reachesE: "reaches F n is env e env'"

lemma reaches_unique:
  "reaches F n is env e env' \<Longrightarrow> fst e < n \<Longrightarrow> reaches F n is env e2 env2 \<Longrightarrow> fst e2 < n \<Longrightarrow> e2 = e \<and> env2 = env'"
proof (induction "is" env e env' rule: reaches.induct)
  case (Take xs env e env')
  show ?case by (rule reachesE [OF Take(3)]) (use Take in auto)
next
  case (Go xs env b env1 e env')
  show ?case by (rule reachesE [OF Go(7)]) (use Go in auto)
qed

lemma leaves_unique: "leaves F n is env e env' \<Longrightarrow> leaves F n is env e2 env2 \<Longrightarrow> e2 = e \<and> env2 = env'"
  unfolding leaves_def by (elim conjE) (rule reaches_unique)

end
