(* ===== verification/Switch.thy ===== *)
theory Switch
  imports SwitchCode
begin

text \<open>
  What a \<open>switch\<close> becomes, \<open>crates/rucc-legalize/src/switch.rs\<close>: its cases sorted and cut into clusters, stretches of those
  turned into jump tables and bit tests, and a decision tree over what is left, written as branches into the function.

  \<open>None\<close> is a panic: an assertion, an index out of range, or an \<open>i128\<close> that overflows, which it does in the development profile and
  which wraps in the release profile. Counts of clusters and of cells compared with them are numbers without a bound. The
  numbers a command line can set (\<open>param!\<close>) are arguments, and a percentage times the scale is taken to be a \<open>u32\<close>. Places in
  the source text are left out.
\<close>

section \<open>Rules and shapes\<close>

definition LINEAR :: nat where "LINEAR = 32"

definition BALANCED :: nat where "BALANCED = 3"

definition JUMP_TABLE_GROWTH :: int where "JUMP_TABLE_GROWTH = 8"

definition JUMP_TABLE_GROWTH_FOR_SIZE :: int where "JUMP_TABLE_GROWTH_FOR_SIZE = 3"

definition FORCED_CELLS :: int where "FORCED_CELLS = 4096"

definition BIT_TEST_TARGETS :: nat where "BIT_TEST_TARGETS = 3"

definition MARGIN :: nat where "MARGIN = 3"

datatype goal = Speed | Size

record rules =
  growth :: int
  least :: nat
  leaf :: nat
  checked_table :: bool

definition native_rules :: "nat \<Rightarrow> nat \<Rightarrow> goal \<Rightarrow> rules" where
  "native_rules min_targets min_targets_for_size g =
     (let (gr, le) = (case g of Speed \<Rightarrow> (JUMP_TABLE_GROWTH, min_targets) | Size \<Rightarrow> (JUMP_TABLE_GROWTH_FOR_SIZE, min_targets_for_size))
      in \<lparr>growth = gr, least = le, leaf = LINEAR, checked_table = False\<rparr>)"

datatype force = ForceTable | ForceTree | ForceWalk

definition force_named :: "string \<Rightarrow> force option" where
  "force_named name =
     (if name = ''table'' then Some ForceTable else if name = ''tree'' then Some ForceTree
      else if name = ''walk'' then Some ForceWalk else None)"

record lowered =
  low_cases :: nat
  low_clusters :: nat
  low_tables :: nat
  low_bits :: nat
  low_searched :: bool
  low_peeled :: bool

definition shape :: "lowered \<Rightarrow> string" where
  "shape l =
     (if 0 < low_tables l then ''table'' else if 0 < low_bits l then ''bit-test''
      else if low_searched l then ''tree'' else ''walk'')"

text \<open>The remark.\<close>

definition describe :: "lowered \<Rightarrow> string" where
  "describe l =
     ''switch of '' @ dec (low_cases l) @ '' cases lowered as a '' @ shape l @ ''; clusters '' @ dec (low_clusters l) @
     '', tables '' @ dec (low_tables l) @ '', bit tests '' @ dec (low_bits l) @
     (if low_peeled l then '', hot case first'' else [])"

section \<open>Clusters\<close>

datatype cluster =
    One int block_call
  | Run int int block_call
  | Table int int "(int \<times> block_call) list"
  | Bits int int "(u64 \<times> block_call) list"

fun cluster_low :: "cluster \<Rightarrow> int" where
  "cluster_low (One v k) = v"
| "cluster_low (Run lo hi k) = lo"
| "cluster_low (Table lo hi arms) = lo"
| "cluster_low (Bits lo hi masks) = lo"

fun cluster_high :: "cluster \<Rightarrow> int" where
  "cluster_high (One v k) = v"
| "cluster_high (Run lo hi k) = hi"
| "cluster_high (Table lo hi arms) = hi"
| "cluster_high (Bits lo hi masks) = hi"

text \<open>Two edges to one block carrying the same values.\<close>

definition same :: "block_call \<Rightarrow> block_call \<Rightarrow> bool" where
  "same a b \<longleftrightarrow> to_block a = to_block b \<and> passed a = passed b"

fun goes_to :: "cluster \<Rightarrow> block_call \<Rightarrow> bool" where
  "goes_to (One v mine) k = same mine k"
| "goes_to (Run lo hi mine) k = same mine k"
| "goes_to _ k = False"

fun grow :: "cluster \<Rightarrow> int \<Rightarrow> cluster option" where
  "grow (One v k) value = Some (Run v value k)"
| "grow (Run lo hi k) value = Some (Run lo value k)"
| "grow _ value = None"

text \<open>\<open>i128\<close> arithmetic that overflows is a panic.\<close>

fun clusters_loop :: "cluster list \<Rightarrow> (int \<times> block_call) list \<Rightarrow> cluster list option" where
  "clusters_loop cs [] = Some cs"
| "clusters_loop cs ((value, k) # rest) =
     (if cs = [] then clusters_loop [One value k] rest
      else do { next \<leftarrow> checked_i128 (cluster_high (last cs) + 1);
                if next = value \<and> goes_to (last cs) k
                then do { grown \<leftarrow> grow (last cs) value; clusters_loop (butlast cs @ [grown]) rest }
                else clusters_loop (cs @ [One value k]) rest })"

fun signed_cases :: "irtype \<Rightarrow> imm list \<Rightarrow> block_call list \<Rightarrow> (int \<times> block_call) list option" where
  "signed_cases ty (i # is) (k # ks) = do { v \<leftarrow> imm_signed i ty; rest \<leftarrow> signed_cases ty is ks; Some ((v, k) # rest) }"
| "signed_cases ty _ _ = Some []"

definition clusters_of :: "imm list \<Rightarrow> block_call list \<Rightarrow> irtype \<Rightarrow> cluster list option" where
  "clusters_of cases arms ty =
     do { pairs \<leftarrow> signed_cases ty cases arms;
          let sorted = sort_key fst pairs
          in if distinct_adj (map fst sorted) then clusters_loop [] sorted else None }"

section \<open>Jump tables\<close>

fun table_arms :: "cluster list \<Rightarrow> (int \<times> block_call) list option" where
  "table_arms [] = Some []"
| "table_arms (One value k # rest) = map_option ((#) (value, k)) (table_arms rest)"
| "table_arms (Run lo hi k # rest) = map_option ((@) (map (\<lambda>v. (v, k)) [lo..hi])) (table_arms rest)"
| "table_arms (_ # rest) = None"

definition table :: "cluster list \<Rightarrow> cluster option" where
  "table stretch =
     do { arms \<leftarrow> table_arms stretch;
          Some (Table (if stretch = [] then 0 else cluster_low (hd stretch))
                      (if stretch = [] then 0 else cluster_high (last stretch)) arms) }"

text \<open>\<open>high - low + 1\<close>, each step of it checked.\<close>

definition span_of :: "int \<Rightarrow> int \<Rightarrow> int option" where
  "span_of lo hi = do { d \<leftarrow> checked_i128 (hi - lo); checked_i128 (d + 1) }"

fun call_of :: "cluster \<Rightarrow> (int \<times> block_call) option" where
  "call_of (One v k) = Some (1, k)"
| "call_of (Run lo hi k) = Some (2, k)"
| "call_of _ = None"

text \<open>The loop of \<open>dense\<close>. The outer option is the panic, the inner one the answer.\<close>

fun dense_loop :: "rules \<Rightarrow> nat \<Rightarrow> int \<Rightarrow> int \<Rightarrow> nat \<Rightarrow> int \<Rightarrow> block_call list \<Rightarrow> nat option \<Rightarrow> cluster list \<Rightarrow> nat option option" where
  "dense_loop r word lo most index compares places best [] = Some best"
| "dense_loop r word lo most index compares places best (c # cs) =
     (case call_of c of
        None \<Rightarrow> Some best
      | Some (cost, k) \<Rightarrow>
        let compares = compares + cost;
            places = (if length places \<le> BIT_TEST_TARGETS \<and> \<not> list_ex (\<lambda>seen. same seen k) places then places @ [k] else places)
        in do { span \<leftarrow> span_of lo (cluster_high c);
                limit \<leftarrow> checked_i128 (growth r * most);
                if span > limit then Some best
                else let masks = span \<le> int word \<and> length places \<le> BIT_TEST_TARGETS
                in if index + 1 \<ge> least r
                   then do { cells \<leftarrow> checked_i128 (growth r * compares);
                             dense_loop r word lo most (index + 1) compares places
                               (if span \<le> cells \<and> \<not> masks then Some (index + 1) else best) cs }
                   else dense_loop r word lo most (index + 1) compares places best cs })"

definition dense :: "rules \<Rightarrow> nat \<Rightarrow> cluster list \<Rightarrow> nat option option" where
  "dense r word cs =
     (if cs = [] then Some None
      else dense_loop r word (cluster_low (hd cs)) (2 * int (length cs)) 0 0 [] None cs)"

lemma dense_loop_bounds:
  "dense_loop r word lo most index compares places best cs = Some (Some e) \<Longrightarrow> (\<And>b. best = Some b \<Longrightarrow> 0 < b \<and> b \<le> index) \<Longrightarrow>
    0 < e \<and> e \<le> index + length cs"
proof (induction cs arbitrary: index compares places best)
  case (Cons c cs)
  from Cons.prems show ?case
    by (auto simp: Let_def bind_eq_Some_conv split: option.splits prod.splits if_splits dest!: Cons.IH)
qed auto

lemma dense_bounds: "dense r word cs = Some (Some e) \<Longrightarrow> 0 < e \<and> e \<le> length cs"
  using dense_loop_bounds [of r word "cluster_low (hd cs)" "2 * int (length cs)" 0 0 "[]" None cs e]
  by (auto simp: dense_def split: if_splits)

function tables_loop :: "rules \<Rightarrow> nat \<Rightarrow> cluster list \<Rightarrow> cluster list option" where
  "tables_loop r word cs =
     (if cs = [] then Some []
      else do { e \<leftarrow> dense r word cs;
                case e of
                  Some e \<Rightarrow> do { t \<leftarrow> table (take e cs); rest \<leftarrow> tables_loop r word (drop e cs); Some (t # rest) }
                | None \<Rightarrow> do { rest \<leftarrow> tables_loop r word (tl cs); Some (hd cs # rest) } })"
  by pat_completeness auto
termination
  by (relation "measure (\<lambda>(_, _, cs). length cs)") (auto dest!: dense_bounds)

declare tables_loop.simps [simp del]

definition tables :: "rules \<Rightarrow> irtype \<Rightarrow> nat \<Rightarrow> cluster list \<Rightarrow> cluster list option" where
  "tables r ty word cs = (if width ty = 0 \<or> width ty > word then Some cs else tables_loop r word cs)"

definition forced :: "irtype \<Rightarrow> nat \<Rightarrow> cluster list \<Rightarrow> cluster list option" where
  "forced ty word cs =
     (if cs = [] \<or> width ty = 0 \<or> width ty > word then Some cs
      else do { d \<leftarrow> checked_i128 (cluster_high (last cs) - cluster_low (hd cs));
                if d \<ge> FORCED_CELLS then Some cs else do { t \<leftarrow> table cs; Some [t] } })"

section \<open>Bit tests\<close>

text \<open>How many single values from the front of the list are inside a word of the first.\<close>

fun reach_loop :: "int \<Rightarrow> nat \<Rightarrow> cluster list \<Rightarrow> nat option" where
  "reach_loop first word (One value k # rest) =
     do { d \<leftarrow> checked_i128 (value - first); if d \<ge> int word then Some 0 else map_option Suc (reach_loop first word rest) }"
| "reach_loop first word _ = Some 0"

definition reach :: "nat \<Rightarrow> cluster list \<Rightarrow> nat option" where
  "reach word cs = (case cs of One first k # rest \<Rightarrow> reach_loop first word cs | _ \<Rightarrow> Some 0)"

fun add_bit :: "u64 \<Rightarrow> block_call \<Rightarrow> (u64 \<times> block_call) list \<Rightarrow> (u64 \<times> block_call) list" where
  "add_bit b k [] = [(b, k)]"
| "add_bit b k ((m, mine) # rest) = (if same mine k then (m OR b, mine) # rest else (m, mine) # add_bit b k rest)"

text \<open>The outer option is the panic of a shift by 64 or more, the inner one the answer that there is something other than
  single values.\<close>

fun masks_loop :: "int \<Rightarrow> (u64 \<times> block_call) list \<Rightarrow> cluster list \<Rightarrow> (u64 \<times> block_call) list option option" where
  "masks_loop lo arms [] = Some (Some arms)"
| "masks_loop lo arms (One value k # rest) =
     do { d \<leftarrow> checked_i128 (value - lo);
          if 0 \<le> d \<and> d < 64 then masks_loop lo (add_bit (push_bit (nat d) 1) k arms) rest else None }"
| "masks_loop lo arms (_ # rest) = Some None"

definition bits_of :: "cluster list \<Rightarrow> cluster option option" where
  "bits_of cs =
     (if cs = [] then Some None
      else let lo = cluster_low (hd cs) in
        do { found \<leftarrow> masks_loop lo [] cs;
             case found of None \<Rightarrow> Some None
             | Some arms \<Rightarrow> if length cs < length arms + MARGIN then Some None
                           else Some (Some (Bits lo (cluster_high (last cs)) arms)) })"

lemma bits_of_reached: "reach word cs = Some n \<Longrightarrow> bits_of (take n cs) = Some (Some b) \<Longrightarrow> 0 < n"
  by (cases n) (auto simp: bits_of_def)

function group :: "nat \<Rightarrow> cluster list \<Rightarrow> cluster list option" where
  "group word cs =
     (if cs = [] then Some []
      else do { n \<leftarrow> reach word cs;
                b \<leftarrow> bits_of (take n cs);
                case b of
                  Some b \<Rightarrow> do { rest \<leftarrow> group word (drop n cs); Some (b # rest) }
                | None \<Rightarrow> do { rest \<leftarrow> group word (tl cs); Some (hd cs # rest) } })"
  by pat_completeness auto
termination
  by (relation "measure (\<lambda>(_, cs). length cs)") (auto dest: bits_of_reached)

declare group.simps [simp del]

section \<open>Writing the tests\<close>

record lowering =
  of_value :: nat
  of_ty :: irtype
  of_default :: block_call
  of_word :: irtype
  of_checked :: bool

definition shifted_down :: "nat \<Rightarrow> lowering \<Rightarrow> int \<Rightarrow> 'x code \<Rightarrow> (nat \<times> 'x code) option" where
  "shifted_down b l lo c =
     (if lo = 0 then Some (of_value l, c)
      else do { (start, c) \<leftarrow> iconst b (of_ty l) lo c; build_binary b SubOp (of_value l) start NONE c })"

definition in_word :: "nat \<Rightarrow> lowering \<Rightarrow> nat \<Rightarrow> 'x code \<Rightarrow> (nat \<times> 'x code) option" where
  "in_word b l base c =
     (if width (of_ty l) = width (of_word l) then Some (base, c)
      else if width (of_ty l) < width (of_word l) then build_unary b ZExtOp base (of_word l) c
      else build_unary b TruncOp base (of_word l) c)"

definition signed_mask :: "u64 \<Rightarrow> nat \<Rightarrow> int" where
  "signed_mask m bits =
     (if bits \<ge> 64 then sint m else let s = 64 - bits in sint (signed_drop_bit s (push_bit s m)))"

text \<open>The width has to be a \<open>u32\<close>, and one more has to be.\<close>

definition span_mask :: "int \<Rightarrow> int \<Rightarrow> u64 option" where
  "span_mask lo hi =
     do { d \<leftarrow> checked_i128 (hi - lo);
          if 0 \<le> d \<and> d < 2 ^ 32 - 1 then Some (if d + 1 \<ge> 64 then - 1 else push_bit (nat (d + 1)) 1 - 1) else None }"

text \<open>One mask after another, each test in a block of its own but the first.\<close>

fun mask_tests :: "lowering \<Rightarrow> nat \<Rightarrow> nat list \<Rightarrow> nat \<Rightarrow> nat list \<Rightarrow> (u64 \<times> block_call) list \<Rightarrow> 'x code \<Rightarrow> 'x code option" where
  "mask_tests l bit_value (b # bs) spare onto_spare ((m, k) # rest) c =
     do { (want, c) \<leftarrow> iconst b (of_word l) (signed_mask m (width (of_word l))) c;
          (hit, c) \<leftarrow> build_binary b AndOp bit_value want NONE c;
          (none, c) \<leftarrow> iconst b (of_word l) 0 c;
          (matched, c) \<leftarrow> icmp b Ne hit none c;
          c \<leftarrow> (if rest = [] then br_if b matched (to_block k) (passed k) spare onto_spare c
               else if bs = [] then None
               else br_if b matched (to_block k) (passed k) (hd bs) [] c);
          mask_tests l bit_value bs spare onto_spare rest c }"
| "mask_tests l bit_value bs spare onto_spare rest c = (if rest = [] then Some c else None)"

fun create_blocks :: "nat \<Rightarrow> 'x code \<Rightarrow> nat list \<times> 'x code" where
  "create_blocks 0 c = ([], c)"
| "create_blocks (Suc n) c = (let (b, c) = create_block c; (bs, c) = create_blocks n c in (b # bs, c))"

definition scattered :: "lowering \<Rightarrow> nat \<Rightarrow> int \<Rightarrow> int \<Rightarrow> (u64 \<times> block_call) list \<Rightarrow> nat \<Rightarrow> nat list \<Rightarrow> 'x code \<Rightarrow> 'x code option" where
  "scattered l b lo hi arms next onward c =
     do { full \<leftarrow> (if length arms > 1 then map_option (\<lambda>m. foldl (\<lambda>seen (m, _). seen OR m) 0 arms = m) (span_mask lo hi) else Some False);
          let tests = length arms - (if full then 1 else 0);
              spare = (if full then snd (last arms) else of_default l);
              (inside, c) = create_block c;
              (more, c) = create_blocks (tests - 1) c
          in do { (base, c) \<leftarrow> shifted_down b l lo c;
                  d \<leftarrow> checked_i128 (hi - lo);
                  (wide, c) \<leftarrow> iconst b (of_ty l) d c;
                  (ok, c) \<leftarrow> icmp b Ule base wide c;
                  c \<leftarrow> br_if b ok inside [] next onward c;
                  (amount, c) \<leftarrow> in_word inside l base c;
                  (one, c) \<leftarrow> iconst inside (of_word l) 1 c;
                  (bit_value, c) \<leftarrow> build_binary inside ShlOp one amount NONE c;
                  mask_tests l bit_value (inside # more) (to_block spare) (passed spare) (take tests arms) c } }"

text \<open>The block an edge of a table goes to, which is made when the edge carries values.\<close>

type_synonym hops = "(block_call \<times> nat) list"

definition hop :: "block_call \<Rightarrow> 'x code \<Rightarrow> hops \<Rightarrow> nat \<times> 'x code \<times> hops" where
  "hop k c hops =
     (if passed k = [] then (to_block k, c, hops)
      else case find (\<lambda>(mine, _). same mine k) hops of
             Some (_, b) \<Rightarrow> (b, c, hops)
           | None \<Rightarrow> let (b, c) = create_block c in (b, c, hops @ [(k, b)]))"

fun hop_arms :: "int \<Rightarrow> (int \<times> block_call) list \<Rightarrow> 'x code \<Rightarrow> hops \<Rightarrow> ((int \<times> nat) list \<times> 'x code \<times> hops) option" where
  "hop_arms lo [] c hops = Some ([], c, hops)"
| "hop_arms lo ((value, k) # rest) c hops =
     do { d \<leftarrow> checked_i128 (value - lo);
          let (b, c, hops) = hop k c hops
          in do { (cases, c, hops) \<leftarrow> hop_arms lo rest c hops; Some ((d, b) # cases, c, hops) } }"

fun hop_jumps :: "hops \<Rightarrow> 'x code \<Rightarrow> 'x code option" where
  "hop_jumps [] c = Some c"
| "hop_jumps ((k, b) # rest) c = do { c \<leftarrow> build_jump b (to_block k) (passed k) c; hop_jumps rest c }"

definition looked_up :: "lowering \<Rightarrow> nat \<Rightarrow> int \<Rightarrow> int \<Rightarrow> (int \<times> block_call) list \<Rightarrow> nat \<Rightarrow> nat list \<Rightarrow> 'x code \<Rightarrow> 'x code option" where
  "looked_up l b lo hi arms next onward c =
     (let (inside, c) = create_block c in
      do { (cases, c, hops) \<leftarrow> hop_arms lo arms c [];
           cells \<leftarrow> span_of lo hi;
           let full = (cells = int (length cases));
               (other, c, hops) = (if full \<and> cases \<noteq> [] then (snd (hd cases), c, hops) else hop (of_default l) c hops);
               is_last = (next = to_block (of_default l) \<and> passed (of_default l) = onward)
           in do { (base, c) \<leftarrow> shifted_down b l lo c;
                   (c, hops) \<leftarrow>
                     (if of_checked l \<and> is_last \<and> width (of_ty l) \<le> width (of_word l)
                      then do { c \<leftarrow> remove_block inside c;
                                let (other, c, hops) = (if full then hop (of_default l) c hops else (other, c, hops))
                                in do { (index, c) \<leftarrow> in_word b l base c;
                                        c \<leftarrow> build_switch b index other cases c; Some (c, hops) } }
                      else do { d \<leftarrow> checked_i128 (hi - lo);
                                (wide, c) \<leftarrow> iconst b (of_ty l) d c;
                                (ok, c) \<leftarrow> icmp b Ule base wide c;
                                c \<leftarrow> br_if b ok inside [] next onward c;
                                (index, c) \<leftarrow> in_word inside l base c;
                                c \<leftarrow> build_switch inside index other cases c; Some (c, hops) });
                   hop_jumps hops c } })"

fun write_test :: "lowering \<Rightarrow> nat \<Rightarrow> cluster \<Rightarrow> nat \<Rightarrow> nat list \<Rightarrow> 'x code \<Rightarrow> 'x code option" where
  "write_test l b (One value k) next onward c =
     do { (want, c) \<leftarrow> iconst b (of_ty l) value c;
          (matched, c) \<leftarrow> icmp b Eq (of_value l) want c;
          br_if b matched (to_block k) (passed k) next onward c }"
| "write_test l b (Run lo hi k) next onward c =
     do { (base, c) \<leftarrow> shifted_down b l lo c;
          d \<leftarrow> checked_i128 (hi - lo);
          (wide, c) \<leftarrow> iconst b (of_ty l) d c;
          (matched, c) \<leftarrow> icmp b Ule base wide c;
          br_if b matched (to_block k) (passed k) next onward c }"
| "write_test l b (Table lo hi arms) next onward c = looked_up l b lo hi arms next onward c"
| "write_test l b (Bits lo hi arms) next onward c = scattered l b lo hi arms next onward c"

fun chain :: "lowering \<Rightarrow> nat \<Rightarrow> cluster list \<Rightarrow> 'x code \<Rightarrow> 'x code option" where
  "chain l b [] c = build_jump b (to_block (of_default l)) (passed (of_default l)) c"
| "chain l b [k] c = write_test l b k (to_block (of_default l)) (passed (of_default l)) c"
| "chain l b (k # k2 # rest) c =
     (let (next, c) = create_block c
      in do { c \<leftarrow> write_test l b k next [] c; chain l next (k2 # rest) c })"

text \<open>With a leaf of no clusters the recursion does not end.\<close>

partial_function (option) tree :: "lowering \<Rightarrow> nat \<Rightarrow> cluster list \<Rightarrow> nat \<Rightarrow> 'x code \<Rightarrow> 'x code option" where
  "tree l b cs lf c =
     (if length cs \<le> lf then chain l b cs c
      else let below = take (length cs div 2) cs; above = drop (length cs div 2) cs;
               (left, c) = create_block c; (right, c) = create_block c
           in do { (want, c) \<leftarrow> iconst b (of_ty l) (cluster_low (hd above)) c;
                   (under, c) \<leftarrow> icmp b Slt (of_value l) want c;
                   c \<leftarrow> br_if b under left [] right [] c;
                   c \<leftarrow> tree l left below lf c;
                   tree l right above lf c })"

section \<open>A whole switch\<close>

text \<open>The case a hint says is taken often enough, the last of those it says it of most.\<close>

definition hottest :: "nat \<Rightarrow> block_call list \<Rightarrow> nat option" where
  "hottest percent arms =
     (let hinted = filter (\<lambda>i. hint (arms ! i) \<noteq> None) [0..<length arms] in
      if hinted = [] then None
      else let most = Max (set (map (\<lambda>i. the (hint (arms ! i))) hinted));
               i = last (filter (\<lambda>i. the (hint (arms ! i)) = most) hinted)
           in if most \<ge> percent * HINT_SCALE div 100 then Some i else None)"

text \<open>Setting the hints of the branch just written.\<close>

definition set_hints :: "nat \<Rightarrow> nat option \<Rightarrow> 'x code \<Rightarrow> 'x code option" where
  "set_hints b h c =
     (if b < length (blocks c) \<and> blocks c ! b \<noteq> [] then
        case last (blocks c ! b) of
          BrIf cond x y \<Rightarrow>
            do { other \<leftarrow> hint_complement h;
                 Some (c\<lparr>blocks := (blocks c)[b := butlast (blocks c ! b) @ [BrIf cond (x\<lparr>hint := h\<rparr>) (y\<lparr>hint := other\<rparr>)]]\<rparr>) }
        | _ \<Rightarrow> None
      else None)"

definition peel :: "lowering \<Rightarrow> nat \<Rightarrow> int \<Rightarrow> block_call \<Rightarrow> 'x code \<Rightarrow> (nat \<times> 'x code) option" where
  "peel l b value k c =
     (let (rest, c) = create_block c
      in do { (want, c) \<leftarrow> iconst b (of_ty l) value c;
              (matched, c) \<leftarrow> icmp b Eq (of_value l) want c;
              c \<leftarrow> br_if b matched (to_block k) (passed k) rest [] c;
              c \<leftarrow> set_hints b (hint k) c;
              Some (rest, c) })"

definition without :: "nat \<Rightarrow> 'a list \<Rightarrow> 'a list" where
  "without i xs = take i xs @ drop (Suc i) xs"

text \<open>What is grouped how, and how many clusters a leaf may have; no bound is \<open>None\<close>.\<close>

definition grouped :: "rules \<Rightarrow> force option \<Rightarrow> bool \<Rightarrow> irtype \<Rightarrow> nat \<Rightarrow> cluster list \<Rightarrow> cluster list option" where
  "grouped r f allowed ty word found =
     (case f of
        None \<Rightarrow> if allowed then do { cs \<leftarrow> tables r ty word found; group word cs } else group word found
      | Some ForceTable \<Rightarrow> if allowed then forced ty word found else Some found
      | Some _ \<Rightarrow> Some found)"

definition leaf_for :: "rules \<Rightarrow> force option \<Rightarrow> bool \<Rightarrow> nat option" where
  "leaf_for r f allowed =
     (case f of Some ForceTree \<Rightarrow> Some 1 | Some ForceWalk \<Rightarrow> None
      | _ \<Rightarrow> Some (if allowed then leaf r else min (leaf r) BALANCED))"

fun is_table :: "cluster \<Rightarrow> bool" where
  "is_table (Table lo hi arms) = True" | "is_table _ = False"

fun is_bits :: "cluster \<Rightarrow> bool" where
  "is_bits (Bits lo hi arms) = True" | "is_bits _ = False"

text \<open>The outer option is the panic, the inner one that there is no \<open>switch\<close> here to lower.\<close>

definition lower :: "rules \<Rightarrow> force option \<Rightarrow> bool \<Rightarrow> nat \<Rightarrow> nat \<Rightarrow> nat \<Rightarrow> 'x code \<Rightarrow> ('x code \<times> lowered) option option" where
  "lower r f allowed word percent b c =
     (if b < length (blocks c) \<and> blocks c ! b \<noteq> [] then
        case last (blocks c ! b) of
          SwitchOn value (otherwise # arms) cases \<Rightarrow>
            do { ty0 \<leftarrow> value_type c value;
                 let ty = type_lane ty0 in
                 do { (hot, cases', arms') \<leftarrow>
                        (case hottest percent arms of
                           None \<Rightarrow> Some (None, cases, arms)
                         | Some i \<Rightarrow> if i < length cases
                                    then do { v \<leftarrow> imm_signed (cases ! i) ty; Some (Some (v, arms ! i), without i cases, without i arms) }
                                    else None);
                      found \<leftarrow> clusters_of cases' arms' ty;
                      cs \<leftarrow> grouped r f allowed ty word found;
                      word_ty \<leftarrow> type_int (of_nat word);
                      let lf = (case leaf_for r f allowed of None \<Rightarrow> length cs | Some n \<Rightarrow> n);
                          l = \<lparr>of_value = value, of_ty = ty, of_default = otherwise, of_word = word_ty, of_checked = checked_table r\<rparr>;
                          c = c\<lparr>blocks := (blocks c)[b := butlast (blocks c ! b)]\<rparr>
                      in do { (rest, c) \<leftarrow> (case hot of Some (v, k) \<Rightarrow> peel l b v k c | None \<Rightarrow> Some (b, c));
                              c \<leftarrow> tree l rest cs lf c;
                              Some (Some (c, \<lparr>low_cases = length cases, low_clusters = length cs,
                                low_tables = length (filter is_table cs), low_bits = length (filter is_bits cs),
                                low_searched = lf < length cs, low_peeled = hot \<noteq> None\<rparr>)) } } }
        | _ \<Rightarrow> Some None
      else Some None)"

fun lower_each :: "rules \<Rightarrow> force option \<Rightarrow> bool \<Rightarrow> nat \<Rightarrow> nat \<Rightarrow> nat list \<Rightarrow> 'x code \<Rightarrow> ('x code \<times> lowered list) option" where
  "lower_each r f allowed word percent [] c = Some (c, [])"
| "lower_each r f allowed word percent (b # bs) c =
     do { one \<leftarrow> lower r f allowed word percent b c;
          case one of None \<Rightarrow> lower_each r f allowed word percent bs c
          | Some (c, report) \<Rightarrow> do { (c, reports) \<leftarrow> lower_each r f allowed word percent bs c; Some (c, report # reports) } }"

fun is_switch :: "'x placed \<Rightarrow> bool" where
  "is_switch (SwitchOn v calls cases) = True" | "is_switch _ = False"

definition lowered_by :: "rules \<Rightarrow> force option \<Rightarrow> bool \<Rightarrow> nat \<Rightarrow> nat \<Rightarrow> 'x code \<Rightarrow> ('x code \<times> lowered list) option" where
  "lowered_by r f allowed word percent c =
     lower_each r f allowed word percent
       (filter (\<lambda>b. blocks c ! b \<noteq> [] \<and> is_switch (last (blocks c ! b))) (layout c)) c"

text \<open>With the bounds of the native back ends, the numbers of targets a command line can set as arguments.\<close>

definition lowered_native ::
    "nat \<Rightarrow> nat \<Rightarrow> goal \<Rightarrow> force option \<Rightarrow> bool \<Rightarrow> nat \<Rightarrow> nat \<Rightarrow> 'x code \<Rightarrow> ('x code \<times> lowered list) option" where
  "lowered_native min_targets min_targets_for_size g f allowed word percent c =
     lowered_by (native_rules min_targets min_targets_for_size g) f allowed word percent c"

definition switches :: "nat \<Rightarrow> nat \<Rightarrow> goal \<Rightarrow> nat \<Rightarrow> 'x code \<Rightarrow> 'x code option" where
  "switches min_targets min_targets_for_size g percent c =
     map_option fst (lowered_native min_targets min_targets_for_size g None True 64 percent c)"

definition blocks_for :: "nat \<Rightarrow> nat" where
  "blocks_for clusters = clusters - 1"

end
