(* ===== verification/SwitchClusters.thy ===== *)
theory SwitchClusters
  imports Switch
begin

text \<open>
  What a cluster holds and where it sends it, and that cutting the cases into clusters, and regrouping those into tables and bit
  tests, panics on nothing and sends every value where the cases do.
\<close>

section \<open>Where a value goes\<close>

type_synonym place = "nat \<times> nat list"

definition place :: "block_call \<Rightarrow> place" where
  "place k = (to_block k, passed k)"

lemma same_place: "same a b \<longleftrightarrow> place a = place b"
  by (simp add: same_def place_def)

primrec mask_place :: "(u64 \<times> block_call) list \<Rightarrow> nat \<Rightarrow> place option" where
  "mask_place [] d = None"
| "mask_place (a # arms) d = (if bit (fst a) d then Some (place (snd a)) else mask_place arms d)"

fun cluster_place :: "cluster \<Rightarrow> int \<Rightarrow> place option" where
  "cluster_place (One v k) x = (if x = v then Some (place k) else None)"
| "cluster_place (Run lo hi k) x = (if lo \<le> x \<and> x \<le> hi then Some (place k) else None)"
| "cluster_place (Table lo hi arms) x = map_option place (map_of arms x)"
| "cluster_place (Bits lo hi arms) x = (if lo \<le> x \<and> x \<le> hi then mask_place arms (nat (x - lo)) else None)"

primrec clusters_place :: "cluster list \<Rightarrow> int \<Rightarrow> place option" where
  "clusters_place [] x = None"
| "clusters_place (c # cs) x = (case cluster_place c x of Some p \<Rightarrow> Some p | None \<Rightarrow> clusters_place cs x)"

lemma clusters_place_append:
  "clusters_place (cs @ ds) x = (case clusters_place cs x of Some p \<Rightarrow> Some p | None \<Rightarrow> clusters_place ds x)"
  by (induction cs) (auto split: option.split)

text \<open>What the tests of a cluster rely on.\<close>

fun cluster_ok :: "nat \<Rightarrow> cluster \<Rightarrow> bool" where
  "cluster_ok word (One v k) \<longleftrightarrow> True"
| "cluster_ok word (Run lo hi k) \<longleftrightarrow> lo < hi"
| "cluster_ok word (Table lo hi arms) \<longleftrightarrow> lo \<le> hi \<and> hi - lo < 2 ^ word \<and> arms \<noteq> [] \<and> distinct (map fst arms) \<and> (\<forall>(v, _)\<in>set arms. lo \<le> v \<and> v \<le> hi)"
| "cluster_ok word (Bits lo hi arms) \<longleftrightarrow> lo \<le> hi \<and> hi - lo < int word \<and> arms \<noteq> []"

fun simple :: "cluster \<Rightarrow> bool" where
  "simple (One v k) = True"
| "simple (Run lo hi k) = True"
| "simple _ = False"

lemma cluster_ok_low_high: "cluster_ok word c \<Longrightarrow> cluster_low c \<le> cluster_high c"
  by (cases c) auto

lemma cluster_place_inside: "cluster_ok word c \<Longrightarrow> cluster_place c x = Some p \<Longrightarrow> cluster_low c \<le> x \<and> x \<le> cluster_high c"
  by (cases c) (auto split: if_splits dest: map_of_SomeD)

text \<open>The places the edges of a cluster go to.\<close>

fun calls_of :: "cluster \<Rightarrow> block_call list" where
  "calls_of (One v k) = [k]"
| "calls_of (Run lo hi k) = [k]"
| "calls_of (Table lo hi arms) = map snd arms"
| "calls_of (Bits lo hi arms) = map snd arms"

text \<open>Clusters one above the other, from a bound to a bound, with edges out of a set.\<close>

primrec parts :: "nat \<Rightarrow> block_call set \<Rightarrow> int \<Rightarrow> int \<Rightarrow> cluster list \<Rightarrow> bool" where
  "parts word K lo hi [] \<longleftrightarrow> True"
| "parts word K lo hi (c # cs) \<longleftrightarrow>
     cluster_ok word c \<and> set (calls_of c) \<subseteq> K \<and> lo \<le> cluster_low c \<and> cluster_high c \<le> hi \<and> parts word K (cluster_high c + 1) hi cs"

lemma parts_weaken: "parts word K lo hi cs \<Longrightarrow> lo' \<le> lo \<Longrightarrow> hi \<le> hi' \<Longrightarrow> parts word K lo' hi' cs"
  by (induction cs arbitrary: lo lo') auto

lemma parts_bounds: "parts word K lo hi cs \<Longrightarrow> c \<in> set cs \<Longrightarrow>
    cluster_ok word c \<and> set (calls_of c) \<subseteq> K \<and> lo \<le> cluster_low c \<and> cluster_low c \<le> cluster_high c \<and> cluster_high c \<le> hi"
proof (induction cs arbitrary: lo)
  case (Cons d cs)
  have d: "cluster_low d \<le> cluster_high d" using Cons.prems(1) by (intro cluster_ok_low_high [of word]) simp
  show ?case
  proof (cases "c = d")
    case False
    then have "cluster_high d + 1 \<le> cluster_low c" using Cons.IH [of "cluster_high d + 1"] Cons.prems by simp
    then show ?thesis using False Cons.IH [of "cluster_high d + 1"] Cons.prems d by simp
  qed (use d Cons.prems in simp)
qed simp

lemma parts_place: "parts word K lo hi cs \<Longrightarrow> x < lo \<or> hi < x \<Longrightarrow> clusters_place cs x = None"
proof (induction cs arbitrary: lo)
  case (Cons c cs)
  have ok: "cluster_ok word c" "lo \<le> cluster_low c" "cluster_high c \<le> hi" "parts word K (cluster_high c + 1) hi cs"
    using Cons.prems by simp_all
  have "cluster_place c x = None"
    using cluster_place_inside [OF ok(1)] ok(2,3) Cons.prems(2) by (cases "cluster_place c x") force+
  moreover have "clusters_place cs x = None"
    using Cons.IH [OF ok(4)] cluster_ok_low_high [OF ok(1)] ok(2) Cons.prems(2) by linarith
  ultimately show ?case by simp
qed simp

lemma parts_snoc:
  "parts word K lo hi (cs @ [c]) \<longleftrightarrow>
    parts word K lo (cluster_low c - 1) cs \<and> cluster_ok word c \<and> set (calls_of c) \<subseteq> K \<and> lo \<le> cluster_low c \<and> cluster_high c \<le> hi"
proof (induction cs arbitrary: lo)
  case (Cons d cs)
  show ?case
    unfolding append_Cons parts.simps Cons by (auto dest: cluster_ok_low_high)
qed auto

lemma parts_split:
  "parts word K lo hi (cs @ ds) \<Longrightarrow> cs \<noteq> [] \<Longrightarrow>
    parts word K lo (cluster_high (last cs)) cs \<and> parts word K (cluster_high (last cs) + 1) hi ds \<and> cluster_high (last cs) \<le> hi"
proof (induction cs arbitrary: lo)
  case (Cons c cs)
  have ok: "cluster_ok word c" "set (calls_of c) \<subseteq> K" "lo \<le> cluster_low c" "cluster_high c \<le> hi"
    "parts word K (cluster_high c + 1) hi (cs @ ds)"
    using Cons.prems(1) by simp_all
  show ?case
  proof (cases "cs = []")
    case False
    have "parts word K (cluster_high c + 1) (cluster_high (last cs)) cs \<and> parts word K (cluster_high (last cs) + 1) hi ds \<and>
        cluster_high (last cs) \<le> hi"
      by (rule Cons.IH [OF ok(5) False])
    moreover from this have "cluster_high c \<le> cluster_high (last cs)"
      using False parts_bounds [of word K "cluster_high c + 1" "cluster_high (last cs)" cs "last cs"] by force
    ultimately show ?thesis using ok False by simp
  qed (use ok in auto)
qed simp

section \<open>The cases, sorted and cut\<close>

lemma grow_last:
  assumes "simple c" "cluster_ok word c"
  shows "\<exists>g. grow c value = Some g \<and> simple g \<and> cluster_low g = cluster_low c \<and> cluster_high g = value \<and> calls_of g = calls_of c \<and>
    (cluster_high c + 1 = value \<longrightarrow> goes_to c k \<longrightarrow> cluster_ok word g \<and>
      (\<forall>x. cluster_place g x = (if x = value then Some (place k) else cluster_place c x)))"
  using assms by (cases c) (auto simp: same_place)

lemma clusters_loop_spec:
  assumes "parts word K lo h cs" "\<forall>c\<in>set cs. simple c" "sorted_wrt (\<lambda>a b. fst a < fst b) ps" "lo \<le> h + 1"
    "\<forall>p\<in>set ps. h < fst p \<and> fst p \<le> hi \<and> snd p \<in> K" "h \<le> hi" "i128_min \<le> lo" "hi \<le> i128_max"
  shows "\<exists>ds. clusters_loop cs ps = Some ds \<and> parts word K lo hi ds \<and> (\<forall>c\<in>set ds. simple c) \<and> length ds \<le> length cs + length ps \<and>
    (\<forall>x. clusters_place ds x = (case clusters_place cs x of Some p \<Rightarrow> Some p | None \<Rightarrow> map_option place (map_of ps x)))"
  using assms
proof (induction ps arbitrary: cs h)
  case Nil
  then show ?case using parts_weaken [of word K lo h cs lo hi] by (auto split: option.split)
next
  case (Cons p ps)
  obtain v k where p: "p = (v, k)" by (cases p)
  have v: "h < v" "v \<le> hi" "k \<in> K" "sorted_wrt (\<lambda>a b. fst a < fst b) ps" using Cons.prems(3,5) p by auto
  have rest: "\<forall>p\<in>set ps. v < fst p \<and> fst p \<le> hi \<and> snd p \<in> K" using Cons.prems(3,5) p by auto
  have one: "parts word K lo v (cs @ [One v k])"
    using parts_weaken [OF Cons.prems(1), of lo "v - 1"] v Cons.prems(4) by (simp add: parts_snoc)
  have above: "clusters_place cs x = None" if "x = v" for x using parts_place [OF Cons.prems(1), of x] v(1) that by simp
  have pushed: ?case if "clusters_loop cs (p # ps) = clusters_loop (cs @ [One v k]) ps"
  proof -
    have "\<exists>ds. clusters_loop (cs @ [One v k]) ps = Some ds \<and> parts word K lo hi ds \<and> (\<forall>c\<in>set ds. simple c) \<and>
      length ds \<le> length (cs @ [One v k]) + length ps \<and>
      (\<forall>x. clusters_place ds x = (case clusters_place (cs @ [One v k]) x of Some p \<Rightarrow> Some p | None \<Rightarrow> map_option place (map_of ps x)))"
      using one Cons.prems(2,4,7,8) v rest by (intro Cons.IH [of v]) auto
    then show ?thesis using that p by (auto simp: clusters_place_append split: option.split)
  qed
  show ?case
  proof (cases cs rule: rev_cases)
    case Nil
    then show ?thesis using pushed p by simp
  next
    case (snoc init c)
    have c: "simple c" "cluster_ok word c" "cluster_high c \<le> h" "lo \<le> cluster_low c" "cluster_low c \<le> cluster_high c"
      "parts word K lo (cluster_low c - 1) init" "set (calls_of c) \<subseteq> K"
      using Cons.prems(1,2) snoc cluster_ok_low_high [of word c] by (simp_all add: parts_snoc)
    have nxt: "checked_i128 (cluster_high c + 1) = Some (cluster_high c + 1)"
      using c v Cons.prems(7,8) by (simp add: checked_i128_def in_i128_def)
    show ?thesis
    proof (cases "cluster_high c + 1 = v \<and> goes_to c k")
      case False
      then have "clusters_loop cs (p # ps) = clusters_loop (cs @ [One v k]) ps" using nxt p snoc by (auto simp del: append.simps append_assoc)
      then show ?thesis by (rule pushed)
    next
      case True
      obtain g where g: "grow c v = Some g" "simple g" "cluster_low g = cluster_low c" "cluster_high g = v" "calls_of g = calls_of c"
        "cluster_ok word g" "\<And>x. cluster_place g x = (if x = v then Some (place k) else cluster_place c x)"
        using grow_last [OF c(1,2), of v k] True by auto
      have loop: "clusters_loop cs (p # ps) = clusters_loop (init @ [g]) ps" using True nxt g(1) p snoc by simp
      have "\<exists>ds. clusters_loop (init @ [g]) ps = Some ds \<and> parts word K lo hi ds \<and> (\<forall>c\<in>set ds. simple c) \<and>
        length ds \<le> length (init @ [g]) + length ps \<and>
        (\<forall>x. clusters_place ds x = (case clusters_place (init @ [g]) x of Some p \<Rightarrow> Some p | None \<Rightarrow> map_option place (map_of ps x)))"
        using g c Cons.prems(2,4,7,8) v rest snoc by (intro Cons.IH [of v]) (auto simp: parts_snoc)
      moreover have "clusters_place (init @ [g]) x =
          (case clusters_place cs x of Some p \<Rightarrow> Some p | None \<Rightarrow> if x = v then Some (place k) else None)" for x
        using above [of x] g(7) snoc by (auto simp: clusters_place_append split: option.split)
      ultimately show ?thesis using loop p snoc by (auto split: option.split)
    qed
  qed
qed

text \<open>The cases as signed numbers.\<close>

abbreviation case_pairs :: "nat \<Rightarrow> imm list \<Rightarrow> block_call list \<Rightarrow> (int \<times> block_call) list" where
  "case_pairs w cases arms \<equiv> zip (map (\<lambda>i. signed_at i w) cases) arms"

lemma signed_cases_eq: "int_ty ty \<Longrightarrow> signed_cases ty cases arms = Some (case_pairs (width ty) cases arms)"
  by (induction ty cases arms rule: signed_cases.induct) (simp_all add: imm_signed_eq)

lemma signed_at_inj: "0 < w \<Longrightarrow> w \<le> 128 \<Longrightarrow> a \<le> maskw w \<Longrightarrow> b \<le> maskw w \<Longrightarrow> signed_at a w = signed_at b w \<longleftrightarrow> a = b"
  using wrapped_signed [of w a] wrapped_signed [of w b] by metis

lemma distinct_case_pairs:
  assumes "0 < w" "w \<le> 128" "distinct cases" "\<forall>i\<in>set cases. i \<le> maskw w"
  shows "distinct (map fst (case_pairs w cases arms))"
proof -
  have "inj_on (\<lambda>i. signed_at i w) (set cases)" using assms signed_at_inj by (auto intro!: inj_onI)
  then have "distinct (map (\<lambda>i. signed_at i w) cases)" using assms(3) by (simp add: distinct_map)
  then show ?thesis by (simp add: map_fst_zip_take distinct_take)
qed

lemma picked_place:
  assumes "0 < w" "w \<le> 128" "\<forall>i\<in>set cases. i \<le> maskw w" "x \<le> maskw w"
  shows "place (picked otherwise arms cases x) =
    (case map_option place (map_of (case_pairs w cases arms) (signed_at x w)) of None \<Rightarrow> place otherwise | Some p \<Rightarrow> p)"
  using assms(3)
proof (induction cases arms rule: list_induct2')
  case (4 i cases k arms)
  then show ?case using signed_at_inj [OF assms(1,2), of i x] assms(4) by (auto simp: picked_def)
qed (simp_all add: picked_def)

lemma case_pairs_bounds:
  assumes "0 < w" "w \<le> 128" "\<forall>i\<in>set cases. i \<le> maskw w" "p \<in> set (case_pairs w cases arms)"
  shows "- (2 ^ (w - 1)) \<le> fst p" "fst p < 2 ^ (w - 1)" "snd p \<in> set arms" "\<exists>i\<in>set cases. fst p = signed_at i w"
proof -
  obtain i where i: "i \<in> set cases" "fst p = signed_at i w"
    using assms(4) by (metis (no_types, lifting) in_set_zipE imageE list.set_map prod.collapse)
  then show "- (2 ^ (w - 1)) \<le> fst p" "fst p < 2 ^ (w - 1)" "\<exists>i\<in>set cases. fst p = signed_at i w"
    using signed_at_limits [OF assms(1,2)] assms(3) by auto
  show "snd p \<in> set arms" using assms(4) by (metis in_set_zipE prod.collapse)
qed

text \<open>Bounds that hold for the cases, and bounds they all have.\<close>

lemma clusters_of_spec:
  assumes "int_ty ty" "distinct cases" "\<forall>i\<in>set cases. i \<le> maskw (width ty)"
    "\<forall>i\<in>set cases. lo \<le> signed_at i (width ty) \<and> signed_at i (width ty) \<le> hi" "lo \<le> hi" "i128_min \<le> lo" "hi \<le> i128_max"
  shows "\<exists>cs. clusters_of cases arms ty = Some cs \<and> parts word (set arms) lo hi cs \<and> (\<forall>c\<in>set cs. simple c) \<and> length cs \<le> length cases \<and>
    (\<forall>x. clusters_place cs x = map_option place (map_of (case_pairs (width ty) cases arms) x))"
proof -
  let ?w = "width ty" and ?pairs = "case_pairs (width ty) cases arms"
  have w: "0 < ?w" "?w \<le> 128" using assms(1) by (simp_all add: int_ty_def)
  define ps where "ps = sort_key fst ?pairs"
  have d: "distinct (map fst ?pairs)" by (rule distinct_case_pairs [OF w assms(2,3)])
  have dps: "distinct (map fst ps)" using d by (simp add: ps_def distinct_map)
  have set: "set ps = set ?pairs" by (simp add: ps_def)
  have same: "map_of ps = map_of ?pairs" using map_of_inject_set [OF dps d] set by simp
  have "sorted (map fst ps)" by (simp add: ps_def)
  then have "sorted_wrt (<) (map fst ps)" using dps by (simp add: strict_sorted_iff)
  then have srt: "sorted_wrt (\<lambda>a b. fst a < fst b) ps" by (simp add: sorted_wrt_map)
  have all: "\<forall>p\<in>set ps. lo - 1 < fst p \<and> fst p \<le> hi \<and> snd p \<in> set arms"
    using case_pairs_bounds [OF w assms(3)] assms(4) set by fastforce
  have len: "length ps \<le> length cases" by (simp add: ps_def)
  have adj: "distinct_adj (map fst ps)" using dps by (auto simp: distinct_adj_conv_nth distinct_conv_nth)
  obtain cs where cs: "clusters_loop [] ps = Some cs" "parts word (set arms) lo hi cs" "\<forall>c\<in>set cs. simple c" "length cs \<le> length ps"
    "\<forall>x. clusters_place cs x = map_option place (map_of ps x)"
    using clusters_loop_spec [of word "set arms" lo "lo - 1" "[]" ps hi] srt all assms(5-7) by auto
  have "clusters_of cases arms ty = Some cs"
    using cs(1) adj by (simp add: clusters_of_def signed_cases_eq [OF assms(1)] ps_def Let_def)
  then show ?thesis using cs len same by auto
qed

section \<open>Regrouping\<close>

definition regroups :: "nat \<Rightarrow> block_call set \<Rightarrow> int \<Rightarrow> int \<Rightarrow> cluster list \<Rightarrow> cluster list option \<Rightarrow> bool" where
  "regroups word K lo hi cs r \<longleftrightarrow>
     (\<exists>ds. r = Some ds \<and> parts word K lo hi ds \<and> length ds \<le> length cs \<and> (\<forall>x. clusters_place ds x = clusters_place cs x))"

lemma regroups_same: "parts word K lo hi cs \<Longrightarrow> regroups word K lo hi cs (Some cs)"
  by (simp add: regroups_def)

lemma regroups_step:
  assumes "parts word K lo hi (xs @ ys)" "xs \<noteq> []" "cluster_ok word t" "set (calls_of t) \<subseteq> K"
    "cluster_low t = cluster_low (hd xs)" "cluster_high t = cluster_high (last xs)" "\<And>x. cluster_place t x = clusters_place xs x"
    "regroups word K (cluster_high (last xs) + 1) hi ys (Some ys')"
  shows "regroups word K lo hi (xs @ ys) (Some (t # ys'))"
proof -
  have s: "parts word K lo (cluster_high (last xs)) xs" "cluster_high (last xs) \<le> hi" using parts_split [OF assms(1,2)] by simp_all
  have "lo \<le> cluster_low (hd xs)" using parts_bounds [OF s(1), of "hd xs"] assms(2) by simp
  moreover have "1 \<le> length xs" using assms(2) by (cases xs) simp_all
  ultimately show ?thesis
    using assms(3-8) s(2) by (auto simp: regroups_def clusters_place_append split: option.split)
qed

lemma regroups_keep:
  assumes "parts word K lo hi cs" "cs \<noteq> []" "\<And>lo'. parts word K lo' hi (tl cs) \<Longrightarrow> regroups word K lo' hi (tl cs) r"
  shows "regroups word K lo hi cs (do { rest \<leftarrow> r; Some (hd cs # rest) })"
proof -
  obtain c ds where cs: "cs = [c] @ ds" using assms(2) by (cases cs) simp_all
  have c: "cluster_ok word c" "set (calls_of c) \<subseteq> K" "parts word K (cluster_high c + 1) hi ds" using assms(1) cs by simp_all
  have "regroups word K (cluster_high c + 1) hi ds r" using assms(3) c(3) cs by simp
  then obtain ds' where r: "r = Some ds'" "regroups word K (cluster_high (last [c]) + 1) hi ds (Some ds')" by (auto simp: regroups_def)
  have "regroups word K lo hi ([c] @ ds) (Some (c # ds'))"
    using c r(2) assms(1) cs by (intro regroups_step) (auto split: option.split)
  then show ?thesis using r(1) cs by simp
qed

section \<open>Tables\<close>

lemma table_arms_spec:
  "parts word K lo hi cs \<Longrightarrow> \<forall>c\<in>set cs. simple c \<Longrightarrow>
    \<exists>arms. table_arms cs = Some arms \<and> distinct (map fst arms) \<and> (\<forall>(v, k)\<in>set arms. lo \<le> v \<and> v \<le> hi \<and> k \<in> K) \<and>
      (\<forall>x. map_option place (map_of arms x) = clusters_place cs x) \<and> (cs \<noteq> [] \<longrightarrow> arms \<noteq> [])"
proof (induction cs arbitrary: lo rule: table_arms.induct)
  case (2 v k rest)
  have c: "lo \<le> v" "v \<le> hi" "k \<in> K" "parts word K (v + 1) hi rest" using "2.prems"(1) by simp_all
  then obtain arms where "table_arms rest = Some arms" "distinct (map fst arms)" "\<forall>(v', k)\<in>set arms. v + 1 \<le> v' \<and> v' \<le> hi \<and> k \<in> K"
    "\<forall>x. map_option place (map_of arms x) = clusters_place rest x"
    using "2.IH" [OF c(4)] "2.prems"(2) by auto
  then show ?case using c by force
next
  case (3 a b k rest)
  have c: "a < b" "lo \<le> a" "b \<le> hi" "k \<in> K" "parts word K (b + 1) hi rest" using "3.prems"(1) by simp_all
  then obtain arms where arms: "table_arms rest = Some arms" "distinct (map fst arms)"
    "\<forall>(v', k)\<in>set arms. b + 1 \<le> v' \<and> v' \<le> hi \<and> k \<in> K" "\<forall>x. map_option place (map_of arms x) = clusters_place rest x"
    using "3.IH" [OF c(5)] "3.prems"(2) by auto
  let ?run = "map (\<lambda>v. (v, k)) [a..b]"
  have "map_of ?run x = (if a \<le> x \<and> x \<le> b then Some k else None)" for x
    by (auto simp: map_of_eq_None_iff image_image comp_def intro!: map_of_is_SomeI)
  then have "map_option place (map_of (?run @ arms) x) = clusters_place (Run a b k # rest) x" for x
    using arms(4) by (auto simp: map_add_def split: option.split)
  moreover have "distinct (map fst (?run @ arms))" using arms(2,3) by (auto simp: comp_def)
  moreover have "?run \<noteq> []" using c(1) by simp
  ultimately show ?case using arms(1,3) c by (intro exI [of _ "?run @ arms"]) auto
qed simp_all

lemma table_spec:
  assumes "parts word K lo hi cs" "\<forall>c\<in>set cs. simple c" "cs \<noteq> []" "hi - cluster_low (hd cs) < 2 ^ word"
  shows "\<exists>arms. table cs = Some (Table (cluster_low (hd cs)) (cluster_high (last cs)) arms) \<and>
    cluster_ok word (Table (cluster_low (hd cs)) (cluster_high (last cs)) arms) \<and> snd ` set arms \<subseteq> K \<and>
    (\<forall>x. map_option place (map_of arms x) = clusters_place cs x)"
proof -
  obtain c ds where cs: "cs = c # ds" using assms(3) by (cases cs) simp_all
  have s: "parts word K lo (cluster_high (last cs)) cs" "cluster_high (last cs) \<le> hi" using parts_split [of word K lo hi cs "[]"] assms by simp_all
  have low: "parts word K (cluster_low (hd cs)) (cluster_high (last cs)) cs" using s(1) cs by simp
  obtain arms where arms: "table_arms cs = Some arms" "distinct (map fst arms)"
    "\<forall>(v, k)\<in>set arms. cluster_low (hd cs) \<le> v \<and> v \<le> cluster_high (last cs) \<and> k \<in> K"
    "\<forall>x. map_option place (map_of arms x) = clusters_place cs x" "arms \<noteq> []"
    using table_arms_spec [OF low assms(2)] assms(3) by auto
  have "cluster_low (hd cs) \<le> cluster_high (last cs)" using parts_bounds [OF low, of "last cs"] assms(3) by force
  then show ?thesis using arms s(2) assms(3,4) by (fastforce simp: table_def)
qed

text \<open>\<open>dense\<close> answers, and its sums stay far below the bounds of \<open>i128\<close>.\<close>

definition rules_ok :: "rules \<Rightarrow> bool" where
  "rules_ok r \<longleftrightarrow> 0 \<le> growth r \<and> growth r < 2 ^ 32 \<and> 1 \<le> leaf r"

lemma i128_small: "\<bar>z\<bar> < 2 ^ 80 \<Longrightarrow> checked_i128 z = Some z"
  unfolding checked_i128_def in_i128_def i128_min_def i128_max_def by (auto simp: abs_less_iff)

lemma growth_small: "rules_ok r \<Longrightarrow> 0 \<le> n \<Longrightarrow> n \<le> 2 ^ 40 \<Longrightarrow> checked_i128 (growth r * n) = Some (growth r * n)"
proof (rule i128_small)
  assume a: "rules_ok r" "0 \<le> n" "n \<le> 2 ^ 40"
  then have "growth r * n \<le> 2 ^ 32 * 2 ^ 40" by (intro mult_mono) (simp_all add: rules_ok_def)
  then show "\<bar>growth r * n\<bar> < 2 ^ 80" using a by (simp add: rules_ok_def abs_mult)
qed

lemma span_of_small: "\<bar>hi - lo\<bar> < 2 ^ 79 \<Longrightarrow> span_of lo hi = Some (hi - lo + 1)"
  by (simp add: span_of_def i128_small)

lemma dense_loop_total:
  "rules_ok r \<Longrightarrow> 0 \<le> most \<Longrightarrow> most \<le> 2 ^ 40 \<Longrightarrow> 0 \<le> compares \<Longrightarrow> compares + 2 * int (length cs) \<le> 2 ^ 40 \<Longrightarrow>
    \<forall>c\<in>set cs. lo \<le> cluster_high c \<and> cluster_high c - lo < 2 ^ 64 \<Longrightarrow> \<exists>e. dense_loop r word lo most index compares places best cs = Some e"
proof (induction cs arbitrary: index compares places best)
  case (Cons c cs)
  show ?case
  proof (cases "call_of c")
    case (Some a)
    obtain cost k where a: "a = (cost, k)" "0 \<le> cost" "cost \<le> 2" using Some by (cases c) auto
    have span: "span_of lo (cluster_high c) = Some (cluster_high c - lo + 1)" using Cons.prems(6) by (intro span_of_small) auto
    have g: "checked_i128 (growth r * most) = Some (growth r * most)"
      "checked_i128 (growth r * (compares + cost)) = Some (growth r * (compares + cost))"
      using Cons.prems a by (auto intro!: growth_small)
    have ih: "\<exists>e. dense_loop r word lo most (index + 1) (compares + cost) places best cs = Some e" for places best
      using Cons.prems a by (intro Cons.IH) auto
    show ?thesis using Some a span g ih by (simp add: Let_def)
  qed simp
qed simp

lemma dense_total:
  assumes "rules_ok r" "parts word' K lo hi cs" "\<forall>c\<in>set cs. hi - cluster_low c < 2 ^ 64" "length cs < 2 ^ 32"
  shows "\<exists>e. dense r word cs = Some e"
proof (cases cs)
  case (Cons c ds)
  have low: "parts word' K (cluster_low c) hi cs" "hi - cluster_low c < 2 ^ 64" using assms(2,3) Cons by simp_all
  have "\<forall>d\<in>set cs. cluster_low c \<le> cluster_high d \<and> cluster_high d - cluster_low c < 2 ^ 64"
    using parts_bounds [OF low(1)] low(2) by fastforce
  then show ?thesis
    using dense_loop_total [of r "2 * int (length cs)" 0 cs "cluster_low c" word 0 "[]" None] assms(1,4) Cons
    by (simp add: dense_def)
qed (simp add: dense_def)

text \<open>A stretch that becomes one cluster, and the rest after it.\<close>

lemma regroups_front:
  assumes "parts word K lo hi cs" "0 < n" "n \<le> length cs" "cluster_ok word t" "set (calls_of t) \<subseteq> K"
    "cluster_low t = cluster_low (hd cs)" "cluster_high t = cluster_high (last (take n cs))"
    "\<And>x. cluster_place t x = clusters_place (take n cs) x"
    "\<And>lo'. parts word K lo' hi (drop n cs) \<Longrightarrow> regroups word K lo' hi (drop n cs) r"
  shows "regroups word K lo hi cs (do { rest \<leftarrow> r; Some (t # rest) })"
proof -
  have ne: "take n cs \<noteq> []" "hd (take n cs) = hd cs" using assms(2,3) by (auto simp: hd_take)
  have p: "parts word K lo hi (take n cs @ drop n cs)" using assms(1) by simp
  have "regroups word K (cluster_high (last (take n cs)) + 1) hi (drop n cs) r"
    using parts_split [OF p ne(1)] by (intro assms(9)) simp
  then obtain ds where r: "r = Some ds" "regroups word K (cluster_high (last (take n cs)) + 1) hi (drop n cs) (Some ds)"
    by (auto simp: regroups_def)
  have "regroups word K lo hi (take n cs @ drop n cs) (Some (t # ds))"
    by (rule regroups_step [OF p ne(1) assms(4,5) _ assms(7,8) r(2)]) (simp add: assms(6) ne(2))
  then show ?thesis using r(1) by simp
qed

lemma tables_loop_spec:
  assumes "rules_ok r" "word \<le> 64"
  shows "parts word K lo hi cs \<Longrightarrow> \<forall>c\<in>set cs. simple c \<and> hi - cluster_low c < 2 ^ word \<Longrightarrow> length cs < 2 ^ 32 \<Longrightarrow>
    regroups word K lo hi cs (tables_loop r word cs)"
proof (induction "length cs" arbitrary: cs lo rule: less_induct)
  case less
  show ?case
  proof (cases "cs = []")
    case True
    then show ?thesis by (simp add: tables_loop.simps regroups_def)
  next
    case False
    have small: "(2 :: int) ^ word \<le> 2 ^ 64" using assms(2) by (intro power_increasing) simp_all
    obtain e where e: "dense r word cs = Some e" using dense_total [OF assms(1) less.prems(1)] less.prems(2,3) small by fastforce
    have ih: "parts word K lo' hi (drop n cs) \<Longrightarrow> 0 < n \<Longrightarrow> regroups word K lo' hi (drop n cs) (tables_loop r word (drop n cs))"
      for n lo' using False less.prems(2,3) by (intro less.hyps) (auto dest: in_set_dropD)
    show ?thesis
    proof (cases e)
      case None
      have "regroups word K lo hi cs (do { rest \<leftarrow> tables_loop r word (tl cs); Some (hd cs # rest) })"
        using ih [of _ 1] by (intro regroups_keep [OF less.prems(1) False]) (simp add: drop_Suc)
      then show ?thesis using e None False by (simp add: tables_loop.simps [of r word cs])
    next
      case (Some n)
      have n: "0 < n" "n \<le> length cs" using dense_bounds e Some by blast+
      have ne: "take n cs \<noteq> []" "hd (take n cs) = hd cs" using n False by (auto simp: hd_take)
      have p: "parts word K lo (cluster_high (last (take n cs))) (take n cs)"
        using parts_split [of word K lo hi "take n cs" "drop n cs"] less.prems(1) ne(1) by simp
      have wide: "cluster_high (last (take n cs)) - cluster_low (hd cs) < 2 ^ word"
        using parts_split [of word K lo hi "take n cs" "drop n cs"] less.prems(1,2) False ne(1) by (cases cs) auto
      have simp_take: "\<forall>c\<in>set (take n cs). simple c" using less.prems(2) by (auto dest: in_set_takeD)
      obtain arms where t: "table (take n cs) = Some (Table (cluster_low (hd cs)) (cluster_high (last (take n cs))) arms)"
        "cluster_ok word (Table (cluster_low (hd cs)) (cluster_high (last (take n cs))) arms)" "snd ` set arms \<subseteq> K"
        "\<forall>x. map_option place (map_of arms x) = clusters_place (take n cs) x"
        using table_spec [OF p simp_take ne(1)] wide unfolding ne(2) by blast
      have "regroups word K lo hi cs (do { rest \<leftarrow> tables_loop r word (drop n cs); Some (Table (cluster_low (hd cs)) (cluster_high (last (take n cs))) arms # rest) })"
        using t ih n by (intro regroups_front [OF less.prems(1) n]) auto
      then show ?thesis using e Some False t(1) by (simp add: tables_loop.simps [of r word cs])
    qed
  qed
qed

text \<open>The bounds of a width, and that they hold for the clusters of its cases.\<close>

lemma tables_spec:
  assumes "rules_ok r" "parts word K lo hi cs" "\<forall>c\<in>set cs. simple c" "length cs < 2 ^ 32" "word \<le> 64"
    "- (2 ^ (width ty - 1)) \<le> lo" "hi < 2 ^ (width ty - 1)" "0 < width ty"
  shows "regroups word K lo hi cs (tables r ty word cs)"
proof (cases "width ty > word")
  case False
  have double: "(2 :: int) ^ width ty = 2 * 2 ^ (width ty - 1)" using assms(8) by (cases "width ty") simp_all
  have "(2 :: int) ^ width ty \<le> 2 ^ word" using False by (intro power_increasing) simp_all
  then have "\<forall>c\<in>set cs. simple c \<and> hi - cluster_low c < 2 ^ word"
    using assms(3,6,7) parts_bounds [OF assms(2)] double by fastforce
  then show ?thesis using tables_loop_spec [OF assms(1,5,2) _ assms(4)] False assms(8) by (simp add: tables_def)
qed (use assms(2) in \<open>simp add: tables_def regroups_same\<close>)

lemma forced_spec:
  assumes "parts word K lo hi cs" "\<forall>c\<in>set cs. simple c" "word \<le> 64"
    "- (2 ^ (width ty - 1)) \<le> lo" "hi < 2 ^ (width ty - 1)" "0 < width ty"
  shows "regroups word K lo hi cs (forced ty word cs)"
proof (cases "cs = [] \<or> width ty > word")
  case False
  then have "width ty - 1 \<le> 63" using assms(3) by auto
  then have "(2 :: int) ^ (width ty - 1) \<le> 2 ^ 63" by (intro power_increasing) simp_all
  moreover have bounds: "lo \<le> cluster_low (hd cs)" "cluster_high (last cs) \<le> hi" "cluster_low (hd cs) \<le> hi" "lo \<le> cluster_high (last cs)"
    using parts_bounds [OF assms(1), of "hd cs"] parts_bounds [OF assms(1), of "last cs"] False by simp_all
  ultimately have d: "checked_i128 (cluster_high (last cs) - cluster_low (hd cs)) = Some (cluster_high (last cs) - cluster_low (hd cs))"
    using assms(4,5) by (intro i128_small) (simp add: abs_less_iff)
  have "(2 :: int) ^ width ty \<le> 2 ^ word" using False by (intro power_increasing) simp_all
  moreover have "(2 :: int) ^ width ty = 2 * 2 ^ (width ty - 1)" using assms(6) by (cases "width ty") simp_all
  ultimately have wide: "hi - cluster_low (hd cs) < 2 ^ word" using assms(4,5) bounds(1) by linarith
  obtain arms where t: "table cs = Some (Table (cluster_low (hd cs)) (cluster_high (last cs)) arms)"
    "cluster_ok word (Table (cluster_low (hd cs)) (cluster_high (last cs)) arms)" "snd ` set arms \<subseteq> K"
    "\<forall>x. map_option place (map_of arms x) = clusters_place cs x"
    using table_spec [OF assms(1,2) _ wide] False by auto
  have "regroups word K lo hi cs (do { rest \<leftarrow> Some []; Some (Table (cluster_low (hd cs)) (cluster_high (last cs)) arms # rest) })"
    using t False by (intro regroups_front [OF assms(1), of "length cs"]) (auto simp: regroups_def)
  then show ?thesis using regroups_same [OF assms(1)] d t(1) False assms(6) by (simp add: forced_def)
qed (use assms(1) in \<open>auto simp: forced_def regroups_same\<close>)

section \<open>Bit tests\<close>

lemma reach_loop_spec:
  "\<forall>c\<in>set cs. first \<le> cluster_low c \<and> cluster_low c - first < 2 ^ 127 \<Longrightarrow>
    \<exists>n. reach_loop first word cs = Some n \<and> n \<le> length cs \<and> (\<forall>c\<in>set (take n cs). \<exists>v k. c = One v k \<and> v - first < int word)"
proof (induction first word cs rule: reach_loop.induct)
  case (1 first word v k rest)
  have d: "checked_i128 (v - first) = Some (v - first)"
    using "1.prems" by (simp add: checked_i128_def in_i128_def i128_min_def i128_max_def)
  show ?case using 1 d by (cases "v - first \<ge> int word") force+
qed simp_all

lemma reach_spec:
  assumes "parts word' K lo hi cs" "\<forall>c\<in>set cs. hi - cluster_low c < 2 ^ 127"
  shows "\<exists>n. reach word cs = Some n \<and> n \<le> length cs \<and>
    (\<forall>c\<in>set (take n cs). \<exists>v k. c = One v k \<and> cluster_low (hd cs) \<le> v \<and> v - cluster_low (hd cs) < int word)"
proof (cases "\<exists>first k rest. cs = One first k # rest")
  case True
  then obtain first k rest where cs: "cs = One first k # rest" by blast
  have p: "parts word' K first hi cs" using assms(1) cs by simp
  have b: "\<forall>c\<in>set cs. first \<le> cluster_low c \<and> cluster_low c - first < 2 ^ 127"
    using parts_bounds [OF p] assms(2) cs by fastforce
  obtain n where n: "reach_loop first word cs = Some n" "n \<le> length cs" "\<forall>c\<in>set (take n cs). \<exists>v k. c = One v k \<and> v - first < int word"
    using reach_loop_spec [OF b] by blast
  have "reach word cs = Some n" "cluster_low (hd cs) = first" using n(1) cs by (simp_all add: reach_def)
  then show ?thesis using n b by (metis cluster_low.simps(1) in_set_takeD)
next
  case False
  then have "reach word cs = Some 0" by (auto simp: reach_def split: list.split cluster.split)
  then show ?thesis by simp
qed

lemma add_bit_place:
  "n < 64 \<Longrightarrow> mask_place arms n = None \<Longrightarrow>
    mask_place (add_bit (push_bit n 1) k arms) d = (if d = n then Some (place k) else mask_place arms d)"
  by (induction arms) (auto simp: bit_simps same_place split: if_splits)

lemma add_bit_calls: "snd ` set (add_bit b k arms) \<subseteq> insert k (snd ` set arms)" "add_bit b k arms \<noteq> []"
  by (induction b k arms rule: add_bit.induct) auto

lemma masks_loop_spec:
  assumes "\<forall>c\<in>set cs. \<exists>v k. c = One v k \<and> lo \<le> v \<and> v - lo < 64" "parts word K l hi cs" "lo \<le> l"
    "\<forall>d. lo + int d \<ge> l \<longrightarrow> mask_place arms d = None"
  shows "\<exists>arms'. masks_loop lo arms cs = Some (Some arms') \<and>
    (\<forall>d. mask_place arms' d = (case mask_place arms d of Some p \<Rightarrow> Some p | None \<Rightarrow> clusters_place cs (lo + int d))) \<and>
    snd ` set arms' \<subseteq> snd ` set arms \<union> K \<and> (cs \<noteq> [] \<or> arms \<noteq> [] \<longrightarrow> arms' \<noteq> [])"
  using assms
proof (induction lo arms cs arbitrary: l rule: masks_loop.induct)
  case (1 lo arms)
  then show ?case by (auto split: option.split)
next
  case (2 lo arms v k rest)
  have v: "lo \<le> v" "v - lo < 64" "l \<le> v" "v \<le> hi" "k \<in> K" "parts word K (v + 1) hi rest" using "2.prems" by simp_all
  have d: "checked_i128 (v - lo) = Some (v - lo)" using v by (intro i128_small) simp
  let ?n = "nat (v - lo)" and ?arms = "add_bit (push_bit (nat (v - lo)) 1) k arms"
  have free: "mask_place arms ?n = None" using "2.prems"(4) v(1,3) by simp
  have place: "mask_place ?arms d = (if d = ?n then Some (place k) else mask_place arms d)" for d
    using v(1,2) free by (intro add_bit_place) simp_all
  have above: "\<forall>d. v + 1 \<le> lo + int d \<longrightarrow> mask_place ?arms d = None" using place "2.prems"(4) v(1,3) by auto
  have ih: "\<exists>arms'. masks_loop lo ?arms rest = Some (Some arms') \<and>
    (\<forall>d. mask_place arms' d = (case mask_place ?arms d of Some p \<Rightarrow> Some p | None \<Rightarrow> clusters_place rest (lo + int d))) \<and>
    snd ` set arms' \<subseteq> snd ` set ?arms \<union> K \<and> (rest \<noteq> [] \<or> ?arms \<noteq> [] \<longrightarrow> arms' \<noteq> [])"
    by (rule "2.IH" [OF d, of "v + 1"]) (use "2.prems"(1) v above in auto)
  then obtain arms' where arms': "masks_loop lo ?arms rest = Some (Some arms')"
    "\<And>d. mask_place arms' d = (case mask_place ?arms d of Some p \<Rightarrow> Some p | None \<Rightarrow> clusters_place rest (lo + int d))"
    "snd ` set arms' \<subseteq> snd ` set ?arms \<union> K" "arms' \<noteq> []"
    using add_bit_calls(2) by blast
  have "mask_place arms' d = (case mask_place arms d of Some p \<Rightarrow> Some p | None \<Rightarrow> clusters_place (One v k # rest) (lo + int d))" for d
    using arms'(2) [of d] place [of d] free v(1) by (cases "d = nat (v - lo)") (auto split: option.split)
  moreover have "snd ` set arms' \<subseteq> snd ` set arms \<union> K" using arms'(3) add_bit_calls(1) v(5) by blast
  ultimately show ?case using arms'(1,4) d v(1,2) by (intro exI [of _ arms']) simp
qed auto

lemma bits_of_spec:
  assumes "parts word' K l hi cs" "\<forall>c\<in>set cs. \<exists>v k. c = One v k \<and> cluster_low (hd cs) \<le> v \<and> v - cluster_low (hd cs) < int word" "word \<le> 64"
  shows "bits_of cs = Some None \<or> (\<exists>arms. bits_of cs = Some (Some (Bits (cluster_low (hd cs)) (cluster_high (last cs)) arms)) \<and> cs \<noteq> [] \<and>
    cluster_ok word (Bits (cluster_low (hd cs)) (cluster_high (last cs)) arms) \<and> snd ` set arms \<subseteq> K \<and>
    (\<forall>x. cluster_place (Bits (cluster_low (hd cs)) (cluster_high (last cs)) arms) x = clusters_place cs x))"
proof (cases "cs = []")
  case False
  let ?lo = "cluster_low (hd cs)" and ?hi = "cluster_high (last cs)"
  have top: "?lo \<le> ?hi \<and> ?hi - ?lo < int word" using assms(2) False last_in_set [OF False] by fastforce
  have p: "parts word' K ?lo ?hi cs"
    using parts_split [of word' K l hi cs "[]"] assms(1) False by (cases cs) simp_all
  obtain arms where arms: "masks_loop ?lo [] cs = Some (Some arms)" "\<forall>d. mask_place arms d = clusters_place cs (?lo + int d)"
    "snd ` set arms \<subseteq> K" "arms \<noteq> []"
    using masks_loop_spec [of cs ?lo word' K ?lo ?hi "[]"] p assms(2,3) False by fastforce
  have "cluster_place (Bits ?lo ?hi arms) x = clusters_place cs x" for x
    using arms(2) parts_place [OF p, of x] by (cases "?lo \<le> x \<and> x \<le> ?hi") auto
  then show ?thesis using arms top False by (auto simp: bits_of_def Let_def)
qed (simp add: bits_of_def)

text \<open>A span below a word is a span below any bound that matters here, so the checks of \<open>i128\<close> hold when the cases are not more than
  \<open>2 ^ 127\<close> apart.\<close>

lemma group_spec:
  assumes "word \<le> 64"
  shows "parts word K lo hi cs \<Longrightarrow> \<forall>c\<in>set cs. hi - cluster_low c < 2 ^ 127 \<Longrightarrow> regroups word K lo hi cs (group word cs)"
proof (induction "length cs" arbitrary: cs lo rule: less_induct)
  case less
  show ?case
  proof (cases "cs = []")
    case True
    then show ?thesis by (simp add: group.simps regroups_def)
  next
    case False
    obtain n where n: "reach word cs = Some n" "n \<le> length cs"
      "\<forall>c\<in>set (take n cs). \<exists>v k. c = One v k \<and> cluster_low (hd cs) \<le> v \<and> v - cluster_low (hd cs) < int word"
      using reach_spec [OF less.prems] by blast
    have ih: "parts word K lo' hi (drop n cs) \<Longrightarrow> 0 < n \<Longrightarrow> regroups word K lo' hi (drop n cs) (group word (drop n cs))"
      for n lo' using False less.prems(2) by (intro less.hyps) (auto dest: in_set_dropD)
    have keep: "regroups word K lo hi cs (do { rest \<leftarrow> group word (tl cs); Some (hd cs # rest) })"
      using ih [of _ 1] by (intro regroups_keep [OF less.prems(1) False]) (simp add: drop_Suc)
    show ?thesis
    proof (cases "n = 0")
      case True
      then show ?thesis using keep n(1) False by (subst group.simps) (simp add: bits_of_def)
    next
      case pos: False
      have ne: "take n cs \<noteq> []" "hd (take n cs) = hd cs" using pos False by (auto simp: hd_take)
      have p: "parts word K lo (cluster_high (last (take n cs))) (take n cs)"
        using parts_split [of word K lo hi "take n cs" "drop n cs"] less.prems(1) ne(1) by simp
      show ?thesis
      proof (cases "bits_of (take n cs) = Some None")
        case True
        then show ?thesis using keep n(1) False by (subst group.simps) simp
      next
        case bits: False
        obtain arms where b: "bits_of (take n cs) = Some (Some (Bits (cluster_low (hd cs)) (cluster_high (last (take n cs))) arms))"
          "cluster_ok word (Bits (cluster_low (hd cs)) (cluster_high (last (take n cs))) arms)" "snd ` set arms \<subseteq> K"
          "\<forall>x. cluster_place (Bits (cluster_low (hd cs)) (cluster_high (last (take n cs))) arms) x = clusters_place (take n cs) x"
          using bits_of_spec [OF p _ assms] n(3) bits unfolding ne(2) by blast
        have "regroups word K lo hi cs (do { rest \<leftarrow> group word (drop n cs);
            Some (Bits (cluster_low (hd cs)) (cluster_high (last (take n cs))) arms # rest) })"
          using b ih n(2) pos by (intro regroups_front [OF less.prems(1)]) auto
        then show ?thesis using n(1) b(1) False by (subst group.simps) simp
      qed
    qed
  qed
qed

text \<open>However the clusters are grouped: nothing panics and every value goes where it did.\<close>

lemma regroups_bind:
  assumes "regroups word K lo hi cs r" "\<And>ds. r = Some ds \<Longrightarrow> parts word K lo hi ds \<Longrightarrow> regroups word K lo hi ds (f ds)"
  shows "regroups word K lo hi cs (r \<bind> f)"
proof -
  obtain ds where ds: "r = Some ds" "parts word K lo hi ds" "length ds \<le> length cs" "\<forall>x. clusters_place ds x = clusters_place cs x"
    using assms(1) by (auto simp: regroups_def)
  then obtain es where "f ds = Some es" "parts word K lo hi es" "length es \<le> length ds" "\<forall>x. clusters_place es x = clusters_place ds x"
    using assms(2) [OF ds(1,2)] by (auto simp: regroups_def)
  then show ?thesis using ds by (simp add: regroups_def)
qed

lemma grouped_spec:
  assumes "rules_ok r" "parts word K lo hi cs" "\<forall>c\<in>set cs. simple c" "length cs < 2 ^ 32" "word \<le> 64"
    "- (2 ^ (width ty - 1)) \<le> lo" "hi < 2 ^ (width ty - 1)" "0 < width ty" "hi - lo < 2 ^ 127"
  shows "regroups word K lo hi cs (grouped r f allowed ty word cs)"
proof -
  have far: "\<forall>c\<in>set ds. hi - cluster_low c < 2 ^ 127" if "parts word K lo hi ds" for ds
    using parts_bounds [OF that] assms(9) by fastforce
  have g: "regroups word K lo hi ds (group word ds)" if "parts word K lo hi ds" for ds
    using group_spec [OF assms(5) that far [OF that]] .
  have t: "regroups word K lo hi cs (do { cs \<leftarrow> tables r ty word cs; group word cs })"
    using tables_spec [OF assms(1-8)] g by (intro regroups_bind)
  have s: "regroups word K lo hi cs (forced ty word cs)" by (rule forced_spec [OF assms(2,3,5-8)])
  show ?thesis
    using t s g [OF assms(2)] regroups_same [OF assms(2)] by (simp add: grouped_def split: option.split force.split)
qed

end
