(* ===== verification/SwitchTests.thy ===== *)
theory SwitchTests
  imports SwitchClusters
begin

text \<open>
  The branches written for one cluster, run: from the block they start in, control goes where the cluster sends the operand, to
  the default when the operand is among the values of the cluster and no case, and on to the next test otherwise.
\<close>

lemma mask_place_call: "mask_place arms d = Some p \<Longrightarrow> \<exists>a\<in>set arms. p = place (snd a)"
  by (induction arms) (auto split: if_splits)

lemma cluster_place_call: "cluster_place k x = Some p \<Longrightarrow> \<exists>a\<in>set (calls_of k). p = place a"
proof (cases k)
  case (Table lo hi arms)
  then show "cluster_place k x = Some p \<Longrightarrow> \<exists>a\<in>set (calls_of k). p = place a" by (force dest: map_of_SomeD)
next
  case (Bits lo hi arms)
  then show "cluster_place k x = Some p \<Longrightarrow> \<exists>a\<in>set (calls_of k). p = place a" by (auto dest: mask_place_call split: if_splits)
qed (auto split: if_splits)

section \<open>What the instructions written mean\<close>

lemma meaning_icmp:
  "meaning T env (inst_new ICmpOp [x, y] (PredExtra p) NONE) ty = Some (of_bool (pred_holds p (width (T x)) (env x) (env y)))"
  by (simp add: meaning_def)

lemma meaning_sub: "meaning T env (inst_new SubOp [x, y] NoExtra NONE) ty = Some ((env x - env y) AND maskw (width (T x)))"
  by (simp add: meaning_def binary_meaning_def sub_conc_def)

lemma meaning_and: "meaning T env (inst_new AndOp [x, y] NoExtra NONE) ty = Some (env x AND env y)"
  by (simp add: meaning_def binary_meaning_def)

lemma meaning_shl:
  "uint (env y) < int (width (T x)) \<Longrightarrow>
    meaning T env (inst_new ShlOp [x, y] NoExtra NONE) ty = Some (push_bit (unat (env y)) (env x) AND maskw (width (T x)))"
  by (simp add: meaning_def shift_meaning_def)

lemma meaning_convert:
  "meaning T env (inst_new ZExtOp [x] NoExtra NONE) ty = Some (env x AND maskw (width ty))"
  "meaning T env (inst_new TruncOp [x] NoExtra NONE) ty = Some (env x AND maskw (width ty))"
  by (simp_all add: meaning_def)

lemmas meanings = meaning_icmp meaning_sub meaning_and meaning_convert

text \<open>Types a \<open>switch\<close> and its tests compute in.\<close>

definition scalar :: "irtype \<Rightarrow> bool" where
  "scalar ty \<longleftrightarrow> int_ty ty \<and> type_lane ty = ty"

lemma scalarD: "scalar ty \<Longrightarrow> int_ty ty" "scalar ty \<Longrightarrow> type_lane ty = ty" "scalar ty \<Longrightarrow> 0 < width ty" "scalar ty \<Longrightarrow> width ty \<le> 128"
  by (simp_all add: scalar_def int_ty_def)

lemma scalar_eq: "scalar a \<Longrightarrow> scalar b \<Longrightarrow> width a = width b \<Longrightarrow> a = b"
proof -
  assume a: "scalar a" and b: "scalar b" and w: "width a = width b"
  have k: "kind_of a = KInt" "kind_of b = KInt" using a b by (simp_all add: scalar_def int_ty_def is_int_def)
  then have "type_field a = type_field b" using w by (simp add: type_bits_def word_unat_eq_iff)
  then show "a = b" using a b k unfolding scalar_def type_lane_def by metis
qed

lemma I1_scalar: "kind_of I1 = KInt" "is_scalar I1" "type_field I1 = 1"
  using unpack [of 1 KInt] by (simp_all add: I1_def is_scalar_def)

lemma field_fits: "take_bit 16 (type_field t) = type_field t"
proof -
  have "BITS_MASK = mask 16" by (simp add: BITS_MASK_def mask_eq_exp_minus_1)
  then have "type_field t = take_bit 16 (raw t)" by (simp only: type_field_def take_bit_eq_mask)
  then show ?thesis by simp
qed

lemma scalar_bit: "scalar ty \<Longrightarrow> with_lane ty I1 = Some I1"
proof -
  assume "scalar ty"
  then have "ty = pack (kind_of ty) (type_field ty) 1" by (simp add: scalar_def type_lane_def)
  then have "type_lanes ty = 1" using unpack(3) [OF field_fits] by metis
  then show ?thesis by (simp add: with_lane_def type_vector_def I1_scalar) (simp add: I1_def MAX_LANES_def LANES_MASK_def)
qed

lemma scalar_int: "1 \<le> word \<Longrightarrow> word \<le> 64 \<Longrightarrow> \<exists>ty. type_int (of_nat word) = Some ty \<and> scalar ty \<and> width ty = word"
proof -
  assume w: "1 \<le> word" "word \<le> 64"
  then have u: "unat (of_nat word :: u32) = word" by (simp add: unsigned_of_nat take_bit_nat_eq_self)
  then have "(of_nat word :: u32) \<noteq> 0" using w(1) by (metis not_one_le_zero unsigned_0)
  then have pos: "0 < (of_nat word :: u32)" unfolding word_greater_zero_iff .
  have fits: "take_bit 16 (of_nat word :: u32) = of_nat word" using w u by (simp add: u32_fits)
  have t: "type_int (of_nat word) = Some (pack KInt (of_nat word) 1)"
    unfolding type_int_def fits_16 by (rule if_P) (rule conjI [OF pos fits])
  let ?t = "pack KInt (of_nat word) 1"
  have "width ?t = word" "is_int ?t" "type_lane ?t = ?t"
    using unpack [OF fits, of KInt] u by (simp_all add: type_bits_def is_int_def type_lane_def)
  then show ?thesis using t w by (auto simp: scalar_def int_ty_def)
qed

text \<open>A constant in a type is its value modulo the width.\<close>

definition const_bits :: "irtype \<Rightarrow> int \<Rightarrow> imm" where
  "const_bits ty v = word_of_int v AND maskw (width ty)"

lemma uint_const: "scalar ty \<Longrightarrow> uint (const_bits ty v) = v mod 2 ^ width ty"
  by (simp add: const_bits_def uint_wrapped scalarD)

lemma const_le: "scalar ty \<Longrightarrow> const_bits ty v \<le> maskw (width ty)"
  by (simp add: const_bits_def scalarD)

lemma imm_int_const: "scalar ty \<Longrightarrow> imm_int v (type_lane ty) = Some (const_bits ty v)"
  by (simp add: scalarD imm_int_eq const_bits_def)

section \<open>Appending\<close>

definition wrote :: "nat \<Rightarrow> 'x placed list \<Rightarrow> irtype list \<Rightarrow> 'x code \<Rightarrow> 'x code" where
  "wrote b is ts c = c\<lparr>blocks := (blocks c)[b := blocks c ! b @ is], value_types := value_types c @ ts\<rparr>"

lemma wrote_simps [simp]:
  "length (blocks (wrote b is ts c)) = length (blocks c)" "layout (wrote b is ts c) = layout c"
  "value_types (wrote b is ts c) = value_types c @ ts"
  by (simp_all add: wrote_def)

lemma wrote_block: "b < length (blocks c) \<Longrightarrow> blocks (wrote b is ts c) ! b' = (if b' = b then blocks c ! b @ is else blocks c ! b')"
  by (simp add: wrote_def)

lemma wrote_wrote [simp]: "b < length (blocks c) \<Longrightarrow> wrote b js us (wrote b is ts c) = wrote b (is @ js) (ts @ us) c"
  by (simp add: wrote_def)

lemma append_inst_wrote: "b < length (blocks c) \<Longrightarrow> append_inst b i c = Some (wrote b [i] [] c)"
  by (simp add: append_inst_def wrote_def)

lemma build_value_wrote:
  "b < length (blocks c) \<Longrightarrow> build_value b data ty c = Some (length (value_types c), wrote b [Plain data (length (value_types c))] [ty] c)"
  by (simp add: build_value_def append_inst_def wrote_def Let_def)

lemma iconst_wrote:
  "b < length (blocks c) \<Longrightarrow> scalar ty \<Longrightarrow> iconst b ty v c =
    Some (length (value_types c), wrote b [Plain (inst_new IConstOp [] (ImmExtra (const_bits ty v)) NONE) (length (value_types c))] [ty] c)"
  by (simp add: iconst_def imm_int_const build_value_wrote)

lemma binary_wrote:
  "b < length (blocks c) \<Longrightarrow> value_type c x = Some ty \<Longrightarrow> build_binary b op x y fl c =
    Some (length (value_types c), wrote b [Plain (inst_new op [x, y] NoExtra fl) (length (value_types c))] [ty] c)"
  by (simp add: build_binary_def build_value_wrote)

lemma icmp_wrote:
  "b < length (blocks c) \<Longrightarrow> value_type c x = Some ty \<Longrightarrow> scalar ty \<Longrightarrow> icmp b p x y c =
    Some (length (value_types c), wrote b [Plain (inst_new ICmpOp [x, y] (PredExtra p) NONE) (length (value_types c))] [I1] c)"
  by (simp add: icmp_def build_value_wrote scalar_bit)

lemma value_type_wrote:
  "value_type (wrote b is ts c) v = (if v < length (value_types c) then value_type c v
     else if v < length (value_types c) + length ts then Some (ts ! (v - length (value_types c))) else None)"
  by (auto simp: value_type_def nth_append)

lemmas writes = append_inst_wrote build_value_wrote iconst_wrote binary_wrote icmp_wrote value_type_wrote
  br_if_def build_jump_def build_unary_def

section \<open>Code inside a larger function\<close>

text \<open>A function that has the blocks from \<open>c\<close> to \<open>c'\<close>, and \<open>b\<close>, as they are in \<open>c'\<close>.\<close>

definition settled :: "'x code \<Rightarrow> nat \<Rightarrow> 'x code \<Rightarrow> 'x code \<Rightarrow> bool" where
  "settled c b c' F \<longleftrightarrow>
     (\<forall>b'. b' = b \<or> length (blocks c) \<le> b' \<and> b' < length (blocks c') \<longrightarrow> blocks F ! b' = blocks c' ! b') \<and>
     (\<exists>ts. value_types F = value_types c' @ ts) \<and> set (layout c') \<subseteq> set (layout F)"

text \<open>Nothing is changed but the end of \<open>b\<close>, and blocks that are new.\<close>

definition frame :: "'x code \<Rightarrow> nat \<Rightarrow> 'x code \<Rightarrow> bool" where
  "frame c b c' \<longleftrightarrow> length (blocks c) \<le> length (blocks c') \<and>
     (\<forall>b'<length (blocks c). b' \<noteq> b \<longrightarrow> blocks c' ! b' = blocks c ! b') \<and> (\<exists>is. blocks c' ! b = blocks c ! b @ is) \<and>
     (\<exists>ts. value_types c' = value_types c @ ts) \<and> set (layout c) \<subseteq> set (layout c') \<and>
     set (layout c') \<subseteq> set (layout c) \<union> {length (blocks c)..<length (blocks c')}"

lemma frame_wrote: "b < length (blocks c) \<Longrightarrow> frame c b (wrote b is ts c)"
  by (auto simp: frame_def wrote_block)

text \<open>Running to an edge, with the values the function had before as they were.\<close>

definition goes :: "'x code \<Rightarrow> nat \<Rightarrow> nat \<Rightarrow> 'x placed list \<Rightarrow> env \<Rightarrow> edge \<Rightarrow> bool" where
  "goes F n m is env e \<longleftrightarrow> (\<exists>env'. reaches F n is env e env' \<and> (\<forall>v<m. env' v = env v))"

lemma goes_run:
  "run_block (nth (value_types F)) is env = Some (e, env') \<Longrightarrow> (\<And>v. v < m \<Longrightarrow> env' v = env v) \<Longrightarrow> goes F n m is env e"
  by (auto simp: goes_def intro: reaches.Take)

lemma goes_on:
  assumes "goes F n m is env (b, [])" "n \<le> b" "b \<in> set (layout F)"
    "\<And>env'. (\<And>v. v < m \<Longrightarrow> env' v = env v) \<Longrightarrow> goes F n m (blocks F ! b) env' e"
  shows "goes F n m is env e"
proof -
  obtain env1 where e1: "reaches F n is env (b, []) env1" "\<forall>v<m. env1 v = env v" using assms(1) by (auto simp: goes_def)
  obtain env2 where e2: "reaches F n (blocks F ! b) env1 e env2" "\<forall>v<m. env2 v = env1 v" using assms(4) [of env1] e1(2) by (auto simp: goes_def)
  show ?thesis using reaches_trans [OF e1(1) assms(2,3) e2(1)] e1(2) e2(2) by (auto simp: goes_def)
qed

lemma goes_branch:
  assumes "run_block (nth (value_types F)) is env = Some ((b, []), env1)" "\<forall>v<m. env1 v = env v" "n \<le> b" "b \<in> set (layout F)"
    "goes F n m (blocks F ! b) env1 e"
  shows "goes F n m is env e"
  using assms by (auto simp: goes_def intro: reaches.Go)

text \<open>An edge whose values are old ones.\<close>

abbreviation call_ok :: "nat \<Rightarrow> nat \<Rightarrow> block_call \<Rightarrow> bool" where
  "call_ok n m k \<equiv> to_block k < n \<and> (\<forall>v\<in>set (passed k). v < m)"

definition at_place :: "env \<Rightarrow> place \<Rightarrow> edge" where
  "at_place env p = (fst p, map env (snd p))"

lemma edge_place: "edge env k = at_place env (place k)"
  by (simp add: edge_def at_place_def place_def)

lemma at_place_agree: "(\<And>v. v < m \<Longrightarrow> env' v = env v) \<Longrightarrow> \<forall>v\<in>set (snd p). v < m \<Longrightarrow> at_place env' p = at_place env p"
  by (simp add: at_place_def)

section \<open>The operand less the lowest value\<close>

lemma scalar_signed:
  assumes "scalar ty" "x \<le> maskw (width ty)"
  shows "- (2 ^ (width ty - 1)) \<le> signed_at x (width ty)" "signed_at x (width ty) < 2 ^ (width ty - 1)"
    "signed_at x (width ty) mod 2 ^ width ty = uint x" "(2 :: int) ^ width ty = 2 * 2 ^ (width ty - 1)"
proof -
  note w = scalarD(3,4) [OF assms(1)]
  show "- (2 ^ (width ty - 1)) \<le> signed_at x (width ty)" "signed_at x (width ty) < 2 ^ (width ty - 1)"
    using signed_at_limits [OF w assms(2)] by simp_all
  have "uint x < 2 ^ width ty" using assms(2) w(2) by (simp add: le_maskw_iff)
  then show "signed_at x (width ty) mod 2 ^ width ty = uint x" using signed_at_mod [OF w] by simp
  show "(2 :: int) ^ width ty = 2 * 2 ^ (width ty - 1)" using w(1) by (cases "width ty") simp_all
qed

text \<open>A constant is equal to the operand, or above it, when the numbers are.\<close>

lemma const_signed:
  assumes "scalar ty" "- (2 ^ (width ty - 1)) \<le> v" "v < 2 ^ (width ty - 1)"
  shows "signed_at (const_bits ty v) (width ty) = v"
  using signed_at_unique [OF scalarD(3,4) [OF assms(1)] _ assms(2,3), of "const_bits ty v"] uint_const [OF assms(1), of v] by simp

lemma const_eq:
  assumes "scalar ty" "x \<le> maskw (width ty)" "- (2 ^ (width ty - 1)) \<le> v" "v < 2 ^ (width ty - 1)"
  shows "x = const_bits ty v \<longleftrightarrow> signed_at x (width ty) = v"
  using signed_at_inj [OF scalarD(3,4) [OF assms(1)] assms(2) const_le [OF assms(1)], of v] const_signed [OF assms(1,3,4)] by auto

definition base_of :: "irtype \<Rightarrow> int \<Rightarrow> imm \<Rightarrow> imm" where
  "base_of ty lo x = (if lo = 0 then x else (x - const_bits ty lo) AND maskw (width ty))"

lemma uint_base:
  assumes "scalar ty" "x \<le> maskw (width ty)"
  shows "uint (base_of ty lo x) = (signed_at x (width ty) - lo) mod 2 ^ width ty"
proof (cases "lo = 0")
  case False
  have "uint (base_of ty lo x) = (uint x - uint (const_bits ty lo)) mod 2 ^ width ty"
    using False scalarD(4) [OF assms(1)] by (simp add: base_of_def word_red uint_word_ariths mod_2_128)
  also have "\<dots> = (signed_at x (width ty) - lo) mod 2 ^ width ty"
    unfolding uint_const [OF assms(1)] scalar_signed(3) [OF assms, symmetric] by (simp add: mod_diff_eq)
  finally show ?thesis .
qed (use scalar_signed(3) [OF assms] in \<open>simp add: base_of_def\<close>)

lemma base_le: "scalar ty \<Longrightarrow> x \<le> maskw (width ty) \<Longrightarrow> base_of ty lo x \<le> maskw (width ty)"
  by (simp add: base_of_def scalarD)

text \<open>It is below a width just for the values of the stretch, and it is the distance for every value above.\<close>

lemma base_test:
  assumes "scalar ty" "x \<le> maskw (width ty)" "- (2 ^ (width ty - 1)) \<le> lo" "hi < 2 ^ (width ty - 1)" "lo \<le> hi"
  shows "base_of ty lo x \<le> const_bits ty (hi - lo) \<longleftrightarrow> lo \<le> signed_at x (width ty) \<and> signed_at x (width ty) \<le> hi"
    "lo \<le> signed_at x (width ty) \<Longrightarrow> uint (base_of ty lo x) = signed_at x (width ty) - lo"
    "signed_at x (width ty) < lo \<Longrightarrow> uint (base_of ty lo x) = signed_at x (width ty) - lo + 2 ^ width ty"
proof -
  let ?x = "signed_at x (width ty)" and ?w = "(2 :: int) ^ width ty"
  note r = scalar_signed [OF assms(1,2)]
  have wide: "uint (const_bits ty (hi - lo)) = hi - lo" using uint_const [OF assms(1)] assms(3-5) r(4) by simp
  show up: "lo \<le> ?x \<Longrightarrow> uint (base_of ty lo x) = ?x - lo" using uint_base [OF assms(1,2), of lo] r assms(3) by simp
  show down: "?x < lo \<Longrightarrow> uint (base_of ty lo x) = ?x - lo + ?w"
  proof -
    assume "?x < lo"
    then have "(?x - lo + ?w) mod ?w = ?x - lo + ?w" using r assms(4,5) by (intro mod_pos_pos_trivial) linarith+
    then show "uint (base_of ty lo x) = ?x - lo + ?w" unfolding uint_base [OF assms(1,2), of lo] mod_add_self2 .
  qed
  show "base_of ty lo x \<le> const_bits ty (hi - lo) \<longleftrightarrow> lo \<le> ?x \<and> ?x \<le> hi"
    using up down wide r assms(3-5) by (cases "lo \<le> ?x") (simp_all add: word_le_def)
qed

section \<open>The contract of a test\<close>

definition stands_at :: "nat \<Rightarrow> nat \<Rightarrow> lowering \<Rightarrow> nat \<Rightarrow> 'x code \<Rightarrow> bool" where
  "stands_at n m l b c \<longleftrightarrow> b < length (blocks c) \<and> n \<le> length (blocks c) \<and> m \<le> length (value_types c) \<and> of_value l < m \<and>
     layout c \<noteq> [] \<and> set (layout c) \<subseteq> {..<length (blocks c)} \<and> value_type c (of_value l) = Some (of_ty l) \<and> scalar (of_ty l) \<and> scalar (of_word l) \<and> call_ok n m (of_default l)"

abbreviation operand :: "lowering \<Rightarrow> env \<Rightarrow> int" where
  "operand l env \<equiv> signed_at (env (of_value l)) (width (of_ty l))"

definition written :: "nat \<Rightarrow> nat \<Rightarrow> lowering \<Rightarrow> nat \<Rightarrow> 'x code \<Rightarrow> (env \<Rightarrow> edge) \<Rightarrow> 'x code option \<Rightarrow> bool" where
  "written n m l b c out r \<longleftrightarrow>
     (\<exists>c'. r = Some c' \<and> frame c b c' \<and>
       (\<forall>F env. settled c b c' F \<longrightarrow> env (of_value l) \<le> maskw (width (of_ty l)) \<longrightarrow>
         goes F n m (drop (length (blocks c ! b)) (blocks F ! b)) env (out env)))"

definition test_exit :: "lowering \<Rightarrow> cluster \<Rightarrow> nat \<Rightarrow> nat list \<Rightarrow> env \<Rightarrow> edge" where
  "test_exit l k next onward env =
     (case cluster_place k (operand l env) of
        Some p \<Rightarrow> at_place env p
      | None \<Rightarrow> if cluster_low k \<le> operand l env \<and> operand l env \<le> cluster_high k then edge env (of_default l)
               else (next, map env onward))"

text \<open>The bounds of a cluster of an operand of the type.\<close>

definition cluster_fits :: "nat \<Rightarrow> nat \<Rightarrow> lowering \<Rightarrow> cluster \<Rightarrow> bool" where
  "cluster_fits n m l k \<longleftrightarrow> cluster_ok (width (of_word l)) k \<and> - (2 ^ (width (of_ty l) - 1)) \<le> cluster_low k \<and>
     cluster_high k < 2 ^ (width (of_ty l) - 1) \<and> cluster_high k - cluster_low k < 2 ^ 127 \<and> (\<forall>a\<in>set (calls_of k). call_ok n m a)"

lemma written_wrote:
  assumes "b < length (blocks c)"
    "\<And>F env ts'. value_types F = value_types c @ ts @ ts' \<Longrightarrow> set (layout c) \<subseteq> set (layout F) \<Longrightarrow>
      env (of_value l) \<le> maskw (width (of_ty l)) \<Longrightarrow> goes F n m is env (out env)"
  shows "written n m l b c out (Some (wrote b is ts c))"
  using assms by (auto simp: written_def frame_wrote settled_def wrote_block)

lemma value_type_Some: "value_type c v = Some ty \<longleftrightarrow> v < length (value_types c) \<and> value_types c ! v = ty"
  by (simp add: value_type_def)

lemma one_written:
  assumes "stands_at n m l b c" "cluster_fits n m l (One v k)" "\<forall>v\<in>set onward. v < m"
  shows "written n m l b c (test_exit l (One v k) next onward) (write_test l b (One v k) next onward c)"
proof -
  have s: "b < length (blocks c)" "value_type c (of_value l) = Some (of_ty l)" "scalar (of_ty l)" "of_value l < m" "m \<le> length (value_types c)"
    using assms(1) by (simp_all add: stands_at_def)
  let ?v = "length (value_types c)"
  have w: "write_test l b (One v k) next onward c = Some (wrote b
      [Plain (inst_new IConstOp [] (ImmExtra (const_bits (of_ty l) v)) NONE) ?v,
       Plain (inst_new ICmpOp [of_value l, ?v] (PredExtra Eq) NONE) (Suc ?v),
       BrIf (Suc ?v) (block_call_new (to_block k) (passed k)) (block_call_new next onward)] [of_ty l, I1] c)"
    using s by (simp add: writes value_type_Some)
  show ?thesis
    unfolding w
  proof (rule written_wrote [OF s(1)], rule goes_run)
    fix F :: "'a code" and env ts'
    assume F: "value_types F = value_types c @ [of_ty l, I1] @ ts'" "env (of_value l) \<le> maskw (width (of_ty l))"
    let ?e = "env(?v := const_bits (of_ty l) v, Suc ?v := of_bool (operand l env = v))"
    have "env (of_value l) = const_bits (of_ty l) v \<longleftrightarrow> operand l env = v"
      using const_eq [OF s(3) F(2)] assms(2) by (simp add: cluster_fits_def)
    then show "run_block (nth (value_types F)) [Plain (inst_new IConstOp [] (ImmExtra (const_bits (of_ty l) v)) NONE) ?v,
       Plain (inst_new ICmpOp [of_value l, ?v] (PredExtra Eq) NONE) (Suc ?v),
       BrIf (Suc ?v) (block_call_new (to_block k) (passed k)) (block_call_new next onward)] env =
      Some (test_exit l (One v k) next onward env, ?e)"
      using F s assms(2,3) by (auto simp: meanings test_exit_def edge_def at_place_def place_def cluster_fits_def)
    show "?e v = env v" if "v < m" for v using that s(5) by simp
  qed
qed

section \<open>The range check\<close>

text \<open>Types of values in a larger function.\<close>

definition types_at :: "(nat \<Rightarrow> irtype) \<Rightarrow> irtype list \<Rightarrow> bool" where
  "types_at T ts \<longleftrightarrow> (\<forall>i<length ts. T i = ts ! i)"

lemma types_at_append: "types_at (nth (ts @ us)) ts"
  by (simp add: types_at_def nth_append)

lemma types_atD: "types_at T (ts @ us) \<Longrightarrow> types_at T ts"
  by (simp add: types_at_def nth_append)

lemma types_at_nth: "types_at T ts \<Longrightarrow> i < length ts \<Longrightarrow> T i = ts ! i"
  by (simp add: types_at_def)

lemma shifted_down_written:
  assumes "b < length (blocks c)" "value_type c (of_value l) = Some (of_ty l)" "scalar (of_ty l)"
  shows "\<exists>is ts v. shifted_down b l lo c = Some (v, wrote b is ts c) \<and> v < length (value_types c @ ts) \<and>
    (value_types c @ ts) ! v = of_ty l \<and>
    (\<forall>T env rest. types_at T (value_types c @ ts) \<longrightarrow>
      (\<exists>env'. run_block T (is @ rest) env = run_block T rest env' \<and> env' v = base_of (of_ty l) lo (env (of_value l)) \<and>
        (\<forall>u<length (value_types c). env' u = env u)))"
proof (cases "lo = 0")
  case True
  have "wrote b [] [] c = c" using assms(1) by (simp add: wrote_def)
  then show ?thesis
    using True assms by (intro exI [of _ "[]"] exI [of _ "of_value l"]) (auto simp: shifted_down_def base_of_def value_type_Some)
next
  case False
  let ?v = "length (value_types c)"
  let ?is = "[Plain (inst_new IConstOp [] (ImmExtra (const_bits (of_ty l) lo)) NONE) ?v, Plain (inst_new SubOp [of_value l, ?v] NoExtra NONE) (Suc ?v)]"
  have w: "shifted_down b l lo c = Some (Suc ?v, wrote b ?is [of_ty l, of_ty l] c)"
    using False assms by (simp add: shifted_down_def writes value_type_Some)
  show ?thesis
  proof (intro exI conjI allI impI)
    show "shifted_down b l lo c = Some (Suc ?v, wrote b ?is [of_ty l, of_ty l] c)" by (rule w)
    fix T env rest
    assume T: "types_at T (value_types c @ [of_ty l, of_ty l])"
    let ?e = "env(?v := const_bits (of_ty l) lo, Suc ?v := base_of (of_ty l) lo (env (of_value l)))"
    have "T (of_value l) = of_ty l" using types_at_nth [OF T, of "of_value l"] assms(2) by (simp add: value_type_Some nth_append)
    then show "run_block T (?is @ rest) env = run_block T rest ?e"
      using False assms(2) by (simp add: meanings base_of_def value_type_Some)
    show "?e (Suc ?v) = base_of (of_ty l) lo (env (of_value l))" by simp
    show "?e u = env u" if "u < ?v" for u using that by simp
  qed (simp_all add: nth_append)
qed

text \<open>A value at or below a constant, and the branch on it.\<close>

lemma bound_written:
  fixes c :: "'x code"
  assumes "b < length (blocks c)" "value_type c v = Some ty" "scalar ty" "\<bar>d\<bar> < 2 ^ 127"
  shows "\<exists>is. (\<forall>k :: 'x code \<Rightarrow> 'y option. (do { d \<leftarrow> checked_i128 d; (wide, c) \<leftarrow> iconst b ty d c; (ok, c) \<leftarrow> icmp b Ule v wide c;
        c \<leftarrow> br_if b ok yes yes_args no no_args c; k c }) = k (wrote b is [ty, I1] c)) \<and>
    (\<forall>T env. types_at T (value_types c @ [ty, I1]) \<longrightarrow>
      (\<exists>env'. run_block T is env = Some (edge env' (if env v \<le> const_bits ty d then block_call_new yes yes_args else block_call_new no no_args), env') \<and>
        (\<forall>u<length (value_types c). env' u = env u)))"
proof -
  let ?v = "length (value_types c)"
  let ?is = "[Plain (inst_new IConstOp [] (ImmExtra (const_bits ty d)) NONE) ?v, Plain (inst_new ICmpOp [v, ?v] (PredExtra Ule) NONE) (Suc ?v),
    BrIf (Suc ?v) (block_call_new yes yes_args) (block_call_new no no_args)]"
  have "checked_i128 d = Some d" using assms(4) by (auto simp: checked_i128_def in_i128_def i128_min_def i128_max_def abs_less_iff)
  then have w: "(do { d \<leftarrow> checked_i128 d; (wide, c) \<leftarrow> iconst b ty d c; (ok, c) \<leftarrow> icmp b Ule v wide c;
        c \<leftarrow> br_if b ok yes yes_args no no_args c; k c }) = k (wrote b ?is [ty, I1] c)" for k
    using assms(1-3) by (simp add: writes value_type_Some)
  show ?thesis
  proof (intro exI [of _ ?is] conjI allI impI)
    fix T env
    assume T: "types_at T (value_types c @ [ty, I1])"
    let ?e = "env(?v := const_bits ty d, Suc ?v := of_bool (env v \<le> const_bits ty d))"
    show "\<exists>env'. run_block T ?is env = Some (edge env' (if env v \<le> const_bits ty d then block_call_new yes yes_args else block_call_new no no_args), env') \<and>
        (\<forall>u<length (value_types c). env' u = env u)"
      using assms(2) by (intro exI [of _ ?e]) (auto simp: meanings value_type_Some)
  qed (rule w)
qed

text \<open>Both together: control goes one way for the values of the stretch and the other way for the rest.\<close>

lemma range_check_written:
  fixes c :: "'x code"
  assumes "stands_at n m l b c" "lo \<le> hi" "- (2 ^ (width (of_ty l) - 1)) \<le> lo" "hi < 2 ^ (width (of_ty l) - 1)" "hi - lo < 2 ^ 127"
    "\<forall>v\<in>set yes_args \<union> set no_args. v < m"
  shows "\<exists>is ts v. (\<forall>k :: nat \<Rightarrow> 'x code \<Rightarrow> 'y option. (do { (base, c) \<leftarrow> shifted_down b l lo c; d \<leftarrow> checked_i128 (hi - lo); (wide, c) \<leftarrow> iconst b (of_ty l) d c;
        (ok, c) \<leftarrow> icmp b Ule base wide c; c \<leftarrow> br_if b ok yes yes_args no no_args c; k base c }) = k v (wrote b is ts c)) \<and>
    v < length (value_types c @ ts) \<and> (value_types c @ ts) ! v = of_ty l \<and>
    (\<forall>T env. types_at T (value_types c @ ts) \<longrightarrow> env (of_value l) \<le> maskw (width (of_ty l)) \<longrightarrow>
      (\<exists>env'. run_block T is env = Some (if lo \<le> operand l env \<and> operand l env \<le> hi then (yes, map env yes_args) else (no, map env no_args), env') \<and>
        env' v = base_of (of_ty l) lo (env (of_value l)) \<and> (\<forall>u<length (value_types c). env' u = env u)))"
proof -
  have s: "b < length (blocks c)" "value_type c (of_value l) = Some (of_ty l)" "scalar (of_ty l)" "of_value l < m" "m \<le> length (value_types c)"
    using assms(1) by (simp_all add: stands_at_def)
  obtain is1 ts1 v where d: "shifted_down b l lo c = Some (v, wrote b is1 ts1 c)" "v < length (value_types c @ ts1)"
    "(value_types c @ ts1) ! v = of_ty l"
    "\<And>T env rest. types_at T (value_types c @ ts1) \<Longrightarrow>
      \<exists>env'. run_block T (is1 @ rest) env = run_block T rest env' \<and> env' v = base_of (of_ty l) lo (env (of_value l)) \<and>
        (\<forall>u<length (value_types c). env' u = env u)"
    using shifted_down_written [OF s(1-3)] by blast
  let ?c = "wrote b is1 ts1 c"
  have v: "b < length (blocks ?c)" "value_type ?c v = Some (of_ty l)" "\<bar>hi - lo\<bar> < 2 ^ 127"
    using s(1) d(2,3) assms(2,5) by (simp_all add: value_type_def)
  obtain is2 where b: "\<And>k :: 'x code \<Rightarrow> 'y option. (do { d \<leftarrow> checked_i128 (hi - lo); (wide, c) \<leftarrow> iconst b (of_ty l) d ?c; (ok, c) \<leftarrow> icmp b Ule v wide c;
        c \<leftarrow> br_if b ok yes yes_args no no_args c; k c }) = k (wrote b is2 [of_ty l, I1] ?c)"
    "\<And>T env. types_at T (value_types ?c @ [of_ty l, I1]) \<Longrightarrow>
      \<exists>env'. run_block T is2 env = Some (edge env' (if env v \<le> const_bits (of_ty l) (hi - lo) then block_call_new yes yes_args else block_call_new no no_args), env') \<and>
        (\<forall>u<length (value_types ?c). env' u = env u)"
    using bound_written [OF v(1,2) s(3) v(3)] by blast
  show ?thesis
  proof (intro exI [of _ "is1 @ is2"] exI [of _ "ts1 @ [of_ty l, I1]"] exI [of _ v] conjI allI impI)
    show "(do { (base, c) \<leftarrow> shifted_down b l lo c; d \<leftarrow> checked_i128 (hi - lo); (wide, c) \<leftarrow> iconst b (of_ty l) d c;
        (ok, c) \<leftarrow> icmp b Ule base wide c; c \<leftarrow> br_if b ok yes yes_args no no_args c; k base c }) =
      k v (wrote b (is1 @ is2) (ts1 @ [of_ty l, I1]) c)" for k :: "nat \<Rightarrow> 'x code \<Rightarrow> 'y option"
      using b(1) [of "k v"] s(1) by (simp add: d(1))
    show "v < length (value_types c @ ts1 @ [of_ty l, I1])" "(value_types c @ ts1 @ [of_ty l, I1]) ! v = of_ty l"
      using d(2,3) by (simp_all add: nth_append split: if_splits)
    fix T and env :: env
    assume T: "types_at T (value_types c @ ts1 @ [of_ty l, I1])" and x: "env (of_value l) \<le> maskw (width (of_ty l))"
    have "types_at T (value_types c @ ts1)" using T by (metis append_assoc types_atD)
    then obtain e1 where e1: "run_block T (is1 @ is2) env = run_block T is2 e1" "e1 v = base_of (of_ty l) lo (env (of_value l))"
      "\<forall>u<length (value_types c). e1 u = env u"
      using d(4) by blast
    obtain e2 where e2: "run_block T is2 e1 = Some (edge e2 (if e1 v \<le> const_bits (of_ty l) (hi - lo) then block_call_new yes yes_args else block_call_new no no_args), e2)"
      "\<forall>u<length (value_types c @ ts1). e2 u = e1 u"
      using b(2) [of T e1] T by auto
    have agree: "\<forall>u<length (value_types c). e2 u = env u" using e1(3) e2(2) by simp
    have "e2 u = env u" if "u \<in> set yes_args \<union> set no_args" for u
      using agree assms(6) s(5) that by (meson order_less_le_trans)
    then have "map e2 yes_args = map env yes_args" "map e2 no_args = map env no_args" by auto
    then have "run_block T (is1 @ is2) env = Some (if lo \<le> operand l env \<and> operand l env \<le> hi then (yes, map env yes_args) else (no, map env no_args), e2)"
      using e1(1,2) e2(1) base_test(1) [OF s(3) x assms(3,4,2)] by (simp add: edge_def)
    moreover have "e2 v = base_of (of_ty l) lo (env (of_value l))" using e1(2) e2(2) d(2) by simp
    ultimately show "\<exists>env'. run_block T (is1 @ is2) env = Some (if lo \<le> operand l env \<and> operand l env \<le> hi then (yes, map env yes_args) else (no, map env no_args), env') \<and>
        env' v = base_of (of_ty l) lo (env (of_value l)) \<and> (\<forall>u<length (value_types c). env' u = env u)"
      using agree by blast
  qed
qed

lemma run_written:
  assumes "stands_at n m l b c" "cluster_fits n m l (Run lo hi k)" "\<forall>v\<in>set onward. v < m"
  shows "written n m l b c (test_exit l (Run lo hi k) next onward) (write_test l b (Run lo hi k) next onward c)"
proof -
  have s: "b < length (blocks c)" "m \<le> length (value_types c)" using assms(1) by (simp_all add: stands_at_def)
  have f: "lo \<le> hi" "- (2 ^ (width (of_ty l) - 1)) \<le> lo" "hi < 2 ^ (width (of_ty l) - 1)" "hi - lo < 2 ^ 127"
    "\<forall>v\<in>set (passed k) \<union> set onward. v < m"
    using assms(2,3) by (auto simp: cluster_fits_def)
  note check = range_check_written [OF assms(1) f, of "to_block k" "next"]
  obtain "is" ts v where
    w: "\<forall>k' :: nat \<Rightarrow> 'a code \<Rightarrow> 'a code option. (do { (base, c) \<leftarrow> shifted_down b l lo c; d \<leftarrow> checked_i128 (hi - lo); (wide, c) \<leftarrow> iconst b (of_ty l) d c;
        (ok, c) \<leftarrow> icmp b Ule base wide c; c \<leftarrow> br_if b ok (to_block k) (passed k) next onward c; k' base c }) = k' v (wrote b is ts c)"
    and run: "\<forall>T env. types_at T (value_types c @ ts) \<longrightarrow> env (of_value l) \<le> maskw (width (of_ty l)) \<longrightarrow>
      (\<exists>env'. run_block T is env = Some (if lo \<le> operand l env \<and> operand l env \<le> hi then (to_block k, map env (passed k)) else (next, map env onward), env') \<and>
        env' v = base_of (of_ty l) lo (env (of_value l)) \<and> (\<forall>u<length (value_types c). env' u = env u))"
    using check by (elim exE conjE)
  have eq: "write_test l b (Run lo hi k) next onward c = Some (wrote b is ts c)"
    using w [THEN spec, of "\<lambda>base. Some"] by simp
  show ?thesis
    unfolding eq
  proof (rule written_wrote [OF s(1)])
    fix F :: "'a code" and env ts'
    assume F: "value_types F = value_types c @ ts @ ts'" "env (of_value l) \<le> maskw (width (of_ty l))"
    have "types_at (nth (value_types F)) (value_types c @ ts)" unfolding F(1) append_assoc [symmetric] by (rule types_at_append)
    then obtain env' where "run_block (nth (value_types F)) is env = Some (test_exit l (Run lo hi k) next onward env, env')"
      "\<forall>u<length (value_types c). env' u = env u"
      using run [THEN spec, THEN spec, of "nth (value_types F)" env] F(2) by (auto simp: test_exit_def at_place_def place_def)
    then show "goes F n m is env (test_exit l (Run lo hi k) next onward env)"
      using s(2) by (intro goes_run [where env' = env']) auto
  qed
qed

section \<open>New blocks\<close>

definition opened :: "nat \<Rightarrow> 'x code \<Rightarrow> 'x code" where
  "opened k c = c\<lparr>blocks := blocks c @ replicate k [], layout := layout c @ [length (blocks c)..<length (blocks c) + k]\<rparr>"

lemma opened_simps [simp]:
  "length (blocks (opened k c)) = length (blocks c) + k" "layout (opened k c) = layout c @ [length (blocks c)..<length (blocks c) + k]"
  "value_types (opened k c) = value_types c" "value_type (opened k c) = value_type c"
  by (simp_all add: opened_def value_type_def fun_eq_iff)

lemma opened_block: "b < length (blocks c) \<Longrightarrow> blocks (opened k c) ! b = blocks c ! b"
  "length (blocks c) \<le> b \<Longrightarrow> b < length (blocks c) + k \<Longrightarrow> blocks (opened k c) ! b = []"
  by (simp_all add: opened_def nth_append)

lemma create_block_opened: "create_block c = (length (blocks c), opened 1 c)"
  by (simp add: create_block_def opened_def Let_def)

lemma opened_opened: "opened j (opened k c) = opened (k + j) c"
proof -
  have "[L..<L + (k + j)] = [L..<L + k] @ [L + k..<L + k + j]" for L
    using upt_add_eq_append [of L "L + k" j] by (simp add: add.assoc)
  then show ?thesis by (simp add: opened_def replicate_add)
qed

lemma create_blocks_opened: "create_blocks k c = ([length (blocks c)..<length (blocks c) + k], opened k c)"
proof (induction k arbitrary: c)
  case 0
  show ?case by (simp add: opened_def)
next
  case (Suc k)
  have "[length (blocks c)..<length (blocks c) + Suc k] = length (blocks c) # [Suc (length (blocks c))..<Suc (length (blocks c)) + k]"
    by (simp add: upt_conv_Cons del: upt_Suc)
  then show ?case
    unfolding create_blocks.simps create_block_opened Let_def prod.case Suc.IH opened_opened
    by (simp only: opened_simps One_nat_def plus_1_eq_Suc add_Suc_right add_0_right add_Suc add_0)
qed

lemma frame_trans:
  assumes f1: "frame c0 b c" and f2: "frame c b2 c'" and b: "b < length (blocks c0)" "b2 = b \<or> length (blocks c0) \<le> b2"
  shows "frame c0 b c'"
proof -
  obtain is1 ts1 is2 ts2 where c: "blocks c ! b = blocks c0 ! b @ is1" "value_types c = value_types c0 @ ts1"
    "blocks c' ! b2 = blocks c ! b2 @ is2" "value_types c' = value_types c @ ts2"
    using f1 f2 by (auto simp: frame_def)
  have len: "length (blocks c0) \<le> length (blocks c)" "length (blocks c) \<le> length (blocks c')" using f1 f2 by (simp_all add: frame_def)
  have "\<exists>is. blocks c' ! b = blocks c0 ! b @ is"
  proof (cases "b2 = b")
    case False
    then have "blocks c' ! b = blocks c ! b" using f2 b(1) len by (auto simp: frame_def)
    then show ?thesis using c(1) by simp
  qed (use c in simp)
  moreover have "blocks c' ! b' = blocks c0 ! b'" if "b' < length (blocks c0)" "b' \<noteq> b" for b'
    using f1 f2 b(2) len that by (auto simp: frame_def)
  moreover have "set (layout c') \<subseteq> set (layout c0) \<union> {length (blocks c0)..<length (blocks c')}"
  proof
    fix x
    assume "x \<in> set (layout c')"
    then have "x \<in> set (layout c) \<or> length (blocks c) \<le> x \<and> x < length (blocks c')" using f2 by (auto simp: frame_def)
    then show "x \<in> set (layout c0) \<union> {length (blocks c0)..<length (blocks c')}" using f1 len by (auto simp: frame_def)
  qed
  ultimately show ?thesis using f1 f2 len c by (auto simp: frame_def)
qed

lemma frame_opened: "b < length (blocks c) \<Longrightarrow> frame c b (opened k c)"
  by (auto simp: frame_def opened_block)

section \<open>A bit test\<close>

lemma low_masked: "scalar ty \<Longrightarrow> uint x < 2 ^ width ty \<Longrightarrow> x AND maskw (width ty) = x"
  using le_maskw_mask_iff [of "width ty" x] by (simp add: le_maskw_iff scalarD)

lemma in_word_written:
  assumes "b < length (blocks c)" "value_type c v = Some (of_ty l)" "scalar (of_ty l)" "scalar (of_word l)"
  shows "\<exists>is ts v'. in_word b l v c = Some (v', wrote b is ts c) \<and> v' < length (value_types c @ ts) \<and> (value_types c @ ts) ! v' = of_word l \<and>
    (\<forall>T env rest. types_at T (value_types c @ ts) \<longrightarrow> uint (env v) < 2 ^ width (of_word l) \<longrightarrow>
      (\<exists>env'. run_block T (is @ rest) env = run_block T rest env' \<and> env' v' = env v \<and> (\<forall>u<length (value_types c). env' u = env u)))"
proof (cases "width (of_ty l) = width (of_word l)")
  case True
  have "wrote b [] [] c = c" using assms(1) by (simp add: wrote_def)
  then show ?thesis
    using True assms scalar_eq by (intro exI [of _ "[]"] exI [of _ v]) (auto simp: in_word_def value_type_Some)
next
  case False
  let ?v = "length (value_types c)"
  define op where "op = (if width (of_ty l) < width (of_word l) then ZExtOp else TruncOp)"
  have w: "in_word b l v c = Some (?v, wrote b [Plain (inst_new op [v] NoExtra NONE) ?v] [of_word l] c)"
    using False assms(1) by (simp add: in_word_def writes op_def)
  show ?thesis
  proof (intro exI conjI allI impI)
    show "in_word b l v c = Some (?v, wrote b [Plain (inst_new op [v] NoExtra NONE) ?v] [of_word l] c)" by (rule w)
    fix T rest and env :: env
    assume T: "types_at T (value_types c @ [of_word l])" and x: "uint (env v) < 2 ^ width (of_word l)"
    have "T ?v = of_word l" using types_at_nth [OF T, of ?v] by simp
    then show "run_block T ([Plain (inst_new op [v] NoExtra NONE) ?v] @ rest) env = run_block T rest (env(?v := env v))"
      using low_masked [OF assms(4) x] by (simp add: meanings op_def)
    show "(env(?v := env v)) ?v = env v" by simp
    show "(env(?v := env v)) u = env u" if "u < ?v" for u using that by simp
  qed simp_all
qed

text \<open>The constant a mask is written as has the bits of the mask that are in a word.\<close>

lemma signed_mask_mod:
  assumes "1 \<le> word" "word \<le> 64"
  shows "signed_mask m word mod 2 ^ word = uint m mod 2 ^ word"
proof (cases "word = 64")
  case True
  have "uint m = take_bit 64 (sint m)" by (simp add: uint_sint)
  then have "uint m = sint m mod 2 ^ 64" by (simp only: take_bit_eq_mod)
  then show ?thesis using True by (simp add: signed_mask_def)
next
  case False
  let ?s = "64 - word"
  have "bit (signed_drop_bit ?s (push_bit ?s m)) i \<longleftrightarrow> bit m i" if "i < word" for i
    using that assms by (auto simp: bit_simps bit_signed_drop_bit_iff)
  then have "take_bit word (uint (signed_drop_bit ?s (push_bit ?s m))) = take_bit word (uint m)"
    by (intro bit_eqI) (auto simp: bit_take_bit_iff bit_uint_iff)
  moreover have "take_bit word (sint x) = take_bit word (uint x)" for x :: u64
    using assms(2) by (simp add: uint_sint)
  ultimately show ?thesis using False assms(2) by (simp add: signed_mask_def Let_def flip: take_bit_eq_mod)
qed

lemma mask_const_bit:
  assumes "scalar ty" "width ty \<le> 64" "d < width ty"
  shows "push_bit d 1 AND const_bits ty (signed_mask m (width ty)) \<noteq> 0 \<longleftrightarrow> bit m d"
proof -
  have "uint (const_bits ty (signed_mask m (width ty))) = take_bit (width ty) (uint m)"
    using signed_mask_mod [of "width ty" m] uint_const [OF assms(1)] assms scalarD(3) [OF assms(1)] by (simp add: take_bit_eq_mod)
  then have "bit (uint (const_bits ty (signed_mask m (width ty)))) d \<longleftrightarrow> bit m d"
    using assms(3) by (simp add: bit_take_bit_iff bit_uint_iff) (auto dest: bit_imp_le_length)
  then have c: "bit (const_bits ty (signed_mask m (width ty))) d \<longleftrightarrow> bit m d"
    by (simp add: bit_uint_iff) (auto dest: bit_imp_le_length)
  have "d < 128" using assms(2,3) by simp
  then have "bit (push_bit d 1 :: imm) d" by (simp add: bit_simps)
  then have "push_bit d 1 \<noteq> (0 :: imm)" by (metis bit_0_eq bot_apply bot_bool_def)
  moreover have "push_bit d 1 AND x = (if bit x d then push_bit d 1 else 0)" for x :: imm
    by (rule bit_word_eqI) (auto simp: bit_simps)
  ultimately show ?thesis unfolding c [symmetric] by simp
qed

text \<open>The test of one mask, and the branch on it.\<close>

definition mask_insts :: "lowering \<Rightarrow> nat \<Rightarrow> u64 \<Rightarrow> nat \<Rightarrow> block_call \<Rightarrow> block_call \<Rightarrow> 'x placed list" where
  "mask_insts l bit_value m v yes no =
     [Plain (inst_new IConstOp [] (ImmExtra (const_bits (of_word l) (signed_mask m (width (of_word l))))) NONE) v,
      Plain (inst_new AndOp [bit_value, v] NoExtra NONE) (Suc v),
      Plain (inst_new IConstOp [] (ImmExtra (const_bits (of_word l) 0)) NONE) (Suc (Suc v)),
      Plain (inst_new ICmpOp [Suc v, Suc (Suc v)] (PredExtra Ne) NONE) (Suc (Suc (Suc v))),
      BrIf (Suc (Suc (Suc v))) yes no]"

abbreviation mask_types :: "lowering \<Rightarrow> irtype list" where
  "mask_types l \<equiv> [of_word l, of_word l, of_word l, I1]"

lemma mask_tests_step:
  assumes "b < length (blocks c)" "value_type c bit_value = Some (of_word l)" "scalar (of_word l)"
  shows "mask_tests l bit_value [b] spare onto [(m, k)] c =
      Some (wrote b (mask_insts l bit_value m (length (value_types c)) (block_call_new (to_block k) (passed k)) (block_call_new spare onto)) (mask_types l) c)"
    "mask_tests l bit_value (b # b2 # bs) spare onto ((m, k) # a # arms) c =
      mask_tests l bit_value (b2 # bs) spare onto (a # arms)
        (wrote b (mask_insts l bit_value m (length (value_types c)) (block_call_new (to_block k) (passed k)) (block_call_new b2 [])) (mask_types l) c)"
  using assms by (simp_all add: writes value_type_Some mask_insts_def nth_append)

lemma mask_run:
  assumes "bit_value < v" "scalar (of_word l)" "width (of_word l) \<le> 64" "d < width (of_word l)" "env bit_value = push_bit d 1"
  shows "\<exists>env'. run_block T (mask_insts l bit_value m v yes no) env = Some (edge env' (if bit m d then yes else no), env') \<and> (\<forall>u<v. env' u = env u)"
proof -
  let ?want = "const_bits (of_word l) (signed_mask m (width (of_word l)))"
  have z: "const_bits (of_word l) 0 = 0" by (simp add: const_bits_def)
  let ?e = "env(v := ?want, Suc v := push_bit d 1 AND ?want, Suc (Suc v) := 0, Suc (Suc (Suc v)) := of_bool (bit m d))"
  show ?thesis
    using assms mask_const_bit [OF assms(2,3,4), of m] by (intro exI [of _ ?e]) (auto simp: mask_insts_def meanings z)
qed

lemma goes_edge:
  assumes "run_block (nth (value_types F)) is env = Some (edge env' k, env')" "\<forall>u<m. env' u = env u" "\<forall>u\<in>set (passed k). u < m"
  shows "goes F n m is env (edge env k)"
proof (rule goes_run)
  have "edge env' k = edge env k" using assms(2,3) by (simp add: edge_def)
  then show "run_block (nth (value_types F)) is env = Some (edge env k, env')" using assms(1) by simp
qed (use assms(2) in simp)

lemma mask_tests_written:
  assumes l: "scalar (of_word l)" "width (of_word l) \<le> 64" and onto: "\<forall>u\<in>set onto. u < m"
  shows "length bs = length arms \<Longrightarrow> distinct (b # bs) \<Longrightarrow> \<forall>b'\<in>set (b # bs). b' < length (blocks c) \<Longrightarrow>
    \<forall>b'\<in>set bs. blocks c ! b' = [] \<and> n \<le> b' \<and> b' \<in> set (layout c) \<Longrightarrow> value_type c bit_value = Some (of_word l) \<Longrightarrow>
    bit_value < m \<Longrightarrow> m \<le> length (value_types c) \<Longrightarrow> \<forall>a\<in>set (a # arms). \<forall>u\<in>set (passed (snd a)). u < m \<Longrightarrow>
    \<exists>c' is. mask_tests l bit_value (b # bs) spare onto (a # arms) c = Some c' \<and> length (blocks c') = length (blocks c) \<and>
      layout c' = layout c \<and> (\<exists>ts. value_types c' = value_types c @ ts) \<and> (\<forall>b'. b' \<notin> set (b # bs) \<longrightarrow> blocks c' ! b' = blocks c ! b') \<and>
      blocks c' ! b = blocks c ! b @ is \<and>
      (\<forall>F env d. (\<forall>b'\<in>set bs. blocks F ! b' = blocks c' ! b') \<longrightarrow> (\<exists>ts. value_types F = value_types c' @ ts) \<longrightarrow>
        set (layout c) \<subseteq> set (layout F) \<longrightarrow> d < width (of_word l) \<longrightarrow> env bit_value = push_bit d 1 \<longrightarrow>
        goes F n m is env (case mask_place (a # arms) d of Some p \<Rightarrow> at_place env p | None \<Rightarrow> (spare, map env onto)))"
proof (induction arms arbitrary: a b bs c)
  case Nil
  obtain mk k where a: "a = (mk, k)" by (cases a)
  let ?is = "mask_insts l bit_value mk (length (value_types c)) (block_call_new (to_block k) (passed k)) (block_call_new spare onto) :: 'a placed list"
  have c: "b < length (blocks c)" "bs = []" and lt: "bit_value < length (value_types c)" using Nil.prems by simp_all
  note w = mask_tests_step(1) [OF c(1) Nil.prems(5) l(1)]
  have run: "goes F n m ?is env (case mask_place [a] d of Some p \<Rightarrow> at_place env p | None \<Rightarrow> (spare, map env onto))"
    if d: "d < width (of_word l)" "env bit_value = push_bit d 1" for F :: "'a code" and env d
  proof -
    obtain env' where e: "run_block (nth (value_types F)) ?is env =
        Some (edge env' (if bit mk d then block_call_new (to_block k) (passed k) else block_call_new spare onto), env')"
      "\<forall>u<length (value_types c). env' u = env u"
      using mask_run [where bit_value = bit_value and env = env, OF lt l d] by blast
    have "goes F n m ?is env (edge env (if bit mk d then block_call_new (to_block k) (passed k) else block_call_new spare onto))"
      by (rule goes_edge [OF e(1)]) (use e(2) Nil.prems(7,8) onto a in auto)
    then show ?thesis by (simp add: a edge_def at_place_def place_def split: if_splits)
  qed
  show ?case
    using w a c run by (intro exI [of _ "wrote b ?is (mask_types l) c"] exI [of _ ?is]) (simp add: wrote_block)
next
  case (Cons a2 arms)
  obtain mk k where a: "a = (mk, k)" by (cases a)
  obtain b2 bs' where bs: "bs = b2 # bs'" using Cons.prems(1) by (cases bs) simp_all
  let ?v = "length (value_types c)"
  let ?is = "mask_insts l bit_value mk ?v (block_call_new (to_block k) (passed k)) (block_call_new b2 []) :: 'a placed list"
  let ?c = "wrote b ?is (mask_types l) c"
  have b: "b < length (blocks c)" "b \<noteq> b2" "b \<notin> set bs'" "blocks c ! b2 = []" "n \<le> b2" "b2 \<in> set (layout c)"
    using Cons.prems(2-4) bs by simp_all
  have lt: "bit_value < length (value_types c)" using Cons.prems(6,7) by simp
  have vt: "value_type ?c bit_value = Some (of_word l)" using Cons.prems(5) by (simp add: value_type_Some nth_append)
  have "\<exists>c' is. mask_tests l bit_value (b2 # bs') spare onto (a2 # arms) ?c = Some c' \<and> length (blocks c') = length (blocks ?c) \<and>
      layout c' = layout ?c \<and> (\<exists>ts. value_types c' = value_types ?c @ ts) \<and> (\<forall>b'. b' \<notin> set (b2 # bs') \<longrightarrow> blocks c' ! b' = blocks ?c ! b') \<and>
      blocks c' ! b2 = blocks ?c ! b2 @ is \<and>
      (\<forall>F env d. (\<forall>b'\<in>set bs'. blocks F ! b' = blocks c' ! b') \<longrightarrow> (\<exists>ts. value_types F = value_types c' @ ts) \<longrightarrow>
        set (layout ?c) \<subseteq> set (layout F) \<longrightarrow> d < width (of_word l) \<longrightarrow> env bit_value = push_bit d 1 \<longrightarrow>
        goes F n m is env (case mask_place (a2 # arms) d of Some p \<Rightarrow> at_place env p | None \<Rightarrow> (spare, map env onto)))"
    by (rule Cons.IH) (use Cons.prems bs b vt in \<open>auto simp: wrote_block\<close>)
  then obtain c' "is" ts where c': "mask_tests l bit_value (b2 # bs') spare onto (a2 # arms) ?c = Some c'" "length (blocks c') = length (blocks c)"
      "layout c' = layout c" "value_types c' = value_types c @ mask_types l @ ts" "\<forall>b'. b' \<notin> set (b2 # bs') \<longrightarrow> blocks c' ! b' = blocks ?c ! b'"
      "blocks c' ! b2 = is"
    and run2: "\<And>F env d. \<forall>b'\<in>set bs'. blocks F ! b' = blocks c' ! b' \<Longrightarrow> \<exists>ts. value_types F = value_types c' @ ts \<Longrightarrow>
        set (layout c) \<subseteq> set (layout F) \<Longrightarrow> d < width (of_word l) \<Longrightarrow> env bit_value = push_bit d 1 \<Longrightarrow>
        goes F n m is env (case mask_place (a2 # arms) d of Some p \<Rightarrow> at_place env p | None \<Rightarrow> (spare, map env onto))"
    using b by (auto simp: wrote_block)
  have run: "goes F n m ?is env (case mask_place (a # a2 # arms) d of Some p \<Rightarrow> at_place env p | None \<Rightarrow> (spare, map env onto))"
    if F: "\<forall>b'\<in>set bs. blocks F ! b' = blocks c' ! b'" "\<exists>ts. value_types F = value_types c' @ ts" "set (layout c) \<subseteq> set (layout F)"
      "d < width (of_word l)" "env bit_value = push_bit d 1" for F :: "'a code" and env d
  proof -
    obtain env' where e: "run_block (nth (value_types F)) ?is env =
        Some (edge env' (if bit mk d then block_call_new (to_block k) (passed k) else block_call_new b2 []), env')"
      "\<forall>u<length (value_types c). env' u = env u"
      using mask_run [where bit_value = bit_value and env = env, OF lt l F(4,5)] by blast
    have g: "goes F n m ?is env (edge env (if bit mk d then block_call_new (to_block k) (passed k) else block_call_new b2 []))"
      by (rule goes_edge [OF e(1)]) (use e(2) Cons.prems(7,8) onto a in auto)
    show ?thesis
    proof (cases "bit mk d")
      case True
      then show ?thesis using g by (simp add: a edge_def at_place_def place_def)
    next
      case False
      have "goes F n m ?is env (case mask_place (a2 # arms) d of Some p \<Rightarrow> at_place env p | None \<Rightarrow> (spare, map env onto))"
      proof (rule goes_on [of F n m ?is env b2])
        show "goes F n m ?is env (b2, [])" using g False by (simp add: edge_def)
        show "n \<le> b2" "b2 \<in> set (layout F)" using b F(3) by auto
        fix env1 :: env
        assume agree: "\<And>u. u < m \<Longrightarrow> env1 u = env u"
        have calls: "\<forall>u\<in>set (snd p). u < m" if "mask_place (a2 # arms) d = Some p" for p
          using mask_place_call [OF that] Cons.prems(8) by (auto simp: place_def)
        have "goes F n m is env1 (case mask_place (a2 # arms) d of Some p \<Rightarrow> at_place env1 p | None \<Rightarrow> (spare, map env1 onto))"
          by (rule run2) (use F bs agree Cons.prems(6) in auto)
        moreover have "map env1 onto = map env onto" unfolding map_eq_conv using agree onto by simp
        ultimately show "goes F n m (blocks F ! b2) env1 (case mask_place (a2 # arms) d of Some p \<Rightarrow> at_place env p | None \<Rightarrow> (spare, map env onto))"
          using F(1) bs c'(6) calls at_place_agree [of m env1 env] agree
          by (cases "mask_place (a2 # arms) d") (simp_all only: option.case list.set_intros bs, auto)
      qed
      then show ?thesis using False by (simp add: a)
    qed
  qed
  show ?case
    using mask_tests_step(2) [OF b(1) Cons.prems(5) l(1)] a bs c' run b
    by (intro exI [of _ c'] exI [of _ ?is]) (simp add: wrote_block)
qed

lemma goes_prefix:
  assumes "run_block (nth (value_types F)) xs env = run_block (nth (value_types F)) ys env1" "\<forall>u<m. env1 u = env u" "goes F n m ys env1 e"
  shows "goes F n m xs env e"
proof -
  obtain env' where r: "reaches F n ys env1 e env'" "\<forall>u<m. env' u = env1 u" using assms(3) by (auto simp: goes_def)
  from r(1) have "reaches F n xs env e env'"
    by (rule reachesE) (auto simp: assms(1) [symmetric] intro: reaches.intros)
  then show ?thesis using r(2) assms(2) by (auto simp: goes_def)
qed

lemma goes_mono: "goes F n m' is env e \<Longrightarrow> m \<le> m' \<Longrightarrow> goes F n m is env e"
  by (auto simp: goes_def)

text \<open>Masks that cover a span leave nothing for the default.\<close>

lemma bit_fold_masks: "bit (foldl (\<lambda>seen (m, _). seen OR m) s arms) d \<longleftrightarrow> bit s d \<or> (\<exists>a\<in>set arms. bit (fst a) d)" for s :: u64
  by (induction arms arbitrary: s) (auto simp: bit_or_iff)

lemma mask_place_append: "mask_place (as @ bs) d = (case mask_place as d of Some p \<Rightarrow> Some p | None \<Rightarrow> mask_place bs d)"
  by (induction as) auto

lemma mask_place_None: "mask_place arms d = None \<longleftrightarrow> (\<forall>a\<in>set arms. \<not> bit (fst a) d)"
  by (induction arms) auto

lemma span_mask_bits:
  assumes "lo \<le> hi" "hi - lo < 64"
  shows "\<exists>s. span_mask lo hi = Some s \<and> (\<forall>d. int d \<le> hi - lo \<longrightarrow> bit s d)"
proof -
  have c: "checked_i128 (hi - lo) = Some (hi - lo)" using assms by (intro i128_small) simp
  have "bit (push_bit (nat (hi - lo + 1)) 1 - 1 :: u64) d" if "int d \<le> hi - lo" "hi - lo + 1 < 64" for d
  proof -
    have "push_bit (nat (hi - lo + 1)) 1 - 1 = (mask (nat (hi - lo + 1)) :: u64)" by (simp add: mask_eq_exp_minus_1)
    then show ?thesis using that by (simp add: bit_mask_iff)
  qed
  then show ?thesis using assms c by (auto simp: span_mask_def)
qed

text \<open>Which masks are tested, and where control goes when no test holds.\<close>

definition tested :: "int \<Rightarrow> int \<Rightarrow> (u64 \<times> block_call) list \<Rightarrow> bool option" where
  "tested lo hi arms =
     (if length arms > 1 then map_option (\<lambda>m. foldl (\<lambda>seen (m, _). seen OR m) 0 arms = m) (span_mask lo hi) else Some False)"

lemma tested_spec:
  assumes "lo \<le> hi" "hi - lo < 64" "arms \<noteq> []"
  shows "\<exists>full tests. tested lo hi arms = Some full \<and> tests = length arms - (if full then 1 else 0) \<and> 1 \<le> tests \<and> tests \<le> length arms \<and>
      (\<forall>d. int d \<le> hi - lo \<longrightarrow> (case mask_place arms d of Some p \<Rightarrow> p | None \<Rightarrow> place other) =
        (case mask_place (take tests arms) d of Some p \<Rightarrow> p | None \<Rightarrow> place (if full then snd (last arms) else other)))"
proof -
  obtain s where s: "span_mask lo hi = Some s" "\<forall>d. int d \<le> hi - lo \<longrightarrow> bit s d" using span_mask_bits [OF assms(1,2)] by blast
  show ?thesis
  proof (cases "length arms > 1 \<and> foldl (\<lambda>seen (m, _). seen OR m) 0 arms = s")
    case True
    have arms: "arms = take (length arms - 1) arms @ [last arms]"
      using append_butlast_last_id [OF assms(3)] by (simp add: butlast_conv_take)
    have place: "mask_place arms d = (case mask_place (take (length arms - 1) arms) d of Some p \<Rightarrow> Some p | None \<Rightarrow> mask_place [last arms] d)" for d
      using arms mask_place_append [of "take (length arms - 1) arms" "[last arms]" d] by simp
    have "(case mask_place arms d of Some p \<Rightarrow> p | None \<Rightarrow> place other) =
        (case mask_place (take (length arms - 1) arms) d of Some p \<Rightarrow> p | None \<Rightarrow> place (snd (last arms)))" if "int d \<le> hi - lo" for d
    proof -
      have "bit (foldl (\<lambda>seen (m, _). seen OR m) 0 arms) d" using True s(2) that by simp
      then have "mask_place arms d \<noteq> None" unfolding bit_fold_masks mask_place_None by simp
      then show ?thesis
        using place [of d] by (cases "mask_place (take (length arms - 1) arms) d") (auto split: if_splits)
    qed
    moreover have "tested lo hi arms = Some True" using True s(1) by (simp add: tested_def)
    ultimately show ?thesis using True by (intro exI [of _ True] exI [of _ "length arms - 1"]) auto
  next
    case False
    then have "tested lo hi arms = Some False" using s(1) by (auto simp: tested_def)
    then show ?thesis using assms(3) by (intro exI [of _ False] exI [of _ "length arms"]) (simp add: Suc_le_eq)
  qed
qed

lemma bits_written:
  fixes c :: "'x code"
  assumes st: "stands_at n m l b c" and fits: "cluster_fits n m l (Bits lo hi arms)" and onward: "\<forall>v\<in>set onward. v < m"
    and word: "width (of_word l) \<le> 64"
  shows "written n m l b c (test_exit l (Bits lo hi arms) next onward) (write_test l b (Bits lo hi arms) next onward c)"
proof -
  have s: "b < length (blocks c)" "n \<le> length (blocks c)" "m \<le> length (value_types c)" "of_value l < m" "value_type c (of_value l) = Some (of_ty l)"
    "scalar (of_ty l)" "scalar (of_word l)" "call_ok n m (of_default l)"
    using st by (simp_all add: stands_at_def)
  have k: "lo \<le> hi" "hi - lo < int (width (of_word l))" "arms \<noteq> []" "- (2 ^ (width (of_ty l) - 1)) \<le> lo" "hi < 2 ^ (width (of_ty l) - 1)"
    "hi - lo < 2 ^ 127" "\<forall>a\<in>set arms. call_ok n m (snd a)"
    using fits by (auto simp: cluster_fits_def)
  have "int (width (of_word l)) \<le> int 64" using word by (rule of_nat_mono)
  then have narrow: "hi - lo < 64" using k(2) by linarith
  let ?L = "length (blocks c)"
  obtain full tests where t: "tested lo hi arms = Some full" "tests = length arms - (if full then 1 else 0)" "1 \<le> tests" "tests \<le> length arms"
    "\<And>d. int d \<le> hi - lo \<Longrightarrow> (case mask_place arms d of Some p \<Rightarrow> p | None \<Rightarrow> place (of_default l)) =
      (case mask_place (take tests arms) d of Some p \<Rightarrow> p | None \<Rightarrow> place (if full then snd (last arms) else of_default l))"
    using tested_spec [OF k(1) narrow k(3), of "of_default l"] by auto
  define spare where "spare = (if full then snd (last arms) else of_default l)"
  have sp: "call_ok n m spare" using k(7) s(8) last_in_set [OF k(3)] by (simp add: spare_def)
  let ?c1 = "opened tests c"
  have st1: "stands_at n m l b ?c1" using st by (auto simp: stands_at_def)
  have args: "\<forall>v\<in>set [] \<union> set onward. v < m" using onward by simp
  obtain is1 ts1 v where
    w1: "\<forall>k :: nat \<Rightarrow> 'x code \<Rightarrow> 'x code option. (do { (base, c) \<leftarrow> shifted_down b l lo ?c1; d \<leftarrow> checked_i128 (hi - lo);
        (wide, c) \<leftarrow> iconst b (of_ty l) d c; (ok, c) \<leftarrow> icmp b Ule base wide c; c \<leftarrow> br_if b ok ?L [] next onward c; k base c }) =
      k v (wrote b is1 ts1 ?c1)"
    and v: "v < length (value_types ?c1 @ ts1)" "(value_types ?c1 @ ts1) ! v = of_ty l"
    and run1: "\<forall>T env. types_at T (value_types ?c1 @ ts1) \<longrightarrow> env (of_value l) \<le> maskw (width (of_ty l)) \<longrightarrow>
      (\<exists>env'. run_block T is1 env = Some (if lo \<le> operand l env \<and> operand l env \<le> hi then (?L, map env []) else (next, map env onward), env') \<and>
        env' v = base_of (of_ty l) lo (env (of_value l)) \<and> (\<forall>u<length (value_types ?c1). env' u = env u))"
    using range_check_written [OF st1 k(1,4,5,6) args, of ?L "next"] by (elim exE conjE)
  let ?c2 = "wrote b is1 ts1 ?c1"
  have L: "?L < length (blocks ?c2)" "b \<noteq> ?L" "b < length (blocks ?c1)" using t(3) s(1) by simp_all
  have vt: "value_type ?c2 v = Some (of_ty l)" using v by (simp add: value_type_Some)
  obtain is2 ts2 amount where
    w2: "in_word ?L l v ?c2 = Some (amount, wrote ?L is2 ts2 ?c2)" and a: "amount < length (value_types ?c2 @ ts2)"
      "(value_types ?c2 @ ts2) ! amount = of_word l"
    and run2: "\<forall>T env rest. types_at T (value_types ?c2 @ ts2) \<longrightarrow> uint (env v) < 2 ^ width (of_word l) \<longrightarrow>
      (\<exists>env'. run_block T (is2 @ rest) env = run_block T rest env' \<and> env' amount = env v \<and> (\<forall>u<length (value_types ?c2). env' u = env u))"
    using in_word_written [OF L(1) vt s(6,7)] by (elim exE conjE)
  let ?c3 = "wrote ?L is2 ts2 ?c2" and ?v = "length (value_types c @ ts1 @ ts2)"
  let ?is3 = "[Plain (inst_new IConstOp [] (ImmExtra (const_bits (of_word l) 1)) NONE) ?v,
      Plain (inst_new ShlOp [?v, amount] NoExtra NONE) (Suc ?v)] :: 'x placed list"
  let ?c4 = "wrote ?L (is2 @ ?is3) (ts2 @ [of_word l, of_word l]) ?c2"
  obtain a0 arms' where arms: "take tests arms = a0 # arms'" using t(3) k(3) by (cases "take tests arms") auto
  let ?more = "[Suc ?L..<?L + tests]"
  have blocks1: "blocks ?c1 ! b' = []" if "?L \<le> b'" "b' < ?L + tests" for b' using that by (simp add: opened_block)
  have "tests = Suc (length arms')" using arg_cong [OF arms, of length] t(3,4) by simp
  then have len: "length ?more = length arms'" unfolding length_upt by linarith
  have "\<exists>c' is. mask_tests l (Suc ?v) (?L # ?more) (to_block spare) (passed spare) (a0 # arms') ?c4 = Some c' \<and> length (blocks c') = length (blocks ?c4) \<and>
      layout c' = layout ?c4 \<and> (\<exists>ts. value_types c' = value_types ?c4 @ ts) \<and> (\<forall>b'. b' \<notin> set (?L # ?more) \<longrightarrow> blocks c' ! b' = blocks ?c4 ! b') \<and>
      blocks c' ! ?L = blocks ?c4 ! ?L @ is \<and>
      (\<forall>F env d. (\<forall>b'\<in>set ?more. blocks F ! b' = blocks c' ! b') \<longrightarrow> (\<exists>ts. value_types F = value_types c' @ ts) \<longrightarrow>
        set (layout ?c4) \<subseteq> set (layout F) \<longrightarrow> d < width (of_word l) \<longrightarrow> env (Suc ?v) = push_bit d 1 \<longrightarrow>
        goes F n (length (value_types ?c4)) is env
          (case mask_place (a0 # arms') d of Some p \<Rightarrow> at_place env p | None \<Rightarrow> (to_block spare, map env (passed spare))))"
  proof (rule mask_tests_written [OF s(7) word])
    show "\<forall>u\<in>set (passed spare). u < length (value_types ?c4)" using sp s(3) by auto
    show "\<forall>a\<in>set (a0 # arms'). \<forall>u\<in>set (passed (snd a)). u < length (value_types ?c4)"
      using k(7) s(3) in_set_takeD [of _ tests arms] unfolding arms by fastforce
    show "value_type ?c4 (Suc ?v) = Some (of_word l)" by (simp add: value_type_Some nth_append)
    show "\<forall>b'\<in>set ?more. blocks ?c4 ! b' = [] \<and> n \<le> b' \<and> b' \<in> set (layout ?c4)"
      using s(1,2) L by (auto simp: wrote_block opened_block)
  qed (use len L in auto)
  then obtain c' is4 ts4 where c': "mask_tests l (Suc ?v) (?L # ?more) (to_block spare) (passed spare) (a0 # arms') ?c4 = Some c'"
      "length (blocks c') = ?L + tests" "layout c' = layout ?c1" "value_types c' = value_types ?c4 @ ts4"
      "\<forall>b'. b' \<notin> set (?L # ?more) \<longrightarrow> blocks c' ! b' = blocks ?c4 ! b'" "blocks c' ! ?L = blocks ?c4 ! ?L @ is4"
    and run4: "\<And>F env d. \<forall>b'\<in>set ?more. blocks F ! b' = blocks c' ! b' \<Longrightarrow> \<exists>ts. value_types F = value_types c' @ ts \<Longrightarrow>
        set (layout ?c4) \<subseteq> set (layout F) \<Longrightarrow> d < width (of_word l) \<Longrightarrow> env (Suc ?v) = push_bit d 1 \<Longrightarrow>
        goes F n (length (value_types ?c4)) is4 env
          (case mask_place (a0 # arms') d of Some p \<Rightarrow> at_place env p | None \<Rightarrow> (to_block spare, map env (passed spare)))"
    by auto
  have eq: "write_test l b (Bits lo hi arms) next onward c = Some c'"
  proof -
    have nums: "1 + (tests - 1) = tests" "?L + 1 + (tests - 1) = ?L + tests" "?L + 1 = Suc ?L" "Suc ?L + (tests - 1) = ?L + tests" using t(3) by simp_all
    have "scattered l b lo hi arms next onward c =
        do { (amount, c) \<leftarrow> in_word ?L l v ?c2;
             (one, c) \<leftarrow> iconst ?L (of_word l) 1 c;
             (bit_value, c) \<leftarrow> build_binary ?L ShlOp one amount NONE c;
             mask_tests l bit_value (?L # ?more) (to_block spare) (passed spare) (take tests arms) c }"
      unfolding scattered_def tested_def [symmetric] t(1) bind.simps create_block_opened Let_def prod.case create_blocks_opened opened_opened
        t(2) [symmetric] opened_simps(1) nums spare_def [symmetric]
      using w1 by simp
    also have "\<dots> = mask_tests l (Suc ?v) (?L # ?more) (to_block spare) (passed spare) (a0 # arms') ?c4"
      using L(1) s(7) by (simp add: w2 writes arms)
    finally show ?thesis using c'(1) by simp
  qed
  have b: "b \<notin> set (?L # ?more)" using s(1) by auto
  have content: "blocks c' ! b = blocks c ! b @ is1" "blocks c' ! ?L = (is2 @ ?is3) @ is4"
    using c'(5,6) b L blocks1 [of ?L] t(3) s(1) by (simp_all add: wrote_block opened_block)
  have fr: "frame c b c'"
    unfolding frame_def
  proof (intro conjI allI impI)
    show "blocks c' ! b' = blocks c ! b'" if "b' < ?L" "b' \<noteq> b" for b'
      using c'(5) that L by (simp add: wrote_block opened_block)
    show "\<exists>is. blocks c' ! b = blocks c ! b @ is" using content(1) by blast
    show "\<exists>ts. value_types c' = value_types c @ ts" using c'(4) by simp
  qed (use c'(2,3) in simp_all)
  show ?thesis
    unfolding written_def
  proof (intro exI [of _ c'] conjI allI impI)
    fix F :: "'x code" and env
    assume F: "settled c b c' F" and x: "env (of_value l) \<le> maskw (width (of_ty l))"
    let ?T = "nth (value_types F)"
    have fb: "blocks F ! b = blocks c ! b @ is1" "blocks F ! ?L = (is2 @ ?is3) @ is4" "\<forall>b'\<in>set ?more. blocks F ! b' = blocks c' ! b'"
      using F c'(2) content t(3) by (auto simp: settled_def)
    obtain us where us: "value_types F = value_types c @ ts1 @ ts2 @ [of_word l, of_word l] @ ts4 @ us"
      using F c'(4) by (auto simp: settled_def)
    have types: "types_at ?T (value_types ?c1 @ ts1)" "types_at ?T (value_types ?c2 @ ts2)"
      using types_at_append [of "value_types c @ ts1" "ts2 @ [of_word l, of_word l] @ ts4 @ us"]
        types_at_append [of "value_types c @ ts1 @ ts2" "[of_word l, of_word l] @ ts4 @ us"] us by simp_all
    have layout: "set (layout ?c4) \<subseteq> set (layout F)" using F c'(3) by (auto simp: settled_def)
    obtain e1 where e1: "run_block ?T is1 env = Some (if lo \<le> operand l env \<and> operand l env \<le> hi then (?L, []) else (next, map env onward), e1)"
      "e1 v = base_of (of_ty l) lo (env (of_value l))" "\<forall>u<length (value_types c). e1 u = env u"
      using run1 [THEN spec, THEN spec, of ?T env] types(1) x by auto
    have out: "goes F n m is1 env (test_exit l (Bits lo hi arms) next onward env)"
    proof (cases "lo \<le> operand l env \<and> operand l env \<le> hi")
      case False
      then have "test_exit l (Bits lo hi arms) next onward env = (next, map env onward)" by (auto simp: test_exit_def)
      then show ?thesis using e1 False s(3) by (intro goes_run [where env' = e1]) auto
    next
      case True
      let ?d = "nat (operand l env - lo)"
      have base: "uint (base_of (of_ty l) lo (env (of_value l))) = operand l env - lo"
        using base_test(2) [OF s(6) x k(4,5,1)] True by simp
      have d: "int ?d = operand l env - lo" "?d < width (of_word l)" using True k(2) by (simp_all add: nat_less_iff)
      have small: "uint (e1 v) < 2 ^ width (of_word l)"
      proof -
        have "int ?d < int (2 ^ ?d)" unfolding of_nat_less_iff by (rule less_exp)
        then have "int ?d < 2 ^ ?d" by simp
        also have "(2 :: int) ^ ?d \<le> 2 ^ width (of_word l)" using d(2) by (intro power_increasing) simp_all
        finally show ?thesis unfolding e1(2) base d(1) .
      qed
      obtain e2 where e2: "run_block ?T (is2 @ ?is3 @ is4) e1 = run_block ?T (?is3 @ is4) e2" "e2 amount = e1 v" "\<forall>u<length (value_types ?c2). e2 u = e1 u"
        using run2 [THEN spec, THEN spec, of ?T e1, THEN spec, of "?is3 @ is4"] types(2) small by blast
      define e3 where "e3 = e2(?v := 1, Suc ?v := push_bit ?d 1)"
      have one: "const_bits (of_word l) 1 = 1" using low_masked [OF s(7), of 1] scalarD(3) [OF s(7)] by (simp add: const_bits_def)
      have "unat (e2 amount) = nat (uint (e2 amount))" by simp
      then have sh: "unat (e2 amount) = ?d" unfolding e2(2) e1(2) base .
      have below: "push_bit ?d (1 :: imm) AND maskw (width (of_word l)) = push_bit ?d 1"
        unfolding maskw_mask using d(2) by (intro bit_word_eqI) (auto simp: bit_simps)
      have ty: "value_types F ! ?v = of_word l" unfolding us by (simp add: nth_append)
      have "uint (e2 amount) < int (width (value_types F ! ?v))" unfolding ty e2(2) e1(2) base using True k(2) by linarith
      moreover have "amount < ?v" using a(1) by simp
      ultimately have "run_block ?T (?is3 @ is4) e2 = run_block ?T is4 e3"
        using ty below sh by (simp add: one meaning_shl e3_def)
      then have run: "run_block ?T (blocks F ! ?L) e1 = run_block ?T is4 e3" using e2(1) fb(2) by simp
      have "goes F n (length (value_types ?c4)) is4 e3
          (case mask_place (a0 # arms') ?d of Some p \<Rightarrow> at_place e3 p | None \<Rightarrow> (to_block spare, map e3 (passed spare)))"
        using run4 [of F ?d e3] fb(3) layout d(2) us c'(4) by (simp add: e3_def)
      then have "goes F n m is4 e3 (case mask_place (take tests arms) ?d of Some p \<Rightarrow> at_place e3 p | None \<Rightarrow> at_place e3 (place spare))"
        unfolding arms [symmetric] at_place_def place_def fst_conv snd_conv by (rule goes_mono) (use s(3) in simp)
      moreover have agree: "e3 u = env u" if "u < m" for u using that e1(3) e2(3) s(3) by (simp add: e3_def)
      have rest: "goes F n m (blocks F ! ?L) e1 (test_exit l (Bits lo hi arms) next onward env)"
      proof (rule goes_prefix [OF run])
        have calls: "\<forall>u\<in>set (snd p). u < m" if "p = (case mask_place (take tests arms) ?d of Some p \<Rightarrow> p | None \<Rightarrow> place spare)" for p
          using mask_place_call [of "take tests arms" ?d] k(7) sp in_set_takeD [of _ tests arms] that
          by (cases "mask_place (take tests arms) ?d") (fastforce simp: place_def)+
        have "test_exit l (Bits lo hi arms) next onward env = at_place env (case mask_place arms ?d of Some p \<Rightarrow> p | None \<Rightarrow> place (of_default l))"
          using True by (simp add: test_exit_def edge_place split: option.split)
        also have "\<dots> = at_place env (case mask_place (take tests arms) ?d of Some p \<Rightarrow> p | None \<Rightarrow> place spare)"
          using t(5) [of ?d] d(1) True unfolding spare_def by simp
        also have "\<dots> = at_place e3 (case mask_place (take tests arms) ?d of Some p \<Rightarrow> p | None \<Rightarrow> place spare)"
          by (rule at_place_agree [symmetric, of m]) (use agree calls in auto)
        finally show "goes F n m is4 e3 (test_exit l (Bits lo hi arms) next onward env)"
          using \<open>goes F n m is4 e3 _\<close> by (cases "mask_place (take tests arms) ?d") simp_all
        show "\<forall>u<m. e3 u = e1 u" using agree e1(3) s(3) by simp
      qed
      have "run_block ?T is1 env = Some ((?L, []), e1)" using e1(1) True by simp
      moreover have "?L \<in> set (layout F)" using layout t(3) by auto
      ultimately show ?thesis using rest e1(3) s(2,3) goes_branch [of F is1 env ?L e1 m n] by simp
    qed
    then show "goes F n m (drop (length (blocks c ! b)) (blocks F ! b)) env (test_exit l (Bits lo hi arms) next onward env)"
      by (simp add: fb(1))
  qed (rule eq, rule fr)
qed

end
