(* ===== verification/SwitchTable.thy ===== *)
theory SwitchTable
  imports SwitchTests
begin

text \<open>
  The branches written for a jump table, run: the range check or none, the \<open>switch\<close> on the distance from the lowest value, and the
  blocks in front of the edges that carry values.
\<close>

section \<open>Blocks for edges that carry values\<close>

definition hops_ready :: "nat \<Rightarrow> nat \<Rightarrow> nat \<Rightarrow> 'x code \<Rightarrow> hops \<Rightarrow> bool" where
  "hops_ready n m lim c hops \<longleftrightarrow> distinct (map snd hops) \<and>
     (\<forall>(k, b)\<in>set hops. lim \<le> b \<and> b < length (blocks c) \<and> blocks c ! b = [] \<and> b \<in> set (layout c) \<and> call_ok n m k)"

definition resolves :: "hops \<Rightarrow> block_call \<Rightarrow> nat \<Rightarrow> bool" where
  "resolves hops k b \<longleftrightarrow> (if passed k = [] then b = to_block k else \<exists>k'. (k', b) \<in> set hops \<and> same k' k)"

lemma resolves_mono: "resolves hops k b \<Longrightarrow> set hops \<subseteq> set hops' \<Longrightarrow> resolves hops' k b"
  by (auto simp: resolves_def split: if_splits)

lemma opened_0: "opened 0 c = c"
  by (simp add: opened_def)

lemma hops_ready_opened: "hops_ready n m lim c hops \<Longrightarrow> hops_ready n m lim (opened j c) hops"
  by (auto simp: hops_ready_def opened_block)

lemma hop_spec:
  assumes "hops_ready n m lim c hops" "lim \<le> length (blocks c)" "call_ok n m k"
  shows "\<exists>b j hops'. hop k c hops = (b, opened j c, hops') \<and> hops_ready n m lim (opened j c) hops' \<and> set hops \<subseteq> set hops' \<and> resolves hops' k b"
proof (cases "passed k = []")
  case True
  then show ?thesis using assms by (intro exI [of _ "to_block k"] exI [of _ 0] exI [of _ hops]) (simp add: hop_def opened_0 resolves_def)
next
  case False
  show ?thesis
  proof (cases "find (\<lambda>(mine, _). same mine k) hops")
    case None
    have fresh: "length (blocks c) \<notin> set (map snd hops)" using assms(1) by (auto simp: hops_ready_def)
    let ?hops = "hops @ [(k, length (blocks c))]"
    have "hops_ready n m lim (opened 1 c) ?hops"
      using hops_ready_opened [OF assms(1), of 1] assms(2,3) fresh by (auto simp: hops_ready_def opened_block)
    moreover have "hop k c hops = (length (blocks c), opened 1 c, ?hops)"
      using False None by (simp add: hop_def create_block_opened Let_def)
    moreover have "resolves ?hops k (length (blocks c))" using False by (auto simp: resolves_def same_def)
    ultimately show ?thesis by auto
  next
    case (Some a)
    then have "a \<in> set hops \<and> same (fst a) k" by (force simp: find_Some_iff in_set_conv_nth)
    then obtain k' b where a: "a = (k', b)" "(k', b) \<in> set hops" "same k' k" by (cases a) simp
    then show ?thesis
      using assms(1) False Some by (intro exI [of _ b] exI [of _ 0] exI [of _ hops]) (auto simp: hop_def opened_0 resolves_def)
  qed
qed

lemma hop_arms_spec:
  "hops_ready n m lim c hops \<Longrightarrow> lim \<le> length (blocks c) \<Longrightarrow> \<forall>a\<in>set arms. \<bar>fst a - lo\<bar> < 2 ^ 79 \<and> call_ok n m (snd a) \<Longrightarrow>
    \<exists>cases j hops'. hop_arms lo arms c hops = Some (cases, opened j c, hops') \<and> hops_ready n m lim (opened j c) hops' \<and> set hops \<subseteq> set hops' \<and>
      list_all2 (\<lambda>a s. fst s = fst a - lo \<and> resolves hops' (snd a) (snd s)) arms cases"
proof (induction arms arbitrary: c hops)
  case Nil
  then show ?case by (intro exI [of _ "[]"] exI [of _ 0] exI [of _ hops]) (simp add: opened_0)
next
  case (Cons a arms)
  obtain v k where a: "a = (v, k)" by (cases a)
  have v: "checked_i128 (v - lo) = Some (v - lo)" "call_ok n m k" using Cons.prems(3) a by (auto intro: i128_small)
  obtain b j hops1 where h: "hop k c hops = (b, opened j c, hops1)" "hops_ready n m lim (opened j c) hops1" "set hops \<subseteq> set hops1" "resolves hops1 k b"
    using hop_spec [OF Cons.prems(1,2) v(2)] by blast
  have "lim \<le> length (blocks (opened j c))" using Cons.prems(2) by simp
  then obtain cases j' hops' where r: "hop_arms lo arms (opened j c) hops1 = Some (cases, opened j' (opened j c), hops')"
    "hops_ready n m lim (opened j' (opened j c)) hops'" "set hops1 \<subseteq> set hops'"
    "list_all2 (\<lambda>a s. fst s = fst a - lo \<and> resolves hops' (snd a) (snd s)) arms cases"
    using Cons.IH [OF h(2)] Cons.prems(3) by auto
  have "hop_arms lo (a # arms) c hops = Some ((v - lo, b) # cases, opened (j + j') c, hops')"
    using a v(1) h(1) r(1) by (simp add: opened_opened)
  then show ?case
    using r h resolves_mono [OF h(4) r(3)] a
    by (intro exI [of _ "(v - lo, b) # cases"] exI [of _ "j + j'"] exI [of _ hops']) (auto simp: opened_opened)
qed

lemma hop_jumps_spec:
  "hops_ready n m lim c hops \<Longrightarrow>
    \<exists>c'. hop_jumps hops c = Some c' \<and> length (blocks c') = length (blocks c) \<and> layout c' = layout c \<and> value_types c' = value_types c \<and>
      (\<forall>b. b \<notin> snd ` set hops \<longrightarrow> blocks c' ! b = blocks c ! b) \<and>
      (\<forall>(k, b)\<in>set hops. blocks c' ! b = [Jump (block_call_new (to_block k) (passed k))])"
proof (induction hops arbitrary: c)
  case (Cons h hops)
  obtain k b where h: "h = (k, b)" by (cases h)
  have b: "b < length (blocks c)" "blocks c ! b = []" "\<forall>x\<in>set hops. snd x \<noteq> b" using Cons.prems h by (auto simp: hops_ready_def)
  let ?c = "wrote b [Jump (block_call_new (to_block k) (passed k))] [] c"
  have "hops_ready n m lim ?c hops" using Cons.prems h b by (auto simp: hops_ready_def wrote_block)
  then obtain c' where c': "hop_jumps hops ?c = Some c'" "length (blocks c') = length (blocks c)" "layout c' = layout c" "value_types c' = value_types c"
      "\<forall>b'. b' \<notin> snd ` set hops \<longrightarrow> blocks c' ! b' = blocks ?c ! b'"
      "\<forall>(k, b)\<in>set hops. blocks c' ! b = [Jump (block_call_new (to_block k) (passed k))]"
    using Cons.IH by fastforce
  have "b \<notin> snd ` set hops" using b(3) by auto
  then have "blocks c' ! b = [Jump (block_call_new (to_block k) (passed k))]" using c'(5) b by (simp add: wrote_block)
  then show ?case using b h c' by (intro exI [of _ c']) (auto simp: writes wrote_block)
qed simp

text \<open>An edge to the block an edge resolves to is that edge.\<close>

lemma resolves_goes:
  assumes "run_block (nth (value_types F)) is env = Some ((b, []), env1)" "\<forall>v<m. env1 v = env v" "resolves hops k b" "call_ok n m k"
    "\<forall>(k', b')\<in>set hops. n \<le> b' \<and> b' \<in> set (layout F) \<and> blocks F ! b' = [Jump (block_call_new (to_block k') (passed k'))]"
  shows "goes F n m is env (at_place env (place k))"
proof (cases "passed k = []")
  case True
  then have "at_place env (place k) = (b, [])" using assms(3) by (simp add: resolves_def at_place_def place_def)
  then show ?thesis using goes_run [OF assms(1), of m] assms(2) by simp
next
  case False
  then obtain k' where k': "(k', b) \<in> set hops" "same k' k" using assms(3) by (auto simp: resolves_def)
  then have F: "n \<le> b" "b \<in> set (layout F)" "blocks F ! b = [Jump (block_call_new (to_block k') (passed k'))]" using assms(5) by auto
  have "map env1 (passed k) = map env (passed k)" using assms(2,4) by simp
  then have "run_block (nth (value_types F)) (blocks F ! b) env1 = Some (at_place env (place k), env1)"
    using F(3) k'(2) by (simp add: edge_def at_place_def place_def same_def)
  then have "goes F n m (blocks F ! b) env1 (at_place env (place k))" by (rule goes_run) simp
  then show ?thesis by (rule goes_branch [OF assms(1,2) F(1,2)])
qed

section \<open>The switch of a table\<close>

lemma case_imms_eq: "scalar ty \<Longrightarrow> case_imms (type_lane ty) cases = Some (map (\<lambda>s. const_bits ty (fst s)) cases)"
  by (induction "type_lane ty" cases rule: case_imms.induct) (simp_all add: imm_int_const)

lemma switch_written:
  assumes "b < length (blocks c)" "value_type c index = Some ty" "scalar ty"
  shows "build_switch b index other cases c = Some (wrote b
    [SwitchOn index (map (\<lambda>t. block_call_new t []) (other # map snd cases)) (map (\<lambda>s. const_bits ty (fst s)) cases)] [] c)"
  using assms by (simp add: build_switch_def case_imms_eq append_inst_wrote)

lemma const_is: "scalar ty \<Longrightarrow> 0 \<le> d \<Longrightarrow> d < 2 ^ width ty \<Longrightarrow> const_bits ty d = x \<longleftrightarrow> d = uint x"
  using uint_const [of ty d] by (auto simp: word_uint_eq_iff)

lemma switch_run:
  assumes "scalar ty" "\<forall>s\<in>set cases. 0 \<le> fst s \<and> fst s < 2 ^ width ty"
  shows "run_block T [SwitchOn index (map (\<lambda>t. block_call_new t []) (other # map snd cases)) (map (\<lambda>s. const_bits ty (fst s)) cases)] env =
    Some ((case map_of cases (uint (env index)) of Some b \<Rightarrow> b | None \<Rightarrow> other, []), env)"
proof -
  have "picked (block_call_new other []) (map (\<lambda>t. block_call_new t []) (map snd cases)) (map (\<lambda>s. const_bits ty (fst s)) cases) x =
      block_call_new (case map_of cases (uint x) of Some b \<Rightarrow> b | None \<Rightarrow> other) []" for x
    using assms(2) const_is [OF assms(1)] by (induction cases) (auto simp: picked_def)
  then show ?thesis by (simp add: edge_def)
qed

lemma cases_place:
  fixes lo x :: int
  shows "list_all2 (\<lambda>a s. fst s = fst a - lo \<and> resolves hops (snd a) (snd s)) arms cases \<Longrightarrow>
    (case map_of arms x of None \<Rightarrow> map_of cases (x - lo) = None | Some k \<Rightarrow> \<exists>b. map_of cases (x - lo) = Some b \<and> resolves hops k b)"
  by (induction arms cases rule: list_all2_induct) (auto split: option.splits)

text \<open>A table with as many cases as cells has one for each.\<close>

lemma table_full:
  assumes "distinct (map fst arms)" "\<forall>(v, _)\<in>set arms. lo \<le> v \<and> v \<le> hi" "hi - lo + 1 = int (length arms)" "lo \<le> x" "x \<le> hi"
  shows "map_of arms x \<noteq> None"
proof -
  have "fst ` set arms \<subseteq> {lo..hi}" using assms(2) by auto
  moreover have "card (fst ` set arms) = card {lo..hi}" using assms(1,3) distinct_card [OF assms(1)] by simp
  ultimately have "fst ` set arms = {lo..hi}" by (intro card_subset_eq) simp_all
  then show ?thesis using assms(4,5) by (simp add: map_of_eq_None_iff)
qed

section \<open>A table\<close>

text \<open>What is written after blocks were made: the contract of a test, with those blocks among the new ones.\<close>

definition written_from :: "nat \<Rightarrow> nat \<Rightarrow> nat \<Rightarrow> lowering \<Rightarrow> nat \<Rightarrow> 'x code \<Rightarrow> (env \<Rightarrow> edge) \<Rightarrow> 'x code option \<Rightarrow> bool" where
  "written_from L n m l b c out r \<longleftrightarrow>
     (\<exists>c' is. r = Some c' \<and> length (blocks c) \<le> length (blocks c') \<and> (\<forall>b'<L. b' \<noteq> b \<longrightarrow> blocks c' ! b' = blocks c ! b') \<and>
       blocks c' ! b = blocks c ! b @ is \<and> (\<exists>ts. value_types c' = value_types c @ ts) \<and>
       (\<forall>b'<L. b' \<in> set (layout c) \<longrightarrow> b' \<in> set (layout c')) \<and> set (layout c') \<subseteq> set (layout c) \<union> {L..<length (blocks c')} \<and>
       (\<forall>F env. (\<forall>b'. b' = b \<or> L \<le> b' \<and> b' < length (blocks c') \<longrightarrow> blocks F ! b' = blocks c' ! b') \<longrightarrow>
         (\<exists>ts. value_types F = value_types c' @ ts) \<longrightarrow> set (layout c') \<subseteq> set (layout F) \<longrightarrow>
         env (of_value l) \<le> maskw (width (of_ty l)) \<longrightarrow> goes F n m is env (out env)))"

lemma written_after_opened:
  assumes "written_from (length (blocks c)) n m l b (opened k c) out r" "b < length (blocks c)" "set (layout c) \<subseteq> {..<length (blocks c)}"
  shows "written n m l b c out r"
proof -
  let ?s = "length (blocks c)"
  obtain c' "is" us where w: "r = Some c'" "length (blocks (opened k c)) \<le> length (blocks c')"
      "\<forall>b'<?s. b' \<noteq> b \<longrightarrow> blocks c' ! b' = blocks (opened k c) ! b'" "blocks c' ! b = blocks (opened k c) ! b @ is"
      "value_types c' = value_types (opened k c) @ us" "\<forall>b'<?s. b' \<in> set (layout (opened k c)) \<longrightarrow> b' \<in> set (layout c')"
      "set (layout c') \<subseteq> set (layout (opened k c)) \<union> {?s..<length (blocks c')}"
    and run: "\<forall>F env. (\<forall>b'. b' = b \<or> ?s \<le> b' \<and> b' < length (blocks c') \<longrightarrow> blocks F ! b' = blocks c' ! b') \<longrightarrow>
         (\<exists>ts. value_types F = value_types c' @ ts) \<longrightarrow> set (layout c') \<subseteq> set (layout F) \<longrightarrow>
         env (of_value l) \<le> maskw (width (of_ty l)) \<longrightarrow> goes F n m is env (out env)"
    using assms(1) unfolding written_from_def by (elim exE conjE)
  have c': "r = Some c'" "?s \<le> length (blocks c')" "\<forall>b'<?s. b' \<noteq> b \<longrightarrow> blocks c' ! b' = blocks c ! b'"
      "blocks c' ! b = blocks c ! b @ is" "\<exists>ts. value_types c' = value_types c @ ts" "set (layout c) \<subseteq> set (layout c')"
      "set (layout c') \<subseteq> set (layout c) \<union> {?s..<length (blocks c')}"
    using w assms(2,3) by (auto simp: opened_block)
  have "goes F n m (drop (length (blocks c ! b)) (blocks F ! b)) env (out env)"
    if F: "settled c b c' F" "env (of_value l) \<le> maskw (width (of_ty l))" for F env
  proof -
    have "blocks F ! b = blocks c ! b @ is" using F(1) c'(4) by (auto simp: settled_def)
    moreover have "goes F n m is env (out env)" using F by (intro run [THEN spec, THEN spec, THEN mp, THEN mp, THEN mp, THEN mp]) (auto simp: settled_def)
    ultimately show ?thesis by simp
  qed
  moreover have "frame c b c'" using c' by (auto simp: frame_def)
  ultimately show ?thesis using c'(1) by (auto simp: written_def)
qed


definition table_ready :: "nat \<Rightarrow> nat \<Rightarrow> lowering \<Rightarrow> nat \<Rightarrow> nat \<Rightarrow> int \<Rightarrow> int \<Rightarrow> (int \<times> block_call) list \<Rightarrow> (int \<times> nat) list \<Rightarrow> hops \<Rightarrow> 'x code \<Rightarrow> bool" where
  "table_ready n m l b L lo hi arms cases hops c \<longleftrightarrow>
     stands_at n m l b c \<and> cluster_fits n m l (Table lo hi arms) \<and> b < L \<and> n \<le> L \<and> L < length (blocks c) \<and> blocks c ! L = [] \<and>
     L \<in> set (layout c) \<and> hops_ready n m (Suc L) c hops \<and>
     list_all2 (\<lambda>a s. fst s = fst a - lo \<and> resolves hops (snd a) (snd s)) arms cases"

lemma table_cases_bound:
  fixes lo hi :: int
  assumes "list_all2 (\<lambda>a s. fst s = fst a - lo \<and> Q a s) arms cases" "\<forall>(v, _)\<in>set arms. lo \<le> v \<and> v \<le> hi"
  shows "\<forall>s\<in>set cases. 0 \<le> fst s \<and> fst s \<le> hi - lo"
  using assms by (induction arms cases rule: list_all2_induct) auto

text \<open>The block the \<open>switch\<close> picks is the one for where the table sends the operand.\<close>

lemma table_picks:
  fixes lo hi x i :: int
  assumes "list_all2 (\<lambda>a s. fst s = fst a - lo \<and> resolves hops (snd a) (snd s)) arms cases"
    "distinct (map fst arms)" "\<forall>(v, _)\<in>set arms. lo \<le> v \<and> v \<le> hi"
    "if lo \<le> x \<and> x \<le> hi then i = x - lo else hi - lo < i"
    "resolves hops d other \<or> lo \<le> x \<and> x \<le> hi \<and> hi - lo + 1 = int (length arms)"
  shows "resolves hops (case map_of arms x of Some k \<Rightarrow> k | None \<Rightarrow> d) (case map_of cases i of Some b \<Rightarrow> b | None \<Rightarrow> other)"
proof (cases "lo \<le> x \<and> x \<le> hi")
  case True
  show ?thesis
  proof (cases "map_of arms x")
    case None
    then have "resolves hops d other" using assms(5) table_full [OF assms(2,3)] True by blast
    then show ?thesis using cases_place [OF assms(1), of x] None True assms(4) by simp
  next
    case (Some k)
    then show ?thesis using cases_place [OF assms(1), of x] True assms(4) by auto
  qed
next
  case False
  then have "i \<notin> fst ` set cases" using table_cases_bound [OF assms(1,3)] assms(4) by auto
  then have "map_of cases i = None" by (simp add: map_of_eq_None_iff)
  moreover have "map_of arms x = None" using False assms(3) by (auto simp: map_of_eq_None_iff)
  ultimately show ?thesis using False assms(5) by auto
qed

lemma switch_goes:
  assumes "scalar ty" "\<forall>s\<in>set cases. 0 \<le> fst s \<and> fst s < 2 ^ width ty"
    "run_block (nth (value_types F)) xs env = run_block (nth (value_types F))
      [SwitchOn index (map (\<lambda>t. block_call_new t []) (other # map snd cases)) (map (\<lambda>s. const_bits ty (fst s)) cases)] env1"
    "\<forall>u<m. env1 u = env u" "resolves hops k (case map_of cases (uint (env1 index)) of Some b \<Rightarrow> b | None \<Rightarrow> other)" "call_ok n m k"
    "\<forall>(k', b')\<in>set hops. n \<le> b' \<and> b' \<in> set (layout F) \<and> blocks F ! b' = [Jump (block_call_new (to_block k') (passed k'))]"
  shows "goes F n m xs env (at_place env (place k))"
  by (rule resolves_goes [OF _ assms(4,5,6,7)]) (simp only: assms(3) switch_run [OF assms(1,2)])

text \<open>Blocks that are ready stay so while others are written.\<close>

lemma hops_ready_wrote: "hops_ready n m lim c hops \<Longrightarrow> b < lim \<Longrightarrow> b < length (blocks c) \<Longrightarrow> hops_ready n m lim (wrote b is ts c) hops"
  by (auto simp: hops_ready_def wrote_block)

definition dropped :: "nat \<Rightarrow> 'x code \<Rightarrow> 'x code" where
  "dropped L c = c\<lparr>layout := removeAll L (layout c)\<rparr>"

lemma dropped_simps [simp]:
  "blocks (dropped L c) = blocks c" "layout (dropped L c) = removeAll L (layout c)" "value_types (dropped L c) = value_types c"
  by (simp_all add: dropped_def)

lemma hops_ready_dropped: "hops_ready n m lim c hops \<Longrightarrow> L < lim \<Longrightarrow> hops_ready n m lim (dropped L c) hops"
  by (auto simp: hops_ready_def)

lemma remove_block_dropped:
  "L < length (blocks c) \<Longrightarrow> blocks c ! L = [] \<Longrightarrow> layout c = [] \<or> hd (layout c) \<noteq> L \<Longrightarrow> remove_block L c = Some (dropped L c)"
  using list_update_id [of "blocks c" L] by (simp add: remove_block_def dropped_def)


lemma table_exit:
  assumes "\<forall>(v, _)\<in>set arms. lo \<le> v \<and> v \<le> hi"
  shows "test_exit l (Table lo hi arms) next onward env =
    (if lo \<le> operand l env \<and> operand l env \<le> hi
     then at_place env (place (case map_of arms (operand l env) of Some k \<Rightarrow> k | None \<Rightarrow> of_default l)) else (next, map env onward))"
proof -
  have "map_of arms (operand l env) = None" if "\<not> (lo \<le> operand l env \<and> operand l env \<le> hi)"
    using that assms by (auto simp: map_of_eq_None_iff)
  then show ?thesis by (auto simp: test_exit_def edge_place split: option.split)
qed

text \<open>What is common to the two ways the index is had.\<close>

lemma table_fits:
  assumes "cluster_fits n m l (Table lo hi arms)" "call_ok n m (of_default l)"
  shows "lo \<le> hi" "hi - lo < 2 ^ width (of_word l)" "arms \<noteq> []" "distinct (map fst arms)" "\<forall>(v, _)\<in>set arms. lo \<le> v \<and> v \<le> hi"
    "- (2 ^ (width (of_ty l) - 1)) \<le> lo" "hi < 2 ^ (width (of_ty l) - 1)" "hi - lo < 2 ^ 127"
    "call_ok n m (case map_of arms x of Some k \<Rightarrow> k | None \<Rightarrow> of_default l)"
proof -
  show "call_ok n m (case map_of arms x of Some k \<Rightarrow> k | None \<Rightarrow> of_default l)"
    using assms by (cases "map_of arms x") (auto simp: cluster_fits_def dest: map_of_SomeD)
qed (use assms(1) in \<open>simp_all add: cluster_fits_def\<close>)

lemma cases_fit:
  fixes lo hi :: int
  assumes "list_all2 (\<lambda>a s. fst s = fst a - lo \<and> Q a s) arms cases" "\<forall>(v, _)\<in>set arms. lo \<le> v \<and> v \<le> hi" "hi - lo < 2 ^ width ty"
  shows "\<forall>s\<in>set cases. 0 \<le> fst s \<and> fst s < 2 ^ width ty"
  using table_cases_bound [OF assms(1,2)] assms(3) by fastforce

lemma table_far:
  fixes c :: "'x code"
  assumes ready: "table_ready n m l b L lo hi arms cases hops c" and onward: "\<forall>v\<in>set onward. v < m"
    and other: "resolves hops (of_default l) other \<or> hi - lo + 1 = int (length arms)"
  shows "written_from L n m l b c (test_exit l (Table lo hi arms) next onward)
    (do { (base, c) \<leftarrow> shifted_down b l lo c; d \<leftarrow> checked_i128 (hi - lo); (wide, c) \<leftarrow> iconst b (of_ty l) d c;
          (ok, c) \<leftarrow> icmp b Ule base wide c; c \<leftarrow> br_if b ok L [] next onward c;
          (index, c) \<leftarrow> in_word L l base c; c \<leftarrow> build_switch L index other cases c; hop_jumps hops c })"
proof -
  have st: "stands_at n m l b c" and fits: "cluster_fits n m l (Table lo hi arms)" and L: "b < L" "n \<le> L" "L < length (blocks c)" "blocks c ! L = []"
      "L \<in> set (layout c)" and hops: "hops_ready n m (Suc L) c hops"
    and cs: "list_all2 (\<lambda>a s. fst s = fst a - lo \<and> resolves hops (snd a) (snd s)) arms cases"
    using ready by (simp_all add: table_ready_def)
  have s: "b < length (blocks c)" "m \<le> length (value_types c)" "scalar (of_ty l)" "scalar (of_word l)" "call_ok n m (of_default l)"
    using st by (simp_all add: stands_at_def)
  note k = table_fits [OF fits s(5)]
  have args: "\<forall>v\<in>set [] \<union> set onward. v < m" using onward by simp
  obtain is1 ts1 v where
    w1: "\<forall>k :: nat \<Rightarrow> 'x code \<Rightarrow> 'x code option. (do { (base, c) \<leftarrow> shifted_down b l lo c; d \<leftarrow> checked_i128 (hi - lo);
        (wide, c) \<leftarrow> iconst b (of_ty l) d c; (ok, c) \<leftarrow> icmp b Ule base wide c; c \<leftarrow> br_if b ok L [] next onward c; k base c }) =
      k v (wrote b is1 ts1 c)"
    and v: "v < length (value_types c @ ts1)" "(value_types c @ ts1) ! v = of_ty l"
    and run1: "\<forall>T env. types_at T (value_types c @ ts1) \<longrightarrow> env (of_value l) \<le> maskw (width (of_ty l)) \<longrightarrow>
      (\<exists>env'. run_block T is1 env = Some (if lo \<le> operand l env \<and> operand l env \<le> hi then (L, map env []) else (next, map env onward), env') \<and>
        env' v = base_of (of_ty l) lo (env (of_value l)) \<and> (\<forall>u<length (value_types c). env' u = env u))"
    using range_check_written [OF st k(1,6,7,8) args, of L "next"] by (elim exE conjE)
  let ?c2 = "wrote b is1 ts1 c"
  have vt: "L < length (blocks ?c2)" "value_type ?c2 v = Some (of_ty l)" using v L(3) by (simp_all add: value_type_Some)
  obtain is2 ts2 index where
    w2: "in_word L l v ?c2 = Some (index, wrote L is2 ts2 ?c2)" and a: "index < length (value_types ?c2 @ ts2)"
      "(value_types ?c2 @ ts2) ! index = of_word l"
    and run2: "\<forall>T env rest. types_at T (value_types ?c2 @ ts2) \<longrightarrow> uint (env v) < 2 ^ width (of_word l) \<longrightarrow>
      (\<exists>env'. run_block T (is2 @ rest) env = run_block T rest env' \<and> env' index = env v \<and> (\<forall>u<length (value_types ?c2). env' u = env u))"
    using in_word_written [OF vt s(3,4)] by (elim exE conjE)
  let ?sw = "SwitchOn index (map (\<lambda>t. block_call_new t []) (other # map snd cases)) (map (\<lambda>s. const_bits (of_word l) (fst s)) cases) :: 'x placed"
  let ?c4 = "wrote L (is2 @ [?sw]) ts2 ?c2"
  have "hops_ready n m (Suc L) ?c4 hops" using hops L s(1) by (intro hops_ready_wrote) simp_all
  then obtain c' where j: "hop_jumps hops ?c4 = Some c'" "length (blocks c') = length (blocks ?c4)" "layout c' = layout ?c4" "value_types c' = value_types ?c4"
      "\<forall>b'. b' \<notin> snd ` set hops \<longrightarrow> blocks c' ! b' = blocks ?c4 ! b'"
      "\<forall>(k, b)\<in>set hops. blocks c' ! b = [Jump (block_call_new (to_block k) (passed k))]"
    using hop_jumps_spec by blast
  have above: "b' \<notin> snd ` set hops" if "b' \<le> L" for b' using hops that by (force simp: hops_ready_def)
  have content: "blocks c' ! b = blocks c ! b @ is1" "blocks c' ! L = is2 @ [?sw]"
    using j(5) above L s(1) by (simp_all add: wrote_block)
  have eq: "(do { (base, c) \<leftarrow> shifted_down b l lo c; d \<leftarrow> checked_i128 (hi - lo); (wide, c) \<leftarrow> iconst b (of_ty l) d c;
          (ok, c) \<leftarrow> icmp b Ule base wide c; c \<leftarrow> br_if b ok L [] next onward c;
          (index, c) \<leftarrow> in_word L l base c; c \<leftarrow> build_switch L index other cases c; hop_jumps hops c }) = Some c'"
    using w1 [THEN spec, of "\<lambda>base c. do { (index, c) \<leftarrow> in_word L l base c; c \<leftarrow> build_switch L index other cases c; hop_jumps hops c }"]
      w2 a L(3) s(4) j(1) by (simp add: switch_written [OF _ _ s(4)] value_type_Some)
  have run: "goes F n m is1 env (test_exit l (Table lo hi arms) next onward env)"
    if F: "\<forall>b'. b' = b \<or> L \<le> b' \<and> b' < length (blocks c') \<longrightarrow> blocks F ! b' = blocks c' ! b'" "value_types F = value_types c' @ us"
      "set (layout c') \<subseteq> set (layout F)" "env (of_value l) \<le> maskw (width (of_ty l))" for F :: "'x code" and env us
  proof -
    let ?T = "nth (value_types F)" and ?x = "operand l env"
    have us: "value_types F = value_types c @ ts1 @ ts2 @ us" using F(2) j(4) by simp
    have types: "types_at ?T (value_types c @ ts1)" "types_at ?T (value_types ?c2 @ ts2)"
      using types_at_append [of "value_types c @ ts1" "ts2 @ us"] types_at_append [of "value_types c @ ts1 @ ts2" us] us by simp_all
    obtain e1 where e1: "run_block ?T is1 env = Some (if lo \<le> ?x \<and> ?x \<le> hi then (L, []) else (next, map env onward), e1)"
      "e1 v = base_of (of_ty l) lo (env (of_value l))" "\<forall>u<length (value_types c). e1 u = env u"
      using run1 [THEN spec, THEN spec, of ?T env] types(1) F(4) by auto
    show ?thesis
    proof (cases "lo \<le> ?x \<and> ?x \<le> hi")
      case False
      then show ?thesis using e1 s(2) by (intro goes_run [where env' = e1]) (auto simp: table_exit [OF k(5)])
    next
      case True
      have base: "uint (e1 v) = ?x - lo" using base_test(2) [OF s(3) F(4) k(6,7,1)] True e1(2) by simp
      then have small: "uint (e1 v) < 2 ^ width (of_word l)" using True k(2) by linarith
      obtain e2 where e2: "run_block ?T (is2 @ [?sw]) e1 = run_block ?T [?sw] e2" "e2 index = e1 v" "\<forall>u<length (value_types ?c2). e2 u = e1 u"
        using run2 [THEN spec, THEN spec, of ?T e1, THEN spec, of "[?sw]"] types(2) small by blast
      let ?k = "case map_of arms ?x of Some k \<Rightarrow> k | None \<Rightarrow> of_default l"
      have picks: "resolves hops ?k (case map_of cases (uint (e2 index)) of Some b \<Rightarrow> b | None \<Rightarrow> other)"
        by (rule table_picks [OF cs k(4,5)]) (use True base e2(2) other in auto)
      have jumps: "\<forall>(k', b')\<in>set hops. n \<le> b' \<and> b' \<in> set (layout F) \<and> blocks F ! b' = [Jump (block_call_new (to_block k') (passed k'))]"
        using hops L(2) F(1,3) j(2,3,6) by (fastforce simp: hops_ready_def)
      have "blocks F ! L = is2 @ [?sw]" using F(1) content(2) j(2) L(3) by simp
      then have "goes F n m (blocks F ! L) e1 (at_place e1 (place ?k))"
        using switch_goes [OF s(4) cases_fit [OF cs k(5,2)] e2(1) _ picks k(9) jumps] e2(3) s(2) by simp
      moreover have "at_place e1 (place ?k) = at_place env (place ?k)"
        by (rule at_place_agree [of m]) (use e1(3) s(2) k(9) [of ?x] in \<open>auto simp: place_def\<close>)
      ultimately have "goes F n m (blocks F ! L) e1 (test_exit l (Table lo hi arms) next onward env)"
        using True by (simp add: table_exit [OF k(5)])
      moreover have "L \<in> set (layout F)" using F(3) j(3) L(5) by auto
      ultimately show ?thesis using e1 True L(2) s(2) goes_branch [of F is1 env L e1 m n] by simp
    qed
  qed
  show ?thesis
    unfolding written_from_def eq
  proof (intro exI [of _ c'] exI [of _ is1] conjI allI impI)
    show "blocks c' ! b' = blocks c ! b'" if "b' < L" "b' \<noteq> b" for b'
      using j(5) above that L s(1) by (simp add: wrote_block)
  qed (use content j run in auto)
qed


lemma table_near:
  fixes c :: "'x code"
  assumes ready: "table_ready n m l b L lo hi arms cases hops c"
    and other: "\<not> full \<Longrightarrow> resolves hops (of_default l) other" and narrow: "width (of_ty l) \<le> width (of_word l)"
    and top: "hd (layout c) \<noteq> L"
  shows "written_from L n m l b c (test_exit l (Table lo hi arms) (to_block (of_default l)) (passed (of_default l)))
    (do { (base, c) \<leftarrow> shifted_down b l lo c; c \<leftarrow> remove_block L c;
          let (other, c, hops) = (if full then hop (of_default l) c hops else (other, c, hops))
          in do { (index, c) \<leftarrow> in_word b l base c; c \<leftarrow> build_switch b index other cases c; hop_jumps hops c } })"
proof -
  have st: "stands_at n m l b c" and fits: "cluster_fits n m l (Table lo hi arms)" and L: "b < L" "n \<le> L" "L < length (blocks c)" "blocks c ! L = []"
      and hops: "hops_ready n m (Suc L) c hops"
    and cs0: "list_all2 (\<lambda>a s. fst s = fst a - lo \<and> resolves hops (snd a) (snd s)) arms cases"
    using ready by (simp_all add: table_ready_def)
  have s: "b < length (blocks c)" "m \<le> length (value_types c)" "scalar (of_ty l)" "scalar (of_word l)" "call_ok n m (of_default l)"
      "value_type c (of_value l) = Some (of_ty l)" "of_value l < m"
    using st by (simp_all add: stands_at_def)
  note k = table_fits [OF fits s(5)]
  obtain is1 ts1 v where w1: "shifted_down b l lo c = Some (v, wrote b is1 ts1 c)" and v: "v < length (value_types c @ ts1)"
      "(value_types c @ ts1) ! v = of_ty l"
    and run1: "\<forall>T env rest. types_at T (value_types c @ ts1) \<longrightarrow>
      (\<exists>env'. run_block T (is1 @ rest) env = run_block T rest env' \<and> env' v = base_of (of_ty l) lo (env (of_value l)) \<and>
        (\<forall>u<length (value_types c). env' u = env u))"
    using shifted_down_written [OF s(1,6,3), of lo] by (elim exE conjE)
  let ?c1 = "wrote b is1 ts1 c"
  let ?c2 = "dropped L ?c1"
  have gone: "remove_block L ?c1 = Some ?c2" using L s(1) top by (intro remove_block_dropped) (simp_all add: wrote_block)
  have "hops_ready n m (Suc L) ?c1 hops" using hops L(1) s(1) by (intro hops_ready_wrote) simp_all
  then have r2: "hops_ready n m (Suc L) ?c2 hops" by (rule hops_ready_dropped) simp
  have "\<exists>o' j hops'. (if full then hop (of_default l) ?c2 hops else (other, ?c2, hops)) = (o', opened j ?c2, hops') \<and>
      hops_ready n m (Suc L) (opened j ?c2) hops' \<and> set hops \<subseteq> set hops' \<and> resolves hops' (of_default l) o'"
  proof (cases full)
    case True
    then show ?thesis using hop_spec [OF r2 _ s(5)] L(3) by simp
  next
    case False
    then show ?thesis using other r2 by (intro exI [of _ other] exI [of _ 0] exI [of _ hops]) (simp add: opened_0)
  qed
  then obtain o' j hops' where h: "(if full then hop (of_default l) ?c2 hops else (other, ?c2, hops)) = (o', opened j ?c2, hops')"
      "hops_ready n m (Suc L) (opened j ?c2) hops'" "set hops \<subseteq> set hops'" "resolves hops' (of_default l) o'"
    by (elim exE conjE)
  have cs: "list_all2 (\<lambda>a s. fst s = fst a - lo \<and> resolves hops' (snd a) (snd s)) arms cases"
    using cs0 resolves_mono [OF _ h(3)] by (elim list_all2_mono) blast
  let ?c3 = "opened j ?c2"
  have vt: "b < length (blocks ?c3)" "value_type ?c3 v = Some (of_ty l)" using v s(1) by (simp_all add: value_type_def)
  obtain is2 ts2 index where
    w2: "in_word b l v ?c3 = Some (index, wrote b is2 ts2 ?c3)" and a: "index < length (value_types ?c3 @ ts2)"
      "(value_types ?c3 @ ts2) ! index = of_word l"
    and run2: "\<forall>T env rest. types_at T (value_types ?c3 @ ts2) \<longrightarrow> uint (env v) < 2 ^ width (of_word l) \<longrightarrow>
      (\<exists>env'. run_block T (is2 @ rest) env = run_block T rest env' \<and> env' index = env v \<and> (\<forall>u<length (value_types ?c3). env' u = env u))"
    using in_word_written [OF vt s(3,4)] by (elim exE conjE)
  let ?sw = "SwitchOn index (map (\<lambda>t. block_call_new t []) (o' # map snd cases)) (map (\<lambda>s. const_bits (of_word l) (fst s)) cases) :: 'x placed"
  let ?c4 = "wrote b (is2 @ [?sw]) ts2 ?c3"
  have r4: "hops_ready n m (Suc L) ?c4 hops'" using h(2) L(1) s(1) by (intro hops_ready_wrote) simp_all
  then obtain c' where j: "hop_jumps hops' ?c4 = Some c'" "length (blocks c') = length (blocks ?c4)" "layout c' = layout ?c4" "value_types c' = value_types ?c4"
      "\<forall>b'. b' \<notin> snd ` set hops' \<longrightarrow> blocks c' ! b' = blocks ?c4 ! b'"
      "\<forall>(k, b)\<in>set hops'. blocks c' ! b = [Jump (block_call_new (to_block k) (passed k))]"
    using hop_jumps_spec by blast
  have above: "b' \<notin> snd ` set hops'" if "b' \<le> L" for b' using h(2) that by (force simp: hops_ready_def)
  have content: "blocks c' ! b = blocks c ! b @ is1 @ is2 @ [?sw]"
    using j(5) above [of b] L s(1) by (simp add: wrote_block opened_block)
  have eq: "(do { (base, c) \<leftarrow> shifted_down b l lo c; c \<leftarrow> remove_block L c;
          let (other, c, hops) = (if full then hop (of_default l) c hops else (other, c, hops))
          in do { (index, c) \<leftarrow> in_word b l base c; c \<leftarrow> build_switch b index other cases c; hop_jumps hops c } }) = Some c'"
    using w2 a s(1,4) j(1) by (simp add: w1 gone h(1) switch_written [OF _ _ s(4)] value_type_Some)
  have run: "goes F n m (is1 @ is2 @ [?sw]) env (test_exit l (Table lo hi arms) (to_block (of_default l)) (passed (of_default l)) env)"
    if F: "\<forall>b'. b' = b \<or> L \<le> b' \<and> b' < length (blocks c') \<longrightarrow> blocks F ! b' = blocks c' ! b'" "value_types F = value_types c' @ us"
      "set (layout c') \<subseteq> set (layout F)" "env (of_value l) \<le> maskw (width (of_ty l))" for F :: "'x code" and env us
  proof -
    let ?T = "nth (value_types F)" and ?x = "operand l env"
    have us: "value_types F = value_types c @ ts1 @ ts2 @ us" using F(2) j(4) by simp
    have types: "types_at ?T (value_types c @ ts1)" "types_at ?T (value_types ?c3 @ ts2)"
      using types_at_append [of "value_types c @ ts1" "ts2 @ us"] types_at_append [of "value_types c @ ts1 @ ts2" us] us by simp_all
    obtain e1 where e1: "run_block ?T (is1 @ is2 @ [?sw]) env = run_block ?T (is2 @ [?sw]) e1"
      "e1 v = base_of (of_ty l) lo (env (of_value l))" "\<forall>u<length (value_types c). e1 u = env u"
      using run1 types(1) by blast
    have "uint (e1 v) < 2 ^ width (of_ty l)"
      using base_le [OF s(3) F(4), of lo] scalarD(4) [OF s(3)] unfolding e1(2) by (simp add: le_maskw_iff)
    also have "\<dots> \<le> (2 :: int) ^ width (of_word l)" using narrow by (intro power_increasing) simp_all
    finally have small: "uint (e1 v) < 2 ^ width (of_word l)" .
    obtain e2 where e2: "run_block ?T (is2 @ [?sw]) e1 = run_block ?T [?sw] e2" "e2 index = e1 v" "\<forall>u<length (value_types ?c3). e2 u = e1 u"
      using run2 types(2) small by blast
    let ?k = "case map_of arms ?x of Some k \<Rightarrow> k | None \<Rightarrow> of_default l"
    have at_i: "if lo \<le> ?x \<and> ?x \<le> hi then uint (e2 index) = ?x - lo else hi - lo < uint (e2 index)"
    proof -
      have "uint (const_bits (of_ty l) (hi - lo)) = hi - lo"
        using uint_const [OF s(3), of "hi - lo"] k(1,6,7) scalar_signed(4) [OF s(3) F(4)] by simp
      then show ?thesis using base_test [OF s(3) F(4) k(6,7,1)] e1(2) e2(2) by (auto simp: word_le_def)
    qed
    have picks: "resolves hops' ?k (case map_of cases (uint (e2 index)) of Some b \<Rightarrow> b | None \<Rightarrow> o')"
      by (rule table_picks [OF cs k(4,5) at_i]) (use h(4) in simp)
    have jumps: "\<forall>(k', b')\<in>set hops'. n \<le> b' \<and> b' \<in> set (layout F) \<and> blocks F ! b' = [Jump (block_call_new (to_block k') (passed k'))]"
    proof safe
      fix k' b'
      assume a: "(k', b') \<in> set hops'"
      then have "Suc L \<le> b'" "b' < length (blocks c')" "b' \<in> set (layout c')"
        using r4 unfolding hops_ready_def j(2,3) by auto
      then show "n \<le> b'" "b' \<in> set (layout F)" "blocks F ! b' = [Jump (block_call_new (to_block k') (passed k'))]"
        using F(1,3) L(2) j(6) a by auto
    qed
    have "goes F n m (is1 @ is2 @ [?sw]) env (at_place env (place ?k))"
    proof (rule switch_goes [where ?env1.0 = e2, OF s(4) cases_fit [OF cs k(5,2)] _ _ picks k(9) jumps])
      show "run_block ?T (is1 @ is2 @ [?sw]) env = run_block ?T [?sw] e2" unfolding e1(1) e2(1) ..
      show "\<forall>u<m. e2 u = env u" using e1(3) e2(3) s(2) by simp
    qed
    moreover have "map_of arms ?x = None" if "\<not> (lo \<le> ?x \<and> ?x \<le> hi)" using that k(5) by (auto simp: map_of_eq_None_iff)
    ultimately show ?thesis by (auto simp: table_exit [OF k(5)] at_place_def place_def)
  qed
  show ?thesis
    unfolding written_from_def eq
  proof (intro exI [of _ c'] exI [of _ "is1 @ is2 @ [?sw]"] conjI allI impI)
    show "blocks c' ! b' = blocks c ! b'" if "b' < L" "b' \<noteq> b" for b'
      using j(5) above that L s(1) by (simp add: wrote_block opened_block)
  qed (use content j run L in auto)
qed


lemma bind_pair: "(case p of (x, y) \<Rightarrow> f x y) \<bind> g = (case p of (x, y) \<Rightarrow> f x y \<bind> g)" for f :: "'a \<Rightarrow> 'b \<Rightarrow> 'c option"
  by (cases p) simp

lemma bind_triple: "(case p of (x, y, z) \<Rightarrow> f x y z) \<bind> g = (case p of (x, y, z) \<Rightarrow> f x y z \<bind> g)" for f :: "'a \<Rightarrow> 'b \<Rightarrow> 'c \<Rightarrow> 'd option"
  by (cases p) simp

lemma table_written:
  fixes c :: "'x code"
  assumes st: "stands_at n m l b c" and fits: "cluster_fits n m l (Table lo hi arms)" and onward: "\<forall>v\<in>set onward. v < m"
    and word: "width (of_word l) \<le> 64"
  shows "written n m l b c (test_exit l (Table lo hi arms) next onward) (write_test l b (Table lo hi arms) next onward c)"
proof -
  have s: "b < length (blocks c)" "n \<le> length (blocks c)" "layout c \<noteq> []" "set (layout c) \<subseteq> {..<length (blocks c)}" "call_ok n m (of_default l)"
    using st by (simp_all add: stands_at_def)
  note k = table_fits [OF fits s(5)]
  let ?L = "length (blocks c)" and ?c1 = "opened 1 c"
  have "(2 :: int) ^ width (of_word l) \<le> 2 ^ 64" using word by (intro power_increasing) simp_all
  then have small: "hi - lo < 2 ^ 64" using k(2) by linarith
  have r1: "hops_ready n m (Suc ?L) ?c1 []" by (simp add: hops_ready_def)
  have close: "\<forall>a\<in>set arms. \<bar>fst a - lo\<bar> < 2 ^ 79 \<and> call_ok n m (snd a)"
  proof
    fix a
    assume "a \<in> set arms"
    then have "lo \<le> fst a" "fst a \<le> hi" "call_ok n m (snd a)" using fits by (auto simp: cluster_fits_def)
    then show "\<bar>fst a - lo\<bar> < 2 ^ 79 \<and> call_ok n m (snd a)" using small by simp
  qed
  have "Suc ?L \<le> length (blocks ?c1)" by simp
  then obtain cases j hops1 where h1: "hop_arms lo arms ?c1 [] = Some (cases, opened j ?c1, hops1)" "hops_ready n m (Suc ?L) (opened j ?c1) hops1"
      "list_all2 (\<lambda>a s. fst s = fst a - lo \<and> resolves hops1 (snd a) (snd s)) arms cases"
    using hop_arms_spec [OF r1 _ close] by blast
  define full where "full \<longleftrightarrow> hi - lo + 1 = int (length cases)"
  have len: "length cases = length arms" "cases \<noteq> []" using h1(3) k(3) by (auto dest: list_all2_lengthD)
  have "\<exists>other j' hops. (if full then (snd (hd cases), opened j ?c1, hops1) else hop (of_default l) (opened j ?c1) hops1) = (other, opened j' c, hops) \<and> 1 \<le> j' \<and>
      hops_ready n m (Suc ?L) (opened j' c) hops \<and> set hops1 \<subseteq> set hops \<and> (\<not> full \<longrightarrow> resolves hops (of_default l) other)"
  proof (cases full)
    case True
    then show ?thesis
      using h1(2) by (intro exI [of _ "snd (hd cases)"] exI [of _ "1 + j"] exI [of _ hops1]) (simp add: opened_opened)
  next
    case False
    have "Suc ?L \<le> length (blocks (opened j ?c1))" by simp
    then obtain other j2 hops where "hop (of_default l) (opened j ?c1) hops1 = (other, opened j2 (opened j ?c1), hops)"
        "hops_ready n m (Suc ?L) (opened j2 (opened j ?c1)) hops" "set hops1 \<subseteq> set hops" "resolves hops (of_default l) other"
      using hop_spec [OF h1(2) _ s(5)] by blast
    then show ?thesis
      using False by (intro exI [of _ other] exI [of _ "1 + (j + j2)"] exI [of _ hops]) (simp add: opened_opened)
  qed
  then obtain other j' hops where o: "(if full then (snd (hd cases), opened j ?c1, hops1) else hop (of_default l) (opened j ?c1) hops1) = (other, opened j' c, hops)"
      "1 \<le> j'" "hops_ready n m (Suc ?L) (opened j' c) hops" "set hops1 \<subseteq> set hops" "\<not> full \<longrightarrow> resolves hops (of_default l) other"
    by (elim exE conjE)
  let ?c2 = "opened j' c"
  have cs: "list_all2 (\<lambda>a s. fst s = fst a - lo \<and> resolves hops (snd a) (snd s)) arms cases"
    using h1(3) resolves_mono [OF _ o(4)] by (elim list_all2_mono) blast
  have ready: "table_ready n m l b ?L lo hi arms cases hops ?c2"
    using st fits o(2,3) cs s by (auto simp: table_ready_def stands_at_def opened_block)
  have top: "hd (layout ?c2) \<noteq> ?L" using s(4) list.set_sel(1) [OF s(3)] s(3) by (metis hd_append2 lessThan_iff nat_neq_iff opened_simps(2) subsetD)
  have span: "span_of lo hi = Some (hi - lo + 1)" using small k(1) by (intro span_of_small) simp
  let ?far = "do { (base, c) \<leftarrow> shifted_down b l lo ?c2; d \<leftarrow> checked_i128 (hi - lo); (wide, c) \<leftarrow> iconst b (of_ty l) d c;
          (ok, c) \<leftarrow> icmp b Ule base wide c; c \<leftarrow> br_if b ok ?L [] next onward c;
          (index, c) \<leftarrow> in_word ?L l base c; c \<leftarrow> build_switch ?L index other cases c; hop_jumps hops c }"
  let ?near = "do { (base, c) \<leftarrow> shifted_down b l lo ?c2; c \<leftarrow> remove_block ?L c;
          let (other, c, hops) = (if full then hop (of_default l) c hops else (other, c, hops))
          in do { (index, c) \<leftarrow> in_word b l base c; c \<leftarrow> build_switch b index other cases c; hop_jumps hops c } }"
  define near where "near \<longleftrightarrow> of_checked l \<and> (next = to_block (of_default l) \<and> passed (of_default l) = onward) \<and> width (of_ty l) \<le> width (of_word l)"
  have eq: "write_test l b (Table lo hi arms) next onward c = (if near then ?near else ?far)"
    using o(1) len(2) unfolding full_def
    unfolding write_test.simps looked_up_def create_block_opened Let_def prod.case h1(1) bind.simps span near_def [symmetric]
    by (cases near) (simp_all add: bind_pair bind_triple Let_def)
  have "written_from ?L n m l b ?c2 (test_exit l (Table lo hi arms) next onward) (write_test l b (Table lo hi arms) next onward c)"
  proof (cases near)
    case True
    have "written_from ?L n m l b ?c2 (test_exit l (Table lo hi arms) (to_block (of_default l)) (passed (of_default l))) ?near"
      by (rule table_near [OF ready _ _ top]) (use o(5) True near_def in auto)
    then show ?thesis using True eq near_def by simp
  next
    case False
    have "written_from ?L n m l b ?c2 (test_exit l (Table lo hi arms) next onward) ?far"
      by (rule table_far [OF ready onward]) (use o(5) len full_def in auto)
    then show ?thesis using False eq by auto
  qed
  then show ?thesis by (rule written_after_opened [OF _ s(1,4)])
qed

text \<open>Every test goes where its cluster sends the operand.\<close>

lemma test_written:
  assumes "stands_at n m l b c" "cluster_fits n m l k" "\<forall>v\<in>set onward. v < m" "width (of_word l) \<le> 64"
  shows "written n m l b c (test_exit l k next onward) (write_test l b k next onward c)"
  using assms by (cases k) (auto simp del: write_test.simps intro: one_written run_written table_written bits_written)

end
