(* ===== verification/SwitchTree.thy ===== *)
theory SwitchTree
  imports SwitchTable
begin

text \<open>
  The decision tree over the clusters of a \<open>switch\<close> and the case tested ahead of it, run: from the block the \<open>switch\<close> was the
  end of, control leaves by the edge the cases name, or by the default.
\<close>

section \<open>Parts of one lowering\<close>

definition list_exit :: "lowering \<Rightarrow> cluster list \<Rightarrow> env \<Rightarrow> edge" where
  "list_exit l cs env = (case clusters_place cs (operand l env) of Some p \<Rightarrow> at_place env p | None \<Rightarrow> edge env (of_default l))"

lemma clusters_place_call: "clusters_place cs x = Some p \<Longrightarrow> \<exists>k\<in>set cs. \<exists>a\<in>set (calls_of k). p = place a"
  by (induction cs) (auto split: option.splits dest: cluster_place_call)

lemma list_exit_agree:
  assumes "\<And>v. v < m \<Longrightarrow> env' v = env v" "of_value l < m" "call_ok n m (of_default l)" "\<forall>k\<in>set cs. cluster_fits n m l k"
  shows "list_exit l cs env' = list_exit l cs env"
proof (cases "clusters_place cs (operand l env)")
  case None
  then show ?thesis using assms(1-3) by (simp add: list_exit_def edge_def)
next
  case (Some p)
  then have "\<forall>v\<in>set (snd p). v < m" using clusters_place_call [OF Some] assms(4) by (auto simp: cluster_fits_def place_def)
  then show ?thesis using Some assms(1,2) at_place_agree [of m env' env p] by (simp add: list_exit_def)
qed

lemma settled_part:
  assumes "settled c0 b c' F" "frame c2 b2 c'" "length (blocks c0) \<le> length (blocks c1)"
    "b1 = b \<or> length (blocks c0) \<le> b1" "b1 < length (blocks c1)" "b2 \<noteq> b1" "b2 < length (blocks c1)" "frame c1 b1 c2"
    "length (blocks c0) \<le> b2"
  shows "settled c1 b1 c2 F" "settled c2 b2 c' F"
proof -
  have len: "length (blocks c1) \<le> length (blocks c2)" "length (blocks c2) \<le> length (blocks c')" using assms(2,8) by (simp_all add: frame_def)
  have same: "blocks c' ! b' = blocks c2 ! b'" if "b' < length (blocks c2)" "b' \<noteq> b2" for b' using assms(2) that by (simp add: frame_def)
  show "settled c1 b1 c2 F"
    using assms(1-7) len same by (auto simp: settled_def frame_def)
  show "settled c2 b2 c' F"
    using assms(1,3,7,9) len by (auto simp: settled_def)
qed

text \<open>New blocks are where the contract of a test wants to stand.\<close>

lemma stands_at_frame:
  assumes "stands_at n m l b c" "frame c b' c'" "b1 < length (blocks c')"
  shows "stands_at n m l b1 c'"
  using assms by (fastforce simp: stands_at_def frame_def value_type_Some nth_append)

lemma frame_block: "frame c b c' \<Longrightarrow> b' < length (blocks c) \<Longrightarrow> b' \<noteq> b \<Longrightarrow> blocks c' ! b' = blocks c ! b'"
  by (simp add: frame_def)

section \<open>The chain\<close>

lemma chain_written:
  "parts word K lo hi cs \<Longrightarrow> \<forall>k\<in>set cs. cluster_fits n m l k \<Longrightarrow> stands_at n m l b c \<Longrightarrow> width (of_word l) \<le> 64 \<Longrightarrow>
    written n m l b c (list_exit l cs) (chain l b cs c)"
proof (induction l b cs c arbitrary: lo rule: chain.induct)
  case (1 l b c)
  then have s: "b < length (blocks c)" "m \<le> length (value_types c)" by (simp_all add: stands_at_def)
  have eq: "chain l b [] c = Some (wrote b [Jump (block_call_new (to_block (of_default l)) (passed (of_default l)))] [] c)" using s by (simp add: writes)
  show ?case
    unfolding eq
  proof (rule written_wrote [OF s(1)], rule goes_run)
    fix F :: "'a code" and env
    show "run_block (nth (value_types F)) [Jump (block_call_new (to_block (of_default l)) (passed (of_default l)))] env =
      Some (list_exit l [] env, env)"
      by (simp add: list_exit_def edge_def)
  qed simp
next
  case (2 l b k c)
  have exit: "test_exit l k (to_block (of_default l)) (passed (of_default l)) = list_exit l [k]"
    by (auto simp: fun_eq_iff test_exit_def list_exit_def edge_def split: option.split)
  have "written n m l b c (test_exit l k (to_block (of_default l)) (passed (of_default l)))
    (write_test l b k (to_block (of_default l)) (passed (of_default l)) c)"
    by (rule test_written) (use "2.prems" in \<open>simp_all add: stands_at_def\<close>)
  then show ?case unfolding exit by simp
next
  case (3 l b k k2 rest c)
  let ?L = "length (blocks c)" and ?cs = "k2 # rest"
  have s: "b < ?L" "n \<le> ?L" "of_value l < m" "call_ok n m (of_default l)" using "3.prems"(3) by (simp_all add: stands_at_def)
  have st1: "stands_at n m l b (opened 1 c)" by (rule stands_at_frame [OF "3.prems"(3) frame_opened [OF s(1)]]) (use s(1) in simp)
  have "written n m l b (opened 1 c) (test_exit l k ?L []) (write_test l b k ?L [] (opened 1 c))"
    by (rule test_written [OF st1]) (use "3.prems"(2,4) in simp_all)
  then obtain c2 where c2: "write_test l b k ?L [] (opened 1 c) = Some c2" "frame (opened 1 c) b c2"
    "\<And>F env. settled (opened 1 c) b c2 F \<Longrightarrow> env (of_value l) \<le> maskw (width (of_ty l)) \<Longrightarrow>
      goes F n m (drop (length (blocks (opened 1 c) ! b)) (blocks F ! b)) env (test_exit l k ?L [] env)"
    unfolding written_def by blast
  have len: "Suc ?L \<le> length (blocks c2)" "set (layout c) \<union> {?L} \<subseteq> set (layout c2)" using c2(2) by (auto simp: frame_def)
  have st2: "stands_at n m l ?L c2" by (rule stands_at_frame [OF st1 c2(2)]) (use len in simp)
  have "parts word K (cluster_high k + 1) hi ?cs" using "3.prems"(1) by simp
  then have "written n m l ?L c2 (list_exit l ?cs) (chain l ?L ?cs c2)"
    by (rule "3.IH" [OF create_block_opened [symmetric] refl c2(1)]) (use "3.prems"(2,4) st2 in simp_all)
  then obtain c' where c': "chain l ?L ?cs c2 = Some c'" "frame c2 ?L c'"
    "\<And>F env. settled c2 ?L c' F \<Longrightarrow> env (of_value l) \<le> maskw (width (of_ty l)) \<Longrightarrow>
      goes F n m (drop (length (blocks c2 ! ?L)) (blocks F ! ?L)) env (list_exit l ?cs env)"
    unfolding written_def by blast
  have fr: "frame c b c'"
    by (rule frame_trans [OF frame_trans [OF frame_opened [OF s(1)] c2(2) s(1)] c'(2) s(1)]) simp_all
  have eq: "chain l b (k # ?cs) c = Some c'" using c2(1) c'(1) by (simp add: create_block_opened)
  show ?case
    unfolding written_def
  proof (intro exI [of _ c'] conjI allI impI, rule eq, rule fr)
    fix F :: "'a code" and env
    assume F: "settled c b c' F" and x: "env (of_value l) \<le> maskw (width (of_ty l))"
    have set1: "settled (opened 1 c) b c2 F" and set2: "settled c2 ?L c' F"
      using settled_part [OF F c'(2), of "opened 1 c" b] c2(2) s(1) by auto
    have empty: "blocks c2 ! ?L = []" using frame_block [OF c2(2), of ?L] s(1) by (simp add: opened_block)
    let ?is = "drop (length (blocks c ! b)) (blocks F ! b)"
    have g: "goes F n m ?is env (test_exit l k ?L [] env)" using c2(3) [of F env] set1 x s(1) by (simp add: opened_block)
    show "goes F n m ?is env (list_exit l (k # ?cs) env)"
    proof (cases "cluster_place k (operand l env) = None \<and> \<not> (cluster_low k \<le> operand l env \<and> operand l env \<le> cluster_high k)")
      case True
      then have "test_exit l k ?L [] env = (?L, [])" by (auto simp: test_exit_def)
      then have out: "goes F n m ?is env (?L, [])" using g by simp
      show ?thesis
      proof (rule goes_on [OF out s(2)])
        show "?L \<in> set (layout F)" using set2 len(2) c'(2) by (auto simp: settled_def frame_def)
        fix env'
        assume agree: "\<And>v. v < m \<Longrightarrow> env' v = env v"
        then have "goes F n m (blocks F ! ?L) env' (list_exit l ?cs env')" using c'(3) [of F env'] set2 x s(3) empty by simp
        moreover have "list_exit l ?cs env' = list_exit l ?cs env" using list_exit_agree [OF agree s(3,4)] "3.prems"(2) by simp
        ultimately show "goes F n m (blocks F ! ?L) env' (list_exit l (k # ?cs) env)" using True by (simp add: list_exit_def)
      qed
    next
      case False
      have "test_exit l k ?L [] env = list_exit l (k # ?cs) env"
      proof (cases "cluster_place k (operand l env)")
        case None
        then have "clusters_place ?cs (operand l env) = None" using False "3.prems"(1) by (intro parts_place [of word K "cluster_high k + 1" hi]) auto
        then show ?thesis using None False by (simp add: test_exit_def list_exit_def)
      qed (simp add: test_exit_def list_exit_def)
      then show ?thesis using g by simp
    qed
  qed
qed


section \<open>The tree\<close>

text \<open>The halves a leaf is too small for, and where a value above or below the pivot is looked for.\<close>

lemma tree_halves:
  assumes "parts word K lo hi cs" "1 < length cs"
  defines "xs \<equiv> take (length cs div 2) cs" and "ys \<equiv> drop (length cs div 2) cs"
  shows "parts word K lo (cluster_high (last xs)) xs" "parts word K (cluster_low (hd ys)) hi ys"
    "length xs < length cs" "length ys < length cs" "ys \<noteq> []"
    "clusters_place cs x = (if x < cluster_low (hd ys) then clusters_place xs x else clusters_place ys x)"
proof -
  have ne: "xs \<noteq> []" "ys \<noteq> []" "cs = xs @ ys" using assms(2) by (auto simp: xs_def ys_def)
  then have p: "parts word K lo (cluster_high (last xs)) xs" "parts word K (cluster_high (last xs) + 1) hi ys"
    using parts_split [of word K lo hi xs ys] assms(1) by simp_all
  show "parts word K lo (cluster_high (last xs)) xs" by (rule p(1))
  show top: "parts word K (cluster_low (hd ys)) hi ys" using p(2) ne(2) by (cases ys) simp_all
  have "cluster_high (last xs) < cluster_low (hd ys)" using p(2) ne(2) by (cases ys) simp_all
  then have "x < cluster_low (hd ys) \<Longrightarrow> clusters_place ys x = None" "\<not> x < cluster_low (hd ys) \<Longrightarrow> clusters_place xs x = None"
    using parts_place [OF top] parts_place [OF p(1)] by simp_all
  then show "clusters_place cs x = (if x < cluster_low (hd ys) then clusters_place xs x else clusters_place ys x)"
    unfolding ne(3) clusters_place_append by (cases "clusters_place xs x") (auto split: option.split)
  show "length xs < length cs" "length ys < length cs" "ys \<noteq> []" using assms(2) ne(2) by (auto simp: xs_def ys_def)
qed

text \<open>The branch at the pivot.\<close>

lemma pivot_written:
  fixes c :: "'x code"
  assumes "stands_at n m l b c" "- (2 ^ (width (of_ty l) - 1)) \<le> p" "p < 2 ^ (width (of_ty l) - 1)"
  shows "\<exists>is ts. (\<forall>k :: 'x code \<Rightarrow> 'y option. (do { (want, c) \<leftarrow> iconst b (of_ty l) p c; (under, c) \<leftarrow> icmp b Slt (of_value l) want c;
      c \<leftarrow> br_if b under lb [] rb [] c; k c }) = k (wrote b is ts c)) \<and>
    (\<forall>F :: 'x code. \<forall>env us. value_types F = value_types c @ ts @ us \<longrightarrow> env (of_value l) \<le> maskw (width (of_ty l)) \<longrightarrow>
      goes F n m is env (if operand l env < p then lb else rb, []))"
proof -
  let ?v = "length (value_types c)"
  let ?is = "[Plain (inst_new IConstOp [] (ImmExtra (const_bits (of_ty l) p)) NONE) ?v,
    Plain (inst_new ICmpOp [of_value l, ?v] (PredExtra Slt) NONE) (Suc ?v), BrIf (Suc ?v) (block_call_new lb []) (block_call_new rb [])] :: 'x placed list"
  have s: "b < length (blocks c)" "value_type c (of_value l) = Some (of_ty l)" "scalar (of_ty l)" "of_value l < m" "m \<le> ?v"
    using assms(1) by (simp_all add: stands_at_def)
  show ?thesis
  proof (intro exI [of _ ?is] exI [of _ "[of_ty l, I1]"] conjI allI impI)
    show "(do { (want, c) \<leftarrow> iconst b (of_ty l) p c; (under, c) \<leftarrow> icmp b Slt (of_value l) want c;
      c \<leftarrow> br_if b under lb [] rb [] c; k c }) = k (wrote b ?is [of_ty l, I1] c)" for k :: "'x code \<Rightarrow> 'y option"
      using s by (simp add: writes value_type_Some)
    fix F :: "'x code" and env us
    assume F: "value_types F = value_types c @ [of_ty l, I1] @ us"
    let ?e = "env(?v := const_bits (of_ty l) p, Suc ?v := of_bool (operand l env < p))"
    have "run_block (nth (value_types F)) ?is env = Some ((if operand l env < p then lb else rb, []), ?e)"
      using F s assms(2,3) by (auto simp: meanings edge_def value_type_Some const_signed nth_append)
    then show "goes F n m ?is env (if operand l env < p then lb else rb, [])"
      by (rule goes_run) (use s(5) in simp)
  qed
qed


lemma tree_written:
  fixes c :: "'x code"
  assumes "1 \<le> lf" "width (of_word l) \<le> 64"
  shows "parts word K lo hi cs \<Longrightarrow> \<forall>k\<in>set cs. cluster_fits n m l k \<Longrightarrow> stands_at n m l b c \<Longrightarrow>
    written n m l b c (list_exit l cs) (tree l b cs lf c)"
proof (induction "length cs" arbitrary: cs b c lo hi rule: less_induct)
  case less
  show ?case
  proof (cases "length cs \<le> lf")
    case True
    then show ?thesis using chain_written [OF less.prems assms(2)] by (subst tree.simps) simp
  next
    case False
    then have "1 < length cs" using assms(1) by simp
    define xs where "xs = take (length cs div 2) cs"
    define ys where "ys = drop (length cs div 2) cs"
    let ?L = "length (blocks c)" and ?p = "cluster_low (hd ys)" and ?c1 = "opened 2 c"
    have h: "parts word K lo (cluster_high (last xs)) xs" "parts word K ?p hi ys" "length xs < length cs" "length ys < length cs" "ys \<noteq> []"
      "\<And>x. clusters_place cs x = (if x < ?p then clusters_place xs x else clusters_place ys x)"
      unfolding xs_def ys_def by (rule tree_halves [OF less.prems(1) \<open>1 < length cs\<close>])+
    have sub: "set xs \<subseteq> set cs" "set ys \<subseteq> set cs" unfolding xs_def ys_def by (rule set_take_subset, rule set_drop_subset)
    have fits: "\<forall>k\<in>set xs. cluster_fits n m l k" "\<forall>k\<in>set ys. cluster_fits n m l k" using less.prems(2) sub by blast+
    have s: "b < ?L" "n \<le> ?L" "of_value l < m" "call_ok n m (of_default l)" using less.prems(3) by (simp_all add: stands_at_def)
    have st1: "stands_at n m l b ?c1" by (rule stands_at_frame [OF less.prems(3) frame_opened [OF s(1)]]) (use s(1) in simp)
    have "cluster_fits n m l (hd ys)" using fits(2) h(5) by simp
    then have p: "- (2 ^ (width (of_ty l) - 1)) \<le> ?p" "?p < 2 ^ (width (of_ty l) - 1)"
      using cluster_ok_low_high [of "width (of_word l)" "hd ys"] by (simp_all add: cluster_fits_def)
    obtain "is" ts where w: "\<forall>k :: 'x code \<Rightarrow> 'x code option. (do { (want, c) \<leftarrow> iconst b (of_ty l) ?p ?c1; (under, c) \<leftarrow> icmp b Slt (of_value l) want c;
        c \<leftarrow> br_if b under ?L [] (Suc ?L) [] c; k c }) = k (wrote b is ts ?c1)"
      and run: "\<forall>F :: 'x code. \<forall>env us. value_types F = value_types ?c1 @ ts @ us \<longrightarrow> env (of_value l) \<le> maskw (width (of_ty l)) \<longrightarrow>
        goes F n m is env (if operand l env < ?p then ?L else Suc ?L, [])"
      using pivot_written [OF st1 p, of ?L "Suc ?L"] by (elim exE conjE)
    let ?c2 = "wrote b is ts ?c1"
    have fr1: "frame c b ?c2" using frame_trans [OF frame_opened [OF s(1)] frame_wrote s(1)] s(1) by simp
    have st2: "stands_at n m l ?L ?c2" by (rule stands_at_frame [OF less.prems(3) fr1]) simp
    have "written n m l ?L ?c2 (list_exit l xs) (tree l ?L xs lf ?c2)" by (rule less.hyps [OF h(3,1) fits(1) st2])
    then obtain c3 where c3: "tree l ?L xs lf ?c2 = Some c3" "frame ?c2 ?L c3"
      "\<And>F env. settled ?c2 ?L c3 F \<Longrightarrow> env (of_value l) \<le> maskw (width (of_ty l)) \<Longrightarrow>
        goes F n m (drop (length (blocks ?c2 ! ?L)) (blocks F ! ?L)) env (list_exit l xs env)"
      unfolding written_def by blast
    have len3: "?L + 2 \<le> length (blocks c3)" using c3(2) by (simp add: frame_def)
    have st3: "stands_at n m l (Suc ?L) c3" by (rule stands_at_frame [OF st2 c3(2)]) (use len3 in simp)
    have "written n m l (Suc ?L) c3 (list_exit l ys) (tree l (Suc ?L) ys lf c3)" by (rule less.hyps [OF h(4,2) fits(2) st3])
    then obtain c4 where c4: "tree l (Suc ?L) ys lf c3 = Some c4" "frame c3 (Suc ?L) c4"
      "\<And>F env. settled c3 (Suc ?L) c4 F \<Longrightarrow> env (of_value l) \<le> maskw (width (of_ty l)) \<Longrightarrow>
        goes F n m (drop (length (blocks c3 ! Suc ?L)) (blocks F ! Suc ?L)) env (list_exit l ys env)"
      unfolding written_def by blast
    have fr2: "frame c b c3" by (rule frame_trans [OF fr1 c3(2) s(1)]) simp
    have fr3: "frame c b c4" by (rule frame_trans [OF fr2 c4(2) s(1)]) simp
    have two: "opened (Suc 0) (opened (Suc 0) c) = ?c1" by (simp add: opened_opened numeral_2_eq_2)
    have eq: "tree l b cs lf c = Some c4"
      using False w [THEN spec, of "\<lambda>c. tree l ?L xs lf c \<bind> tree l (Suc ?L) ys lf"] c3(1) c4(1)
      by (subst tree.simps) (simp add: create_block_opened two Let_def xs_def [symmetric] ys_def [symmetric])
    show ?thesis
      unfolding written_def
    proof (intro exI [of _ c4] conjI allI impI, rule eq, rule fr3)
      fix F :: "'x code" and env
      assume F: "settled c b c4 F" and x: "env (of_value l) \<le> maskw (width (of_ty l))"
      let ?is = "drop (length (blocks c ! b)) (blocks F ! b)"
      have set3: "settled ?c2 ?L c3 F" "settled c3 (Suc ?L) c4 F"
        using settled_part [OF F c4(2), of ?c2 ?L] c3(2) by simp_all
      have "blocks c4 ! b = blocks c ! b @ is"
        using frame_block [OF c4(2), of b] frame_block [OF c3(2), of b] len3 s(1) by (simp add: wrote_block opened_block)
      then have at_b: "?is = is" using F by (simp add: settled_def)
      have empty: "blocks ?c2 ! ?L = []" "blocks c3 ! Suc ?L = []"
        using frame_block [OF c3(2), of "Suc ?L"] s(1) by (simp_all add: wrote_block opened_block)
      obtain us where "value_types F = value_types ?c1 @ ts @ us" using set3(1) c3(2) by (auto simp: settled_def frame_def)
      then have out: "goes F n m ?is env (if operand l env < ?p then ?L else Suc ?L, [])" using run x unfolding at_b by blast
      have lay: "?L \<in> set (layout F)" "Suc ?L \<in> set (layout F)" using set3(1) c3(2) by (auto simp: settled_def frame_def)
      show "goes F n m ?is env (list_exit l cs env)"
      proof (rule goes_on [OF out])
        show "n \<le> (if operand l env < ?p then ?L else Suc ?L)" using s(2) by simp
        show "(if operand l env < ?p then ?L else Suc ?L) \<in> set (layout F)" using lay by simp
        fix env'
        assume agree: "\<And>v. v < m \<Longrightarrow> env' v = env v"
        have x': "env' (of_value l) \<le> maskw (width (of_ty l))" using agree s(3) x by simp
        have "goes F n m (blocks F ! ?L) env' (list_exit l xs env)"
          using c3(3) [of F env', OF set3(1) x'] list_exit_agree [OF agree s(3,4) fits(1)] unfolding empty(1) by simp
        moreover have "goes F n m (blocks F ! Suc ?L) env' (list_exit l ys env)"
          using c4(3) [of F env', OF set3(2) x'] list_exit_agree [OF agree s(3,4) fits(2)] unfolding empty(2) by simp
        ultimately show "goes F n m (blocks F ! (if operand l env < ?p then ?L else Suc ?L)) env' (list_exit l cs env)"
          by (simp add: list_exit_def h(6))
      qed
    qed
  qed
qed

end
