(* ===== verification/SwitchLower.thy ===== *)
theory SwitchLower
  imports SwitchTree
begin

text \<open>
  One \<open>switch\<close> rewritten: the case a hint makes likely is tested first, the rest are cut into clusters and searched, and from
  where the \<open>switch\<close> was control leaves by the edge it named. Nothing panics.
\<close>

section \<open>The hot case\<close>

lemma hottest_bound: "hottest percent arms = Some i \<Longrightarrow> i < length arms"
proof -
  assume a: "hottest percent arms = Some i"
  define js where "js = filter (\<lambda>i. hint (arms ! i) \<noteq> None) [0..<length arms]"
  define most where "most = Max (set (map (\<lambda>i. the (hint (arms ! i))) js))"
  define ks where "ks = filter (\<lambda>i. the (hint (arms ! i)) = most) js"
  have ne: "js \<noteq> []" and i: "i = last ks" using a unfolding hottest_def Let_def js_def [symmetric] most_def [symmetric] ks_def [symmetric] by (simp_all split: if_splits)
  have "most \<in> set (map (\<lambda>i. the (hint (arms ! i))) js)" unfolding most_def using ne by (intro Max_in) simp_all
  then have "ks \<noteq> []" by (auto simp: ks_def filter_empty_conv)
  then have "i \<in> set ks" using i last_in_set by blast
  then show "i < length arms" by (auto simp: ks_def js_def)
qed

text \<open>The hints of a branch decide nothing.\<close>

lemma peel_written:
  fixes c :: "'x code"
  assumes "stands_at n m l b c" "- (2 ^ (width (of_ty l) - 1)) \<le> v" "v < 2 ^ (width (of_ty l) - 1)" "call_ok n m k"
    "\<forall>h. hint k = Some h \<longrightarrow> h \<le> HINT_SCALE"
  shows "\<exists>is ts. peel l b v k c = Some (length (blocks c), wrote b is ts (opened 1 c)) \<and>
    (\<forall>F :: 'x code. \<forall>env us. value_types F = value_types c @ ts @ us \<longrightarrow> env (of_value l) \<le> maskw (width (of_ty l)) \<longrightarrow>
      goes F n m is env (if operand l env = v then at_place env (place k) else (length (blocks c), [])))"
proof -
  let ?v = "length (value_types c)" and ?L = "length (blocks c)"
  obtain other where other: "hint_complement (hint k) = Some other"
    using assms(5) by (cases "hint k") (auto simp: hint_complement_def)
  let ?x = "(block_call_new (to_block k) (passed k))\<lparr>hint := hint k\<rparr>" and ?y = "(block_call_new ?L [])\<lparr>hint := other\<rparr>"
  let ?is = "[Plain (inst_new IConstOp [] (ImmExtra (const_bits (of_ty l) v)) NONE) ?v,
    Plain (inst_new ICmpOp [of_value l, ?v] (PredExtra Eq) NONE) (Suc ?v), BrIf (Suc ?v) ?x ?y] :: 'x placed list"
  have s: "b < ?L" "value_type c (of_value l) = Some (of_ty l)" "scalar (of_ty l)" "of_value l < m" "m \<le> ?v"
    using assms(1) by (simp_all add: stands_at_def)
  have w: "peel l b v k c = Some (?L, wrote b ?is [of_ty l, I1] (opened 1 c))"
    using s other by (simp add: peel_def create_block_opened Let_def writes value_type_Some set_hints_def wrote_block butlast_append)
      (simp add: wrote_def opened_block)
  show ?thesis
  proof (intro exI [of _ ?is] exI [of _ "[of_ty l, I1]"] conjI allI impI)
    fix F :: "'x code" and env us
    assume F: "value_types F = value_types c @ [of_ty l, I1] @ us" and x: "env (of_value l) \<le> maskw (width (of_ty l))"
    let ?e = "env(?v := const_bits (of_ty l) v, Suc ?v := of_bool (operand l env = v))"
    have "env (of_value l) = const_bits (of_ty l) v \<longleftrightarrow> operand l env = v" by (rule const_eq [OF s(3) x assms(2,3)])
    then have "run_block (nth (value_types F)) ?is env = Some (if operand l env = v then at_place env (place k) else (?L, []), ?e)"
      using F s assms(4) by (auto simp: meanings edge_def value_type_Some at_place_def place_def)
    then show "goes F n m ?is env (if operand l env = v then at_place env (place k) else (?L, []))"
      by (rule goes_run) (use s(5) in simp)
  qed (rule w)
qed

lemma find_append: "find P (xs @ ys) = (case find P xs of Some x \<Rightarrow> Some x | None \<Rightarrow> find P ys)"
  by (induction xs) auto

text \<open>Taking a case out leaves the rest of them.\<close>

lemma without_picked:
  assumes "i < length cases" "length arms = length cases" "distinct cases"
  shows "picked otherwise arms cases x = (if x = cases ! i then arms ! i else picked otherwise (without i arms) (without i cases) x)"
proof -
  have c: "cases = take i cases @ cases ! i # drop (Suc i) cases" "arms = take i arms @ arms ! i # drop (Suc i) arms"
    using assms by (simp_all add: id_take_nth_drop)
  have "zip cases arms = zip (take i cases @ cases ! i # drop (Suc i) cases) (take i arms @ arms ! i # drop (Suc i) arms)"
    using c by simp
  also have "\<dots> = zip (take i cases) (take i arms) @ (cases ! i, arms ! i) # zip (drop (Suc i) cases) (drop (Suc i) arms)"
    using assms by simp
  finally have z: "zip cases arms = zip (take i cases) (take i arms) @ (cases ! i, arms ! i) # zip (drop (Suc i) cases) (drop (Suc i) arms)"
    "zip (without i cases) (without i arms) = zip (take i cases) (take i arms) @ zip (drop (Suc i) cases) (drop (Suc i) arms)"
    using assms by (simp_all add: without_def)
  have fresh: "\<forall>p\<in>set (zip (take i cases) (take i arms)). fst p \<noteq> cases ! i"
    using assms c(1) by (metis distinct_append disjoint_iff in_set_zipE list.set_intros(1) prod.collapse)
  show ?thesis
  proof (cases "x = cases ! i")
    case True
    then have "find (\<lambda>(i, _). i = x) (zip (take i cases) (take i arms)) = None" using fresh by (auto simp: find_None_iff)
    then show ?thesis using True by (simp add: picked_def z find_append)
  next
    case False
    then have "find (\<lambda>(i, _). i = x) ((cases ! i, arms ! i) # ps) = find (\<lambda>(i, _). i = x) ps" for ps by simp
    then show ?thesis using False by (simp only: picked_def z find_append if_False)
  qed
qed

lemma picked_in: "picked otherwise arms cases x = otherwise \<or> picked otherwise arms cases x \<in> set arms"
proof (cases "find (\<lambda>(i, _). i = x) (zip cases arms)")
  case (Some a)
  then obtain j where "a = zip cases arms ! j" "j < length (zip cases arms)" by (auto simp: find_Some_iff)
  then have "snd a \<in> set arms" by simp
  then show ?thesis using Some by (cases a) (simp add: picked_def)
qed (simp add: picked_def)

lemma without_props:
  "distinct xs \<Longrightarrow> distinct (without i xs)" "set (without i xs) \<subseteq> set xs" "length (without i xs) \<le> length xs"
  by (auto simp: without_def set_take_disj_set_drop_if_distinct dest: in_set_takeD in_set_dropD)


section \<open>One switch\<close>

text \<open>
  What a \<open>switch\<close> has to be: on a scalar the function has, with a target for each case, each case once and in the width, and
  no two of them \<open>2 ^ 127\<close> or more apart.
\<close>

definition hint_ok :: "block_call \<Rightarrow> bool" where
  "hint_ok k \<longleftrightarrow> (case hint k of None \<Rightarrow> True | Some h \<Rightarrow> h \<le> HINT_SCALE)"

definition cases_ok :: "nat \<Rightarrow> imm list \<Rightarrow> bool" where
  "cases_ok w cases \<longleftrightarrow> distinct cases \<and> length cases < 2 ^ 32 \<and> (\<forall>i\<in>set cases. i \<le> maskw w) \<and>
     (\<forall>i\<in>set cases. \<forall>j\<in>set cases. signed_at i w - signed_at j w < 2 ^ 127)"

lemma cases_ok_without: "cases_ok w cases \<Longrightarrow> cases_ok w (without i cases)"
  using without_props [where xs = cases and i = i] unfolding cases_ok_def by (meson order_le_less_trans subsetD)

lemma cases_ok_span:
  assumes "0 < w" "w \<le> 128" "cases_ok w cases"
  shows "\<exists>lo hi. (\<forall>i\<in>set cases. lo \<le> signed_at i w \<and> signed_at i w \<le> hi) \<and> lo \<le> hi \<and> - (2 ^ (w - 1)) \<le> lo \<and> hi < 2 ^ (w - 1) \<and>
    hi - lo < 2 ^ 127 \<and> i128_min \<le> lo \<and> hi \<le> i128_max"
proof (cases "cases = []")
  case True
  then show ?thesis by (intro exI [of _ 0]) (simp add: i128_min_def i128_max_def)
next
  case False
  let ?S = "(\<lambda>i. signed_at i w) ` set cases"
  have S: "finite ?S" "?S \<noteq> {}" using False by simp_all
  obtain i j where ij: "i \<in> set cases" "Min ?S = signed_at i w" "j \<in> set cases" "Max ?S = signed_at j w"
    using Min_in [OF S] Max_in [OF S] by fastforce
  have "(2 :: int) ^ (w - 1) \<le> 2 ^ 127" using assms(2) by (intro power_increasing) simp_all
  moreover have "- (2 ^ (w - 1)) \<le> signed_at i w" "signed_at j w < 2 ^ (w - 1)"
    using signed_at_limits [OF assms(1,2)] assms(3) ij(1,3) by (simp_all add: cases_ok_def)
  moreover have "\<forall>k\<in>set cases. signed_at i w \<le> signed_at k w \<and> signed_at k w \<le> signed_at j w"
    unfolding ij(2,4) [symmetric] using S(1) by (auto intro: Min_le Max_ge)
  moreover have "signed_at j w - signed_at i w < 2 ^ 127" using assms(3) ij(1,3) by (simp add: cases_ok_def)
  ultimately show ?thesis
    using ij(1,3) by (intro exI [of _ "signed_at i w"] exI [of _ "signed_at j w"]) (auto simp: i128_min_def i128_max_def)
qed

lemma tree_any:
  fixes c :: "'x code"
  assumes "1 \<le> lf \<or> length cs \<le> lf" "width (of_word l) \<le> 64" "parts word K lo hi cs" "\<forall>k\<in>set cs. cluster_fits n m l k" "stands_at n m l b c"
  shows "written n m l b c (list_exit l cs) (tree l b cs lf c)"
proof (cases "length cs \<le> lf")
  case True
  then show ?thesis using chain_written [OF assms(3-5,2)] by (subst tree.simps) simp
next
  case False
  then show ?thesis using assms(1) by (intro tree_written [OF _ assms(2-5)]) auto
qed

text \<open>Cases cut into clusters and regrouped: one above the other, each within the limits of its test, and with the places the cases go to.\<close>

lemma cases_grouped:
  assumes ty: "scalar ty" and word: "word \<le> 64" and rules: "rules_ok r" and cases: "cases_ok (width ty) cases"
  shows "\<exists>found cs lo hi. clusters_of cases arms ty = Some found \<and> grouped r f allowed ty word found = Some cs \<and>
    parts word (set arms) lo hi cs \<and> length cs \<le> length cases \<and> - (2 ^ (width ty - 1)) \<le> lo \<and> hi < 2 ^ (width ty - 1) \<and> hi - lo < 2 ^ 127 \<and>
    (\<forall>x otherwise. x \<le> maskw (width ty) \<longrightarrow>
      (case clusters_place cs (signed_at x (width ty)) of Some p \<Rightarrow> p | None \<Rightarrow> place otherwise) = place (picked otherwise arms cases x))"
proof -
  let ?w = "width ty"
  note w = scalarD(3,4) [OF ty]
  obtain lo hi where h: "\<forall>i\<in>set cases. lo \<le> signed_at i ?w \<and> signed_at i ?w \<le> hi" "lo \<le> hi" "- (2 ^ (?w - 1)) \<le> lo" "hi < 2 ^ (?w - 1)"
    "hi - lo < 2 ^ 127" "i128_min \<le> lo" "hi \<le> i128_max"
    using cases_ok_span [OF w cases] by blast
  have c: "distinct cases" "\<forall>i\<in>set cases. i \<le> maskw ?w" "length cases < 2 ^ 32" using cases by (simp_all add: cases_ok_def)
  obtain found where f: "clusters_of cases arms ty = Some found" "parts word (set arms) lo hi found" "\<forall>c\<in>set found. simple c"
      "length found \<le> length cases" "\<forall>x. clusters_place found x = map_option place (map_of (case_pairs ?w cases arms) x)"
    using clusters_of_spec [OF scalarD(1) [OF ty] c(1,2) h(1,2,6,7)] by blast
  have "regroups word (set arms) lo hi found (grouped r f allowed ty word found)"
    by (rule grouped_spec [OF rules f(2,3) _ word h(3,4) w(1) h(5)]) (use f(4) c(3) in simp)
  then obtain cs where g: "grouped r f allowed ty word found = Some cs" "parts word (set arms) lo hi cs" "length cs \<le> length found"
      "\<forall>x. clusters_place cs x = clusters_place found x"
    by (auto simp: regroups_def)
  have p: "(case clusters_place cs (signed_at x ?w) of Some p \<Rightarrow> p | None \<Rightarrow> place otherwise) = place (picked otherwise arms cases x)"
    if "x \<le> maskw ?w" for x otherwise
    using picked_place [OF w c(2) that, of otherwise arms] g(4) f(5) by (simp split: option.split)
  show ?thesis
    by (intro exI conjI allI impI) (rule f(1) g(1,2) order.trans [OF g(3) f(4)] h(3-5) p, assumption?)+
qed

text \<open>The cases without the hot one, written from any block.\<close>

lemma cases_written:
  assumes ty: "scalar (of_ty l)" and word: "1 \<le> word" "word \<le> 64" "width (of_word l) = word" and rules: "rules_ok r"
    and cases: "cases_ok (width (of_ty l)) cases" "\<forall>k\<in>set arms. call_ok n m k"
  shows "\<exists>found cs. clusters_of cases arms (of_ty l) = Some found \<and> grouped r f allowed (of_ty l) word found = Some cs \<and>
    (\<forall>b (c :: 'x code). stands_at n m l b c \<longrightarrow>
      written n m l b c (\<lambda>env. edge env (picked (of_default l) arms cases (env (of_value l))))
        (tree l b cs (case leaf_for r f allowed of None \<Rightarrow> length cs | Some n \<Rightarrow> n) c))"
proof -
  let ?w = "width (of_ty l)"
  obtain found cs lo hi where g: "clusters_of cases arms (of_ty l) = Some found" "grouped r f allowed (of_ty l) word found = Some cs"
      "parts word (set arms) lo hi cs" "- (2 ^ (?w - 1)) \<le> lo" "hi < 2 ^ (?w - 1)" "hi - lo < 2 ^ 127"
      "\<forall>x otherwise. x \<le> maskw ?w \<longrightarrow>
        (case clusters_place cs (signed_at x ?w) of Some p \<Rightarrow> p | None \<Rightarrow> place otherwise) = place (picked otherwise arms cases x)"
    using cases_grouped [OF ty word(2) rules cases(1), of arms f allowed] by blast
  have fits: "\<forall>k\<in>set cs. cluster_fits n m l k"
  proof
    fix k
    assume "k \<in> set cs"
    from parts_bounds [OF g(3) this] show "cluster_fits n m l k" using g(4-6) word(3) cases(2) by (auto simp: cluster_fits_def)
  qed
  let ?lf = "case leaf_for r f allowed of None \<Rightarrow> length cs | Some n \<Rightarrow> n"
  have lf: "1 \<le> ?lf \<or> length cs \<le> ?lf"
    using rules by (auto simp: leaf_for_def rules_ok_def BALANCED_def split: option.split force.split)
  have same: "list_exit l cs env = edge env (picked (of_default l) arms cases (env (of_value l)))"
    if "env (of_value l) \<le> maskw ?w" for env
    unfolding list_exit_def edge_place g(7) [THEN spec, THEN spec, THEN mp, OF that, symmetric] by (simp split: option.split)
  have "written n m l b c (\<lambda>env. edge env (picked (of_default l) arms cases (env (of_value l)))) (tree l b cs ?lf c)"
    if "stands_at n m l b c" for b and c :: "'x code"
    using tree_any [OF lf _ g(3) fits that] word(2,3) same by (simp add: written_def)
  then show ?thesis using g(1,2) by blast
qed


lemma word_of_32: "scalar (pack KInt 32 1)" "width (pack KInt 32 1) = 32" "(5 :: imm) \<le> maskw 32"
proof -
  have "kind_of (pack KInt 32 1) = KInt" "type_field (pack KInt 32 1) = 32" "type_lanes (pack KInt 32 1) = 1"
    using unpack [of 32 KInt] by simp_all
  then show "scalar (pack KInt 32 1)" "width (pack KInt 32 1) = 32"
    by (simp_all add: scalar_def int_ty_def is_int_def type_bits_def type_lane_def)
  show "(5 :: imm) \<le> maskw 32" by code_simp
qed

lemma native_rules_ok: "rules_ok (native_rules few few_for_size g)"
  by (simp add: rules_ok_def native_rules_def LINEAR_def JUMP_TABLE_GROWTH_def JUMP_TABLE_GROWTH_FOR_SIZE_def split: goal.split)


text \<open>
  Two values of \<open>__int128\<close> that are \<open>2 ^ 127\<close> or more apart have no difference in \<open>i128\<close>, and looking for values a word apart
  takes one.
\<close>

lemma far_cases_overflow: "0 < word \<Longrightarrow> 2 ^ 127 \<le> b - a \<Longrightarrow> group word [One a k, One b k2] = None"
  by (subst group.simps) (simp add: reach_def checked_i128_def in_i128_def i128_max_def i128_min_def)

section \<open>One switch written\<close>

fun switch_ok :: "nat \<Rightarrow> nat \<Rightarrow> irtype list \<Rightarrow> 'x placed \<Rightarrow> bool" where
  "switch_ok n m ts (SwitchOn v (otherwise # arms) cases) \<longleftrightarrow>
     v < m \<and> v < length ts \<and> scalar (ts ! v) \<and> cases_ok (width (ts ! v)) cases \<and> length arms = length cases \<and>
     (\<forall>k\<in>set (otherwise # arms). call_ok n m k \<and> hint_ok k)"
| "switch_ok n m ts _ \<longleftrightarrow> False"

definition layout_ok :: "'x code \<Rightarrow> bool" where
  "layout_ok c \<longleftrightarrow> layout c \<noteq> [] \<and> set (layout c) \<subseteq> {..<length (blocks c)}"

text \<open>What a block is left as, and what the new one is in a function that has what was written.\<close>

definition cut :: "nat \<Rightarrow> 'x code \<Rightarrow> 'x code" where
  "cut b c = c\<lparr>blocks := (blocks c)[b := butlast (blocks c ! b)]\<rparr>"

lemma cut_simps [simp]:
  "length (blocks (cut b c)) = length (blocks c)" "layout (cut b c) = layout c" "value_types (cut b c) = value_types c"
  "value_type (cut b c) = value_type c"
  by (simp_all add: cut_def value_type_def fun_eq_iff)

lemma cut_block: "b < length (blocks c) \<Longrightarrow> blocks (cut b c) ! b' = (if b' = b then butlast (blocks c ! b) else blocks c ! b')"
  by (simp add: cut_def)

lemma lower_written:
  fixes c :: "'x code"
  assumes b: "b < length (blocks c)" "blocks c ! b \<noteq> []" "last (blocks c ! b) = SwitchOn v (otherwise # arms) cases"
    and ok: "switch_ok n m (value_types c) (last (blocks c ! b))" "layout_ok c" "n \<le> length (blocks c)" "m \<le> length (value_types c)"
    and word: "1 \<le> word" "word \<le> 64" and rules: "rules_ok r"
  shows "\<exists>c' report. lower r f allowed word percent b c = Some (Some (c', report)) \<and> low_cases report = length cases \<and> frame (cut b c) b c' \<and>
    (\<forall>F env. settled (cut b c) b c' F \<longrightarrow> env v \<le> maskw (width (value_types c ! v)) \<longrightarrow>
      goes F n m (drop (length (blocks c ! b) - 1) (blocks F ! b)) env (edge env (picked otherwise arms cases (env v))))"
proof -
  define ty where "ty = value_types c ! v"
  obtain wty where wty: "type_int (of_nat word) = Some wty" "scalar wty" "width wty = word" using scalar_int [OF word] by blast
  define l where "l = \<lparr>of_value = v, of_ty = ty, of_default = otherwise, of_word = wty, of_checked = checked_table r\<rparr>"
  have l: "of_value l = v" "of_ty l = ty" "of_default l = otherwise" "of_word l = wty" by (simp_all add: l_def)
  have o: "v < m" "v < length (value_types c)" "scalar ty" "cases_ok (width ty) cases" "length arms = length cases" "call_ok n m otherwise"
    "\<forall>k\<in>set arms. call_ok n m k \<and> hint_ok k"
    using ok(1) unfolding b(3) by (simp_all add: ty_def)
  have vt: "value_type c v = Some ty" "type_lane ty = ty" using o(2) scalarD(2) [OF o(3)] by (simp_all add: value_type_def ty_def)
  let ?c0 = "cut b c"
  have st0: "stands_at n m l b ?c0" using ok(2-4) b(1) o vt(1) wty by (simp add: stands_at_def layout_ok_def l)
  let ?lf = "\<lambda>cs. case leaf_for r f allowed of None \<Rightarrow> length cs | Some n \<Rightarrow> n"
  have drop0: "drop (length (blocks ?c0 ! b)) = (drop (length (blocks c ! b) - 1) :: 'x placed list \<Rightarrow> _)" using b(1) by (simp add: cut_block)
  note run_cases = cases_written [where 'x = 'x and l = l and word = word and r = r and f = f and allowed = allowed, unfolded l,
      OF o(3) word wty(3) rules]
  show ?thesis
  proof (cases "hottest percent arms")
    case None
    obtain found cs where g: "clusters_of cases arms ty = Some found" "grouped r f allowed ty word found = Some cs"
      "\<forall>b (c :: 'x code). stands_at n m l b c \<longrightarrow> written n m l b c (\<lambda>env. edge env (picked otherwise arms cases (env v))) (tree l b cs (?lf cs) c)"
      using run_cases [OF o(4), of arms n m] o(7) by blast
    obtain c' where c': "tree l b cs (?lf cs) ?c0 = Some c'" "frame ?c0 b c'"
      "\<And>F env. settled ?c0 b c' F \<Longrightarrow> env v \<le> maskw (width ty) \<Longrightarrow>
        goes F n m (drop (length (blocks ?c0 ! b)) (blocks F ! b)) env (edge env (picked otherwise arms cases (env v)))"
      using g(3) st0 unfolding written_def l by blast
    obtain report where "lower r f allowed word percent b c = Some (Some (c', report))" "low_cases report = length cases"
      using b vt g(1,2) wty(1) None c'(1) unfolding l_def cut_def by (simp add: lower_def Let_def)
    then show ?thesis using c'(2,3) unfolding drop0 ty_def by blast
  next
    case (Some i)
    then have i: "i < length cases" "i < length arms" using hottest_bound [OF Some] o(5) by simp_all
    let ?cases = "without i cases" and ?arms = "without i arms" and ?k = "arms ! i" and ?v = "signed_at (cases ! i) (width ty)"
    obtain found cs where g: "clusters_of ?cases ?arms ty = Some found" "grouped r f allowed ty word found = Some cs"
      "\<forall>b (c :: 'x code). stands_at n m l b c \<longrightarrow> written n m l b c (\<lambda>env. edge env (picked otherwise ?arms ?cases (env v))) (tree l b cs (?lf cs) c)"
      using run_cases [OF cases_ok_without [OF o(4)], of ?arms n m i] o(7) without_props(2) [of i arms] by blast
    have k: "call_ok n m ?k" "\<forall>h. hint ?k = Some h \<longrightarrow> h \<le> HINT_SCALE" "cases ! i \<le> maskw (width ty)"
    proof -
      have "call_ok n m ?k \<and> hint_ok ?k" by (rule bspec [OF o(7)]) (simp add: i(2))
      then show "call_ok n m ?k" "\<forall>h. hint ?k = Some h \<longrightarrow> h \<le> HINT_SCALE" by (auto simp: hint_ok_def)
      show "cases ! i \<le> maskw (width ty)" using o(4) i(1) by (simp add: cases_ok_def)
    qed
    note v = scalar_signed(1,2) [OF o(3) k(3)]
    obtain "is" ts where p: "peel l b ?v ?k ?c0 = Some (length (blocks ?c0), wrote b is ts (opened 1 ?c0))"
      and run: "\<forall>F :: 'x code. \<forall>env us. value_types F = value_types ?c0 @ ts @ us \<longrightarrow> env (of_value l) \<le> maskw (width (of_ty l)) \<longrightarrow>
        goes F n m is env (if operand l env = ?v then at_place env (place ?k) else (length (blocks ?c0), []))"
      using peel_written [OF st0, of ?v ?k] v k(1,2) unfolding l(2) by blast
    let ?L = "length (blocks c)" and ?c1 = "wrote b is ts (opened 1 ?c0)"
    have fr1: "frame ?c0 b ?c1" by (rule frame_trans [OF frame_opened frame_wrote]) (use b(1) in simp_all)
    have st1: "stands_at n m l ?L ?c1" by (rule stands_at_frame [OF st0 fr1]) simp
    obtain c' where c': "tree l ?L cs (?lf cs) ?c1 = Some c'" "frame ?c1 ?L c'"
      "\<And>F env. settled ?c1 ?L c' F \<Longrightarrow> env v \<le> maskw (width ty) \<Longrightarrow>
        goes F n m (drop (length (blocks ?c1 ! ?L)) (blocks F ! ?L)) env (edge env (picked otherwise ?arms ?cases (env v)))"
      using g(3) st1 unfolding written_def l by blast
    have fr: "frame ?c0 b c'" by (rule frame_trans [OF fr1 c'(2)]) (use b(1) in simp_all)
    have "imm_signed (cases ! i) ty = Some ?v" using imm_signed_eq [of ty "cases ! i"] scalarD(1) [OF o(3)] by simp
    then obtain report where lo: "lower r f allowed word percent b c = Some (Some (c', report))" "low_cases report = length cases"
      using b vt g(1,2) wty(1) Some i p c'(1) unfolding l_def cut_def by (simp add: lower_def Let_def)
    have "goes F n m (drop (length (blocks ?c0 ! b)) (blocks F ! b)) env (edge env (picked otherwise arms cases (env v)))"
      if F: "settled ?c0 b c' F" and x: "env v \<le> maskw (width ty)" for F env
    proof -
      have len: "Suc ?L \<le> length (blocks c')" "?L \<in> set (layout c')" using c'(2) by (auto simp: frame_def)
      have set1: "settled ?c1 ?L c' F" using F len by (auto simp: settled_def)
      have "blocks c' ! b = blocks ?c0 ! b @ is" using frame_block [OF c'(2), of b] b(1) by (simp add: wrote_block opened_block)
      then have at_b: "drop (length (blocks ?c0 ! b)) (blocks F ! b) = is" using F by (simp add: settled_def)
      have empty: "blocks ?c1 ! ?L = []" using b(1) by (simp add: wrote_block opened_block)
      have lay: "?L \<in> set (layout F)" using F len(2) by (auto simp: settled_def)
      obtain us where "value_types F = value_types c @ ts @ us" using F c'(2) by (auto simp: settled_def frame_def)
      then have out: "goes F n m is env (if signed_at (env v) (width ty) = ?v then at_place env (place ?k) else (?L, []))" using run [unfolded cut_simps l] x by blast
      have inj: "signed_at (env v) (width ty) = ?v \<longleftrightarrow> env v = cases ! i" by (rule signed_at_inj [OF scalarD(3,4) [OF o(3)] x k(3)])
      note pick = without_picked [OF i(1) o(5), of otherwise "env v"]
      have d: "distinct cases" using o(4) by (simp add: cases_ok_def)
      show ?thesis
      proof (cases "env v = cases ! i")
        case True
        then show ?thesis using out pick [OF d] by (simp add: at_b edge_place inj)
      next
        case False
        then have out: "goes F n m is env (?L, [])" using out by (simp add: inj)
        show ?thesis
          unfolding at_b
        proof (rule goes_on [OF out ok(3) lay])
          fix env'
          assume agree: "\<And>u. u < m \<Longrightarrow> env' u = env u"
          let ?p = "picked otherwise ?arms ?cases (env v)"
          have "env' v = env v" using agree o(1) by simp
          then have "goes F n m (blocks F ! ?L) env' (edge env' ?p)" using c'(3) [of F env'] set1 x empty by simp
          moreover have "\<forall>u\<in>set (passed ?p). u < m"
          proof -
            have "?p = otherwise \<or> ?p \<in> set arms"
              using picked_in [of otherwise ?arms ?cases "env v"] subsetD [OF without_props(2) [of i arms]] by blast
            then show ?thesis
            proof
              assume "?p = otherwise"
              then show ?thesis using o(6) by simp
            next
              assume "?p \<in> set arms"
              from bspec [OF o(7) this] show ?thesis by simp
            qed
          qed
          then have "edge env' ?p = edge env ?p" using agree by (simp add: edge_def)
          ultimately show "goes F n m (blocks F ! ?L) env' (edge env (picked otherwise arms cases (env v)))" using pick [OF d] False by simp
        qed
      qed
    qed
    then show ?thesis using lo fr unfolding drop0 ty_def by blast
  qed
qed

end
