(* ===== verification/SwitchSound.thy ===== *)
theory SwitchSound
  imports SwitchLower
begin

text \<open>
  The whole lowering of a function: every \<open>switch\<close> is rewritten, none of it panics, and every block leaves by the edge it left
  by before, with the values it had.
\<close>

section \<open>One after another\<close>

text \<open>What is left of a block and what was written after it.\<close>

definition rewritten :: "nat \<Rightarrow> nat \<Rightarrow> 'x code \<Rightarrow> 'x code \<Rightarrow> nat \<Rightarrow> bool" where
  "rewritten n m c c' b \<longleftrightarrow>
     (\<forall>v otherwise arms cases. last (blocks c ! b) = SwitchOn v (otherwise # arms) cases \<longrightarrow>
       (\<exists>is. blocks c' ! b = butlast (blocks c ! b) @ is \<and>
         (\<forall>F env. settled c b c' F \<longrightarrow> env v \<le> maskw (width (value_types c ! v)) \<longrightarrow>
           goes F n m is env (edge env (picked otherwise arms cases (env v))))))"

definition grows :: "nat set \<Rightarrow> 'x code \<Rightarrow> 'x code \<Rightarrow> bool" where
  "grows B c c' \<longleftrightarrow> length (blocks c) \<le> length (blocks c') \<and> (\<forall>b<length (blocks c). b \<notin> B \<longrightarrow> blocks c' ! b = blocks c ! b) \<and>
     (\<exists>ts. value_types c' = value_types c @ ts) \<and> set (layout c) \<subseteq> set (layout c')"

lemma switch_ok_more: "switch_ok n m ts i \<Longrightarrow> switch_ok n m (ts @ us) i"
  by (cases "(n, m, ts, i)" rule: switch_ok.cases) (auto simp: nth_append)

lemma switch_okE:
  assumes "switch_ok n m ts i"
  obtains v otherwise arms cases where "i = SwitchOn v (otherwise # arms) cases"
  using assms by (cases "(n, m, ts, i)" rule: switch_ok.cases) auto

lemma layout_ok_frame: "layout_ok c \<Longrightarrow> frame c b c' \<Longrightarrow> layout_ok c'"
  by (fastforce simp: layout_ok_def frame_def)

lemma lower_each_written:
  fixes c :: "'x code"
  assumes rules: "rules_ok r" and word: "1 \<le> word" "word \<le> 64"
  shows "distinct bs \<Longrightarrow> layout_ok c \<Longrightarrow> n \<le> length (blocks c) \<Longrightarrow> m \<le> length (value_types c) \<Longrightarrow>
    \<forall>b\<in>set bs. b < n \<and> blocks c ! b \<noteq> [] \<and> switch_ok n m (value_types c) (last (blocks c ! b)) \<Longrightarrow>
    \<exists>c' reports. lower_each r f allowed word percent bs c = Some (c', reports) \<and> length reports = length bs \<and> grows (set bs) c c' \<and>
      (\<forall>b\<in>set bs. rewritten n m c c' b)"
proof (induction bs arbitrary: c)
  case Nil
  then show ?case by (auto simp: grows_def)
next
  case (Cons b bs)
  have b: "b < length (blocks c)" "blocks c ! b \<noteq> []" "switch_ok n m (value_types c) (last (blocks c ! b))"
    using Cons.prems(3,5) by auto
  obtain v otherwise arms cases where l: "last (blocks c ! b) = SwitchOn v (otherwise # arms) cases" using b(3) by (rule switch_okE)
  obtain c1 report where c1: "lower r f allowed word percent b c = Some (Some (c1, report))" "frame (cut b c) b c1"
    "\<And>F env. settled (cut b c) b c1 F \<Longrightarrow> env v \<le> maskw (width (value_types c ! v)) \<Longrightarrow>
      goes F n m (drop (length (blocks c ! b) - 1) (blocks F ! b)) env (edge env (picked otherwise arms cases (env v)))"
    using lower_written [OF b(1,2) l b(3) Cons.prems(2,3,4) word rules] by blast
  have len: "length (blocks c) \<le> length (blocks c1)" using c1(2) by (simp add: frame_def)
  have keep: "blocks c1 ! b' = blocks c ! b'" if "b' < length (blocks c)" "b' \<noteq> b" for b'
    using c1(2) that b(1) by (simp add: frame_def cut_block)
  obtain ts where ts: "value_types c1 = value_types c @ ts" using c1(2) by (auto simp: frame_def)
  have lay: "set (layout c) \<subseteq> set (layout c1)" using c1(2) by (simp add: frame_def)
  have "layout_ok (cut b c)" using Cons.prems(2) by (simp add: layout_ok_def)
  then have lay1: "layout_ok c1" by (rule layout_ok_frame [OF _ c1(2)])
  have same: "blocks c1 ! b' = blocks c ! b'" if "b' \<in> set bs" for b' using that Cons.prems(1,3,5) by (intro keep) auto
  have "\<exists>c' reports. lower_each r f allowed word percent bs c1 = Some (c', reports) \<and> length reports = length bs \<and> grows (set bs) c1 c' \<and>
      (\<forall>b\<in>set bs. rewritten n m c1 c' b)"
    using Cons.prems len lay1 same ts by (intro Cons.IH) (auto intro: switch_ok_more)
  then obtain c' reports where c': "lower_each r f allowed word percent bs c1 = Some (c', reports)" "length reports = length bs"
      "grows (set bs) c1 c'" "\<forall>b\<in>set bs. rewritten n m c1 c' b"
    by blast
  have len': "length (blocks c1) \<le> length (blocks c')" and lay': "set (layout c1) \<subseteq> set (layout c')" and keep': "\<And>b'. b' < length (blocks c1) \<Longrightarrow> b' \<notin> set bs \<Longrightarrow> blocks c' ! b' = blocks c1 ! b'"
    using c'(3) by (simp_all add: grows_def)
  obtain us where us: "value_types c' = value_types c1 @ us" using c'(3) by (auto simp: grows_def)
  have old: "b' < length (blocks c)" if "b' \<in> set bs" for b' using that Cons.prems(3,5) by auto
  have settled1: "settled (cut b c) b c1 F" if "settled c b c' F" for F
  proof -
    have "blocks c' ! b' = blocks c1 ! b'" if "b' = b \<or> length (blocks c) \<le> b' \<and> b' < length (blocks c1)" for b'
      using that old Cons.prems(1) b(1) len by (intro keep') force+
    then show ?thesis using that len len' lay' us by (auto simp: settled_def)
  qed
  have "rewritten n m c c' b"
  proof -
    obtain "is" where "blocks c1 ! b = butlast (blocks c ! b) @ is" using c1(2) b(1) by (auto simp: frame_def cut_block)
    then have tail: "blocks c' ! b = butlast (blocks c ! b) @ is" using keep' [of b] b(1) len Cons.prems(1) by simp
    have run: "goes F n m is env (edge env (picked otherwise arms cases (env v)))"
      if F: "settled c b c' F" "env v \<le> maskw (width (value_types c ! v))" for F env
    proof -
      have "blocks F ! b = butlast (blocks c ! b) @ is" using F(1) tail by (simp add: settled_def)
      then show ?thesis using c1(3) [of F env] settled1 [OF F(1)] F(2) by simp
    qed
    show ?thesis using l tail run by (auto simp: rewritten_def)
  qed
  moreover have "rewritten n m c c' b'" if b': "b' \<in> set bs" for b'
  proof -
    have "settled c1 b' c' F" if "settled c b' c' F" for F using that len by (auto simp: settled_def)
    moreover have "switch_ok n m (value_types c) (last (blocks c ! b'))" using Cons.prems(5) b' by simp
    ultimately show ?thesis using c'(4) b' same [OF b'] ts by (fastforce simp: rewritten_def nth_append elim: switch_okE)
  qed
  moreover have "grows (set (b # bs)) c c'" using c'(3) len keep ts lay by (auto simp: grows_def)
  ultimately show ?case using c1(1) c'(1,2) by simp
qed


section \<open>A function\<close>

text \<open>
  Every value an instruction reads or makes, and every block it goes to, is one the function has; a \<open>switch\<close> is as it has to be;
  and the layout has each of its blocks once.
\<close>

fun placed_ok :: "nat \<Rightarrow> nat \<Rightarrow> irtype list \<Rightarrow> 'x placed \<Rightarrow> bool" where
  "placed_ok n m ts (Plain data v) \<longleftrightarrow> v < m \<and> (\<forall>u\<in>set (iargs data). u < m) \<and> (iargs data = [] \<longrightarrow> iop data = IConstOp)"
| "placed_ok n m ts (Jump k) \<longleftrightarrow> call_ok n m k"
| "placed_ok n m ts (BrIf cond a b) \<longleftrightarrow> cond < m \<and> call_ok n m a \<and> call_ok n m b"
| "placed_ok n m ts (SwitchOn v calls cases) \<longleftrightarrow> switch_ok n m ts (SwitchOn v calls cases :: 'x placed)"
| "placed_ok n m ts (Other x) \<longleftrightarrow> True"

definition code_ok :: "'x code \<Rightarrow> bool" where
  "code_ok c \<longleftrightarrow> layout_ok c \<and> distinct (layout c) \<and>
     (\<forall>is\<in>set (blocks c). \<forall>i\<in>set is. placed_ok (length (blocks c)) (length (value_types c)) (value_types c) i)"

text \<open>The values of a function are in the widths of their types.\<close>

definition in_widths :: "'x code \<Rightarrow> env \<Rightarrow> bool" where
  "in_widths c env \<longleftrightarrow> (\<forall>v<length (value_types c). scalar (value_types c ! v) \<longrightarrow> env v \<le> maskw (width (value_types c ! v)))"

lemma meaning_types: "T (iargs data ! 0) = T' (iargs data ! 0) \<Longrightarrow> meaning T env data ty = meaning T' env data ty"
  by (simp add: meaning_def Let_def split: extra.split)

lemma reaches_prefix:
  assumes "run_block (nth (value_types F)) xs env = run_block (nth (value_types F)) ys env1" "reaches F n ys env1 e env'"
  shows "reaches F n xs env e env'"
  using assms(2) by (rule reachesE) (auto simp: assms(1) [symmetric] intro: reaches.intros)

text \<open>Code means the same when the function has more values, and it goes to blocks the function has.\<close>

lemma run_types:
  "\<forall>i\<in>set xs. placed_ok n (length ts) ts i \<Longrightarrow> run_block (nth (ts @ us)) xs env = run_block (nth ts) xs env"
proof (induction xs arbitrary: env)
  case (Cons i xs)
  show ?case
  proof (cases i)
    case (Plain data r)
    have "meaning (nth (ts @ us)) env data ty = meaning (nth ts) env data ty" if "iop data \<noteq> IConstOp" for ty
    proof (rule meaning_types)
      have "iargs data ! 0 < length ts" using Cons.prems Plain that nth_mem [of 0 "iargs data"] by simp
      then show "(ts @ us) ! (iargs data ! 0) = ts ! (iargs data ! 0)" by (simp add: nth_append)
    qed
    moreover have "(ts @ us) ! r = ts ! r" using Cons.prems Plain by (simp add: nth_append)
    ultimately show ?thesis using Cons by (simp add: Plain split: option.split extra.split)
  qed simp_all
qed simp

lemma run_target:
  "\<forall>i\<in>set xs. placed_ok n m ts i \<Longrightarrow> run_block T xs env = Some (e, env1) \<Longrightarrow> fst e < n"
proof (induction xs arbitrary: env)
  case (Cons i xs)
  show ?case
  proof (cases i)
    case (Plain data r)
    then show ?thesis using Cons by (auto split: option.splits extra.splits if_splits)
  next
    case (SwitchOn u calls cases')
    then obtain o' as where "calls = o' # as" using Cons.prems(1) by (auto elim: switch_okE)
    then show ?thesis using Cons.prems SwitchOn picked_in [of o' as cases' "env u"] by (auto simp: edge_def)
  qed (use Cons.prems in \<open>auto simp: edge_def\<close>)
qed simp

text \<open>Running a block either ends before its last part or comes to it.\<close>

lemma run_block_append:
  "run_block T (xs @ ys) env = Some q \<Longrightarrow>
    (\<forall>zs. run_block T (xs @ zs) env = Some q) \<or> (\<exists>env'. (\<forall>zs. run_block T (xs @ zs) env = run_block T zs env') \<and> run_block T ys env' = Some q)"
proof (induction xs arbitrary: env)
  case (Cons i xs)
  show ?case
  proof (cases i)
    case (Plain data r)
    then obtain x where x: "\<forall>zs. run_block T ((i # xs) @ zs) env = run_block T (xs @ zs) (env(r := x))"
      using Cons.prems by (auto split: option.splits extra.splits if_splits)
    then have "run_block T (xs @ ys) (env(r := x)) = Some q" using Cons.prems by simp
    then show ?thesis using Cons.IH x by (simp only: simp_thms)
  qed (use Cons.prems in auto)
qed auto

text \<open>What a block does before its \<open>switch\<close> it does still.\<close>

lemma rewritten_reaches:
  fixes F :: "'x code"
  assumes "run_block (nth (value_types F)) (xs @ [SwitchOn v (otherwise # arms) cases]) env = Some (e, env1)" "env1 v \<le> maskw w"
    "\<And>env. env v \<le> maskw w \<Longrightarrow> goes F n m ys env (edge env (picked otherwise arms cases (env v)))"
  shows "\<exists>env2. reaches F n (xs @ ys) env e env2 \<and> (\<forall>u<m. env2 u = env1 u)"
  using run_block_append [OF assms(1)]
proof (elim disjE exE conjE)
  assume "\<forall>zs. run_block (nth (value_types F)) (xs @ zs) env = Some (e, env1)"
  then show ?thesis by (auto intro!: exI [of _ env1] reaches.Take)
next
  fix env'
  assume a: "\<forall>zs. run_block (nth (value_types F)) (xs @ zs) env = run_block (nth (value_types F)) zs env'"
    "run_block (nth (value_types F)) [SwitchOn v (otherwise # arms) cases] env' = Some (e, env1)"
  from a(2) have e: "e = edge env' (picked otherwise arms cases (env' v))" "env1 = env'" by auto
  then obtain env2 where "reaches F n ys env' e env2" "\<forall>u<m. env2 u = env' u" using assms(2,3) by (auto simp: goes_def)
  then show ?thesis using reaches_prefix [OF spec [OF a(1)]] e(2) by blast
qed

definition ends_in_switch :: "'x code \<Rightarrow> nat \<Rightarrow> bool" where
  "ends_in_switch c b \<longleftrightarrow> blocks c ! b \<noteq> [] \<and> is_switch (last (blocks c ! b))"

lemma is_switchE: "is_switch i \<Longrightarrow> (\<And>v calls cases. i = SwitchOn v calls cases \<Longrightarrow> P) \<Longrightarrow> P"
  by (cases i) auto

abbreviation switch_blocks :: "'x code \<Rightarrow> nat list" where
  "switch_blocks c \<equiv> filter (ends_in_switch c) (layout c)"

lemma switch_blocks_ok:
  fixes c :: "'x code"
  assumes "code_ok c"
  shows "distinct (switch_blocks c)" "layout_ok c" "\<And>b. b \<in> set (layout c) \<Longrightarrow> b < length (blocks c)"
    "\<And>b i. b < length (blocks c) \<Longrightarrow> i \<in> set (blocks c ! b) \<Longrightarrow> placed_ok (length (blocks c)) (length (value_types c)) (value_types c) i"
    "\<forall>b\<in>set (switch_blocks c). b < length (blocks c) \<and> blocks c ! b \<noteq> [] \<and>
      switch_ok (length (blocks c)) (length (value_types c)) (value_types c) (last (blocks c ! b))"
proof -
  show "distinct (switch_blocks c)" "layout_ok c" using assms by (simp_all add: code_ok_def)
  then show bound: "b \<in> set (layout c) \<Longrightarrow> b < length (blocks c)" for b by (auto simp: layout_ok_def)
  show placed: "b < length (blocks c) \<Longrightarrow> i \<in> set (blocks c ! b) \<Longrightarrow> placed_ok (length (blocks c)) (length (value_types c)) (value_types c) i" for b i
    using assms by (auto simp: code_ok_def)
  show "\<forall>b\<in>set (switch_blocks c). b < length (blocks c) \<and> blocks c ! b \<noteq> [] \<and>
      switch_ok (length (blocks c)) (length (value_types c)) (value_types c) (last (blocks c ! b))"
  proof
    fix b
    assume b: "b \<in> set (switch_blocks c)"
    then have "b < length (blocks c)" using bound by simp
    moreover have "placed_ok (length (blocks c)) (length (value_types c)) (value_types c) (last (blocks c ! b))"
      using b calculation by (intro placed [OF _ last_in_set]) (simp_all add: ends_in_switch_def)
    ultimately show "b < length (blocks c) \<and> blocks c ! b \<noteq> [] \<and>
        switch_ok (length (blocks c)) (length (value_types c)) (value_types c) (last (blocks c ! b))"
      using b by (auto simp: ends_in_switch_def elim!: is_switchE)
  qed
qed

lemma lowered_by_eq: "lowered_by r f allowed word percent c = lower_each r f allowed word percent (switch_blocks c) c"
proof -
  have "ends_in_switch c = (\<lambda>b. blocks c ! b \<noteq> [] \<and> is_switch (last (blocks c ! b)))" by (simp add: fun_eq_iff ends_in_switch_def)
  then show ?thesis by (simp add: lowered_by_def)
qed

lemma block_reaches:
  fixes c :: "'x code"
  assumes ok: "code_ok c" and b: "b \<in> set (layout c)" and g: "grows (set (switch_blocks c)) c c'"
    and w: "\<forall>b\<in>set (switch_blocks c). rewritten (length (blocks c)) (length (value_types c)) c c' b"
    and run: "run_block (nth (value_types c)) (blocks c ! b) env = Some (e, env1)" and fits: "in_widths c env1"
  shows "\<exists>env2. reaches c' (length (blocks c)) (blocks c' ! b) env e env2 \<and> (\<forall>u<length (value_types c). env2 u = env1 u)"
proof -
  let ?n = "length (blocks c)" and ?m = "length (value_types c)"
  note c = switch_blocks_ok [OF ok]
  obtain ts where ts: "value_types c' = value_types c @ ts" using g by (auto simp: grows_def)
  have placed: "\<forall>i\<in>set (blocks c ! b). placed_ok ?n ?m (value_types c) i" using c(4) [OF c(3) [OF b]] by blast
  have run': "run_block (nth (value_types c')) (blocks c ! b) env = Some (e, env1)" using run_types [OF placed] run by (simp add: ts)
  show ?thesis
  proof (cases "ends_in_switch c b")
    case True
    then have s: "b \<in> set (switch_blocks c)" using b by simp
    then have sw: "switch_ok ?n ?m (value_types c) (last (blocks c ! b))" using c(5) by simp
    then obtain v otherwise arms cases where l: "last (blocks c ! b) = SwitchOn v (otherwise # arms) cases" by (rule switch_okE)
    then have v: "v < ?m" "scalar (value_types c ! v)" using sw by simp_all
    define xs where "xs = butlast (blocks c ! b)"
    have old: "blocks c ! b = xs @ [SwitchOn v (otherwise # arms) cases]"
      using True l append_butlast_last_id [of "blocks c ! b"] by (simp add: ends_in_switch_def xs_def)
    have "rewritten ?n ?m c c' b" using w s by blast
    then obtain ys where ys: "blocks c' ! b = xs @ ys"
      and goes: "\<And>F env. settled c b c' F \<Longrightarrow> env v \<le> maskw (width (value_types c ! v)) \<Longrightarrow>
        goes F ?n ?m ys env (edge env (picked otherwise arms cases (env v)))"
      using l unfolding rewritten_def xs_def by blast
    have "settled c b c' c'" by (simp add: settled_def)
    note goes = goes [OF this]
    show ?thesis
      unfolding ys by (rule rewritten_reaches [OF run' [unfolded old] _ goes]) (use fits v in \<open>auto simp: in_widths_def\<close>)
  next
    case False
    then have "blocks c' ! b = blocks c ! b" using g c(3) [OF b] by (simp add: grows_def)
    then show ?thesis using run' by (auto intro: reaches.Take)
  qed
qed


definition switch_example :: "unit code" where
  "switch_example = \<lparr>blocks = [[SwitchOn 0 [block_call_new 1 [], block_call_new 2 [0]] [5]], [Other ()], [Other ()]], layout = [0, 1, 2],
    value_types = [pack KInt 32 1]\<rparr>"

lemma switch_example_ok: "code_ok switch_example"
  by (simp add: code_ok_def layout_ok_def switch_example_def cases_ok_def hint_ok_def block_call_new_def word_of_32)


end
