(* ===== verification/SwitchPlain.thy ===== *)
theory SwitchPlain
  imports SwitchSound
begin

text \<open>
  Where no table may be written no \<open>switch\<close> is left: everything but a table is written with instructions that are none.
\<close>

section \<open>Writing without a switch\<close>

text \<open>What holds of an answer, when there is one; and of one step after another.\<close>

definition kept :: "('a \<Rightarrow> bool) \<Rightarrow> 'a option \<Rightarrow> bool" where
  "kept Q r \<longleftrightarrow> (\<forall>x. r = Some x \<longrightarrow> Q x)"

lemma kept_None [simp]: "kept Q None" and kept_Some [simp]: "kept Q (Some x) \<longleftrightarrow> Q x"
  by (simp_all add: kept_def)

lemma kept_code: "kept P r \<Longrightarrow> (\<And>c. P c \<Longrightarrow> kept Q (f c)) \<Longrightarrow> kept Q (r \<bind> f)" for r :: "'x code option"
  by (cases r) simp_all

lemma kept_value: "kept (\<lambda>p. P (snd p)) r \<Longrightarrow> (\<And>v c. P c \<Longrightarrow> kept Q (f v c)) \<Longrightarrow> kept Q (r \<bind> (\<lambda>(v, c). f v c))" for r :: "('v \<times> 'x code) option"
  by (cases r) (auto split: prod.split)

lemma kept_number: "(\<And>d. kept Q (f d)) \<Longrightarrow> kept Q (r \<bind> f)" for r :: "int option"
  by (cases r) simp_all

lemma kept_answer: "(\<And>d. kept Q (f d)) \<Longrightarrow> kept Q (r \<bind> f)" for r :: "bool option"
  by (cases r) simp_all

lemma kept_data: "(\<And>d. kept Q (f d)) \<Longrightarrow> kept Q (r \<bind> f)" for r :: "irtype option"
  by (cases r) simp_all

lemma kept_imm: "(\<And>d. kept Q (f d)) \<Longrightarrow> kept Q (r \<bind> f)" for r :: "imm option"
  by (cases r) simp_all

text \<open>What any property of code has to do to be kept by everything written here but a table.\<close>

locale plain_writing =
  fixes P :: "'x code \<Rightarrow> bool"
  assumes created: "P c \<Longrightarrow> P (snd (create_block c))"
    and appended: "P c \<Longrightarrow> \<not> is_switch i \<Longrightarrow> kept P (append_inst b i c)"
    and typed: "P c \<Longrightarrow> P (c\<lparr>value_types := ts\<rparr>)"
    and hinted: "P c \<Longrightarrow> kept P (set_hints b h c)"
begin

lemmas kept_steps = kept_code [where P = P] kept_value [where P = P] kept_number kept_answer kept_data kept_imm

lemma build_value_keeps: "P c \<Longrightarrow> kept (\<lambda>p. P (snd p)) (build_value b data ty c)"
  unfolding build_value_def Let_def by (rule kept_code [OF appended [OF typed]]) simp_all

lemma values_keep:
  "P c \<Longrightarrow> kept (\<lambda>p. P (snd p)) (iconst b ty x c)"
  "P c \<Longrightarrow> kept (\<lambda>p. P (snd p)) (build_binary b op x1 x2 fl c)"
  "P c \<Longrightarrow> kept (\<lambda>p. P (snd p)) (build_unary b op x1 ty c)"
  "P c \<Longrightarrow> kept (\<lambda>p. P (snd p)) (icmp b p x1 x2 c)"
  unfolding iconst_def build_binary_def build_unary_def icmp_def by (intro kept_steps build_value_keeps; assumption)+

lemma branches_keep:
  "P c \<Longrightarrow> kept P (br_if b v t1 a1 t2 a2 c)"
  "P c \<Longrightarrow> kept P (build_jump b t1 a1 c)"
  by (simp_all add: br_if_def build_jump_def appended)

lemma helpers_keep:
  "P c \<Longrightarrow> kept (\<lambda>p. P (snd p)) (shifted_down b l lo c)"
  "P c \<Longrightarrow> kept (\<lambda>p. P (snd p)) (in_word b l x c)"
  by (auto simp: shifted_down_def in_word_def intro!: kept_steps values_keep)

lemmas writes_keep = kept_steps values_keep branches_keep helpers_keep

lemma mask_tests_keep: "P c \<Longrightarrow> kept P (mask_tests l x bs t ts arms c)"
proof (induction arms arbitrary: bs c)
  case Nil
  then show ?case by (cases bs) simp_all
next
  case (Cons a arms)
  then show ?case by (cases bs; cases a) (auto intro!: writes_keep Cons.IH)
qed

lemma create_blocks_keep: "P c \<Longrightarrow> P (snd (create_blocks n c))"
proof (induction n arbitrary: c)
  case (Suc n)
  then have "P (snd (create_blocks n (snd (create_block c))))" using created by blast
  then show ?case by (simp add: Let_def case_prod_beta)
qed simp

lemma created_all: "create_blocks n c = (bs, c') \<Longrightarrow> P c \<Longrightarrow> P c'"
  using create_blocks_keep [of c n] by simp

lemma scattered_keeps: "P c \<Longrightarrow> kept P (scattered l b lo hi arms t ts c)"
  unfolding scattered_def Let_def
  using created [of c] by (auto split: prod.split intro!: writes_keep mask_tests_keep dest: created_all)

lemma write_test_keeps: "\<not> is_table k \<Longrightarrow> P c \<Longrightarrow> kept P (write_test l b k t ts c)"
  by (cases k) (auto intro!: writes_keep scattered_keeps)

lemma chain_keeps: "\<forall>k\<in>set cs. \<not> is_table k \<Longrightarrow> P c \<Longrightarrow> kept P (chain l b cs c)"
proof (induction l b cs c rule: chain.induct)
  case (3 l b k k2 rest c)
  obtain nb c1 where c1: "create_block c = (nb, c1)" by (cases "create_block c")
  then have "P c1" using created [OF "3.prems"(2)] by simp
  then have "kept P (write_test l b k nb [] c1)" using write_test_keeps "3.prems"(1) by simp
  then show ?case using "3.IH" [OF c1 [symmetric] refl] "3.prems"(1) c1 by (cases "write_test l b k nb [] c1") auto
qed (auto intro: branches_keep write_test_keeps)

lemma tree_keeps: "1 \<le> lf \<or> length cs \<le> lf \<Longrightarrow> \<forall>k\<in>set cs. \<not> is_table k \<Longrightarrow> P c \<Longrightarrow> kept P (tree l b cs lf c)"
proof (induction "length cs" arbitrary: cs b c rule: less_induct)
  case less
  show ?case
  proof (cases "length cs \<le> lf")
    case True
    then show ?thesis using chain_keeps less.prems by (subst tree.simps) simp
  next
    case False
    let ?h = "length cs div 2"
    have n: "1 \<le> lf" "length (take ?h cs) < length cs" "length (drop ?h cs) < length cs" using False less.prems(1) by auto
    have plain: "\<forall>k\<in>set (take ?h cs). \<not> is_table k" "\<forall>k\<in>set (drop ?h cs). \<not> is_table k"
      using less.prems(2) by (auto dest: in_set_takeD in_set_dropD)
    have halves: "P c \<Longrightarrow> kept P (tree l b (take ?h cs) lf c)" "P c \<Longrightarrow> kept P (tree l b (drop ?h cs) lf c)" for b c
      using less.hyps [OF n(2) _ plain(1)] less.hyps [OF n(3) _ plain(2)] n(1) by simp_all
    obtain lb c1 rb c2 where c: "create_block c = (lb, c1)" "create_block c1 = (rb, c2)" by fastforce
    then have "P c2" using created less.prems(3) by (metis snd_conv)
    then show ?thesis using False c by (subst tree.simps) (auto simp: Let_def intro!: writes_keep halves)
  qed
qed

lemma peel_keeps: "P c \<Longrightarrow> kept (\<lambda>p. P (snd p)) (peel l b v k c)"
  unfolding peel_def Let_def using created [of c] by (auto split: prod.split intro!: writes_keep hinted)

end

section \<open>Clusters without tables\<close>

lemma bits_no_table: "bits_of cs = Some (Some k) \<Longrightarrow> \<not> is_table k"
  by (auto simp: bits_of_def Let_def bind_eq_Some_conv split: if_splits option.splits)

lemma group_no_table: "\<forall>k\<in>set cs. \<not> is_table k \<Longrightarrow> group word cs = Some ds \<Longrightarrow> \<forall>k\<in>set ds. \<not> is_table k"
proof (induction "length cs" arbitrary: cs ds rule: less_induct)
  case less
  show ?case
  proof (cases "cs = []")
    case True
    then show ?thesis using less.prems(2) by (simp add: group.simps)
  next
    case False
    obtain n b where nb: "reach word cs = Some n" "bits_of (take n cs) = Some b"
      using less.prems(2) False by (subst (asm) group.simps) (auto simp: bind_eq_Some_conv)
    show ?thesis
    proof (cases b)
      case None
      then obtain rest where r: "group word (tl cs) = Some rest" "ds = hd cs # rest"
        using less.prems(2) False nb by (subst (asm) group.simps) (auto simp: bind_eq_Some_conv)
      have "\<forall>k\<in>set rest. \<not> is_table k" using less.prems(1) False by (intro less.hyps [OF _ _ r(1)]) (simp, metis list.set_sel(2))
      then show ?thesis using r(2) less.prems(1) False by simp
    next
      case (Some t)
      then obtain rest where r: "group word (drop n cs) = Some rest" "ds = t # rest"
        using less.prems(2) False nb by (subst (asm) group.simps) (auto simp: bind_eq_Some_conv)
      have "0 < n" using bits_of_reached nb Some by simp
      then have "\<forall>k\<in>set rest. \<not> is_table k"
        using less.prems(1) False by (intro less.hyps [OF _ _ r(1)]) (auto dest: in_set_dropD)
      then show ?thesis using r(2) bits_no_table nb(2) Some by simp
    qed
  qed
qed

lemma clusters_loop_no_table:
  "\<forall>k\<in>set cs. \<not> is_table k \<Longrightarrow> clusters_loop cs ps = Some ds \<Longrightarrow> \<forall>k\<in>set ds. \<not> is_table k"
proof (induction ps arbitrary: cs)
  case (Cons p ps)
  obtain v k where p: "p = (v, k)" by (cases p)
  have "\<not> is_table g" if "grow c v = Some g" for c g using that by (cases c) auto
  moreover have "\<forall>k\<in>set (butlast cs). \<not> is_table k" using Cons.prems(1) by (auto dest: in_set_butlastD)
  ultimately obtain es where "clusters_loop es ps = Some ds" "\<forall>k\<in>set es. \<not> is_table k"
    using Cons.prems p by (fastforce simp: bind_eq_Some_conv split: if_splits)
  then show ?case by (rule Cons.IH [rotated])
qed simp

lemma grouped_no_table:
  assumes "clusters_of cases arms ty = Some found" "grouped r f False ty word found = Some cs"
  shows "\<forall>k\<in>set cs. \<not> is_table k"
proof -
  have "\<forall>k\<in>set found. \<not> is_table k"
    using assms(1) clusters_loop_no_table [of "[]"] by (auto simp: clusters_of_def Let_def bind_eq_Some_conv split: if_splits)
  then show ?thesis using assms(2) group_no_table by (auto simp: grouped_def split: option.splits force.splits)
qed

section \<open>A function without tables\<close>

text \<open>The parts of a lowering that succeeds.\<close>

lemma lower_parts:
  assumes "lower r f allowed word percent b c = Some (Some (c', report))"
  shows "\<exists>ty cases arms found cs l rest c1. clusters_of cases arms ty = Some found \<and> grouped r f allowed ty word found = Some cs \<and>
    (c1 = cut b c \<or> (\<exists>v k. peel l b v k (cut b c) = Some (rest, c1))) \<and>
    tree l rest cs (case leaf_for r f allowed of None \<Rightarrow> length cs | Some n \<Rightarrow> n) c1 = Some c'"
proof -
  obtain v otherwise arms cases where sw: "b < length (blocks c)" "blocks c ! b \<noteq> []" "last (blocks c ! b) = SwitchOn v (otherwise # arms) cases"
    using assms by (auto simp: lower_def split: if_splits placed.splits list.splits)
  let ?hot = "\<lambda>ty. case hottest percent arms of None \<Rightarrow> Some (None, cases, arms)
     | Some i \<Rightarrow> if i < length cases
                then do { v \<leftarrow> imm_signed (cases ! i) ty; Some (Some (v, arms ! i), without i cases, without i arms) } else None"
  obtain ty0 where ty: "value_type c v = Some ty0" using assms sw by (cases "value_type c v") (auto simp: lower_def)
  obtain hot cases' arms' where hot: "?hot (type_lane ty0) = Some (hot, cases', arms')"
    using assms sw ty by (cases "?hot (type_lane ty0)") (auto simp: lower_def Let_def)
  obtain found where found: "clusters_of cases' arms' (type_lane ty0) = Some found"
    using assms sw ty hot by (cases "clusters_of cases' arms' (type_lane ty0)") (auto simp: lower_def Let_def)
  obtain cs where cs: "grouped r f allowed (type_lane ty0) word found = Some cs"
    using assms sw ty hot found by (cases "grouped r f allowed (type_lane ty0) word found") (auto simp: lower_def Let_def)
  obtain wty where w: "type_int (of_nat word) = Some wty"
    using assms sw ty hot found cs by (cases "type_int (of_nat word) :: irtype option") (auto simp: lower_def Let_def)
  let ?l = "\<lparr>of_value = v, of_ty = type_lane ty0, of_default = otherwise, of_word = wty, of_checked = checked_table r\<rparr>"
  have "\<exists>rest c1. (case hot of Some (x, k) \<Rightarrow> peel ?l b x k (cut b c) | None \<Rightarrow> Some (b, cut b c)) = Some (rest, c1) \<and>
    tree ?l rest cs (case leaf_for r f allowed of None \<Rightarrow> length cs | Some n \<Rightarrow> n) c1 = Some c'"
    using assms sw ty hot found cs w unfolding cut_def by (auto simp: lower_def Let_def bind_eq_Some_conv)
  then obtain rest c1 where "(case hot of Some (x, k) \<Rightarrow> peel ?l b x k (cut b c) | None \<Rightarrow> Some (b, cut b c)) = Some (rest, c1)"
    "tree ?l rest cs (case leaf_for r f allowed of None \<Rightarrow> length cs | Some n \<Rightarrow> n) c1 = Some c'"
    by blast
  then show ?thesis using found cs by (cases hot) (auto split: prod.splits, blast+)
qed

definition switches_at :: "'x code \<Rightarrow> nat \<Rightarrow> 'x placed list" where
  "switches_at c b = (if b < length (blocks c) then filter is_switch (blocks c ! b) else [])"

interpretation plain: plain_writing "\<lambda>c. switches_at c = switches_at c0" for c0 :: "'x code"
proof
  fix c :: "'x code" and b i ts h
  assume c: "switches_at c = switches_at c0"
  show "switches_at (snd (create_block c)) = switches_at c0"
    unfolding c [symmetric] by (auto simp: switches_at_def create_block_def fun_eq_iff Let_def nth_append)
  show "switches_at (c\<lparr>value_types := ts\<rparr>) = switches_at c0" unfolding c [symmetric] by (simp add: switches_at_def fun_eq_iff)
  show "\<not> is_switch i \<Longrightarrow> kept (\<lambda>c. switches_at c = switches_at c0) (append_inst b i c)"
    unfolding c [symmetric] by (auto simp: append_inst_def switches_at_def fun_eq_iff nth_list_update)
  have tail: "filter is_switch xs = filter is_switch (butlast xs)" if "xs \<noteq> []" "\<not> is_switch (last xs)" for xs :: "'x placed list"
    using that by (subst append_butlast_last_id [OF that(1), symmetric], subst filter_append) simp
  show "kept (\<lambda>c. switches_at c = switches_at c0) (set_hints b h c)"
    unfolding c [symmetric] kept_def set_hints_def
    by (auto simp: switches_at_def fun_eq_iff nth_list_update tail bind_eq_Some_conv split: if_splits placed.splits)
qed


lemma lower_no_table:
  assumes "rules_ok r" "lower r f False word percent b c = Some (Some (c', report))"
  shows "switches_at c' = switches_at (cut b c)"
proof -
  obtain ty cases arms found cs l rest c1 where p: "clusters_of cases arms ty = Some found" "grouped r f False ty word found = Some cs"
    "c1 = cut b c \<or> (\<exists>v k. peel l b v k (cut b c) = Some (rest, c1))"
    "tree l rest cs (case leaf_for r f False of None \<Rightarrow> length cs | Some n \<Rightarrow> n) c1 = Some c'"
    using lower_parts [OF assms(2)] by blast
  have lf: "1 \<le> (case leaf_for r f False of None \<Rightarrow> length cs | Some n \<Rightarrow> n) \<or> length cs \<le> (case leaf_for r f False of None \<Rightarrow> length cs | Some n \<Rightarrow> n)"
    using assms(1) by (auto simp: leaf_for_def rules_ok_def BALANCED_def split: option.split force.split)
  have "switches_at c1 = switches_at (cut b c)"
    using p(3) plain.peel_keeps [of "cut b c" "cut b c"] by (auto simp: kept_def)
  from plain.tree_keeps [OF lf grouped_no_table [OF p(1,2)] this, of l rest] p(4) show ?thesis by (simp add: kept_def)
qed

lemma lower_each_no_table:
  fixes c :: "'x code"
  assumes rules: "rules_ok r" and word: "1 \<le> word" "word \<le> 64"
  shows "distinct bs \<Longrightarrow> layout_ok c \<Longrightarrow> n \<le> length (blocks c) \<Longrightarrow> m \<le> length (value_types c) \<Longrightarrow>
    \<forall>b\<in>set bs. b < n \<and> blocks c ! b \<noteq> [] \<and> switch_ok n m (value_types c) (last (blocks c ! b)) \<Longrightarrow>
    lower_each r f False word percent bs c = Some (c', reports) \<Longrightarrow>
    (\<forall>b. switches_at c' b = (if b \<in> set bs then filter is_switch (butlast (blocks c ! b)) else switches_at c b)) \<and>
      (\<forall>b\<in>set (layout c'). b \<in> set (layout c) \<or> length (blocks c) \<le> b) \<and> layout_ok c'"
proof (induction bs arbitrary: c reports)
  case (Cons b bs)
  have b: "b < length (blocks c)" "blocks c ! b \<noteq> []" "switch_ok n m (value_types c) (last (blocks c ! b))"
    using Cons.prems(3,5) by auto
  obtain v otherwise arms cases where l: "last (blocks c ! b) = SwitchOn v (otherwise # arms) cases" using b(3) by (rule switch_okE)
  obtain c1 report where c1: "lower r f False word percent b c = Some (Some (c1, report))" "frame (cut b c) b c1"
    using lower_written [OF b(1,2) l b(3) Cons.prems(2,3,4) word rules] by blast
  have "layout_ok (cut b c)" using Cons.prems(2) by (simp add: layout_ok_def)
  then have lay1: "layout_ok c1" by (rule layout_ok_frame [OF _ c1(2)])
  have len: "length (blocks c) \<le> length (blocks c1)" "m \<le> length (value_types c1)" using c1(2) Cons.prems(4) by (auto simp: frame_def)
  obtain ts where ts: "value_types c1 = value_types c @ ts" using c1(2) by (auto simp: frame_def)
  have same: "blocks c1 ! b' = blocks c ! b'" if "b' \<in> set bs" for b'
  proof -
    have "b' < length (blocks c)" "b' \<noteq> b" using that Cons.prems(1,3,5) by auto
    then show ?thesis using c1(2) b(1) by (simp add: frame_def cut_block)
  qed
  obtain reports1 where r: "lower_each r f False word percent bs c1 = Some (c', reports1)" using Cons.prems(6) c1(1) by (auto simp: bind_eq_Some_conv)
  have "(\<forall>b. switches_at c' b = (if b \<in> set bs then filter is_switch (butlast (blocks c1 ! b)) else switches_at c1 b)) \<and>
      (\<forall>b\<in>set (layout c'). b \<in> set (layout c1) \<or> length (blocks c1) \<le> b) \<and> layout_ok c'"
    using Cons.prems len lay1 same ts by (intro Cons.IH [OF _ _ _ _ _ r]) (auto intro: switch_ok_more)
  moreover have "switches_at c1 b' = (if b' = b then filter is_switch (butlast (blocks c ! b)) else switches_at c b')" for b'
    unfolding lower_no_table [OF rules c1(1)] using b(1) by (simp add: switches_at_def cut_block)
  moreover have "\<forall>b\<in>set (layout c1). b \<in> set (layout c) \<or> length (blocks c) \<le> b" using c1(2) by (auto simp: frame_def)
  ultimately show ?case using same Cons.prems(1) len(1) by auto
qed auto


text \<open>
  C3: where no jump table may be written, which is what the kernel asks for because a jump through one is an indirect branch, no
  block of the function is left with a \<open>switch\<close> in it, not even where a table was forced.
\<close>

theorem no_jump_tables:
  fixes c :: "'x code"
  assumes ok: "code_ok c" "rules_ok r" "1 \<le> word" "word \<le> 64" and ends: "\<forall>is\<in>set (blocks c). \<forall>i\<in>set (butlast is). \<not> is_switch i"
  shows "\<exists>c' reports. lowered_by r f False word percent c = Some (c', reports) \<and> (\<forall>b\<in>set (layout c'). \<forall>i\<in>set (blocks c' ! b). \<not> is_switch i)"
proof -
  note c = switch_blocks_ok [OF ok(1)]
  obtain c' reports where c': "lower_each r f False word percent (switch_blocks c) c = Some (c', reports)"
    using lower_each_written [OF ok(2-4) c(1,2) order.refl order.refl c(5)] by blast
  have after: "\<forall>b. switches_at c' b = (if b \<in> set (switch_blocks c) then filter is_switch (butlast (blocks c ! b)) else switches_at c b)"
    "\<forall>b\<in>set (layout c'). b \<in> set (layout c) \<or> length (blocks c) \<le> b" "layout_ok c'"
    using lower_each_no_table [OF ok(2-4) c(1,2) order.refl order.refl c(5) c'] by simp_all
  have "switches_at c' b = []" if b: "b \<in> set (layout c')" for b
  proof (cases "b < length (blocks c)")
    case True
    then have l: "b \<in> set (layout c)" and no: "filter is_switch (butlast (blocks c ! b)) = []"
      using after(2) b ends by (auto simp: filter_empty_conv)
    have "filter is_switch (blocks c ! b) = []" if "\<not> ends_in_switch c b"
      using that no append_butlast_last_id [of "blocks c ! b"] filter_append [of is_switch "butlast (blocks c ! b)" "[last (blocks c ! b)]"]
      by (cases "blocks c ! b = []") (simp_all add: ends_in_switch_def)
    then show ?thesis using after(1) l no True by (auto simp: switches_at_def)
  next
    case False
    then show ?thesis using after(1) c(5) by (auto simp: switches_at_def)
  qed
  moreover have "b < length (blocks c')" if "b \<in> set (layout c')" for b using after(3) that by (auto simp: layout_ok_def)
  ultimately have "\<forall>b\<in>set (layout c'). \<forall>i\<in>set (blocks c' ! b). \<not> is_switch i"
    unfolding switches_at_def by (metis filter_empty_conv)
  then show ?thesis using c' unfolding lowered_by_eq by blast
qed

theorem no_jump_tables_witness:
  "\<exists>c' reports. lowered_by (native_rules 5 10 Size) (Some ForceTable) False 32 66 switch_example = Some (c', reports) \<and>
    (\<forall>b\<in>set (layout c'). \<forall>i\<in>set (blocks c' ! b). \<not> is_switch i)"
proof -
  have w: "(1 :: nat) \<le> 32" "(32 :: nat) \<le> 64" by simp_all
  have "\<forall>is\<in>set (blocks switch_example). \<forall>i\<in>set (butlast is). \<not> is_switch i" by (simp add: switch_example_def)
  then show ?thesis by (rule no_jump_tables [OF switch_example_ok native_rules_ok w])
qed

end
