(* ===== verification/Swar.thy ===== *)
theory Swar
  imports Prelude
begin

text \<open>
  Word at a time scanning of bytes, \<open>crates/rucc-lex/src/swar.rs\<close>: the masks over eight bytes in one
  word, and the two scanners built from them. A byte added to \<open>1\<close> in \<open>ne\<close> is a space or a tab, so the addition
  does not overflow; an offset plus the eight bytes of a step fits a \<open>usize\<close>, since a slice does.
\<close>

unbundle bit_operations_syntax

section \<open>The masks\<close>

definition LO :: "64 word" where "LO = 0x0101010101010101"

definition HI :: "64 word" where "HI = 0x8080808080808080"

definition STEP :: nat where "STEP = 8"

definition ge :: "64 word \<Rightarrow> 8 word \<Rightarrow> 64 word" where
  "ge w n =
     (let high = w AND HI; low = w AND NOT HI; diff = (low OR HI) - LO * ucast n
      in (diff AND HI) OR high)"

definition ne :: "64 word \<Rightarrow> 8 word \<Rightarrow> 64 word" where
  "ne w n = (NOT (ge w n) AND HI) OR ge w (n + 1)"

definition eq_or_just_above :: "64 word \<Rightarrow> 8 word \<Rightarrow> 64 word" where
  "eq_or_just_above w n = (let x = w XOR (LO * ucast n) in (x - LO) AND NOT x AND HI)"

definition lowest :: "64 word \<Rightarrow> nat option" where
  "lowest m = (if m = 0 then None else Some (trailing_zeros m div STEP))"

text \<open>\<open>u64::from_le_bytes\<close>, and the eight bytes at an offset.\<close>

definition from_le :: "8 word list \<Rightarrow> 64 word" where
  "from_le bs = foldr (\<lambda>b w. ucast b + 256 * w) bs 0"

definition word_at :: "8 word list \<Rightarrow> nat \<Rightarrow> 64 word option" where
  "word_at bytes at = (if at + STEP \<le> length bytes then Some (from_le (take STEP (drop at bytes))) else None)"

section \<open>The scanners\<close>

definition found :: "8 word list \<Rightarrow> 8 word list \<Rightarrow> 64 word \<Rightarrow> 64 word" where
  "found some others w =
     foldl (\<lambda>found n. found OR eq_or_just_above w n)
       (foldl (\<lambda>found n. found OR eq_or_just_above w n) 0 some) others"

function first_tail :: "8 word list \<Rightarrow> nat \<Rightarrow> 8 word list \<Rightarrow> 8 word list \<Rightarrow> nat" where
  "first_tail bytes i some others =
     (if i < length bytes then
        if bytes ! i \<in> set some \<or> bytes ! i \<in> set others then i else first_tail bytes (i + 1) some others
      else length bytes)"
  by pat_completeness auto
termination by (relation "measure (\<lambda>(bytes, i, _). length bytes - i)") auto

function first_of_either :: "8 word list \<Rightarrow> nat \<Rightarrow> 8 word list \<Rightarrow> 8 word list \<Rightarrow> nat" where
  "first_of_either bytes i some others =
     (case word_at bytes i of
        Some w \<Rightarrow> (case lowest (found some others w) of Some k \<Rightarrow> i + k | None \<Rightarrow> first_of_either bytes (i + STEP) some others)
      | None \<Rightarrow> first_tail bytes i some others)"
  by pat_completeness auto
termination
  by (relation "measure (\<lambda>(bytes, i, _). length bytes - i)") (auto simp: word_at_def STEP_def split: if_splits)

definition first_of :: "8 word list \<Rightarrow> nat \<Rightarrow> 8 word list \<Rightarrow> nat" where
  "first_of bytes at needles = first_of_either bytes at needles []"

definition is_blank :: "8 word \<Rightarrow> bool" where "is_blank b \<longleftrightarrow> b = 0x20 \<or> b = 0x09"

function blank_tail :: "8 word list \<Rightarrow> nat \<Rightarrow> nat" where
  "blank_tail bytes i = (if i < length bytes \<and> is_blank (bytes ! i) then blank_tail bytes (i + 1) else i)"
  by pat_completeness auto
termination by (relation "measure (\<lambda>(bytes, i). length bytes - i)") auto

definition neither :: "64 word \<Rightarrow> 64 word" where "neither w = ne w 0x20 AND ne w 0x09"

function run_of_blanks :: "8 word list \<Rightarrow> nat \<Rightarrow> nat" where
  "run_of_blanks bytes i =
     (case word_at bytes i of
        Some w \<Rightarrow> (case lowest (neither w) of Some k \<Rightarrow> i + k | None \<Rightarrow> run_of_blanks bytes (i + STEP))
      | None \<Rightarrow> blank_tail bytes i)"
  by pat_completeness auto
termination
  by (relation "measure (\<lambda>(bytes, i). length bytes - i)") (auto simp: word_at_def STEP_def split: if_splits)

declare first_tail.simps [simp del] first_of_either.simps [simp del] blank_tail.simps [simp del] run_of_blanks.simps [simp del]

section \<open>Words as lists of digits\<close>

text \<open>A word written with digits of eight bits, which need not be in range: one that is not borrows from the next.\<close>

definition digits :: "int list \<Rightarrow> int" where
  "digits ds = foldr (\<lambda>d a. d + 256 * a) ds 0"

lemma digits_simps [simp]: "digits [] = 0" "digits (d # ds) = d + 256 * digits ds"
  by (simp_all add: digits_def)

lemma digits_minus: "digits xs - digits (replicate (length xs) n) = digits (map (\<lambda>x. x - n) xs)"
  by (induction xs) simp_all

text \<open>Where no digit below borrows, a bit of a digit is a bit of the number.\<close>

lemma bit_digits:
  assumes "k < length ds" "\<And>i. i < k \<Longrightarrow> 0 \<le> ds ! i \<and> ds ! i < 256" "j < 8"
  shows "bit (digits ds) (8 * k + j) \<longleftrightarrow> bit (ds ! k) j"
  using assms
proof (induction k arbitrary: ds)
  case 0
  then obtain d es where d: "ds = d # es" by (cases ds) auto
  have "take_bit 8 (digits ds) = take_bit 8 d" by (simp add: d take_bit_eq_mod)
  then have "bit (take_bit 8 (digits ds)) j = bit (take_bit 8 d) j" by simp
  then show ?case using 0(3) by (simp add: d bit_take_bit_iff)
next
  case (Suc k)
  then obtain d es where d: "ds = d # es" by (cases ds) auto
  have r: "0 \<le> d" "d < 256" using Suc.prems(2) [of 0] d by simp_all
  have "bit (digits ds) (8 * Suc k + j) \<longleftrightarrow> bit (drop_bit 8 (digits ds)) (8 * k + j)"
    by (simp add: bit_drop_bit_eq algebra_simps)
  also have "drop_bit 8 (digits ds) = digits es" using r by (simp add: d drop_bit_eq_div)
  also have "bit (digits es) (8 * k + j) \<longleftrightarrow> bit (es ! k) j"
  proof (rule Suc.IH)
    show "0 \<le> es ! i \<and> es ! i < 256" if "i < k" for i using Suc.prems(2) [of "Suc i"] that d by simp
  qed (use Suc.prems d in simp_all)
  finally show ?case by (simp add: d)
qed

abbreviation spread :: "int list \<Rightarrow> 64 word" where "spread ds \<equiv> word_of_int (digits ds)"

lemma bit_spread:
  assumes "length ds = 8" "\<forall>d\<in>set ds. 0 \<le> d \<and> d < 256" "k < 8" "j < 8"
  shows "bit (spread ds) (8 * k + j) \<longleftrightarrow> bit (ds ! k) j"
  using bit_digits [of k ds j] assms by (simp add: bit_word_of_int_iff)

lemma replicate_8: "replicate 8 x = [x, x, x, x, x, x, x, x]"
  by (simp add: eval_nat_numeral)

lemma from_le_spread: "from_le bs = spread (map uint bs)"
  by (induction bs) (simp_all add: from_le_def)

lemma ones_spread: "LO * ucast n = spread (replicate 8 (uint n))" for n :: "8 word"
proof -
  have "ucast n = (word_of_int (uint n) :: 64 word)" by (metis of_int_uint)
  then show ?thesis by (simp add: LO_def replicate_8 algebra_simps)
qed

lemma LO_spread: "LO = spread (replicate 8 1)" and HI_spread: "HI = spread (replicate 8 128)"
  by (simp_all add: LO_def HI_def replicate_8)

end
