(* ===== verification/SwarSound.thy ===== *)
theory SwarSound
  imports Swar
begin

text \<open>
  The scanners give the answers of the obvious loops over bytes. What a mask has to promise a scanner is the
  locale \<open>scanner\<close>: its lowest bit is that of the first byte looked for, whatever stands above it.
\<close>

section \<open>What a mask promises\<close>

text \<open>Only the top bit of a byte may be set, and below the first byte looked for none is.\<close>

definition marks :: "(8 word \<Rightarrow> bool) \<Rightarrow> 8 word list \<Rightarrow> 64 word \<Rightarrow> bool" where
  "marks P bs m \<longleftrightarrow> (\<forall>i. bit m i \<longrightarrow> i mod 8 = 7) \<and>
     (\<forall>k<8. (\<forall>j<k. \<not> P (bs ! j)) \<longrightarrow> (bit m (8 * k + 7) \<longleftrightarrow> P (bs ! k)))"

lemma takeWhile_at: "(\<forall>j<k. P (xs ! j)) \<Longrightarrow> k < length xs \<Longrightarrow> \<not> P (xs ! k) \<Longrightarrow> length (takeWhile P xs) = k"
  by (subst takeWhile_eq_take_P_nth [of k]) auto

lemma takeWhile_short: "\<exists>x\<in>set xs. \<not> P x \<Longrightarrow> length (takeWhile P xs) < length xs"
  by (induction xs) auto

lemma marks_below:
  assumes "marks P bs m" "\<forall>j<k. \<not> P (bs ! j)" "k \<le> 8" "i < 8 * k"
  shows "\<not> bit m i"
proof
  assume b: "bit m i"
  then have "i mod 8 = 7" using assms(1) by (simp add: marks_def)
  then have i: "8 * (i div 8) + 7 = i" using mult_div_mod_eq [of 8 i] by simp
  have k: "i div 8 < k" using assms(4) by (simp add: less_mult_imp_div_less mult.commute)
  then have "bit m (8 * (i div 8) + 7) \<longleftrightarrow> P (bs ! (i div 8))"
    using assms(1-3) unfolding marks_def by (meson order.strict_trans2 order.strict_trans)
  then show False using b i assms(2) k by simp
qed

lemma lowest_marks:
  assumes "marks P bs m" "length bs = 8"
  shows "lowest m = (let k = length (takeWhile (\<lambda>b. \<not> P b) bs) in if k < 8 then Some k else None)"
proof (cases "\<exists>b\<in>set bs. P b")
  case False
  then have none: "\<forall>j<8. \<not> P (bs ! j)" using nth_mem [of _ bs] assms(2) by auto
  have "m = 0"
  proof (rule bit_word_eqI)
    fix i assume "i < LENGTH(64)"
    then show "bit m i \<longleftrightarrow> bit (0 :: 64 word) i" using marks_below [OF assms(1) none, of i] by simp
  qed
  moreover have "length (takeWhile (\<lambda>b. \<not> P b) bs) = 8" 
    using assms(2) by (subst takeWhile_eq_all_conv [THEN iffD2]) (use False in auto)
  ultimately show ?thesis by (simp add: lowest_def)
next
  case True
  define k where "k = length (takeWhile (\<lambda>b. \<not> P b) bs)"
  have kl: "k < 8" using takeWhile_short [of bs "\<lambda>b. \<not> P b"] True assms(2) by (simp add: k_def)
  have below: "\<forall>j<k. \<not> P (bs ! j)"
    unfolding k_def using set_takeWhileD [OF nth_mem, of _ "\<lambda>b. \<not> P b" bs] by (auto simp: takeWhile_nth)
  have at: "P (bs ! k)" using kl assms(2) nth_length_takeWhile [of "\<lambda>b. \<not> P b" bs] unfolding k_def by simp
  have b: "bit m (8 * k + 7)" using assms(1) below at kl by (simp add: marks_def)
  then have "m \<noteq> 0" by auto
  have "\<not> bit m i" if "i < 8 * k + 7" for i
  proof (cases "i < 8 * k")
    case True
    then show ?thesis using marks_below [OF assms(1) below] kl by simp
  next
    case False
    then have "i mod 8 = i - 8 * k" using that by (auto simp: mod_nat_eqI intro!: mod_nat_eqI)
    then show ?thesis using that False assms(1) by (auto simp: marks_def)
  qed
  then have "trailing_zeros m = 8 * k + 7"
    unfolding trailing_zeros_def using b kl by (intro takeWhile_at) auto
  then show ?thesis using \<open>m \<noteq> 0\<close> kl by (simp add: lowest_def STEP_def k_def [symmetric])
qed

section \<open>The exact comparison\<close>

lemma bit_7: "0 \<le> d \<Longrightarrow> d < 256 \<Longrightarrow> bit d 7 \<longleftrightarrow> 128 \<le> d" for d :: int
proof -
  assume d: "0 \<le> d" "d < 256"
  have "d div 128 = (if 128 \<le> d then 1 else 0)" using d by (auto intro: int_div_pos_eq [where r = "d - 128"] simp: div_pos_pos_trivial)
  then show ?thesis by (simp add: bit_iff_odd)
qed

lemma bytes_range: "\<forall>d\<in>set (map uint bs). 0 \<le> d \<and> d < 256" for bs :: "8 word list"
  using uint_lt2p [where 'a = 8] by auto

lemma bit_from_le: "length bs = 8 \<Longrightarrow> k < 8 \<Longrightarrow> j < 8 \<Longrightarrow> bit (from_le bs) (8 * k + j) \<longleftrightarrow> bit (bs ! k) j"
  unfolding from_le_spread using bit_spread [of "map uint bs" k j] bytes_range [of bs] by (simp add: bit_uint_iff)

lemma bit_128: "bit (128 :: int) j \<longleftrightarrow> j = 7"
  using bit_exp_iff [of 7 j, where 'a = int] by auto

lemma bit_HI: "bit HI i \<longleftrightarrow> i < 64 \<and> i mod 8 = 7"
proof (cases "i < 64")
  case True
  have "bit HI (8 * (i div 8) + i mod 8) \<longleftrightarrow> bit (replicate 8 (128 :: int) ! (i div 8)) (i mod 8)"
    unfolding HI_spread using True by (intro bit_spread) auto
  also have "\<dots> \<longleftrightarrow> i mod 8 = 7" using True by (simp add: bit_128)
  finally show ?thesis using True by simp
qed (auto dest: bit_imp_le_length)

lemma or_128: "0 \<le> d \<Longrightarrow> d < 128 \<Longrightarrow> d OR 128 = d + 128" for d :: int
proof -
  assume d: "0 \<le> d" "d < 128"
  then have "d AND 2 ^ 7 = 0" using bit_7 [of d] by (simp only: and_exp_eq_0_iff_not_bit)
  then show ?thesis using disjunctive_add_eq_or [of d 128] by simp
qed

lemma at_bit: fixes i :: nat shows "i = 8 * (i div 8) + i mod 8" "i < 64 \<Longrightarrow> i div 8 < 8" "i mod 8 < 8"
  by simp_all

lemma word_by_bytes:
  fixes a b :: "64 word"
  assumes "\<And>k j. k < 8 \<Longrightarrow> j < 8 \<Longrightarrow> bit a (8 * k + j) \<longleftrightarrow> bit b (8 * k + j)"
  shows "a = b"
proof (rule bit_word_eqI)
  fix i assume "i < LENGTH(64)"
  then show "bit a i \<longleftrightarrow> bit b i" using assms [of "i div 8" "i mod 8"] at_bit [of i] by simp
qed

lemma or_128_range: "0 \<le> d \<Longrightarrow> d < 256 \<Longrightarrow> 128 \<le> d OR 128 \<and> d OR 128 < 256" for d :: int
  using OR_upper [of d 8 128] or_greater_eq [of d 128] by (simp add: or.commute)

lemma low_or_high: "length bs = 8 \<Longrightarrow> (from_le bs AND NOT HI) OR HI = spread (map (\<lambda>b. uint b OR 128) bs)"
proof (rule word_by_bytes)
  fix k j :: nat assume a: "length bs = 8" "k < 8" "j < 8"
  have "\<forall>d\<in>set (map (\<lambda>b. uint b OR 128) bs). 0 \<le> d \<and> d < 256"
    using bytes_range [of bs] or_128_range by fastforce
  then have "bit (spread (map (\<lambda>b. uint b OR 128) bs)) (8 * k + j) \<longleftrightarrow> bit (uint (bs ! k) OR 128) j"
    using bit_spread [of "map (\<lambda>b. uint b OR 128) bs" k j] a by simp
  also have "bit (uint (bs ! k) OR 128) j \<longleftrightarrow> bit (bs ! k) j \<or> j = 7"
    using a(3) by (auto simp: bit_or_iff bit_128 bit_uint_iff)
  finally show "bit ((from_le bs AND NOT HI) OR HI) (8 * k + j) \<longleftrightarrow> bit (spread (map (\<lambda>b. uint b OR 128) bs)) (8 * k + j)"
    using a bit_from_le [of bs k j] by (auto simp: bit_or_iff bit_and_iff bit_not_iff bit_HI)
qed

lemma top_of_difference: "n \<le> 128 \<Longrightarrow> bit ((uint b OR 128) - uint n) 7 \<or> bit b 7 \<longleftrightarrow> n \<le> b" for b n :: "8 word"
proof -
  assume n: "n \<le> 128"
  have r: "0 \<le> uint b" "uint b < 256" "0 \<le> uint n" "uint n \<le> 128"
    using uint_lt2p [of b] n by (simp_all add: word_le_def)
  have t: "bit b 7 \<longleftrightarrow> 128 \<le> uint b" using bit_7 [of "uint b"] r by (simp add: bit_uint_iff)
  show ?thesis
  proof (cases "uint b < 128")
    case True
    then have "uint b OR 128 = uint b + 128" using or_128 r by simp
    moreover have "bit (uint b + 128 - uint n) 7 \<longleftrightarrow> 128 \<le> uint b + 128 - uint n" by (rule bit_7) (use True r in linarith)+
    ultimately show ?thesis using True t by (simp add: word_le_def)
  next
    case False
    then show ?thesis using t r by (simp add: word_le_def)
  qed
qed

lemma bit_ge:
  assumes "length bs = 8" "n \<le> 128"
  shows "bit (ge (from_le bs) n) i \<longleftrightarrow> i < 64 \<and> i mod 8 = 7 \<and> n \<le> bs ! (i div 8)"
proof -
  let ?ys = "map (\<lambda>b. uint b OR 128) bs"
  let ?k = "i div 8"
  have "spread ?ys - LO * ucast n = spread (map (\<lambda>y. y - uint n) ?ys)"
    unfolding ones_spread using digits_minus [of ?ys "uint n"] assms(1) by (simp flip: of_int_diff)
  then have ge: "ge (from_le bs) n = (spread (map (\<lambda>y. y - uint n) ?ys) AND HI) OR (from_le bs AND HI)"
    using low_or_high [OF assms(1)] by (simp add: ge_def Let_def)
  have "bit (ge (from_le bs) n) i \<longleftrightarrow> n \<le> bs ! ?k" if i: "i < 64" "i mod 8 = 7"
  proof -
    have e: "8 * ?k + 7 = i" using at_bit(1) [of i] i(2) by simp
    have k: "?k < 8" using i by simp
    have "0 \<le> y - uint n \<and> y - uint n < 256" if y: "y \<in> set ?ys" for y
    proof -
      obtain b where "b \<in> set bs" "y = uint b OR 128" using y by auto
      moreover have "uint n \<le> 128" "uint b < 256" using assms(2) uint_lt2p [of b] by (simp_all add: word_le_def)
      moreover have "128 \<le> uint b OR 128" "uint b OR 128 < 256" using or_128_range [OF uint_ge_0] calculation(4) by blast+
      ultimately show ?thesis using uint_ge_0 [of n] by (intro conjI) linarith+
    qed
    then have "bit (spread (map (\<lambda>y. y - uint n) ?ys)) (8 * ?k + 7) \<longleftrightarrow> bit ((uint (bs ! ?k) OR 128) - uint n) 7"
      using bit_spread [of "map (\<lambda>y. y - uint n) ?ys" ?k 7] k assms(1) by simp
    moreover have "bit (from_le bs) (8 * ?k + 7) \<longleftrightarrow> bit (bs ! ?k) 7" using bit_from_le [OF assms(1) k] by simp
    ultimately show ?thesis
      using top_of_difference [OF assms(2), of "bs ! ?k"] i unfolding ge e by (simp add: bit_or_iff bit_and_iff bit_HI)
  qed
  moreover have "i < 64 \<and> i mod 8 = 7" if "bit (ge (from_le bs) n) i"
    using that unfolding ge by (auto simp: bit_or_iff bit_and_iff bit_HI)
  ultimately show ?thesis by blast
qed

lemma bit_ne:
  assumes "length bs = 8" "n < 128"
  shows "bit (ne (from_le bs) n) i \<longleftrightarrow> i < 64 \<and> i mod 8 = 7 \<and> bs ! (i div 8) \<noteq> n"
proof -
  have "uint n < 128" using assms(2) by (simp add: word_less_def)
  then have u: "uint (n + 1) = uint n + 1" by (simp add: uint_word_ariths(1))
  then have "n + 1 \<le> 128" using \<open>uint n < 128\<close> by (simp add: word_le_def)
  moreover have "n + 1 \<le> b \<longleftrightarrow> n < b" for b unfolding word_le_def word_less_def u by linarith
  ultimately have g: "bit (ge (from_le bs) (n + 1)) i \<longleftrightarrow> i < 64 \<and> i mod 8 = 7 \<and> n < bs ! (i div 8)"
    using bit_ge [OF assms(1), of "n + 1" i] by blast
  have l: "bit (ge (from_le bs) n) i \<longleftrightarrow> i < 64 \<and> i mod 8 = 7 \<and> n \<le> bs ! (i div 8)"
    using bit_ge [OF assms(1), of n i] assms(2) by simp
  have "bit (ne (from_le bs) n) i \<longleftrightarrow> \<not> bit (ge (from_le bs) n) i \<and> i < 64 \<and> i mod 8 = 7 \<or> bit (ge (from_le bs) (n + 1)) i"
    by (simp add: ne_def bit_or_iff bit_and_iff bit_not_iff bit_HI) blast
  then show ?thesis unfolding l g using linorder_neq_iff [of "bs ! (i div 8)" n] by (auto simp: not_le)
qed

lemma marks_neither: "length bs = 8 \<Longrightarrow> marks (\<lambda>b. \<not> is_blank b) bs (neither (from_le bs))"
  using bit_ne [of bs 32] bit_ne [of bs 9] by (auto simp: marks_def neither_def is_blank_def bit_and_iff)

section \<open>The cheap equality\<close>

lemma xor_spread:
  assumes "length bs = 8"
  shows "from_le bs XOR LO * ucast n = spread (map (\<lambda>b. uint (b XOR n)) bs)"
proof (rule word_by_bytes)
  fix k j :: nat assume a: "k < 8" "j < 8"
  have "bit (LO * ucast n) (8 * k + j) \<longleftrightarrow> bit n j"
    unfolding ones_spread using bit_spread [of "replicate 8 (uint n)" k j] a uint_lt2p [of n] by (simp add: bit_uint_iff)
  moreover have "bit (spread (map (\<lambda>b. uint (b XOR n)) bs)) (8 * k + j) \<longleftrightarrow> bit (bs ! k XOR n) j"
    using bit_spread [of "map (\<lambda>b. uint (b XOR n)) bs" k j] bytes_range [of "map (\<lambda>b. b XOR n) bs"] a assms
    by (simp add: bit_uint_iff)
  ultimately show "bit (from_le bs XOR LO * ucast n) (8 * k + j) \<longleftrightarrow> bit (spread (map (\<lambda>b. uint (b XOR n)) bs)) (8 * k + j)"
    using bit_from_le [OF assms a] by (simp add: bit_xor_iff)
qed

lemma zero_top: "0 \<le> d \<Longrightarrow> d < 256 \<Longrightarrow> bit (d - 1) 7 \<and> \<not> bit d 7 \<longleftrightarrow> d = 0" for d :: int
proof (cases "d = 0")
  case False
  assume "0 \<le> d" "d < 256"
  then show ?thesis using False bit_7 [of d] bit_7 [of "d - 1"] by simp
qed (simp add: bit_minus_1_iff)

lemma xor_0_iff: "uint (b XOR n) = 0 \<longleftrightarrow> b = n" for b n :: "8 word"
  by (metis uint_0_iff word_xor_and_or xor_self_eq xor.left_neutral xor.assoc xor.commute)

lemma marks_equal:
  assumes "length bs = 8"
  shows "marks (\<lambda>b. b = n) bs (eq_or_just_above (from_le bs) n)"
proof -
  let ?xs = "map (\<lambda>b. uint (b XOR n)) bs"
  have l: "length ?xs = 8" using assms by simp
  have d: "spread ?xs - LO = spread (map (\<lambda>x. x - 1) ?xs)"
    unfolding LO_spread using digits_minus [of ?xs 1] l by (simp flip: of_int_diff)
  have e: "eq_or_just_above (from_le bs) n = spread (map (\<lambda>x. x - 1) ?xs) AND NOT (spread ?xs) AND HI"
    unfolding eq_or_just_above_def Let_def xor_spread [OF assms] d ..
  have r: "0 \<le> ?xs ! i \<and> ?xs ! i < 256" if "i < 8" for i
    using bytes_range [of "map (\<lambda>b. b XOR n) bs"] assms that by simp
  have "bit (eq_or_just_above (from_le bs) n) (8 * k + 7) \<longleftrightarrow> bs ! k = n" if k: "k < 8" "\<forall>j<k. bs ! j \<noteq> n" for k
  proof -
    have below: "0 \<le> map (\<lambda>x. x - 1) ?xs ! i \<and> map (\<lambda>x. x - 1) ?xs ! i < 256" if "i < k" for i
    proof -
      have "?xs ! i \<noteq> 0" using that k assms xor_0_iff [of "bs ! i" n] by simp
      then have "0 < ?xs ! i" using r [of i] that k by linarith
      then show ?thesis using r [of i] that k l by simp
    qed
    have "bit (spread (map (\<lambda>x. x - 1) ?xs)) (8 * k + 7) \<longleftrightarrow> bit (?xs ! k - 1) 7"
      using bit_digits [of k "map (\<lambda>x. x - 1) ?xs" 7, OF _ below] k(1) l by (simp add: bit_word_of_int_iff)
    moreover have "bit (spread ?xs) (8 * k + 7) \<longleftrightarrow> bit (?xs ! k) 7"
      using bit_digits [of k ?xs 7] r k(1) l by (simp add: bit_word_of_int_iff)
    ultimately show ?thesis
      using zero_top [of "?xs ! k"] r [OF k(1)] k(1) assms xor_0_iff [of "bs ! k" n]
      unfolding e by (simp add: bit_and_iff bit_not_iff bit_HI)
  qed
  moreover have "i mod 8 = 7" if "bit (eq_or_just_above (from_le bs) n) i" for i
    using that unfolding e by (simp add: bit_and_iff bit_HI)
  ultimately show ?thesis by (simp add: marks_def)
qed

text \<open>The masks of several bytes, one after the other: where none of them was met, neither is any of the others.\<close>

lemma marks_or: "marks P bs a \<Longrightarrow> marks Q bs b \<Longrightarrow> marks (\<lambda>x. P x \<or> Q x) bs (a OR b)"
  by (auto simp: marks_def bit_or_iff)

lemma marks_foldl:
  "length bs = 8 \<Longrightarrow> marks P bs m \<Longrightarrow>
    marks (\<lambda>x. P x \<or> x \<in> set ns) bs (foldl (\<lambda>found n. found OR eq_or_just_above (from_le bs) n) m ns)"
proof (induction ns arbitrary: P m)
  case (Cons n ns)
  then show ?case using Cons.IH [OF _ marks_or [OF Cons.prems(2) marks_equal [of bs n]]] by (simp add: disj_assoc)
qed simp

lemma marks_found: "length bs = 8 \<Longrightarrow> marks (\<lambda>x. x \<in> set some \<or> x \<in> set others) bs (found some others (from_le bs))"
  unfolding found_def using marks_foldl [of bs "\<lambda>x. False" 0 some] by (intro marks_foldl) (simp_all add: marks_def)

section \<open>The scanners\<close>

text \<open>What a scanner needs of its mask, and what a step of it then does.\<close>

locale scanner =
  fixes m :: "64 word \<Rightarrow> 64 word" and P :: "8 word \<Rightarrow> bool"
  assumes marks: "length bs = 8 \<Longrightarrow> marks P bs (m (from_le bs))"
begin

abbreviation run :: "8 word list \<Rightarrow> nat" where "run bs \<equiv> length (takeWhile (\<lambda>b. \<not> P b) bs)"

lemma run_append: "length xs = 8 \<Longrightarrow> run (xs @ ys) = (if run xs < 8 then run xs else 8 + run ys)"
proof (cases "\<forall>x\<in>set xs. \<not> P x")
  case True
  assume "length xs = 8"
  have "takeWhile (\<lambda>b. \<not> P b) xs = xs" by (subst takeWhile_eq_all_conv) (rule True)
  from arg_cong [OF this, of length] \<open>length xs = 8\<close> have "run xs = 8" by (rule trans)
  then show ?thesis using True \<open>length xs = 8\<close> by (simp add: takeWhile_append)
next
  case False
  assume "length xs = 8"
  moreover have "takeWhile (\<lambda>b. \<not> P b) (xs @ ys) = takeWhile (\<lambda>b. \<not> P b) xs" using False by (auto simp: takeWhile_append)
  ultimately show ?thesis using takeWhile_short [of xs "\<lambda>b. \<not> P b"] False by simp
qed

lemma step_found: "word_at bs i = Some w \<Longrightarrow> lowest (m w) = Some k \<Longrightarrow> k = run (drop i bs)"
  and step_none: "word_at bs i = Some w \<Longrightarrow> lowest (m w) = None \<Longrightarrow> run (drop i bs) = 8 + run (drop (i + 8) bs)"
proof -
  assume w: "word_at bs i = Some w"
  let ?c = "take 8 (drop i bs)"
  have c: "length ?c = 8" "w = from_le ?c" using w by (auto simp: word_at_def STEP_def split: if_splits)
  have "drop i bs = ?c @ drop (i + 8) bs" by (metis append_take_drop_id drop_drop add.commute)
  then have run: "run (drop i bs) = (if run ?c < 8 then run ?c else 8 + run (drop (i + 8) bs))"
    using run_append [OF c(1)] by metis
  have low: "lowest (m w) = (if run ?c < 8 then Some (run ?c) else None)"
    using lowest_marks [OF marks [OF c(1)] c(1)] c(2) by (simp add: Let_def)
  show "lowest (m w) = Some k \<Longrightarrow> k = run (drop i bs)" using run low by (simp split: if_splits)
  show "lowest (m w) = None \<Longrightarrow> run (drop i bs) = 8 + run (drop (i + 8) bs)" using run low by (simp split: if_splits)
qed

end

interpretation needles: scanner "found some others" "\<lambda>x. x \<in> set some \<or> x \<in> set others" for some others
  by unfold_locales (rule marks_found)

interpretation blanks: scanner neither "\<lambda>b. \<not> is_blank b"
  by unfold_locales (rule marks_neither)

lemma first_tail_run:
  "i \<le> length bs \<Longrightarrow> first_tail bs i some others = i + needles.run some others (drop i bs)"
proof (induction bs i some others rule: first_tail.induct)
  case (1 bs i some others)
  show ?case
  proof (cases "i < length bs")
    case True
    then have "drop i bs = bs ! i # drop (i + 1) bs" using Cons_nth_drop_Suc [of i bs] by simp
    then show ?thesis using 1 True unfolding first_tail.simps [of bs i] by simp
  next
    case False
    then show ?thesis using 1(2) unfolding first_tail.simps [of bs i] by simp
  qed
qed

lemma blank_tail_run: "blank_tail bs i = i + blanks.run (drop i bs)"
proof (induction bs i rule: blank_tail.induct)
  case (1 bs i)
  show ?case
  proof (cases "i < length bs")
    case True
    then have "drop i bs = bs ! i # drop (i + 1) bs" using Cons_nth_drop_Suc [of i bs] by simp
    then show ?thesis using 1 True unfolding blank_tail.simps [of bs i] by simp
  next
    case False
    then show ?thesis unfolding blank_tail.simps [of bs i] by simp
  qed
qed

text \<open>C39: The scan for blanks is the obvious loop: it skips exactly the spaces and tabs from the offset on, whatever the bytes
  around them and wherever the words of eight fall.\<close>

theorem run_of_blanks_exact:
  "run_of_blanks bytes at = at + length (takeWhile (\<lambda>b. b = 0x20 \<or> b = 0x09) (drop at bytes))"
proof (induction bytes at rule: run_of_blanks.induct)
  case (1 bytes i)
  show ?case
  proof (cases "word_at bytes i")
    case None
    then show ?thesis
      unfolding run_of_blanks.simps [of bytes i] using blank_tail_run [of bytes i] by (simp add: is_blank_def)
  next
    case (Some w)
    show ?thesis
    proof (cases "lowest (neither w)")
      case None
      then show ?thesis
        using Some 1 [OF Some None] blanks.step_none [OF Some None]
        unfolding run_of_blanks.simps [of bytes i] by (simp add: is_blank_def STEP_def)
    next
      case (Some k)
      then show ?thesis
        using \<open>word_at bytes i = Some w\<close> blanks.step_found [OF \<open>word_at bytes i = Some w\<close> Some]
        unfolding run_of_blanks.simps [of bytes i] by (simp add: is_blank_def)
    qed
  qed
qed

text \<open>C40: The scan for a set of bytes stops at the first of them, or at the end of the input: the false matches of the cheap test,
  which stand above a true one, are never the lowest.\<close>

theorem first_of_either_exact:
  assumes "at \<le> length bytes"
  shows "first_of_either bytes at some others =
    at + length (takeWhile (\<lambda>b. b \<notin> set some \<and> b \<notin> set others) (drop at bytes))"
  using assms
proof (induction bytes at some others rule: first_of_either.induct)
  case (1 bytes i some others)
  show ?case
  proof (cases "word_at bytes i")
    case None
    then show ?thesis
      unfolding first_of_either.simps [of bytes i] using first_tail_run [OF 1(2), of some others] by simp
  next
    case (Some w)
    then have "i + STEP \<le> length bytes" by (simp add: word_at_def split: if_splits)
    show ?thesis
    proof (cases "lowest (found some others w)")
      case None
      then show ?thesis
        using Some 1(1) [OF Some None] \<open>i + STEP \<le> length bytes\<close> needles.step_none [OF Some None]
        unfolding first_of_either.simps [of bytes i] by (simp add: STEP_def)
    next
      case (Some k)
      then show ?thesis
        using \<open>word_at bytes i = Some w\<close> needles.step_found [OF \<open>word_at bytes i = Some w\<close> Some]
        unfolding first_of_either.simps [of bytes i] by simp
    qed
  qed
qed

lemma first_of_either_exact_witness:
  "first_of_either [0x2b, 0x2a, 0x2b, 0x61, 0x61, 0x61, 0x61, 0x61, 0x61, 0x2a] 2 [0x2a] [0x0a] = 9"
  using first_of_either_exact [of 2 "[0x2b, 0x2a, 0x2b, 0x61, 0x61, 0x61, 0x61, 0x61, 0x61, 0x2a]" "[0x2a]" "[0x0a]"] by simp

end
